(* ===== verification/Prelude.thy ===== *)
theory Prelude
  imports Main "HOL-Library.List_Lexorder" "HOL-Library.AList" "HOL-Library.Multiset" "HOL-Library.Word"
begin

text \<open>
  The vocabulary every component shares.

  A Python \<open>str\<close> is the list of its code points (\<open>pystr\<close>), compared code point by
  code point as Python compares strings; \<open>bytes\<close> is a list of 8-bit words. A \<open>dict\<close> is
  an association list in insertion order whose keys are distinct: \<open>map_of\<close> is
  \<open>d.get(k)\<close>, \<open>AList.update k v d\<close> is \<open>d[k] = v\<close> (in place for a known key,
  appended for a new one), \<open>AList.delete k d\<close> is \<open>d.pop(k, None)\<close>.

  A fallible operation returns \<open>'e + 'a\<close>: \<open>Inl\<close> is the raised exception.
  \<open>bind_r\<close> sequences two of them, \<open>traverse\<close> runs one over a list and stops at the
  first that raises, as a comprehension does.
\<close>

section \<open>Types\<close>

type_synonym pystr = "nat list"
type_synonym byte = "8 word"
type_synonym bytes = "byte list"
type_synonym ('k, 'v) dict = "('k \<times> 'v) list"

named_theorems result_simps \<open>unfold the sequencing of fallible operations\<close>
named_theorems dict_simps \<open>lookups in updated dictionaries\<close>

section \<open>Literals\<close>

definition str_of :: "string \<Rightarrow> pystr" where
  "str_of s = map of_char s"

lemma str_of_simps [simp]:
  "str_of [] = []"
  "str_of (c # cs) = of_char c # str_of cs"
  by (simp_all add: str_of_def)

lemma str_of_scalar: "c \<in> set (str_of s) \<Longrightarrow> c < 256"
  by (auto simp: str_of_def)

section \<open>Results\<close>

definition bind_r :: "'err + 'a \<Rightarrow> ('a \<Rightarrow> 'err + 'b) \<Rightarrow> 'err + 'b" where
  "bind_r r next_step = case_sum Inl next_step r"

lemma bind_r_simps [simp]:
  "bind_r (Inl e) f = Inl e"
  "bind_r (Inr x) f = f x"
  by (simp_all add: bind_r_def)

lemma bind_r_cong [fundef_cong]:
  "r = r' \<Longrightarrow> (\<And>v. r' = Inr v \<Longrightarrow> f v = f' v) \<Longrightarrow> bind_r r f = bind_r r' f'"
  by (cases r') simp_all

lemma bind_r_Inr_iff [result_simps]:
  "(bind_r r f = Inr w) = (\<exists>v. r = Inr v \<and> f v = Inr w)"
  by (cases r) simp_all

lemma bind_r_Inl_iff [result_simps]:
  "bind_r m f = Inl e \<longleftrightarrow> m = Inl e \<or> (\<exists>x. m = Inr x \<and> f x = Inl e)"
  by (cases m) auto

lemma if_Inl_iff [result_simps]:
  "(if b then Inl e else m) = Inr y \<longleftrightarrow> \<not> b \<and> m = Inr y"
  "(if b then m else Inl e) = Inr y \<longleftrightarrow> b \<and> m = Inr y"
  by auto

lemma bind_r_assoc: "bind_r (bind_r m f) g = bind_r m (\<lambda>x. bind_r (f x) g)"
  by (cases m) auto

fun traverse :: "('a \<Rightarrow> 'e + 'b) \<Rightarrow> 'a list \<Rightarrow> 'e + 'b list" where
  "traverse f [] = Inr []"
| "traverse f (x # xs) = bind_r (f x) (\<lambda>y. bind_r (traverse f xs) (\<lambda>ys. Inr (y # ys)))"

lemma traverse_cong [fundef_cong]:
  "xs = ys \<Longrightarrow> (\<And>x. x \<in> set ys \<Longrightarrow> f x = g x) \<Longrightarrow> traverse f xs = traverse g ys"
  by (induction ys arbitrary: xs) auto

lemma traverse_Inr_iff:
  "traverse f xs = Inr ys \<longleftrightarrow> list_all2 (\<lambda>x y. f x = Inr y) xs ys"
  by (induction xs arbitrary: ys) (auto simp: result_simps list_all2_Cons1)

lemma traverse_Inr_map: "(\<And>x. x \<in> set xs \<Longrightarrow> f x = Inr (g x)) \<Longrightarrow> traverse f xs = Inr (map g xs)"
  by (induction xs) auto

lemma traverse_InrD: "traverse f xs = Inr ys \<Longrightarrow> x \<in> set xs \<Longrightarrow> \<exists>y \<in> set ys. f x = Inr y"
  by (induction xs arbitrary: ys) (auto simp: bind_r_Inr_iff)

lemma traverse_source: "traverse f xs = Inr ys \<Longrightarrow> y \<in> set ys \<Longrightarrow> \<exists>x \<in> set xs. f x = Inr y"
  by (induction xs arbitrary: ys) (auto simp: bind_r_Inr_iff)

lemma traverse_total: "(\<And>x. x \<in> set xs \<Longrightarrow> \<exists>y. f x = Inr y) \<Longrightarrow> \<exists>ys. traverse f xs = Inr ys"
  by (induction xs) (fastforce simp: bind_r_Inr_iff)+

lemma traverse_append:
  "traverse f (xs @ ys) = bind_r (traverse f xs) (\<lambda>as. bind_r (traverse f ys) (\<lambda>bs. Inr (as @ bs)))"
  by (induction xs) (auto simp: bind_r_def split: sum.splits)

lemma traverse_map: "traverse f (map g xs) = traverse (\<lambda>x. f (g x)) xs"
  by (induction xs) auto

lemma traverse_if:
  "(\<And>x. x \<in> set xs \<Longrightarrow> f x = (if P x then Inr (g x) else Inl e)) \<Longrightarrow>
     traverse f xs = (if \<forall>x \<in> set xs. P x then Inr (map g xs) else Inl e)"
  by (induction xs) auto

lemma traverse_ex_Inl:
  "traverse f xs = Inl e \<Longrightarrow> \<exists>x \<in> set xs. f x = Inl e"
  by (induction xs) (auto simp: result_simps)

definition ensure_r :: "bool \<Rightarrow> 'e \<Rightarrow> 'e + unit" where
  "ensure_r b e = (if b then Inr () else Inl e)"

lemma ensure_r_iff [simp]:
  "ensure_r b e = Inr u \<longleftrightarrow> b"
  "ensure_r b e = Inl e' \<longleftrightarrow> \<not> b \<and> e' = e"
  by (auto simp: ensure_r_def)

lemma ensure_r_if [simp]: "bind_r (ensure_r b e) f = (if b then f () else Inl e)"
  by (simp add: ensure_r_def)

section \<open>Dictionaries\<close>

lemma map_of_update [simp]: "map_of (AList.update k v d) = (map_of d)(k \<mapsto> v)"
  by (rule AList.update_conv')

lemma map_of_map_prod_id: "map_of (map (map_prod id f) d) k = map_option f (map_of d k)"
  by (induction d) auto

lemma map_of_delete [simp]: "map_of (AList.delete k d) = (map_of d)(k := None)"
  by (rule AList.delete_conv')

lemma distinct_keys_update [simp, intro]:
  "distinct (map fst d) \<Longrightarrow> distinct (map fst (AList.update k v d))"
  by (rule AList.distinct_update)

lemma distinct_keys_delete [simp, intro]:
  "distinct (map fst d) \<Longrightarrow> distinct (map fst (AList.delete k d))"
  by (rule AList.distinct_delete)

lemma update_new_key: "k \<notin> fst ` set d \<Longrightarrow> AList.update k v d = d @ [(k, v)]"
  by (induction d) auto

text \<open>\<open>{k: f(v) for k, v in d.items()}\<close>, where \<open>f\<close> may raise.\<close>

definition dict_comp :: "('v \<Rightarrow> 'e + 'w) \<Rightarrow> ('k, 'v) dict \<Rightarrow> 'e + ('k, 'w) dict" where
  "dict_comp f d = traverse (\<lambda>(k, v). bind_r (f v) (\<lambda>w. Inr (k, w))) d"

lemma dict_comp_cong [fundef_cong]:
  "d = e \<Longrightarrow> (\<And>k v. (k, v) \<in> set e \<Longrightarrow> f v = g v) \<Longrightarrow> dict_comp f d = dict_comp g e"
  unfolding dict_comp_def by (rule traverse_cong) auto

lemma dict_comp_Inr_map:
  "(\<And>k v. (k, v) \<in> set d \<Longrightarrow> f v = Inr (g v)) \<Longrightarrow> dict_comp f d = Inr (map (map_prod id g) d)"
  unfolding dict_comp_def by (rule traverse_Inr_map) auto

lemma dict_comp_if:
  "(\<And>k v. (k, v) \<in> set d \<Longrightarrow> f v = (if P v then Inr (g v) else Inl e)) \<Longrightarrow>
     dict_comp f d = (if \<forall>(k, v) \<in> set d. P v then Inr (map (map_prod id g) d) else Inl e)"
  unfolding dict_comp_def by (induction d) fastforce+

lemma dict_comp_total:
  "(\<And>k v. (k, v) \<in> set d \<Longrightarrow> \<exists>w. f v = Inr w) \<Longrightarrow> \<exists>e. dict_comp f d = Inr e"
  unfolding dict_comp_def by (rule traverse_total) (fastforce simp: bind_r_Inr_iff)

lemma dict_comp_InlD: "dict_comp f d = Inl e \<Longrightarrow> \<exists>(k, v) \<in> set d. f v = Inl e"
  unfolding dict_comp_def by (fastforce simp: bind_r_Inl_iff dest!: traverse_ex_Inl)

lemma dict_comp_Inr_iff:
  "dict_comp f d = Inr e \<longleftrightarrow> list_all2 (\<lambda>(k, v) (k', w). k' = k \<and> f v = Inr w) d e"
  unfolding dict_comp_def traverse_Inr_iff
  by (intro arg_cong [where f = "\<lambda>P. list_all2 P d e"] ext) (auto simp: bind_r_Inr_iff)

lemma dict_comp_keys: "dict_comp f d = Inr e \<Longrightarrow> map fst e = map fst d"
  unfolding dict_comp_Inr_iff by (induction rule: list_all2_induct) auto

text \<open>\<open>d.setdefault(k, v)\<close>: the value under \<open>k\<close> afterwards, and the dictionary.\<close>

definition dict_setdefault :: "'k \<Rightarrow> 'v \<Rightarrow> ('k, 'v) dict \<Rightarrow> 'v \<times> ('k, 'v) dict" where
  "dict_setdefault k v d = (case map_of d k of Some w \<Rightarrow> (w, d) | None \<Rightarrow> (v, AList.update k v d))"

section \<open>Sorting by key\<close>

text \<open>
  Python's \<open>sorted(d.items())\<close> on a dictionary with string keys orders by key, since no
  two keys tie.
\<close>

definition sort_items :: "('k :: linorder, 'v) dict \<Rightarrow> ('k, 'v) dict" where
  "sort_items d = sort_key fst d"

lemma set_sort_items [simp]: "set (sort_items d) = set d"
  by (simp add: sort_items_def)

lemma mset_sort_items [simp]: "mset (sort_items d) = mset d"
  by (simp add: sort_items_def)

lemma length_sort_items [simp]: "length (sort_items d) = length d"
  by (simp add: sort_items_def)

lemma sort_items_Nil_iff [simp]: "sort_items d = [] \<longleftrightarrow> d = []"
  by (metis length_0_conv length_sort_items)

lemma distinct_sort_items [simp]: "distinct (map fst (sort_items d)) = distinct (map fst d)"
proof -
  have "mset (map fst (sort_items d)) = mset (map fst d)" by simp
  then show ?thesis by (metis mset_eq_imp_distinct_iff mset_map)
qed

lemma sorted_sort_items [simp]: "sorted (map fst (sort_items d))"
  by (simp add: sort_items_def)

lemma map_of_sort_items: "distinct (map fst d) \<Longrightarrow> map_of (sort_items d) = map_of d"
  by (intro map_of_inject_set [THEN iffD2]) auto

text \<open>A sorted dictionary is determined by its lookups.\<close>

lemma sort_items_unique:
  assumes "distinct (map fst d)" "distinct (map fst e)" "map_of d = map_of e"
  shows "sort_items d = sort_items e"
proof (rule map_sorted_distinct_set_unique [where f = fst])
  from assms have "set d = set e" by (metis map_of_inject_set)
  then show "set (sort_items d) = set (sort_items e)" by simp
  show "inj_on fst (set (sort_items d) \<union> set (sort_items e))"
    using assms \<open>set d = set e\<close> by (simp add: distinct_map)
qed (use assms in simp_all)

lemma sort_items_idem [simp]: "sort_items (sort_items d) = sort_items d"
  by (simp add: sort_items_def sorted_sort_id sort_key_id_if_sorted)

section \<open>Prefixes in the order of strings\<close>

lemma prefix_le: "xs \<le> xs @ (ys :: 'a :: linorder list)"
  by (induction xs) auto

lemma strict_prefix_less: "ys \<noteq> [] \<Longrightarrow> xs < xs @ (ys :: 'a :: linorder list)"
  by (induction xs) (auto simp: neq_Nil_conv)

lemma append_less_cancel [simp]: "xs @ ys < xs @ (zs :: 'a :: linorder list) \<longleftrightarrow> ys < zs"
  by (induction xs) auto

lemma append_le_cancel [simp]: "xs @ ys \<le> xs @ (zs :: 'a :: linorder list) \<longleftrightarrow> ys \<le> zs"
  by (induction xs) auto

end
