(* ===== verification/Exceptions.thy ===== *)
theory Exceptions
  imports Prelude
begin

text \<open>
  The exceptions of the program (\<open>exceptions.py\<close>) and the built-in ones its code raises or
  catches, without their messages. \<open>DomainVersionMismatchError\<close> keeps the fields a caller
  routes on. The class hierarchy is a function to the list of a class and its bases, so an
  \<open>except C\<close> clause is the test \<open>is_instance e C\<close>.
\<close>

section \<open>Exceptions\<close>

datatype exn =
    TypeHintResolutionError
  | MissingTypeHintError
  | ContextNotSetError
  | NoCurrentExecutionError
  | SerializationError
  | ArgumentCanonicalizationError
  | InvalidExecutionError
  | StoreFormatVersionError
  | DomainVersionMismatchError (mismatch_domain: pystr) (recorded_version: pystr) (current_version: pystr)
  | MigrationError
  | MigrationCollisionError
  | MigrationOrdinalAmbiguityError
  | ValueError
  | UnicodeEncodeError
  | UnicodeDecodeError
  | JSONDecodeError
  | TypeError
  | KeyError
  | IndexError
  | LookupError
  | AttributeError
  | PermissionError
  | RuntimeError
  | AssertionError
  | IntegrityError
  | CancelledError
  | AppError nat

text \<open>
  The classes an \<open>except\<close> clause of the program names. \<open>AppError\<close> stands for an exception
  class of the application, \<open>CancelledError\<close> for the one asyncio throws into a cancelled
  task: it derives from \<open>BaseException\<close> only, so \<open>except Exception\<close> lets it pass.
\<close>

datatype exn_class =
    C_BaseException | C_Exception | C_GlyffException | C_GlyffError
  | C_ValueError | C_LookupError | C_UnicodeDecodeError | C_JSONDecodeError | C_TypeError
  | C_SerializationError | C_ArgumentCanonicalizationError | C_InvalidExecutionError
  | C_MigrationError

fun exn_bases :: "exn \<Rightarrow> exn_class list" where
  "exn_bases SerializationError =
     [C_SerializationError, C_GlyffError, C_GlyffException, C_Exception, C_BaseException]"
| "exn_bases ArgumentCanonicalizationError =
     [C_ArgumentCanonicalizationError, C_GlyffError, C_GlyffException, C_Exception, C_BaseException]"
| "exn_bases InvalidExecutionError =
     [C_InvalidExecutionError, C_GlyffError, C_GlyffException, C_Exception, C_BaseException]"
| "exn_bases MigrationError =
     [C_MigrationError, C_GlyffError, C_GlyffException, C_Exception, C_BaseException]"
| "exn_bases MigrationCollisionError =
     [C_MigrationError, C_GlyffError, C_GlyffException, C_Exception, C_BaseException]"
| "exn_bases MigrationOrdinalAmbiguityError =
     [C_MigrationError, C_GlyffError, C_GlyffException, C_Exception, C_BaseException]"
| "exn_bases TypeHintResolutionError = [C_GlyffError, C_GlyffException, C_Exception, C_BaseException]"
| "exn_bases MissingTypeHintError = [C_GlyffError, C_GlyffException, C_Exception, C_BaseException]"
| "exn_bases ContextNotSetError = [C_GlyffError, C_GlyffException, C_Exception, C_BaseException]"
| "exn_bases NoCurrentExecutionError = [C_GlyffError, C_GlyffException, C_Exception, C_BaseException]"
| "exn_bases StoreFormatVersionError = [C_GlyffError, C_GlyffException, C_Exception, C_BaseException]"
| "exn_bases (DomainVersionMismatchError _ _ _) =
     [C_GlyffError, C_GlyffException, C_Exception, C_BaseException]"
| "exn_bases ValueError = [C_ValueError, C_Exception, C_BaseException]"
| "exn_bases UnicodeEncodeError = [C_ValueError, C_Exception, C_BaseException]"
| "exn_bases UnicodeDecodeError = [C_UnicodeDecodeError, C_ValueError, C_Exception, C_BaseException]"
| "exn_bases JSONDecodeError = [C_JSONDecodeError, C_ValueError, C_Exception, C_BaseException]"
| "exn_bases TypeError = [C_TypeError, C_Exception, C_BaseException]"
| "exn_bases KeyError = [C_LookupError, C_Exception, C_BaseException]"
| "exn_bases IndexError = [C_LookupError, C_Exception, C_BaseException]"
| "exn_bases LookupError = [C_LookupError, C_Exception, C_BaseException]"
| "exn_bases AttributeError = [C_Exception, C_BaseException]"
| "exn_bases PermissionError = [C_Exception, C_BaseException]"
| "exn_bases RuntimeError = [C_Exception, C_BaseException]"
| "exn_bases AssertionError = [C_Exception, C_BaseException]"
| "exn_bases IntegrityError = [C_Exception, C_BaseException]"
| "exn_bases CancelledError = [C_BaseException]"
| "exn_bases (AppError _) = [C_Exception, C_BaseException]"

definition is_instance :: "exn \<Rightarrow> exn_class \<Rightarrow> bool" where
  "is_instance e c \<longleftrightarrow> c \<in> set (exn_bases e)"

text \<open>\<open>try: m except c: raise e'\<close>, and any other exception passes.\<close>

definition except_r :: "exn + 'a \<Rightarrow> exn_class \<Rightarrow> exn \<Rightarrow> exn + 'a" where
  "except_r m c e' = (case m of Inl e \<Rightarrow> (if is_instance e c then Inl e' else Inl e) | Inr x \<Rightarrow> Inr x)"

lemma except_r_simps [simp]:
  "except_r (Inr x) c e' = Inr x"
  "except_r (Inl e) c e' = (if is_instance e c then Inl e' else Inl e)"
  by (simp_all add: except_r_def)

lemma except_r_Inr_iff [simp, result_simps]: "except_r m c e' = Inr x \<longleftrightarrow> m = Inr x"
  by (cases m) auto

lemma is_instance_value_error [simp]:
  "is_instance ValueError C_ValueError"
  "is_instance UnicodeEncodeError C_ValueError"
  "is_instance UnicodeDecodeError C_ValueError"
  "is_instance JSONDecodeError C_ValueError"
  by (simp_all add: is_instance_def)

lemma is_instance_own [simp]:
  "is_instance MigrationError C_MigrationError"
  "is_instance MigrationCollisionError C_MigrationError"
  "is_instance MigrationOrdinalAmbiguityError C_MigrationError"
  "is_instance InvalidExecutionError C_InvalidExecutionError"
  "is_instance ArgumentCanonicalizationError C_ArgumentCanonicalizationError"
  "is_instance SerializationError C_SerializationError"
  "is_instance JSONDecodeError C_JSONDecodeError"
  "is_instance UnicodeDecodeError C_UnicodeDecodeError"
  by (simp_all add: is_instance_def)

lemma is_instance_Exception: "is_instance e C_Exception \<longleftrightarrow> e \<noteq> CancelledError"
  by (cases e) (simp_all add: is_instance_def)

end
