(* ===== verification/Text.thy ===== *)
theory Text
  imports Exceptions
begin

text \<open>
  The text operations of the Python standard library the program uses, as executable
  definitions: UTF-8 encoding and decoding (\<open>str.encode\<close>, \<open>bytes.decode\<close> with the error
  handlers \<open>strict\<close>, \<open>replace\<close> and \<open>surrogatepass\<close>), percent-encoding
  (\<open>urllib.parse.quote\<close> with \<open>safe=''''\<close>, \<open>urllib.parse.unquote\<close>), decimal integers
  (\<open>str(n)\<close>, \<open>int(s)\<close>), \<open>str.partition\<close>, \<open>str.split\<close> and \<open>str.join\<close> on one separator.

  The lemmas are the round trips the components need: a scalar string encodes, and both
  decoders give it back.
\<close>

section \<open>Code points\<close>

definition is_surrogate :: "nat \<Rightarrow> bool" where
  "is_surrogate c \<longleftrightarrow> 0xD800 \<le> c \<and> c \<le> 0xDFFF"

definition is_scalar :: "nat \<Rightarrow> bool" where
  "is_scalar c \<longleftrightarrow> c \<le> 0x10FFFF \<and> \<not> is_surrogate c"

abbreviation scalar_str :: "pystr \<Rightarrow> bool" where
  "scalar_str s \<equiv> list_all is_scalar s"

lemma is_scalar_small [simp]: "c < 0xD800 \<Longrightarrow> is_scalar c"
  by (simp add: is_scalar_def is_surrogate_def)

section \<open>UTF-8\<close>

fun utf8_cp :: "nat \<Rightarrow> nat list" where
  "utf8_cp c =
     (if c < 0x80 then [c]
      else if c < 0x800 then [0xC0 + c div 64, 0x80 + c mod 64]
      else if c < 0x10000 then [0xE0 + c div 4096, 0x80 + c div 64 mod 64, 0x80 + c mod 64]
      else [0xF0 + c div 262144, 0x80 + c div 4096 mod 64, 0x80 + c div 64 mod 64, 0x80 + c mod 64])"

declare utf8_cp.simps [simp del]

definition utf8_encode :: "pystr \<Rightarrow> exn + bytes" where
  "utf8_encode s =
     (if scalar_str s then Inr (concat (map (\<lambda>c. map of_nat (utf8_cp c)) s)) else Inl UnicodeEncodeError)"

definition is_cont :: "nat \<Rightarrow> bool" where
  "is_cont b \<longleftrightarrow> 0x80 \<le> b \<and> b \<le> 0xBF"

text \<open>
  One decoding step: the lead byte \<open>b\<close> and what follows. \<open>None\<close> is an ill-formed sequence,
  of which the decoder has consumed the longest well-formed beginning, as CPython does.
  With \<open>surr\<close> the three-byte form of a surrogate is taken (\<open>surrogatepass\<close>).
\<close>

definition utf8_step :: "bool \<Rightarrow> nat \<Rightarrow> nat list \<Rightarrow> nat option \<times> nat list" where
  "utf8_step surr b bs =
     (if b < 0x80 then (Some b, bs)
      else if 0xC2 \<le> b \<and> b \<le> 0xDF then
        (case bs of
           c1 # r1 \<Rightarrow> if is_cont c1 then (Some ((b - 0xC0) * 64 + (c1 - 0x80)), r1) else (None, bs)
         | [] \<Rightarrow> (None, []))
      else if 0xE0 \<le> b \<and> b \<le> 0xEF then
        (case bs of
           c1 # r1 \<Rightarrow>
             if (if b = 0xE0 then 0xA0 else 0x80) \<le> c1 \<and>
                c1 \<le> (if b = 0xED \<and> \<not> surr then 0x9F else 0xBF)
             then (case r1 of
                     c2 # r2 \<Rightarrow>
                       if is_cont c2
                       then (Some ((b - 0xE0) * 4096 + (c1 - 0x80) * 64 + (c2 - 0x80)), r2)
                       else (None, r1)
                   | [] \<Rightarrow> (None, []))
             else (None, bs)
         | [] \<Rightarrow> (None, []))
      else if 0xF0 \<le> b \<and> b \<le> 0xF4 then
        (case bs of
           c1 # r1 \<Rightarrow>
             if (if b = 0xF0 then 0x90 else 0x80) \<le> c1 \<and> c1 \<le> (if b = 0xF4 then 0x8F else 0xBF)
             then (case r1 of
                     c2 # r2 \<Rightarrow>
                       if is_cont c2
                       then (case r2 of
                               c3 # r3 \<Rightarrow>
                                 if is_cont c3
                                 then (Some ((b - 0xF0) * 262144 + (c1 - 0x80) * 4096
                                             + (c2 - 0x80) * 64 + (c3 - 0x80)), r3)
                                 else (None, r2)
                             | [] \<Rightarrow> (None, []))
                       else (None, r1)
                   | [] \<Rightarrow> (None, []))
             else (None, bs)
         | [] \<Rightarrow> (None, []))
      else (None, bs))"

lemma utf8_step_length: "length (snd (utf8_step surr b bs)) \<le> length bs"
  by (auto simp: utf8_step_def split: list.splits)

function utf8_decode_list :: "bool \<Rightarrow> nat option \<Rightarrow> nat list \<Rightarrow> pystr option" where
  "utf8_decode_list surr subst [] = Some []"
| "utf8_decode_list surr subst (b # bs) =
     (case fst (utf8_step surr b bs) of
        Some c \<Rightarrow> map_option ((#) c) (utf8_decode_list surr subst (snd (utf8_step surr b bs)))
      | None \<Rightarrow>
          (case subst of
             None \<Rightarrow> None
           | Some r \<Rightarrow> map_option ((#) r) (utf8_decode_list surr subst (snd (utf8_step surr b bs)))))"
  by pat_completeness auto
termination
  by (relation "measure (\<lambda>(surr, subst, bs). length bs)")
     (auto simp: utf8_step_length less_Suc_eq_le)

definition utf8_decode :: "bytes \<Rightarrow> exn + pystr" where
  "utf8_decode bs =
     (case utf8_decode_list False None (map unat bs) of
        None \<Rightarrow> Inl UnicodeDecodeError | Some s \<Rightarrow> Inr s)"

definition utf8_decode_replace :: "bytes \<Rightarrow> pystr" where
  "utf8_decode_replace bs = the (utf8_decode_list False (Some 0xFFFD) (map unat bs))"

definition utf8_decode_surrogatepass :: "bytes \<Rightarrow> exn + pystr" where
  "utf8_decode_surrogatepass bs =
     (case utf8_decode_list True None (map unat bs) of
        None \<Rightarrow> Inl UnicodeDecodeError | Some s \<Rightarrow> Inr s)"

lemma utf8_decode_list_subst: "\<exists>s. utf8_decode_list surr (Some r) bs = Some s"
  by (induction surr "Some r" bs rule: utf8_decode_list.induct) (auto split: option.splits)

subsection \<open>Round trip\<close>

lemma utf8_cp_bytes: "c \<le> 0x10FFFF \<Longrightarrow> b \<in> set (utf8_cp c) \<Longrightarrow> b < 256"
  by (auto simp: utf8_cp.simps split: if_splits)

lemma map_unat_utf8_cp: "c \<le> 0x10FFFF \<Longrightarrow> map unat (map of_nat (utf8_cp c) :: bytes) = utf8_cp c"
  by (auto simp: unat_of_nat intro!: map_idI dest: utf8_cp_bytes)

lemma utf8_cp_nonempty: "utf8_cp c \<noteq> []"
  by (simp add: utf8_cp.simps)

lemma div_mod_64: "(c :: nat) div 64 * 64 + c mod 64 = c"
  by simp

lemma div_64_nested:
  "(c :: nat) div 4096 = c div 64 div 64"
  "(c :: nat) div 262144 = c div 64 div 64 div 64"
  by (simp_all add: div_mult2_eq [symmetric])

lemma utf8_recompose3: "(c :: nat) div 4096 * 4096 + c div 64 mod 64 * 64 + c mod 64 = c"
  unfolding div_64_nested
  using div_mult_mod_eq [of c 64] div_mult_mod_eq [of "c div 64" 64] by linarith

lemma utf8_recompose4:
  "(c :: nat) div 262144 * 262144 + c div 4096 mod 64 * 4096 + c div 64 mod 64 * 64 + c mod 64 = c"
  unfolding div_64_nested
  using div_mult_mod_eq [of c 64] div_mult_mod_eq [of "c div 64" 64]
    div_mult_mod_eq [of "c div 64 div 64" 64] by linarith

lemma mod_64_le [simp]: "(c :: nat) mod 64 \<le> 63"
  using mod_less_divisor [of 64 c] by linarith

lemma utf8_step_cp:
  assumes "is_scalar c"
  shows "utf8_step surr (hd (utf8_cp c)) (tl (utf8_cp c) @ r) = (Some c, r)"
proof -
  have hi: "c \<le> 0x10FFFF" and ns: "\<not> (0xD800 \<le> c \<and> c \<le> 0xDFFF)"
    using assms by (auto simp: is_scalar_def is_surrogate_def)
  consider "c < 0x80" | "0x80 \<le> c" "c < 0x800" | "0x800 \<le> c" "c < 0x10000" | "0x10000 \<le> c"
    by linarith
  then show ?thesis
  proof cases
    case 1
    then show ?thesis by (simp add: utf8_cp.simps utf8_step_def)
  next
    case 2
    then have "2 \<le> c div 64" "c div 64 < 32" by auto
    with 2 show ?thesis
      by (simp add: utf8_cp.simps utf8_step_def is_cont_def less_Suc_eq_le [symmetric] div_mod_64)
  next
    case 3
    have d: "c div 4096 \<le> 15" using 3 by auto
    have m: "c div 64 mod 64 < 64" "c mod 64 < 64" by simp_all
    have z: "c div 4096 = 0 \<Longrightarrow> 0x20 \<le> c div 64 mod 64"
      using 3 by (simp add: div_64_nested)
    have s: "c div 4096 = 13 \<Longrightarrow> c div 64 mod 64 \<le> 0x1F"
      using ns utf8_recompose3 [of c] 3 by linarith
    show ?thesis
      using 3 d m z s utf8_recompose3 [of c]
      by (auto simp: utf8_cp.simps utf8_step_def is_cont_def)
  next
    case 4
    have d: "c div 262144 \<le> 4" using hi by linarith
    have m: "c div 4096 mod 64 < 64" "c div 64 mod 64 < 64" "c mod 64 < 64" by simp_all
    have z: "c div 262144 = 0 \<Longrightarrow> 0x10 \<le> c div 4096 mod 64"
      using 4 utf8_recompose4 [of c] m by linarith
    have s: "c div 262144 = 4 \<Longrightarrow> c div 4096 mod 64 \<le> 0xF"
      using hi utf8_recompose4 [of c] m by linarith
    show ?thesis
      using 4 d m z s utf8_recompose4 [of c]
      by (auto simp: utf8_cp.simps utf8_step_def is_cont_def)
  qed
qed

lemma utf8_decode_list_cp:
  assumes "is_scalar c"
  shows "utf8_decode_list surr subst (utf8_cp c @ r) = map_option ((#) c) (utf8_decode_list surr subst r)"
proof -
  have "utf8_cp c = hd (utf8_cp c) # tl (utf8_cp c)"
    using utf8_cp_nonempty by simp
  then have "utf8_cp c @ r = hd (utf8_cp c) # (tl (utf8_cp c) @ r)"
    by (metis append_Cons)
  then show ?thesis
    by (simp only: utf8_decode_list.simps utf8_step_cp [OF assms]) simp
qed

lemma utf8_decode_list_encoded:
  "scalar_str s \<Longrightarrow>
   utf8_decode_list surr subst (concat (map utf8_cp s) @ r)
     = map_option ((@) s) (utf8_decode_list surr subst r)"
  by (cases "utf8_decode_list surr subst r"; induction s) (simp_all add: utf8_decode_list_cp)

lemma map_unat_utf8_encode:
  assumes "utf8_encode s = Inr bs"
  shows "map unat bs = concat (map utf8_cp s)"
proof -
  from assms have "scalar_str s" and bs: "bs = concat (map (\<lambda>c. map of_nat (utf8_cp c)) s)"
    by (auto simp: utf8_encode_def split: if_splits)
  then show ?thesis
    unfolding map_concat bs
    by (auto simp: list_all_iff is_scalar_def map_unat_utf8_cp [simplified]
        intro!: arg_cong [of _ _ concat])
qed

lemma utf8_encode_scalar: "utf8_encode s = Inr bs \<Longrightarrow> scalar_str s"
  by (auto simp: utf8_encode_def split: if_splits)

lemma utf8_encode_total: "scalar_str s \<Longrightarrow> \<exists>bs. utf8_encode s = Inr bs"
  by (simp add: utf8_encode_def)

lemma utf8_roundtrip_list:
  "utf8_encode s = Inr bs \<Longrightarrow> utf8_decode_list surr subst (map unat bs) = Some s"
  using utf8_decode_list_encoded [of s surr subst "[]"]
  by (auto simp: map_unat_utf8_encode dest: utf8_encode_scalar)

lemma utf8_decode_encode: "utf8_encode s = Inr bs \<Longrightarrow> utf8_decode bs = Inr s"
  by (simp add: utf8_decode_def utf8_roundtrip_list)

lemma utf8_decode_replace_encode: "utf8_encode s = Inr bs \<Longrightarrow> utf8_decode_replace bs = s"
  by (simp add: utf8_decode_replace_def utf8_roundtrip_list)

lemma utf8_decode_surrogatepass_encode:
  "utf8_encode s = Inr bs \<Longrightarrow> utf8_decode_surrogatepass bs = Inr s"
  by (simp add: utf8_decode_surrogatepass_def utf8_roundtrip_list)

lemma utf8_encode_inj: "utf8_encode s = Inr bs \<Longrightarrow> utf8_encode t = Inr bs \<Longrightarrow> s = t"
  by (metis utf8_decode_encode sum.inject(2))

section \<open>Percent-encoding\<close>

text \<open>
  \<open>quote\<close> with an empty \<open>safe\<close> leaves \<open>_ALWAYS_SAFE\<close> as it is and writes every other
  byte \<open>%XX\<close>.
\<close>

definition is_unreserved :: "nat \<Rightarrow> bool" where
  "is_unreserved b \<longleftrightarrow>
     (65 \<le> b \<and> b \<le> 90) \<or> (97 \<le> b \<and> b \<le> 122) \<or> (48 \<le> b \<and> b \<le> 57) \<or> b \<in> {95, 46, 45, 126}"

definition upper_hex :: "nat \<Rightarrow> nat" where
  "upper_hex n = (if n < 10 then 48 + n else 55 + n)"

definition quote_byte :: "byte \<Rightarrow> pystr" where
  "quote_byte b =
     (if is_unreserved (unat b) then [unat b]
      else [37, upper_hex (unat b div 16), upper_hex (unat b mod 16)])"

definition quote :: "pystr \<Rightarrow> exn + pystr" where
  "quote s = bind_r (utf8_encode s) (\<lambda>bs. Inr (concat (map quote_byte bs)))"

definition hex_value :: "nat \<Rightarrow> nat option" where
  "hex_value c =
     (if 48 \<le> c \<and> c \<le> 57 then Some (c - 48)
      else if 65 \<le> c \<and> c \<le> 70 then Some (c - 55)
      else if 97 \<le> c \<and> c \<le> 102 then Some (c - 87)
      else None)"

fun unquote_run :: "pystr \<Rightarrow> bytes" where
  "unquote_run [] = []"
| "unquote_run (c # cs) =
     (if c = 37 then
        (case cs of
           h1 # h2 # r \<Rightarrow>
             (case (hex_value h1, hex_value h2) of
                (Some a, Some b) \<Rightarrow> of_nat (16 * a + b) # unquote_run r
              | _ \<Rightarrow> 37 # unquote_run cs)
         | _ \<Rightarrow> 37 # unquote_run cs)
      else of_nat c # unquote_run cs)"

function unquote_parts :: "pystr \<Rightarrow> pystr" where
  "unquote_parts s =
     (if s = [] then []
      else if hd s < 128 then
        utf8_decode_replace (unquote_run (takeWhile (\<lambda>c. c < 128) s))
          @ unquote_parts (dropWhile (\<lambda>c. c < 128) s)
      else hd s # unquote_parts (tl s))"
  by pat_completeness auto
termination
proof (relation "measure length", goal_cases)
  case (2 s)
  then show ?case
    by (cases s) (auto simp: less_Suc_eq_le intro: length_dropWhile_le)
qed (auto simp: neq_Nil_conv)

declare unquote_parts.simps [simp del]

definition unquote :: "pystr \<Rightarrow> pystr" where
  "unquote s = (if 37 \<notin> set s then s else unquote_parts s)"

subsection \<open>Round trip\<close>

lemma hex_value_upper_hex [simp]: "n < 16 \<Longrightarrow> hex_value (upper_hex n) = Some n"
  by (auto simp: hex_value_def upper_hex_def)

lemma unat_byte_less [simp]: "unat (b :: byte) < 256"
  using unsigned_less [of b, where ?'a = nat] by simp

lemma unat_byte_div_16 [simp]: "unat (b :: byte) div 16 < 16"
  using unat_byte_less [of b] by linarith

lemma is_unreserved_ascii: "is_unreserved c \<Longrightarrow> c < 128 \<and> c \<noteq> 37"
  by (auto simp: is_unreserved_def)

lemma upper_hex_ascii: "n < 16 \<Longrightarrow> is_unreserved (upper_hex n)"
  by (auto simp: is_unreserved_def upper_hex_def)

lemma unquote_run_quote_byte: "unquote_run (quote_byte b @ r) = b # unquote_run r"
proof (cases "is_unreserved (unat b)")
  case True
  then show ?thesis by (auto simp: quote_byte_def dest: is_unreserved_ascii)
next
  case False
  have "16 * (unat b div 16) + unat b mod 16 = unat b" by simp
  then show ?thesis using False by (simp add: quote_byte_def del: of_nat_add of_nat_mult)
qed

lemma unquote_run_quote: "unquote_run (concat (map quote_byte bs)) = bs"
  by (induction bs) (auto simp: unquote_run_quote_byte)

lemma quote_byte_chars: "c \<in> set (quote_byte b) \<Longrightarrow> is_unreserved c \<or> c = 37"
  by (auto simp: quote_byte_def upper_hex_ascii split: if_splits)

lemma quote_chars: "quote s = Inr e \<Longrightarrow> c \<in> set e \<Longrightarrow> is_unreserved c \<or> c = 37"
  by (auto simp: quote_def result_simps dest: quote_byte_chars)

lemma quote_ascii: "quote s = Inr e \<Longrightarrow> c \<in> set e \<Longrightarrow> c < 128"
  by (auto dest!: quote_chars is_unreserved_ascii)

lemma unquote_run_plain: "\<forall>c \<in> set s. c < 128 \<and> c \<noteq> 37 \<Longrightarrow> unquote_run s = map of_nat s"
  by (induction s) auto

lemma ascii_utf8: "\<forall>c \<in> set s. c < 128 \<Longrightarrow> utf8_encode s = Inr (map of_nat s)"
proof -
  assume a: "\<forall>c \<in> set s. c < 128"
  then have "scalar_str s" by (auto simp: list_all_iff)
  moreover have "concat (map (\<lambda>c. map of_nat (utf8_cp c)) s) = (map of_nat s :: bytes)"
    using a by (induction s) (auto simp: utf8_cp.simps)
  ultimately show ?thesis by (simp add: utf8_encode_def)
qed

lemma unquote_ascii:
  assumes "\<forall>c \<in> set s. c < 128"
  shows "unquote s = utf8_decode_replace (unquote_run s)"
proof (cases "37 \<in> set s")
  case True
  then have "s \<noteq> []" by auto
  moreover have runs: "takeWhile (\<lambda>c. c < 128) s = s" "dropWhile (\<lambda>c. c < 128) s = []"
    using assms by (auto simp: takeWhile_eq_all_conv dropWhile_eq_Nil_conv)
  moreover have "hd s < 128" using assms \<open>s \<noteq> []\<close> by simp
  ultimately have "unquote_parts s = utf8_decode_replace (unquote_run s) @ unquote_parts []"
    by (subst unquote_parts.simps) (simp only: runs if_True if_False)
  then show ?thesis using True by (simp add: unquote_def unquote_parts.simps [of "[]"])
next
  case False
  then have "unquote_run s = map of_nat s" using assms by (intro unquote_run_plain) auto
  moreover have "utf8_decode_replace (map of_nat s) = s"
    by (rule utf8_decode_replace_encode) (rule ascii_utf8 [OF assms])
  ultimately show ?thesis using False by (simp add: unquote_def)
qed

lemma unquote_quote:
  assumes "quote s = Inr e"
  shows "unquote e = s"
proof -
  have "unquote e = utf8_decode_replace (unquote_run e)"
    using assms by (intro unquote_ascii) (auto dest: quote_ascii)
  then show ?thesis
    using assms by (auto simp: quote_def result_simps unquote_run_quote utf8_decode_replace_encode)
qed

lemma quote_total: "scalar_str s \<Longrightarrow> \<exists>e. quote s = Inr e"
  by (auto simp: quote_def dest: utf8_encode_total)

lemma quote_scalar: "quote s = Inr e \<Longrightarrow> scalar_str s"
  by (auto simp: quote_def result_simps dest: utf8_encode_scalar)

lemma quote_error: "\<not> scalar_str s \<Longrightarrow> quote s = Inl UnicodeEncodeError"
  by (simp add: quote_def utf8_encode_def)

lemma quote_unreserved:
  assumes "\<forall>c \<in> set s. is_unreserved c"
  shows "quote s = Inr s"
proof -
  have a: "\<forall>c \<in> set s. c < 128" using assms by (auto dest: is_unreserved_ascii)
  have "concat (map quote_byte (map of_nat s)) = s"
    using assms
  proof (induction s)
    case (Cons c s)
    then have "c < 256" by (auto dest: is_unreserved_ascii)
    with Cons show ?case by (simp add: quote_byte_def unat_of_nat)
  qed simp
  then show ?thesis by (simp add: quote_def ascii_utf8 [OF a])
qed

section \<open>Decimal integers\<close>

fun show_nat :: "nat \<Rightarrow> pystr" where
  "show_nat n = (if n < 10 then [48 + n] else show_nat (n div 10) @ [48 + n mod 10])"

declare show_nat.simps [simp del]

definition show_int :: "int \<Rightarrow> pystr" where
  "show_int i = (if i < 0 then 45 # show_nat (nat (- i)) else show_nat (nat i))"

definition is_digit :: "nat \<Rightarrow> bool" where
  "is_digit c \<longleftrightarrow> 48 \<le> c \<and> c \<le> 57"

definition digits_value :: "pystr \<Rightarrow> nat" where
  "digits_value ds = foldl (\<lambda>a d. 10 * a + (d - 48)) 0 ds"

text \<open>
  \<open>int(s)\<close>: white space around it, a sign, digits with single underscores between them.
  Decimal digits outside ASCII, which Python also takes, are refused.
\<close>

definition is_py_space :: "nat \<Rightarrow> bool" where
  "is_py_space c \<longleftrightarrow>
     (9 \<le> c \<and> c \<le> 13) \<or> (28 \<le> c \<and> c \<le> 32) \<or> (0x2000 \<le> c \<and> c \<le> 0x200A) \<or>
     c \<in> {0x85, 0xA0, 0x1680, 0x2028, 0x2029, 0x202F, 0x205F, 0x3000}"

fun int_digits :: "nat \<Rightarrow> bool \<Rightarrow> pystr \<Rightarrow> nat option" where
  "int_digits acc after_digit [] = (if after_digit then Some acc else None)"
| "int_digits acc after_digit (c # cs) =
     (if is_digit c then int_digits (10 * acc + (c - 48)) True cs
      else if c = 95 \<and> after_digit then int_digits acc False cs
      else None)"

definition py_int :: "pystr \<Rightarrow> exn + int" where
  "py_int s =
     (let t = rev (dropWhile is_py_space (rev (dropWhile is_py_space s)));
          neg = (t \<noteq> [] \<and> hd t = 45);
          body = (if t \<noteq> [] \<and> (hd t = 45 \<or> hd t = 43) then tl t else t)
      in case int_digits 0 False body of
           None \<Rightarrow> Inl ValueError
         | Some n \<Rightarrow> Inr (if neg then - int n else int n))"

lemma show_nat_digits: "c \<in> set (show_nat n) \<Longrightarrow> is_digit c"
proof (induction n rule: show_nat.induct)
  case (1 n)
  have "is_digit (48 + n mod 10)"
    using mod_less_divisor [of 10 n] by (simp add: is_digit_def del: mod_less_divisor)
  with 1 show ?case
    by (cases "n < 10") (auto simp: show_nat.simps [of n] is_digit_def)
qed

lemma show_nat_nonempty [simp]: "show_nat n \<noteq> []"
  by (simp add: show_nat.simps)

lemma digits_value_snoc [simp]: "digits_value (ds @ [d]) = 10 * digits_value ds + (d - 48)"
  by (simp add: digits_value_def)

lemma digits_value_show_nat [simp]: "digits_value (show_nat n) = n"
proof (induction n rule: show_nat.induct)
  case (1 n)
  then show ?case
    by (cases "n < 10") (simp_all add: show_nat.simps [of n], simp add: digits_value_def)
qed

lemma show_nat_inj: "show_nat m = show_nat n \<Longrightarrow> m = n"
  by (metis digits_value_show_nat)

lemma int_digits_all_digits:
  "\<forall>c \<in> set ds. is_digit c \<Longrightarrow> ds \<noteq> [] \<or> b \<Longrightarrow>
   int_digits acc b ds = Some (foldl (\<lambda>a d. 10 * a + (d - 48)) acc ds)"
  by (induction ds arbitrary: acc b) auto

lemma dropWhile_no_space: "\<forall>c \<in> set s. is_digit c \<Longrightarrow> dropWhile is_py_space s = s"
  by (cases s) (auto simp: is_digit_def is_py_space_def)

lemma py_int_show_nat: "py_int (show_nat n) = Inr (int n)"
proof -
  have d: "\<forall>c \<in> set (show_nat n). is_digit c" by (auto dest: show_nat_digits)
  then have "\<forall>c \<in> set (rev (show_nat n)). is_digit c" by simp
  note strip = dropWhile_no_space [OF d] dropWhile_no_space [OF this]
  have "is_digit (hd (show_nat n))" using d by simp
  then have "hd (show_nat n) \<noteq> 45" "hd (show_nat n) \<noteq> 43" by (auto simp: is_digit_def)
  then show ?thesis
    using int_digits_all_digits [OF d, of False 0]
    by (simp add: py_int_def strip Let_def flip: digits_value_def)
qed

lemma py_int_show_int_nonneg: "0 \<le> i \<Longrightarrow> py_int (show_int i) = Inr i"
  by (simp add: show_int_def py_int_show_nat)

lemma show_int_nonneg_digits: "0 \<le> i \<Longrightarrow> c \<in> set (show_int i) \<Longrightarrow> is_digit c"
  by (auto simp: show_int_def dest: show_nat_digits)

lemma show_int_nonempty [simp]: "show_int i \<noteq> []"
  by (simp add: show_int_def)

section \<open>Splitting and joining\<close>

text \<open>\<open>s.partition(c)\<close>: what is before the first \<open>c\<close>, whether there is one, what is after it.\<close>

fun partition_at :: "nat \<Rightarrow> pystr \<Rightarrow> pystr \<times> bool \<times> pystr" where
  "partition_at c [] = ([], False, [])"
| "partition_at c (x # xs) =
     (if x = c then ([], True, xs)
      else (case partition_at c xs of (before, found, after) \<Rightarrow> (x # before, found, after)))"

lemma partition_at_found: "c \<notin> set xs \<Longrightarrow> partition_at c (xs @ c # ys) = (xs, True, ys)"
  by (induction xs) auto

lemma partition_at_True:
  "partition_at c s = (before, True, after) \<Longrightarrow> s = before @ c # after \<and> c \<notin> set before"
  by (induction c s arbitrary: before rule: partition_at.induct) (auto split: if_splits prod.splits)

lemma partition_at_False:
  "partition_at c s = (before, False, after) \<Longrightarrow> before = s \<and> after = [] \<and> c \<notin> set s"
  by (induction c s arbitrary: before rule: partition_at.induct) (auto split: if_splits prod.splits)

fun split_on :: "nat \<Rightarrow> pystr \<Rightarrow> pystr list" where
  "split_on c [] = [[]]"
| "split_on c (x # xs) =
     (if x = c then [] # split_on c xs
      else (case split_on c xs of [] \<Rightarrow> [[x]] | y # ys \<Rightarrow> (x # y) # ys))"

fun join_with :: "pystr \<Rightarrow> pystr list \<Rightarrow> pystr" where
  "join_with sep [] = []"
| "join_with sep [x] = x"
| "join_with sep (x # y # ys) = x @ sep @ join_with sep (y # ys)"

lemma split_on_nonempty [simp]: "split_on c s \<noteq> []"
  by (induction s) (auto split: list.splits)

lemma join_split: "join_with [c] (split_on c s) = s"
proof (induction s)
  case (Cons x xs)
  obtain y ys where "split_on c xs = y # ys" by (cases "split_on c xs") auto
  with Cons show ?case by (cases ys) auto
qed simp

lemma split_on_no_sep: "c \<notin> set s \<Longrightarrow> split_on c s = [s]"
  by (induction s) auto

lemma split_on_append: "c \<notin> set x \<Longrightarrow> split_on c (x @ c # s) = x # split_on c s"
  by (induction x) auto

lemma split_join: "xs \<noteq> [] \<Longrightarrow> \<forall>x \<in> set xs. c \<notin> set x \<Longrightarrow> split_on c (join_with [c] xs) = xs"
  by (induction "[c]" xs rule: join_with.induct) (auto simp: split_on_no_sep split_on_append)

lemma split_on_no_sep_in: "x \<in> set (split_on c s) \<Longrightarrow> c \<notin> set x"
proof (induction s arbitrary: x)
  case (Cons a s)
  then show ?case by (cases "split_on c s") (auto split: if_splits)
qed simp

lemma join_with_snoc: "xs \<noteq> [] \<Longrightarrow> join_with sep (xs @ [x]) = join_with sep xs @ sep @ x"
  by (induction sep xs rule: join_with.induct) auto

lemma join_with_append:
  "xs \<noteq> [] \<Longrightarrow> ys \<noteq> [] \<Longrightarrow> join_with sep (xs @ ys) = join_with sep xs @ sep @ join_with sep ys"
  by (induction sep xs rule: join_with.induct) (auto simp: neq_Nil_conv)

end
