(* ===== verification/Floats.thy ===== *)
theory Floats
  imports Text
begin

text \<open>
  Python floats (IEEE binary64) as far as JSON needs them: \<open>float(text)\<close> for a decimal
  literal, rounding half to even, and \<open>float.__repr__\<close>, the shortest decimal that reads back
  as the same float, in CPython's choice between positional and exponent notation.

  That \<open>repr\<close> reads back is a fact about every float that Python documents; here it is the
  executable test \<open>float_ok\<close> of the JSON theory, which the theorems about texts holding
  floats carry as a hypothesis.
\<close>

text \<open>
  \<open>FFin neg m e\<close> is the float \<open>m * 2^e\<close> with its sign; a normal one has
  \<open>2^52 \<le> m < 2^53\<close>, a subnormal one or zero has \<open>e = -1074\<close>.
\<close>

datatype pyfloat = FNan | FInf bool | FFin bool nat int

fun bit_length :: "nat \<Rightarrow> nat" where
  "bit_length n = (if n = 0 then 0 else Suc (bit_length (n div 2)))"

declare bit_length.simps [simp del]

text \<open>The float nearest to \<open>num / den\<close>, ties to even.\<close>

definition float_of_ratio :: "bool \<Rightarrow> nat \<Rightarrow> nat \<Rightarrow> pyfloat" where
  "float_of_ratio neg num den =
     (if num = 0 then FFin neg 0 (- 1074)
      else
        let e0 = int (bit_length num) - int (bit_length den) - 53;
            above = (if e0 \<ge> 0 then 2 ^ 53 * (den * 2 ^ nat e0) \<le> num
                     else 2 ^ 53 * den \<le> num * 2 ^ nat (- e0));
            e = max (- 1074) (if above then e0 + 1 else e0);
            n = (if e \<ge> 0 then num else num * 2 ^ nat (- e));
            d = (if e \<ge> 0 then den * 2 ^ nat e else den);
            q = n div d;
            r = n mod d;
            m = (if 2 * r > d \<or> (2 * r = d \<and> odd q) then Suc q else q);
            m' = (if m = 2 ^ 53 then 2 ^ 52 else m);
            e' = (if m = 2 ^ 53 then e + 1 else e)
        in if e' > 971 then FInf neg else FFin neg m' e')"

text \<open>The literal with decimal digits \<open>ds\<close> and decimal exponent \<open>x\<close>.\<close>

definition float_of_decimal :: "bool \<Rightarrow> pystr \<Rightarrow> int \<Rightarrow> pyfloat" where
  "float_of_decimal neg ds x =
     (let m = digits_value ds
      in if x \<ge> 0 then float_of_ratio neg (m * 10 ^ nat x) 1
         else float_of_ratio neg m (10 ^ nat (- x)))"

section \<open>Shortest representation\<close>

text \<open>The decimal exponent of \<open>num / den\<close>: the \<open>k\<close> with \<open>10^k \<le> num / den < 10^(k+1)\<close>.\<close>

fun small_exponent :: "nat \<Rightarrow> nat \<Rightarrow> nat \<Rightarrow> nat \<Rightarrow> int" where
  "small_exponent 0 j num den = - int j"
| "small_exponent (Suc fuel) j num den =
     (if den \<le> num * 10 ^ j then - int j else small_exponent fuel (Suc j) num den)"

definition decimal_exponent :: "nat \<Rightarrow> nat \<Rightarrow> int" where
  "decimal_exponent num den =
     (if den \<le> num then int (length (show_nat (num div den))) - 1
      else small_exponent 330 1 num den)"

definition round_ratio :: "nat \<Rightarrow> nat \<Rightarrow> nat" where
  "round_ratio n d =
     (let q = n div d; r = n mod d
      in if 2 * r > d \<or> (2 * r = d \<and> odd q) then Suc q else q)"

text \<open>\<open>n\<close> significant digits of \<open>num / den\<close>, with the decimal exponent of the first one.\<close>

definition significant :: "nat \<Rightarrow> nat \<Rightarrow> nat \<Rightarrow> nat \<times> int" where
  "significant n num den =
     (let k = decimal_exponent num den;
          s = int n - 1 - k;
          d = (if s \<ge> 0 then round_ratio (num * 10 ^ nat s) den
               else round_ratio num (den * 10 ^ nat (- s)))
      in if d = 10 ^ n then (10 ^ (n - 1), k + 1) else (d, k))"

fun shortest :: "nat \<Rightarrow> nat \<Rightarrow> pyfloat \<Rightarrow> bool \<Rightarrow> nat \<Rightarrow> nat \<Rightarrow> nat \<times> int" where
  "shortest 0 n f neg num den = significant n num den"
| "shortest (Suc fuel) n f neg num den =
     (let (d, k) = significant n num den
      in if float_of_decimal neg (show_nat d) (k - int n + 1) = f then (d, k)
         else shortest fuel (Suc n) f neg num den)"

definition strip_zeros :: "pystr \<Rightarrow> pystr" where
  "strip_zeros ds = rev (dropWhile (\<lambda>c. c = 48) (rev ds))"

text \<open>Digits and the position of the decimal point, as \<open>repr\<close> lays them out.\<close>

definition layout :: "pystr \<Rightarrow> int \<Rightarrow> pystr" where
  "layout ds decpt =
     (let n = int (length ds)
      in if decpt \<le> - 4 \<or> decpt > 16 then
           [hd ds] @ (if tl ds = [] then [] else 46 # tl ds) @ [101] @
           (if decpt - 1 < 0 then [45] else [43]) @
           (let x = show_nat (nat \<bar>decpt - 1\<bar>) in if length x < 2 then 48 # x else x)
         else if decpt \<le> 0 then [48, 46] @ replicate (nat (- decpt)) 48 @ ds
         else if decpt \<ge> n then ds @ replicate (nat (decpt - n)) 48 @ [46, 48]
         else take (nat decpt) ds @ [46] @ drop (nat decpt) ds)"

definition float_repr :: "pyfloat \<Rightarrow> pystr" where
  "float_repr f =
     (case f of
        FNan \<Rightarrow> str_of ''nan''
      | FInf neg \<Rightarrow> (if neg then str_of ''-inf'' else str_of ''inf'')
      | FFin neg m e \<Rightarrow>
          (if neg then [45] else []) @
          (if m = 0 then str_of ''0.0''
           else
             let num = (if e \<ge> 0 then m * 2 ^ nat e else m);
                 den = (if e \<ge> 0 then 1 else 2 ^ nat (- e));
                 (d, k) = shortest 16 1 f neg num den
             in layout (strip_zeros (show_nat d)) (k + 1)))"

end
