(* ===== verification/Json.thy ===== *)
theory Json
  imports Floats
begin

text \<open>
  The \<open>json\<close> module of the Python standard library as the program uses it:
  \<open>json.dumps(v, sort_keys=True, ensure_ascii=..., indent=..., allow_nan=...)\<close>, with the
  separators that go with the indent, and \<open>json.loads\<close>. The scanner follows CPython's: white
  space, literals, numbers, strings with strict control characters and surrogate pairs, the
  last of two equal keys winning; \<open>allow_nan\<close> says whether the \<open>NaN\<close>, \<open>Infinity\<close> constants
  are taken or refused (\<open>parse_constant\<close> raising). \<open>None\<close> is \<open>JSONDecodeError\<close>.

  The main lemma is the round trip: what \<open>json_dumps\<close> writes, \<open>json_loads\<close> reads back with
  the keys of every object in sorted order. It makes the encoding injective.
\<close>

datatype json =
    JNull | JBool bool | JInt int | JFloat pyfloat | JStr pystr
  | JList "json list" | JObj "(pystr \<times> json) list"

section \<open>Writing\<close>

definition hex4 :: "nat \<Rightarrow> pystr" where
  "hex4 c = map (\<lambda>i. let d = c div 16 ^ (3 - i) mod 16 in if d < 10 then 48 + d else 87 + d) [0..<4]"

definition u_escape :: "nat \<Rightarrow> pystr" where
  "u_escape c = 92 # 117 # hex4 c"

definition escape_char :: "bool \<Rightarrow> nat \<Rightarrow> pystr" where
  "escape_char ascii c =
     (if c = 34 then [92, 34]
      else if c = 92 then [92, 92]
      else if c = 10 then [92, 110]
      else if c = 13 then [92, 114]
      else if c = 9 then [92, 116]
      else if c = 8 then [92, 98]
      else if c = 12 then [92, 102]
      else if c < 32 \<or> (ascii \<and> 126 < c \<and> c < 0x10000) then u_escape c
      else if ascii \<and> 0x10000 \<le> c then
        u_escape (0xD800 + (c - 0x10000) div 1024) @ u_escape (0xDC00 + (c - 0x10000) mod 1024)
      else [c])"

definition encode_string :: "bool \<Rightarrow> pystr \<Rightarrow> pystr" where
  "encode_string ascii s = 34 # concat (map (escape_char ascii) s) @ [34]"

definition encode_float :: "bool \<Rightarrow> pyfloat \<Rightarrow> exn + pystr" where
  "encode_float allow_nan f =
     (case f of
        FNan \<Rightarrow> (if allow_nan then Inr (str_of ''NaN'') else Inl ValueError)
      | FInf neg \<Rightarrow>
          (if allow_nan then Inr (if neg then str_of ''-Infinity'' else str_of ''Infinity'')
           else Inl ValueError)
      | FFin _ _ _ \<Rightarrow> Inr (float_repr f))"

text \<open>How a writer lays out: the indent unit, \<open>ensure_ascii\<close>, \<open>allow_nan\<close>.\<close>

record json_style =
  js_indent :: "pystr option"
  js_ascii :: bool
  js_nan :: bool

definition newline :: "json_style \<Rightarrow> nat \<Rightarrow> pystr" where
  "newline st n = (case js_indent st of None \<Rightarrow> [] | Some unit \<Rightarrow> 10 # concat (replicate n unit))"

definition key_separator :: "json_style \<Rightarrow> pystr" where
  "key_separator st = (if js_indent st = None then [58] else [58, 32])"

lemma json_size_item: "v \<in> set vs \<Longrightarrow> size v < Suc (size_list size vs)" for v :: json
  by (induction vs) auto

lemma json_size_member:
  "(k, v) \<in> set kvs \<Longrightarrow> size v < Suc (size_list (size_prod (\<lambda>x. 0) size) kvs)" for v :: json
  by (induction kvs) auto

function json_dump :: "json_style \<Rightarrow> nat \<Rightarrow> json \<Rightarrow> exn + pystr" where
  "json_dump st n JNull = Inr (str_of ''null'')"
| "json_dump st n (JBool b) = Inr (if b then str_of ''true'' else str_of ''false'')"
| "json_dump st n (JInt i) = Inr (show_int i)"
| "json_dump st n (JFloat f) = encode_float (js_nan st) f"
| "json_dump st n (JStr s) = Inr (encode_string (js_ascii st) s)"
| "json_dump st n (JList vs) =
     (if vs = [] then Inr (str_of ''[]'')
      else bind_r (traverse (json_dump st (Suc n)) vs) (\<lambda>ts.
        Inr (91 # newline st (Suc n) @ join_with (44 # newline st (Suc n)) ts @ newline st n @ [93])))"
| "json_dump st n (JObj kvs) =
     (if kvs = [] then Inr (str_of ''{}'')
      else bind_r (traverse (\<lambda>(k, v). bind_r (json_dump st (Suc n) v) (\<lambda>t.
             Inr (encode_string (js_ascii st) k @ key_separator st @ t))) (sort_items kvs)) (\<lambda>ts.
        Inr (123 # newline st (Suc n) @ join_with (44 # newline st (Suc n)) ts @ newline st n @ [125])))"
  by pat_completeness auto
termination
  by (relation "measure (\<lambda>(st, n, v). size v)") (auto dest: json_size_item json_size_member)

definition json_dumps :: "json_style \<Rightarrow> json \<Rightarrow> exn + pystr" where
  "json_dumps st v = json_dump st 0 v"

text \<open>Compact text, as every store and the canonical encoding write it.\<close>

definition compact :: "bool \<Rightarrow> json_style" where
  "compact allow_nan = \<lparr>js_indent = None, js_ascii = False, js_nan = allow_nan\<rparr>"

section \<open>Reading\<close>

definition is_ws :: "nat \<Rightarrow> bool" where
  "is_ws c \<longleftrightarrow> c \<in> {32, 9, 10, 13}"

definition skip_ws :: "pystr \<Rightarrow> pystr" where
  "skip_ws s = dropWhile is_ws s"

definition scan_hex4 :: "pystr \<Rightarrow> (nat \<times> pystr) option" where
  "scan_hex4 s =
     (case s of
        a # b # c # d # r \<Rightarrow>
          (case (hex_value a, hex_value b, hex_value c, hex_value d) of
             (Some w, Some x, Some y, Some z) \<Rightarrow> Some (((w * 16 + x) * 16 + y) * 16 + z, r)
           | _ \<Rightarrow> None)
      | _ \<Rightarrow> None)"

text \<open>After the escape of a high surrogate, the low one that completes it.\<close>

definition scan_low_half :: "nat \<Rightarrow> pystr \<Rightarrow> (nat \<times> pystr) option" where
  "scan_low_half u s =
     (if 0xD800 \<le> u \<and> u \<le> 0xDBFF then
        (case s of
           a # b # r \<Rightarrow>
             if a = 92 \<and> b = 117 then
               (case scan_hex4 r of
                  Some (v, r') \<Rightarrow>
                    if 0xDC00 \<le> v \<and> v \<le> 0xDFFF
                    then Some (0x10000 + (u - 0xD800) * 1024 + (v - 0xDC00), r') else None
                | None \<Rightarrow> None)
             else None
         | _ \<Rightarrow> None)
      else None)"

definition unescape :: "nat \<Rightarrow> nat option" where
  "unescape e =
     (if e = 34 then Some 34 else if e = 92 then Some 92 else if e = 47 then Some 47
      else if e = 98 then Some 8 else if e = 102 then Some 12 else if e = 110 then Some 10
      else if e = 114 then Some 13 else if e = 116 then Some 9 else None)"

lemma scan_hex4_length: "scan_hex4 s = Some (u, r) \<Longrightarrow> length r < length s"
  by (auto simp: scan_hex4_def split: list.splits option.splits)

lemma scan_low_half_length: "scan_low_half u s = Some (v, r) \<Longrightarrow> length r < length s"
  by (auto simp: scan_low_half_def split: list.splits option.splits if_splits dest: scan_hex4_length)

abbreviation push_char :: "nat \<Rightarrow> (pystr \<times> pystr) option \<Rightarrow> (pystr \<times> pystr) option" where
  "push_char c r \<equiv> map_option (\<lambda>(s, t). (c # s, t)) r"

function scan_string :: "pystr \<Rightarrow> (pystr \<times> pystr) option" where
  "scan_string [] = None"
| "scan_string (c # cs) =
     (if c = 34 then Some ([], cs)
      else if c = 92 then
        (case cs of
           [] \<Rightarrow> None
         | e # r \<Rightarrow>
             if e = 117 then
               (case scan_hex4 r of
                  None \<Rightarrow> None
                | Some (u, r1) \<Rightarrow>
                    (case scan_low_half u r1 of
                       Some (v, r2) \<Rightarrow> push_char v (scan_string r2)
                     | None \<Rightarrow> push_char u (scan_string r1)))
             else (case unescape e of None \<Rightarrow> None | Some v \<Rightarrow> push_char v (scan_string r)))
      else if c < 32 then None
      else push_char c (scan_string cs))"
  by pat_completeness auto
termination
  by (relation "measure length") (auto dest!: scan_hex4_length scan_low_half_length)

definition scan_fraction :: "pystr \<Rightarrow> pystr \<times> pystr" where
  "scan_fraction s =
     (case s of
        c # f # r \<Rightarrow> if c = 46 \<and> is_digit f then (takeWhile is_digit (f # r), dropWhile is_digit (f # r)) else ([], s)
      | _ \<Rightarrow> ([], s))"

definition scan_exponent :: "pystr \<Rightarrow> int option \<times> pystr" where
  "scan_exponent s =
     (case s of
        c # r \<Rightarrow>
          if c = 101 \<or> c = 69 then
            (let neg = (r \<noteq> [] \<and> hd r = 45);
                 t = (if r \<noteq> [] \<and> (hd r = 45 \<or> hd r = 43) then tl r else r);
                 ds = takeWhile is_digit t
             in if ds = [] then (None, s)
                else (Some (if neg then - int (digits_value ds) else int (digits_value ds)),
                      dropWhile is_digit t))
          else (None, s)
      | [] \<Rightarrow> (None, s))"

definition scan_unsigned :: "bool \<Rightarrow> pystr \<Rightarrow> (json \<times> pystr) option" where
  "scan_unsigned neg t =
     (case t of
        [] \<Rightarrow> None
      | d # ds \<Rightarrow>
          if \<not> is_digit d then None
          else
            (let ip = (if d = 48 then [48] else takeWhile is_digit t);
                 r0 = (if d = 48 then ds else dropWhile is_digit t);
                 (fp, r1) = scan_fraction r0;
                 (ex, r2) = scan_exponent r1
             in Some (if fp = [] \<and> ex = None
                      then JInt (if neg then - int (digits_value ip) else int (digits_value ip))
                      else JFloat (float_of_decimal neg (ip @ fp)
                             ((case ex of None \<Rightarrow> 0 | Some x \<Rightarrow> x) - int (length fp))), r2)))"

definition scan_number :: "pystr \<Rightarrow> (json \<times> pystr) option" where
  "scan_number s = (if s \<noteq> [] \<and> hd s = 45 then scan_unsigned True (tl s) else scan_unsigned False s)"

text \<open>The literals and constants: the text, what it stands for, what follows it.\<close>

definition strip_prefix :: "pystr \<Rightarrow> pystr \<Rightarrow> pystr option" where
  "strip_prefix p s = (if take (length p) s = p then Some (drop (length p) s) else None)"

definition scan_literal :: "string \<Rightarrow> json \<Rightarrow> pystr \<Rightarrow> (json \<times> pystr) option" where
  "scan_literal t v s = map_option (\<lambda>r. (v, r)) (strip_prefix (str_of t) s)"

definition scan_constant :: "bool \<Rightarrow> string \<Rightarrow> pyfloat \<Rightarrow> pystr \<Rightarrow> (json \<times> pystr) option" where
  "scan_constant nan t f s = (if nan then scan_literal t (JFloat f) s else None)"

lemma skip_ws_length: "length (skip_ws s) \<le> length s"
  by (simp add: skip_ws_def length_dropWhile_le)

lemma scan_string_unfold:
  "scan_string (34 # cs) = Some ([], cs)"
  "scan_string (92 # 117 # r) =
     (case scan_hex4 r of
        None \<Rightarrow> None
      | Some (u, r1) \<Rightarrow>
          (case scan_low_half u r1 of
             Some (v, r2) \<Rightarrow> push_char v (scan_string r2)
           | None \<Rightarrow> push_char u (scan_string r1)))"
  "e \<noteq> 117 \<Longrightarrow> scan_string (92 # e # r) =
     (case unescape e of None \<Rightarrow> None | Some v \<Rightarrow> push_char v (scan_string r))"
  "scan_string [92] = None"
  "c \<noteq> 34 \<Longrightarrow> c \<noteq> 92 \<Longrightarrow> 32 \<le> c \<Longrightarrow> scan_string (c # cs) = push_char c (scan_string cs)"
  "c < 32 \<Longrightarrow> scan_string (c # cs) = None"
  by simp_all

declare scan_string.simps(2) [simp del]

lemma scan_string_length: "scan_string s = Some (k, r) \<Longrightarrow> length r < length s"
proof (induction "length s" arbitrary: s k r rule: less_induct)
  case less
  note IH = less.hyps and p = less.prems
  obtain c cs where s: "s = c # cs" using p by (cases s) auto
  consider (quote) "c = 34" | (escape) "c = 92" | (low) "c < 32"
    | (plain) "c \<noteq> 34" "c \<noteq> 92" "32 \<le> c" by linarith
  then show ?case
  proof cases
    case quote
    with p s show ?thesis by (simp add: scan_string_unfold)
  next
    case low
    with p s show ?thesis by (simp add: scan_string_unfold)
  next
    case plain
    with p s obtain k' where "scan_string cs = Some (k', r)" by (auto simp: scan_string_unfold)
    from IH [OF _ this] s show ?thesis by simp
  next
    case escape
    with p s obtain e t where cs: "cs = e # t"
      by (cases cs) (auto simp: scan_string_unfold)
    have "\<exists>k' t'. scan_string t' = Some (k', r) \<and> length t' \<le> length t"
    proof (cases "e = 117")
      case False
      then show ?thesis
        using p escape s cs by (auto simp: scan_string_unfold split: option.splits)
    next
      case True
      then obtain u r1 where h: "scan_hex4 t = Some (u, r1)"
        using p escape s cs by (auto simp: scan_string_unfold split: option.splits)
      show ?thesis
      proof (cases "scan_low_half u r1")
        case None
        then show ?thesis
          using p escape s cs True h scan_hex4_length [OF h]
          by (fastforce simp: scan_string_unfold)
      next
        case (Some vr)
        then obtain v r2 where v: "scan_low_half u r1 = Some (v, r2)" by (cases vr) auto
        then show ?thesis
          using p escape s cs True h scan_hex4_length [OF h] scan_low_half_length [OF v]
          by (fastforce simp: scan_string_unfold)
      qed
    qed
    then obtain k' t' where t': "scan_string t' = Some (k', r)" "length t' \<le> length t" by blast
    then have "length r < length t'" using IH [of t' k' r] s cs by simp
    then show ?thesis using t' s cs by simp
  qed
qed

text \<open>
  \<open>parse_elems\<close> and \<open>parse_members\<close> are the loops of an array and an object; the test on
  lengths holds of every value that parses and only serves the termination proof.
\<close>

function parse_value :: "bool \<Rightarrow> pystr \<Rightarrow> (json \<times> pystr) option"
  and parse_elems :: "bool \<Rightarrow> pystr \<Rightarrow> (json list \<times> pystr) option"
  and parse_members :: "bool \<Rightarrow> (pystr, json) dict \<Rightarrow> pystr \<Rightarrow> ((pystr, json) dict \<times> pystr) option" where
  "parse_value nan s =
     (case s of
        [] \<Rightarrow> None
      | c # cs \<Rightarrow>
          if c = 34 then map_option (\<lambda>(k, r). (JStr k, r)) (scan_string cs)
          else if c = 123 then
            (case skip_ws cs of
               [] \<Rightarrow> None
             | b # r \<Rightarrow> if b = 125 then Some (JObj [], r)
                        else map_option (\<lambda>(d, t). (JObj d, t)) (parse_members nan [] (skip_ws cs)))
          else if c = 91 then
            (case skip_ws cs of
               [] \<Rightarrow> None
             | b # r \<Rightarrow> if b = 93 then Some (JList [], r)
                        else map_option (\<lambda>(vs, t). (JList vs, t)) (parse_elems nan (skip_ws cs)))
          else if c = 110 then scan_literal ''null'' JNull s
          else if c = 116 then scan_literal ''true'' (JBool True) s
          else if c = 102 then scan_literal ''false'' (JBool False) s
          else if c = 78 then scan_constant nan ''NaN'' FNan s
          else if c = 73 then scan_constant nan ''Infinity'' (FInf False) s
          else if c = 45 \<and> strip_prefix (str_of ''-Infinity'') s \<noteq> None
               then scan_constant nan ''-Infinity'' (FInf True) s
          else scan_number s)"
| "parse_elems nan s =
     (case parse_value nan s of
        None \<Rightarrow> None
      | Some (v, r) \<Rightarrow>
          if length r < length s then
            (case skip_ws r of
               [] \<Rightarrow> None
             | b # r' \<Rightarrow>
                 if b = 93 then Some ([v], r')
                 else if b = 44 then map_option (\<lambda>(vs, t). (v # vs, t)) (parse_elems nan (skip_ws r'))
                 else None)
          else None)"
| "parse_members nan d s =
     (case s of
        [] \<Rightarrow> None
      | c # cs \<Rightarrow>
          if c \<noteq> 34 then None
          else (case scan_string cs of
                  None \<Rightarrow> None
                | Some (k, r) \<Rightarrow>
                    (case skip_ws r of
                       [] \<Rightarrow> None
                     | b # r1 \<Rightarrow>
                         if b \<noteq> 58 then None
                         else (case parse_value nan (skip_ws r1) of
                                 None \<Rightarrow> None
                               | Some (v, r2) \<Rightarrow>
                                   if length r2 < length s then
                                     (case skip_ws r2 of
                                        [] \<Rightarrow> None
                                      | b' # r3 \<Rightarrow>
                                          if b' = 125 then Some (AList.update k v d, r3)
                                          else if b' = 44 then
                                            parse_members nan (AList.update k v d) (skip_ws r3)
                                          else None)
                                   else None))))"
  by pat_completeness auto
termination
proof (relation "measure (\<lambda>x. case x of Inl (nan, s) \<Rightarrow> 2 * length s
       | Inr (Inl (nan, s)) \<Rightarrow> 2 * length s + 1 | Inr (Inr (nan, d, s)) \<Rightarrow> 2 * length s + 1)", goal_cases)
  case (2 nan s c cs b r)
  then show ?case using skip_ws_length [of cs] by simp
next
  case (3 nan s c cs b r)
  then show ?case using skip_ws_length [of cs] by simp
next
  case (5 nan s x v r b r')
  then show ?case using skip_ws_length [of r] skip_ws_length [of r'] by simp
next
  case (6 nan d s c cs x k r b r1)
  then show ?case
    using skip_ws_length [of r] skip_ws_length [of r1] scan_string_length [of cs k r] by simp
next
  case (7 nan d s c cs x k r b r1 y v r2 b' r3)
  then show ?case using skip_ws_length [of r2] skip_ws_length [of r3] by simp
qed simp_all

declare parse_value.simps [simp del] parse_elems.simps [simp del] parse_members.simps [simp del]

definition json_loads :: "bool \<Rightarrow> pystr \<Rightarrow> exn + json" where
  "json_loads nan s =
     (case parse_value nan (skip_ws s) of
        None \<Rightarrow> Inl JSONDecodeError
      | Some (v, r) \<Rightarrow> (if skip_ws r = [] then Inr v else Inl JSONDecodeError))"

section \<open>What can be written\<close>

text \<open>
  A float is written so that it reads back; \<open>nan\<close> as in \<open>json_loads\<close>. An object is a
  dictionary, so its keys are distinct.
\<close>

definition float_ok :: "bool \<Rightarrow> pyfloat \<Rightarrow> bool" where
  "float_ok nan f =
     (case f of FFin _ _ _ \<Rightarrow> scan_number (float_repr f) = Some (JFloat f, []) | _ \<Rightarrow> nan)"

function json_ok :: "bool \<Rightarrow> json \<Rightarrow> bool" where
  "json_ok nan JNull = True"
| "json_ok nan (JBool b) = True"
| "json_ok nan (JInt i) = True"
| "json_ok nan (JFloat f) = float_ok nan f"
| "json_ok nan (JStr s) = True"
| "json_ok nan (JList vs) = (\<forall>v \<in> set vs. json_ok nan v)"
| "json_ok nan (JObj kvs) = (distinct (map fst kvs) \<and> (\<forall>(k, v) \<in> set kvs. json_ok nan v))"
  by pat_completeness auto
termination
  by (relation "measure (\<lambda>(nan, v). size v)") (auto dest: json_size_item json_size_member)

text \<open>The value with the keys of every object in sorted order.\<close>

primrec sort_json :: "json \<Rightarrow> json" where
  "sort_json JNull = JNull"
| "sort_json (JBool b) = JBool b"
| "sort_json (JInt i) = JInt i"
| "sort_json (JFloat f) = JFloat f"
| "sort_json (JStr s) = JStr s"
| "sort_json (JList vs) = JList (map sort_json vs)"
| "sort_json (JObj kvs) = JObj (sort_items (map (map_prod id sort_json) kvs))"

text \<open>
  What \<open>ensure_ascii\<close> does to a string: every character above 126 is escaped, one beyond the basic
  plane as two halves, so a high surrogate that stands right before a low one is read back as the
  one character of the pair.
\<close>

fun join_pairs :: "pystr \<Rightarrow> pystr" where
  "join_pairs (u # v # s) =
     (if 0xD800 \<le> u \<and> u \<le> 0xDBFF \<and> 0xDC00 \<le> v \<and> v \<le> 0xDFFF
      then (0x10000 + (u - 0xD800) * 1024 + (v - 0xDC00)) # join_pairs s
      else u # join_pairs (v # s))"
| "join_pairs s = s"

primrec join_json :: "json \<Rightarrow> json" where
  "join_json JNull = JNull"
| "join_json (JBool b) = JBool b"
| "join_json (JInt i) = JInt i"
| "join_json (JFloat f) = JFloat f"
| "join_json (JStr s) = JStr (join_pairs s)"
| "join_json (JList vs) = JList (map join_json vs)"
| "join_json (JObj kvs) = JObj (map (map_prod join_pairs id) (map (map_prod id join_json) kvs))"

text \<open>Strings of Python characters.\<close>

abbreviation code_points :: "pystr \<Rightarrow> bool" where
  "code_points s \<equiv> list_all (\<lambda>c. c \<le> 0x10FFFF) s"

function json_chars :: "json \<Rightarrow> bool" where
  "json_chars JNull = True"
| "json_chars (JBool b) = True"
| "json_chars (JInt i) = True"
| "json_chars (JFloat f) = True"
| "json_chars (JStr s) = code_points s"
| "json_chars (JList vs) = (\<forall>v \<in> set vs. json_chars v)"
| "json_chars (JObj kvs) = (\<forall>(k, v) \<in> set kvs. code_points k \<and> json_chars v)"
  by pat_completeness auto
termination
  by (relation "measure size") (auto dest: json_size_item json_size_member)

section \<open>Reading back\<close>

text \<open>A rest that cannot continue a number.\<close>

definition delim :: "pystr \<Rightarrow> bool" where
  "delim rest \<longleftrightarrow> rest = [] \<or> (\<not> is_digit (hd rest) \<and> hd rest \<notin> {46, 69, 101})"

lemma delim_simps [simp]:
  "delim []"
  "delim (44 # r)" "delim (93 # r)" "delim (125 # r)" "delim (10 # r)" "delim (32 # r)"
  by (simp_all add: delim_def is_digit_def)

lemma takeWhile_append_rest:
  "rest = [] \<or> \<not> P (hd rest) \<Longrightarrow> takeWhile P (xs @ rest) = takeWhile P xs"
  by (induction xs) (cases rest; auto)+

lemma dropWhile_append_rest:
  "rest = [] \<or> \<not> P (hd rest) \<Longrightarrow> dropWhile P (xs @ rest) = dropWhile P xs @ rest"
  by (induction xs) (cases rest; auto)+

lemma scan_exponent_append:
  assumes "scan_exponent t = (x, [])" "delim rest"
  shows "scan_exponent (t @ rest) = (x, rest)"
proof (cases t)
  case Nil
  with assms show ?thesis by (cases rest) (auto simp: scan_exponent_def delim_def)
next
  case (Cons c r)
  with assms(1) have c: "c = 101 \<or> c = 69"
    by (auto simp: scan_exponent_def split: if_splits)
  have r: "r \<noteq> []" using assms(1) Cons c by (auto simp: scan_exponent_def)
  define u where "u = (if hd r = 45 \<or> hd r = 43 then tl r else r)"
  have rest: "rest = [] \<or> \<not> is_digit (hd rest)" using assms(2) by (auto simp: delim_def)
  have u: "takeWhile is_digit u \<noteq> []" "dropWhile is_digit u = []"
    using assms(1) Cons c r by (auto simp: scan_exponent_def u_def Let_def split: if_splits)
  have "(if hd (r @ rest) = 45 \<or> hd (r @ rest) = 43 then tl (r @ rest) else r @ rest) = u @ rest"
    using r by (simp add: u_def)
  moreover have "takeWhile is_digit rest = []" "dropWhile is_digit rest = rest"
    using rest by (cases rest; auto)+
  ultimately show ?thesis
    using assms(1) Cons c r u rest
    by (simp add: scan_exponent_def Let_def takeWhile_append_rest dropWhile_append_rest u_def
        takeWhile_eq_all_conv [THEN iffD2] split: if_splits)
qed

lemma scan_fraction_append:
  assumes "scan_fraction t = (fp, r1)" "scan_exponent r1 = (x, [])" "delim rest"
  shows "scan_fraction (t @ rest) = (fp, r1 @ rest)"
proof -
  have rest: "rest = [] \<or> \<not> is_digit (hd rest)" using assms(3) by (auto simp: delim_def)
  consider (nil) "t = []" | (one) c where "t = [c]" | (more) c f r where "t = c # f # r"
    by (metis neq_Nil_conv)
  then show ?thesis
  proof cases
    case nil
    with assms show ?thesis
      by (auto simp: scan_fraction_def delim_def split: list.splits)
  next
    case one
    then have "r1 = [c]" "fp = []" using assms(1) by (auto simp: scan_fraction_def)
    then have "c \<noteq> 46" using assms(2) by (auto simp: scan_exponent_def)
    with one assms show ?thesis
      by (auto simp: scan_fraction_def split: list.splits)
  next
    case more
    with assms(1) show ?thesis
      by (auto simp: scan_fraction_def takeWhile_append_rest dropWhile_append_rest rest split: if_splits)
  qed
qed

lemma scan_unsigned_append:
  assumes "scan_unsigned neg t = Some (v, [])" "delim rest"
  shows "scan_unsigned neg (t @ rest) = Some (v, rest)"
proof -
  have rest: "rest = [] \<or> \<not> is_digit (hd rest)" using assms(2) by (auto simp: delim_def)
  obtain d ds where t: "t = d # ds" and d: "is_digit d"
    using assms(1) by (auto simp: scan_unsigned_def split: list.splits if_splits)
  define r0 where "r0 = (if d = 48 then ds else dropWhile is_digit (d # ds))"
  obtain fp r1 where f: "scan_fraction r0 = (fp, r1)" by fastforce
  obtain x r2 where x: "scan_exponent r1 = (x, r2)" by fastforce
  have "r2 = []"
    using assms(1) d f x unfolding t
    by (simp add: scan_unsigned_def Let_def flip: r0_def del: takeWhile.simps dropWhile.simps)
  with x have x': "scan_exponent r1 = (x, [])" by simp
  have r0': "(if d = 48 then ds @ rest else dropWhile is_digit (d # ds @ rest)) = r0 @ rest"
    using dropWhile_append_rest [where P = is_digit and xs = "d # ds", OF rest] by (simp add: r0_def)
  have ip: "takeWhile is_digit (d # ds @ rest) = takeWhile is_digit (d # ds)"
    using takeWhile_append_rest [where P = is_digit and xs = "d # ds", OF rest] by simp
  show ?thesis
    using assms(1) d f x' scan_fraction_append [OF f x' assms(2)]
      scan_exponent_append [OF x' assms(2)] unfolding t
    by (simp add: scan_unsigned_def Let_def r0' ip flip: r0_def
        del: takeWhile.simps dropWhile.simps split del: if_split cong: if_cong)
qed

lemma scan_number_append:
  "scan_number t = Some (v, []) \<Longrightarrow> delim rest \<Longrightarrow> scan_number (t @ rest) = Some (v, rest)"
  using scan_unsigned_append [of False t v rest] scan_unsigned_append [of True "tl t" v rest]
  by (cases t) (simp_all add: scan_number_def scan_unsigned_def [of False "[]"] split: if_splits)

lemma show_nat_no_leading_zero: "hd (show_nat n) = 48 \<Longrightarrow> n = 0"
proof (induction n rule: show_nat.induct)
  case (1 n)
  then show ?case
    by (cases "n < 10") (auto simp: show_nat.simps [of n] hd_append)
qed

lemma scan_unsigned_show_nat:
  "scan_unsigned neg (show_nat n) = Some (JInt (if neg then - int n else int n), [])"
proof -
  have d: "\<forall>c \<in> set (show_nat n). is_digit c" by (auto dest: show_nat_digits)
  obtain c cs where s: "show_nat n = c # cs" using show_nat_nonempty by (meson neq_Nil_conv)
  have z: "c = 48 \<Longrightarrow> n = 0" using show_nat_no_leading_zero [of n] s by simp
  have z': "c = 48 \<Longrightarrow> cs = []" using z s by (auto simp: show_nat.simps [of 0])
  have t: "takeWhile is_digit (show_nat n) = show_nat n" "dropWhile is_digit (show_nat n) = []"
    using d by (simp_all add: takeWhile_eq_all_conv dropWhile_eq_Nil_conv)
  have v: "digits_value (c # cs) = n" using s digits_value_show_nat [of n] by simp
  have "(if c = 48 then cs else dropWhile is_digit (c # cs)) = []"
       "(if c = 48 then [48] else takeWhile is_digit (c # cs)) = c # cs"
    using t z' unfolding s by auto
  then show ?thesis
    using d v unfolding s
    by (simp add: scan_unsigned_def scan_fraction_def scan_exponent_def Let_def
        del: takeWhile.simps dropWhile.simps split del: if_split cong: if_cong)
qed

lemma scan_number_show_int: "scan_number (show_int i) = Some (JInt i, [])"
proof (cases "i < 0")
  case True
  then show ?thesis by (simp add: scan_number_def show_int_def scan_unsigned_show_nat)
next
  case False
  have "hd (show_nat (nat i)) \<noteq> 45"
    using show_nat_digits [of "hd (show_nat (nat i))" "nat i"] by (auto simp: is_digit_def)
  with False show ?thesis by (simp add: scan_number_def show_int_def scan_unsigned_show_nat)
qed

lemma hex_value_lower: "d < 16 \<Longrightarrow> hex_value (if d < 10 then 48 + d else 87 + d) = Some d"
  by (auto simp: hex_value_def)

lemma hex4_unfold:
  "hex4 c = (let h = (\<lambda>d. if d < 10 then 48 + d else 87 + d)
     in [h (c div 4096 mod 16), h (c div 256 mod 16), h (c div 16 mod 16), h (c mod 16)])"
proof -
  have "[0..<4] = [0, 1, 2, 3 :: nat]" by code_simp
  then show ?thesis unfolding hex4_def Let_def by (simp split del: if_split cong: if_cong)
qed

lemma scan_hex4_hex4: "c < 0x10000 \<Longrightarrow> scan_hex4 (hex4 c @ rest) = Some (c, rest)"
proof -
  assume c: "c < 0x10000"
  have d: "c div 16 div 16 = c div 256" "c div 256 div 16 = c div 4096"
    by (simp_all add: div_mult2_eq [symmetric])
  have "c div 4096 < 16" using c by (simp add: less_mult_imp_div_less)
  have "((c div 4096 * 16 + c div 256 mod 16) * 16 + c div 16 mod 16) * 16 + c mod 16 = c"
    using div_mult_mod_eq [of c 16] div_mult_mod_eq [of "c div 16" 16] div_mult_mod_eq [of "c div 256" 16]
    unfolding d by simp
  moreover define h :: "nat \<Rightarrow> nat" where "h = (\<lambda>d. if d < 10 then 48 + d else 87 + d)"
  have "hex_value (h d) = Some d" if "d < 16" for d
    using hex_value_lower [OF that] by (simp add: h_def)
  moreover have "hex4 c = [h (c div 4096 mod 16), h (c div 256 mod 16), h (c div 16 mod 16), h (c mod 16)]"
    unfolding hex4_unfold Let_def h_def ..
  ultimately show ?thesis using \<open>c div 4096 < 16\<close> by (simp add: scan_hex4_def)
qed

lemma scan_string_escape_char:
  "scan_string (escape_char False c @ cs) = push_char c (scan_string cs)"
proof -
  consider "c \<in> {34, 92, 10, 13, 9, 8, 12}" | "c < 32" "c \<notin> {34, 92, 10, 13, 9, 8, 12}"
    | "32 \<le> c" "c \<noteq> 34" "c \<noteq> 92" by fastforce
  then show ?thesis
  proof cases
    case 1
    then show ?thesis
      by (elim insertE) (simp_all add: escape_char_def scan_string_unfold unescape_def)
  next
    case 2
    then show ?thesis
      by (simp add: escape_char_def u_escape_def scan_string_unfold scan_hex4_hex4 scan_low_half_def)
  next
    case 3
    then show ?thesis by (auto simp: escape_char_def scan_string_unfold)
  qed
qed

lemma scan_string_encoded:
  "scan_string (concat (map (escape_char False) s) @ 34 # rest) = Some (s, rest)"
  by (induction s) (simp_all add: scan_string_unfold scan_string_escape_char)

lemma scan_string_u_escape:
  "c < 0x10000 \<Longrightarrow> scan_string (u_escape c @ r) =
     (case scan_low_half c r of Some (v, r') \<Rightarrow> push_char v (scan_string r') | None \<Rightarrow> push_char c (scan_string r))"
  by (simp add: u_escape_def scan_string_unfold scan_hex4_hex4)

lemma scan_low_half_u_escape:
  "0xD800 \<le> u \<Longrightarrow> u \<le> 0xDBFF \<Longrightarrow> v < 0x10000 \<Longrightarrow> scan_low_half u (u_escape v @ r) =
     (if 0xDC00 \<le> v \<and> v \<le> 0xDFFF then Some (0x10000 + (u - 0xD800) * 1024 + (v - 0xDC00), r) else None)"
  by (simp add: scan_low_half_def u_escape_def scan_hex4_hex4)

lemma escape_char_ascii:
  "126 < c \<Longrightarrow> c < 0x10000 \<Longrightarrow> escape_char True c = u_escape c"
  "0x10000 \<le> c \<Longrightarrow> escape_char True c =
     u_escape (0xD800 + (c - 0x10000) div 1024) @ u_escape (0xDC00 + (c - 0x10000) mod 1024)"
  "c \<le> 126 \<Longrightarrow> escape_char True c = escape_char False c"
  by (simp_all add: escape_char_def)

lemma scan_low_half_lone:
  assumes "0xD800 \<le> u" "u \<le> 0xDBFF" "c \<le> 0x10FFFF" "\<not> (0xDC00 \<le> c \<and> c \<le> 0xDFFF)"
  shows "scan_low_half u (escape_char True c @ r) = None"
proof -
  consider "c \<le> 126" | "126 < c" "c < 0x10000" | "0x10000 \<le> c" by linarith
  then show ?thesis
  proof cases
    case 1
    consider "c \<in> {34, 92, 10, 13, 9, 8, 12}" | "c < 32" "c \<notin> {34, 92, 10, 13, 9, 8, 12}"
      | "32 \<le> c" "c \<noteq> 34" "c \<noteq> 92" by fastforce
    then show ?thesis
    proof cases
      case 2
      then have "escape_char True c = u_escape c" by (simp add: escape_char_def)
      then show ?thesis using assms 1 by (simp add: scan_low_half_u_escape)
    qed (use 1 in \<open>auto simp: escape_char_def scan_low_half_def split: list.split\<close>)
  next
    case 2
    then show ?thesis using assms by (simp add: escape_char_ascii scan_low_half_u_escape)
  next
    case 3
    then have "(c - 0x10000) div 1024 < 1024" using assms(3) by (simp add: less_mult_imp_div_less)
    then show ?thesis using assms 3 by (simp add: escape_char_ascii scan_low_half_u_escape)
  qed
qed

lemma scan_string_escape_ascii:
  assumes "c \<le> 0x10FFFF" "0xD800 \<le> c \<and> c \<le> 0xDBFF \<Longrightarrow> scan_low_half c r = None"
  shows "scan_string (escape_char True c @ r) = push_char c (scan_string r)"
proof -
  consider "c \<le> 126" | "126 < c" "c < 0x10000" | "0x10000 \<le> c" by linarith
  then show ?thesis
  proof cases
    case 1
    then show ?thesis by (simp add: escape_char_ascii scan_string_escape_char)
  next
    case 2
    have "scan_low_half c r = None"
      using assms(2) by (cases "0xD800 \<le> c \<and> c \<le> 0xDBFF") (auto simp: scan_low_half_def)
    then show ?thesis using 2 by (simp add: escape_char_ascii scan_string_u_escape)
  next
    case 3
    define q m where qm: "q = (c - 0x10000) div 1024" "m = (c - 0x10000) mod 1024"
    have "q < 1024" "m < 1024" using assms(1) 3 by (simp_all add: qm less_mult_imp_div_less)
    moreover have c: "c = 0x10000 + q * 1024 + m"
      using 3 div_mult_mod_eq [of "c - 0x10000" 1024] unfolding qm by simp
    ultimately show ?thesis
      unfolding escape_char_ascii(2) [OF 3] qm [symmetric]
      by (simp add: scan_string_u_escape scan_low_half_u_escape)
  qed
qed

lemma scan_low_half_quote: "scan_low_half u (34 # rest) = None"
  by (auto simp: scan_low_half_def split: list.split)

lemma scan_string_ascii:
  "code_points s \<Longrightarrow> scan_string (concat (map (escape_char True) s) @ 34 # rest) = Some (join_pairs s, rest)"
proof (induction s rule: join_pairs.induct)
  case (1 u v s)
  let ?rest = "concat (map (escape_char True) (v # s)) @ 34 # rest"
  show ?case
  proof (cases "0xD800 \<le> u \<and> u \<le> 0xDBFF \<and> 0xDC00 \<le> v \<and> v \<le> 0xDFFF")
    case True
    then show ?thesis
      using 1 by (simp add: escape_char_ascii scan_string_u_escape scan_low_half_u_escape)
  next
    case False
    then have "scan_string (escape_char True u @ ?rest) = push_char u (scan_string ?rest)"
      using 1(3) by (intro scan_string_escape_ascii) (auto simp: scan_low_half_lone)
    then show ?thesis using 1 False by auto
  qed
qed (simp_all add: scan_string_unfold scan_string_escape_ascii scan_low_half_quote)

text \<open>The text after an opening quote that is read as a string, whatever follows it.\<close>

definition key_text :: "pystr \<Rightarrow> pystr \<Rightarrow> bool" where
  "key_text e k \<longleftrightarrow> (\<forall>r. scan_string (e @ r) = Some (k, r))"

definition heard :: "bool \<Rightarrow> pystr \<Rightarrow> pystr" where
  "heard ascii s = (if ascii then join_pairs s else s)"

lemma encode_string_key:
  assumes "ascii \<Longrightarrow> code_points s"
  obtains e where "encode_string ascii s = 34 # e" "key_text e (heard ascii s)"
proof -
  have "key_text (concat (map (escape_char ascii) s) @ [34]) (heard ascii s)"
    using assms by (cases ascii) (simp_all add: key_text_def heard_def scan_string_encoded scan_string_ascii)
  then show ?thesis using that by (simp add: encode_string_def)
qed

text \<open>White space between tokens does not count.\<close>

definition ws_indent :: "json_style \<Rightarrow> bool" where
  "ws_indent st \<longleftrightarrow> (case js_indent st of None \<Rightarrow> True | Some u \<Rightarrow> \<forall>c \<in> set u. is_ws c)"

text \<open>The layouts of the stores and of the canonical encoding.\<close>

definition ws_style :: "json_style \<Rightarrow> bool" where
  "ws_style st \<longleftrightarrow> \<not> js_ascii st \<and> ws_indent st"

lemma newline_ws: "ws_indent st \<Longrightarrow> \<forall>c \<in> set (newline st n). is_ws c"
  by (auto simp: ws_indent_def newline_def is_ws_def split: option.splits)

lemma skip_ws_append: "\<forall>c \<in> set w. is_ws c \<Longrightarrow> skip_ws (w @ r) = skip_ws r"
  by (simp add: skip_ws_def dropWhile_append)

lemma skip_ws_stop: "\<not> is_ws c \<Longrightarrow> skip_ws (c # r) = c # r"
  by (simp add: skip_ws_def)

lemma skip_ws_punct [simp]:
  "skip_ws (34 # r) = 34 # r" "skip_ws (44 # r) = 44 # r" "skip_ws (58 # r) = 58 # r"
  "skip_ws (91 # r) = 91 # r" "skip_ws (93 # r) = 93 # r"
  "skip_ws (123 # r) = 123 # r" "skip_ws (125 # r) = 125 # r" "skip_ws [] = []"
  by (simp_all add: skip_ws_def is_ws_def)

lemma delim_newline: "ws_indent st \<Longrightarrow> delim r \<Longrightarrow> delim (newline st n @ r)"
  by (auto simp: newline_def split: option.splits)

text \<open>A text that is read as one value, whatever follows it.\<close>

definition reads_as :: "bool \<Rightarrow> pystr \<Rightarrow> json \<Rightarrow> bool" where
  "reads_as nan t v \<longleftrightarrow>
     t \<noteq> [] \<and> \<not> is_ws (hd t) \<and> hd t \<notin> {93, 125} \<and>
     (\<forall>rest. delim rest \<longrightarrow> parse_value nan (t @ rest) = Some (v, rest))"

lemma reads_as_skip: "reads_as nan t v \<Longrightarrow> skip_ws (t @ r) = t @ r"
  by (cases t) (auto simp: reads_as_def skip_ws_stop)

lemma reads_as_value: "reads_as nan t v \<Longrightarrow> delim r \<Longrightarrow> parse_value nan (t @ r) = Some (v, r)"
  by (simp add: reads_as_def)

lemma reads_as_length: "reads_as nan t v \<Longrightarrow> length r < length (t @ r)"
  by (simp add: reads_as_def)

lemma parse_elems_join:
  assumes "list_all2 (reads_as nan) ts vs" "ts \<noteq> []"
    and "\<forall>c \<in> set w. is_ws c" "\<forall>c \<in> set w'. is_ws c" "\<And>r. delim r \<Longrightarrow> delim (w' @ r)"
  shows "parse_elems nan (join_with (44 # w) ts @ w' @ 93 # rest) = Some (vs, rest)"
  using assms(1,2)
proof (induction ts arbitrary: vs)
  case (Cons t ts)
  then obtain v us where vs: "vs = v # us" and t: "reads_as nan t v"
    and ts: "list_all2 (reads_as nan) ts us" by (auto simp: list_all2_Cons1)
  note len = reads_as_length [OF t]
  show ?case
  proof (cases ts)
    case Nil
    then show ?thesis
      using ts vs len assms(4) assms(5) [of "93 # rest"]
      by (subst parse_elems.simps) (simp add: reads_as_value [OF t] skip_ws_append)
  next
    case (Cons u us')
    let ?tail = "join_with (44 # w) ts @ w' @ 93 # rest"
    have "skip_ws (w @ ?tail) = ?tail"
      using ts Cons reads_as_skip assms(3)
      by (cases us') (auto simp: skip_ws_append list_all2_Cons1)
    moreover have "join_with (44 # w) (t # ts) @ w' @ 93 # rest = t @ 44 # w @ ?tail"
      using Cons by simp
    ultimately show ?thesis
      using Cons.IH [OF ts] Cons vs len [of "44 # w @ ?tail"]
      by (subst parse_elems.simps) (simp add: reads_as_value [OF t])
  qed
qed simp

lemma parse_members_join:
  assumes "list_all2 (\<lambda>m (k, v). \<exists>e t. m = 34 # e @ 58 # s @ t \<and> key_text e k \<and> reads_as nan t v) ms kvs"
    and "ms \<noteq> []" "distinct (map fst (d @ kvs))"
    and "\<forall>c \<in> set w. is_ws c" "\<forall>c \<in> set w'. is_ws c" "\<And>r. delim r \<Longrightarrow> delim (w' @ r)"
    and "\<forall>c \<in> set s. is_ws c"
  shows "parse_members nan d (join_with (44 # w) ms @ w' @ 125 # rest) = Some (d @ kvs, rest)"
  using assms(1,2,3)
proof (induction ms arbitrary: kvs d)
  case (Cons m ms)
  then obtain k v us e t where kvs: "kvs = (k, v) # us"
    and m: "m = 34 # e @ 58 # s @ t" and e: "key_text e k" and t: "reads_as nan t v"
    and ms: "list_all2 (\<lambda>m (k, v). \<exists>e t. m = 34 # e @ 58 # s @ t \<and> key_text e k \<and> reads_as nan t v) ms us"
    by (auto simp: list_all2_Cons1)
  have up: "AList.update k v d = d @ [(k, v)]"
    using Cons.prems(3) kvs by (intro update_new_key) auto
  have str: "scan_string (e @ 58 # s @ t @ r) = Some (k, 58 # s @ t @ r)" for r
    using e by (simp add: key_text_def)
  have val: "skip_ws (s @ t @ r) = t @ r" for r
    using assms(7) t by (simp add: skip_ws_append reads_as_skip)
  have step: "parse_members nan d (m @ r) =
      (case skip_ws r of [] \<Rightarrow> None
       | b' # r3 \<Rightarrow>
           if b' = 125 then Some (d @ [(k, v)], r3)
           else if b' = 44 then parse_members nan (d @ [(k, v)]) (skip_ws r3) else None)"
    if "delim r" for r
    using that unfolding m up [symmetric]
    by (subst parse_members.simps)
       (simp add: str val reads_as_value [OF t])
  show ?case
  proof (cases ms)
    case Nil
    then show ?thesis
      using ms kvs assms(5) assms(6) [of "125 # rest"] by (simp add: step skip_ws_append)
  next
    case (Cons m' ms')
    let ?tail = "join_with (44 # w) ms @ w' @ 125 # rest"
    have "\<exists>x. ?tail = 34 # x"
      using ms Cons by (cases ms') (auto simp: list_all2_Cons1)
    then have "skip_ws (w @ ?tail) = ?tail"
      using assms(4) by (auto simp: skip_ws_append)
    moreover have "join_with (44 # w) (m # ms) @ w' @ 125 # rest = m @ 44 # w @ ?tail"
      using Cons by simp
    moreover have "parse_members nan (d @ [(k, v)]) ?tail = Some ((d @ [(k, v)]) @ us, rest)"
      using Cons.IH [OF ms] Cons Cons.prems(3) kvs by simp
    ultimately show ?thesis
      using kvs by (simp add: step)
  qed
qed simp

section \<open>The round trip\<close>

lemma reads_as_literal:
  "reads_as nan (str_of ''null'') JNull"
  "reads_as nan (if b then str_of ''true'' else str_of ''false'') (JBool b)"
  by (auto simp: reads_as_def is_ws_def parse_value.simps scan_literal_def strip_prefix_def)

lemma reads_as_string:
  assumes "ascii \<Longrightarrow> code_points s"
  shows "reads_as nan (encode_string ascii s) (JStr (heard ascii s))"
proof -
  obtain e where "encode_string ascii s = 34 # e" "key_text e (heard ascii s)"
    using assms by (rule encode_string_key)
  then show ?thesis by (simp add: reads_as_def key_text_def is_ws_def parse_value.simps)
qed

lemma reads_as_number:
  assumes "scan_number t = Some (v, [])"
  shows "reads_as nan t v"
proof -
  have t: "t \<noteq> []" "hd t = 45 \<or> is_digit (hd t)"
    using assms by (auto simp: scan_number_def scan_unsigned_def split: list.splits if_splits)
  have m: "strip_prefix (str_of ''-Infinity'') (t @ rest) = None" for rest
    using assms t by (cases t; cases "tl t")
      (auto simp: strip_prefix_def scan_number_def scan_unsigned_def is_digit_def split: if_splits)
  show ?thesis
    using t m scan_number_append [OF assms]
    by (cases t) (auto simp: reads_as_def is_ws_def parse_value.simps is_digit_def)
qed

lemma reads_as_float:
  assumes "encode_float nan f = Inr t" "float_ok nan f"
  shows "reads_as nan t (JFloat f)"
proof (cases f)
  case (FFin a b c)
  with assms show ?thesis by (auto simp: encode_float_def float_ok_def intro: reads_as_number)
qed (use assms in \<open>auto simp: encode_float_def float_ok_def reads_as_def is_ws_def parse_value.simps
       scan_constant_def scan_literal_def strip_prefix_def split: if_splits\<close>)

lemma list_all2_imp_map:
  "list_all2 P xs ys \<Longrightarrow> (\<And>x y. x \<in> set xs \<Longrightarrow> P x y \<Longrightarrow> Q y (f x)) \<Longrightarrow> list_all2 Q ys (map f xs)"
  by (induction rule: list_all2_induct) auto

lemma sort_items_map_value:
  "sort_items (map (map_prod id g) d) = map (map_prod id g) (sort_items (d :: ('k :: linorder, 'v) dict))"
proof -
  have "insort_key fst (map_prod id g x) (map (map_prod id g) xs) = map (map_prod id g) (insort_key fst x xs)"
    for x and xs :: "('k, 'v) dict" by (induction xs) auto
  then show ?thesis unfolding sort_items_def by (induction d) auto
qed

lemma join_head: "ts \<noteq> [] \<Longrightarrow> hd ts = c # cs \<Longrightarrow> \<exists>x. join_with sep ts @ r = c # x"
  by (cases ts; cases "tl ts") auto

lemma parse_value_array:
  assumes "skip_ws cs = b # r" "b \<noteq> 93" "parse_elems nan (b # r) = Some (vs, rest)"
  shows "parse_value nan (91 # cs) = Some (JList vs, rest)"
  using assms by (simp add: parse_value.simps)

lemma parse_value_object:
  assumes "skip_ws cs = b # r" "b \<noteq> 125" "parse_members nan [] (b # r) = Some (d, rest)"
  shows "parse_value nan (123 # cs) = Some (JObj d, rest)"
  using assms by (simp add: parse_value.simps)

lemma reads_as_list:
  assumes "list_all2 (reads_as nan) ts vs" "ts \<noteq> []"
    and "\<forall>c \<in> set w. is_ws c" "\<forall>c \<in> set w'. is_ws c" "\<And>r. delim r \<Longrightarrow> delim (w' @ r)"
  shows "reads_as nan (91 # w @ join_with (44 # w) ts @ w' @ [93]) (JList vs)"
proof -
  obtain c cs where c: "hd ts = c # cs" "\<not> is_ws c" "c \<noteq> 93"
    using assms(1,2) by (cases ts; cases "hd ts") (auto simp: list_all2_Cons1 reads_as_def)
  have "parse_value nan (91 # w @ join_with (44 # w) ts @ w' @ 93 # rest) = Some (JList vs, rest)" for rest
  proof -
    obtain x where x: "join_with (44 # w) ts @ w' @ 93 # rest = c # x"
      using join_head [OF assms(2) c(1)] by blast
    have "skip_ws (w @ join_with (44 # w) ts @ w' @ 93 # rest) = c # x"
      using c by (simp add: skip_ws_append [OF assms(3)] x skip_ws_stop)
    then show ?thesis
      using c(3) parse_elems_join [OF assms, of rest] by (intro parse_value_array) (auto simp: x)
  qed
  then show ?thesis by (simp add: reads_as_def is_ws_def)
qed

lemma reads_as_object:
  assumes "list_all2 (\<lambda>m (k, v). \<exists>e t. m = 34 # e @ 58 # s @ t \<and> key_text e k \<and> reads_as nan t v) ms kvs"
    and "ms \<noteq> []" "distinct (map fst kvs)"
    and "\<forall>c \<in> set w. is_ws c" "\<forall>c \<in> set w'. is_ws c" "\<And>r. delim r \<Longrightarrow> delim (w' @ r)"
    and "\<forall>c \<in> set s. is_ws c"
  shows "reads_as nan (123 # w @ join_with (44 # w) ms @ w' @ [125]) (JObj kvs)"
proof -
  obtain cs where c: "hd ms = 34 # cs"
    using assms(1,2) by (cases ms) (auto simp: list_all2_Cons1)
  have "parse_value nan (123 # w @ join_with (44 # w) ms @ w' @ 125 # rest) = Some (JObj kvs, rest)" for rest
  proof -
    obtain x where x: "join_with (44 # w) ms @ w' @ 125 # rest = 34 # x"
      using join_head [OF assms(2) c] by blast
    have "skip_ws (w @ join_with (44 # w) ms @ w' @ 125 # rest) = 34 # x"
      by (simp add: skip_ws_append [OF assms(4)] x)
    then show ?thesis
      using parse_members_join [OF assms(1,2) _ assms(4,5,6,7), of "[]" rest] assms(3)
      by (intro parse_value_object) (auto simp: x)
  qed
  then show ?thesis by (simp add: reads_as_def is_ws_def)
qed

text \<open>The value a text is read as: strings joined when they were escaped.\<close>

definition heard_json :: "bool \<Rightarrow> json \<Rightarrow> json" where
  "heard_json ascii v = (if ascii then join_json v else v)"

lemma heard_json_simps [simp]:
  "heard_json a JNull = JNull" "heard_json a (JBool b) = JBool b" "heard_json a (JInt i) = JInt i"
  "heard_json a (JFloat f) = JFloat f" "heard_json a (JStr s) = JStr (heard a s)"
  "heard_json a (JList vs) = JList (map (heard_json a) vs)"
  "heard_json a (JObj kvs) = JObj (map (map_prod (heard a) (heard_json a)) kvs)"
proof -
  have f: "heard False = (\<lambda>s. s)" "heard_json False = (\<lambda>v. v)" "heard True = join_pairs" "heard_json True = join_json"
    by (simp_all add: heard_def heard_json_def fun_eq_iff)
  have id: "map_prod (\<lambda>s. s) (\<lambda>v. v) = (\<lambda>kv. kv)"
    by (simp add: fun_eq_iff)
  show "heard_json a JNull = JNull" "heard_json a (JBool b) = JBool b" "heard_json a (JInt i) = JInt i"
    "heard_json a (JFloat f) = JFloat f"
    unfolding heard_json_def by simp_all
  show "heard_json a (JStr s) = JStr (heard a s)" "heard_json a (JList vs) = JList (map (heard_json a) vs)"
    by (cases a; simp only: f join_json.simps list.map_ident)+
  show "heard_json a (JObj kvs) = JObj (map (map_prod (heard a) (heard_json a)) kvs)"
    by (cases a; simp only: f join_json.simps id list.map_ident list.map_comp map_prod.comp comp_id id_comp)
qed

lemma heard_sort_ok:
  "distinct (map (heard a \<circ> fst) kvs) \<longleftrightarrow> distinct (map (heard a \<circ> fst) (sort_items kvs))"
  for kvs :: "(pystr \<times> 'v) list"
proof -
  have "mset (map (heard a \<circ> fst) (sort_items kvs)) = mset (map (heard a \<circ> fst) kvs)"
    by (simp add: sort_items_def)
  then show ?thesis by (metis mset_eq_imp_distinct_iff)
qed

lemma json_ok_heard_obj:
  "json_ok nan (heard_json a (JObj kvs)) \<longleftrightarrow>
     distinct (map (heard a \<circ> fst) kvs) \<and> (\<forall>(k, v) \<in> set kvs. json_ok nan (heard_json a v))"
  by (auto simp: comp_def split_beta)

lemma json_dump_reads_as:
  "ws_indent st \<Longrightarrow> json_dump st n v = Inr t \<Longrightarrow> json_ok (js_nan st) v \<Longrightarrow> js_ascii st \<longrightarrow> json_chars v \<Longrightarrow>
     json_ok (js_nan st) (heard_json (js_ascii st) v) \<Longrightarrow>
     reads_as (js_nan st) t (heard_json (js_ascii st) (sort_json v))"
proof (induction "size v" arbitrary: v n t rule: less_induct)
  case less
  let ?nan = "js_nan st" and ?a = "js_ascii st"
  note ws = newline_ws [OF less.prems(1)] and dl = delim_newline [OF less.prems(1)]
  show ?case
  proof (cases v)
    case (JList vs)
    show ?thesis
    proof (cases "vs = []")
      case True
      with JList less.prems show ?thesis
        by (auto simp: reads_as_def is_ws_def parse_value.simps)
    next
      case False
      then obtain ts where ts: "traverse (json_dump st (Suc n)) vs = Inr ts"
        and t: "t = 91 # newline st (Suc n) @ join_with (44 # newline st (Suc n)) ts @ newline st n @ [93]"
        using JList less.prems(2) by (auto simp: result_simps)
      have all: "list_all2 (reads_as ?nan) ts (map (heard_json ?a \<circ> sort_json) vs)"
        using ts [unfolded traverse_Inr_iff]
      proof (rule list_all2_imp_map)
        fix x y assume "x \<in> set vs" "json_dump st (Suc n) x = Inr y"
        then show "reads_as ?nan y ((heard_json ?a \<circ> sort_json) x)"
          using less.hyps [of x] less.prems JList json_size_item [of x vs] by simp
      qed
      then have "ts \<noteq> []" using False by auto
      then show ?thesis unfolding JList t by (simp add: reads_as_list [OF all _ ws ws dl])
    qed
  next
    case (JObj kvs)
    show ?thesis
    proof (cases "kvs = []")
      case True
      with JObj less.prems show ?thesis
        by (auto simp: reads_as_def is_ws_def parse_value.simps sort_items_def)
    next
      case False
      define s where "s = (if js_indent st = None then [] else [32 :: nat])"
      have sep: "key_separator st = 58 # s" by (simp add: key_separator_def s_def)
      obtain ms where ms: "traverse (\<lambda>(k, v). bind_r (json_dump st (Suc n) v) (\<lambda>t.
             Inr (encode_string ?a k @ 58 # s @ t))) (sort_items kvs) = Inr ms"
        and t: "t = 123 # newline st (Suc n) @ join_with (44 # newline st (Suc n)) ms @ newline st n @ [125]"
        using JObj less.prems(2) False by (auto simp: result_simps sep)
      have all: "list_all2 (\<lambda>m (k, v). \<exists>e t. m = 34 # e @ 58 # s @ t \<and> key_text e k \<and> reads_as ?nan t v)
          ms (map (map_prod (heard ?a) (heard_json ?a \<circ> sort_json)) (sort_items kvs))"
        using ms [unfolded traverse_Inr_iff]
      proof (rule list_all2_imp_map)
        fix x m assume x: "x \<in> set (sort_items kvs)"
          and m: "(case x of (k, v) \<Rightarrow> bind_r (json_dump st (Suc n) v) (\<lambda>t.
             Inr (encode_string ?a k @ 58 # s @ t))) = Inr m"
        obtain k v where kv: "x = (k, v)" by fastforce
        then obtain t where t: "json_dump st (Suc n) v = Inr t" and m: "m = encode_string ?a k @ 58 # s @ t"
          using m by (auto simp: result_simps)
        have mem: "(k, v) \<in> set kvs" using x kv by simp
        then have "?a \<Longrightarrow> code_points k" and chars: "?a \<longrightarrow> json_chars v" and ok: "json_ok ?nan v"
          using less.prems(3,4) JObj by auto
        then obtain e where e: "encode_string ?a k = 34 # e" "key_text e (heard ?a k)"
          using encode_string_key by blast
        have "json_ok ?nan (heard_json ?a v)" using less.prems(5) mem unfolding JObj json_ok_heard_obj by auto
        then have "reads_as ?nan t (heard_json ?a (sort_json v))"
          using less.hyps [of v] less.prems(1) t ok chars JObj json_size_member [OF mem] by simp
        then show "case map_prod (heard ?a) (heard_json ?a \<circ> sort_json) x of (k, v) \<Rightarrow>
            \<exists>e t. m = 34 # e @ 58 # s @ t \<and> key_text e k \<and> reads_as ?nan t v"
          using e kv m by auto
      qed
      then have "ms \<noteq> []" using False by auto
      moreover have "distinct (map fst (map (map_prod (heard ?a) (heard_json ?a \<circ> sort_json)) (sort_items kvs)))"
        using less.prems(5) unfolding JObj json_ok_heard_obj by (simp add: comp_def heard_sort_ok [symmetric, unfolded comp_def])
      moreover have "heard_json ?a (sort_json v) = JObj (map (map_prod (heard ?a) (heard_json ?a \<circ> sort_json)) (sort_items kvs))"
        by (simp add: JObj sort_items_map_value map_prod.comp)
      ultimately show ?thesis
        unfolding t by (simp add: reads_as_object [OF all _ _ ws ws dl] s_def is_ws_def)
    qed
  next
    case JNull
    with less.prems reads_as_literal(1) show ?thesis by simp
  next
    case (JBool b)
    with less.prems reads_as_literal(2) [of ?nan b] show ?thesis by simp
  qed (use less.prems in \<open>auto intro: reads_as_string reads_as_float reads_as_number scan_number_show_int\<close>)
qed

lemma json_heard:
  assumes "ws_indent st" "json_ok (js_nan st) v" "json_dumps st v = Inr t" "js_ascii st \<longrightarrow> json_chars v"
    and "json_ok (js_nan st) (heard_json (js_ascii st) v)"
  shows "json_loads (js_nan st) t = Inr (heard_json (js_ascii st) (sort_json v))"
proof -
  have "reads_as (js_nan st) t (heard_json (js_ascii st) (sort_json v))"
    using json_dump_reads_as assms by (simp add: json_dumps_def)
  then show ?thesis
    using reads_as_skip [of _ t _ "[]"] reads_as_value [of _ t _ "[]"]
    by (simp add: json_loads_def)
qed

theorem json_roundtrip:
  assumes "ws_style st" "json_ok (js_nan st) v" "json_dumps st v = Inr t"
  shows "json_loads (js_nan st) t = Inr (sort_json v)"
  using json_heard [of st v t] assms by (simp add: ws_style_def heard_json_def)

section \<open>Writing is total and forgets only the order of keys\<close>

lemma encode_float_total: "float_ok nan f \<Longrightarrow> \<exists>t. encode_float nan f = Inr t"
  by (cases f) (auto simp: float_ok_def encode_float_def)

lemma json_dump_total: "json_ok (js_nan st) v \<Longrightarrow> \<exists>t. json_dump st n v = Inr t"
proof (induction "size v" arbitrary: v n rule: less_induct)
  case less
  show ?case
  proof (cases v)
    case (JList vs)
    have "\<exists>ts. traverse (json_dump st (Suc n)) vs = Inr ts"
      using less JList json_size_item by (intro traverse_total) auto
    with JList show ?thesis by (auto simp: bind_r_Inr_iff)
  next
    case (JObj kvs)
    have "\<exists>ts. traverse (\<lambda>(k, v). bind_r (json_dump st (Suc n) v) (\<lambda>t.
             Inr (encode_string (js_ascii st) k @ key_separator st @ t))) (sort_items kvs) = Inr ts"
      using less JObj json_size_member by (intro traverse_total) (fastforce simp: bind_r_Inr_iff)
    with JObj show ?thesis by (auto simp: bind_r_Inr_iff)
  qed (use less.prems in \<open>auto simp: encode_float_total\<close>)
qed

lemma json_dump_error:
  "json_dump st n v = Inl e \<Longrightarrow> e = ValueError"
proof (induction "size v" arbitrary: v n e rule: less_induct)
  case less
  show ?case
  proof (cases v)
    case (JList vs)
    with less show ?thesis
      using json_size_item by (fastforce simp: bind_r_Inl_iff split: if_splits dest!: traverse_ex_Inl)
  next
    case (JObj kvs)
    with less show ?thesis
      using json_size_member by (fastforce simp: bind_r_Inl_iff split: if_splits dest!: traverse_ex_Inl)
  qed (use less.prems in \<open>auto simp: encode_float_def split: pyfloat.splits if_splits\<close>)
qed

lemma json_dump_sort_json: "json_dump st n (sort_json v) = json_dump st n v"
proof (induction "size v" arbitrary: v n rule: less_induct)
  case less
  show ?case
  proof (cases v)
    case (JList vs)
    have "traverse (json_dump st (Suc n)) (map sort_json vs) = traverse (json_dump st (Suc n)) vs"
      using less JList json_size_item [of _ vs] by (simp add: traverse_map cong: traverse_cong)
    with JList show ?thesis by simp
  next
    case (JObj kvs)
    let ?f = "\<lambda>(k, v). bind_r (json_dump st (Suc n) v) (\<lambda>t.
             Inr (encode_string (js_ascii st) k @ key_separator st @ t))"
    have "traverse ?f (map (map_prod id sort_json) (sort_items kvs)) = traverse ?f (sort_items kvs)"
      unfolding traverse_map
      by (rule traverse_cong) (use less JObj json_size_member [of _ _ kvs] in \<open>auto split: prod.splits\<close>)
    with JObj show ?thesis
      by (auto simp: sort_items_map_value)
  qed simp_all
qed

lemma sort_json_ok: "json_ok nan (sort_json v) \<longleftrightarrow> json_ok nan v"
proof (induction "size v" arbitrary: v rule: less_induct)
  case less
  show ?case
  proof (cases v)
    case (JList vs)
    with less json_size_item [of _ vs] show ?thesis by auto
  next
    case (JObj kvs)
    with less json_size_member [of _ _ kvs] show ?thesis
      by (fastforce simp: sort_items_map_value comp_def)
  qed simp_all
qed

lemma sort_json_idem [simp]: "sort_json (sort_json v) = sort_json v"
proof (induction "size v" arbitrary: v rule: less_induct)
  case less
  show ?case
  proof (cases v)
    case (JObj kvs)
    with less json_size_member [of _ _ kvs] show ?thesis
      by (auto simp: sort_items_map_value map_prod.comp)
  qed (use less json_size_item in auto)
qed

text \<open>Equal texts are equal values but for the order of keys.\<close>

theorem json_dumps_eq_iff:
  assumes "ws_style st" "json_ok (js_nan st) v" "json_ok (js_nan st) w"
  shows "json_dumps st v = json_dumps st w \<longleftrightarrow> sort_json v = sort_json w"
proof
  assume eq: "json_dumps st v = json_dumps st w"
  obtain t where t: "json_dumps st v = Inr t"
    using json_dump_total [OF assms(2)] by (auto simp: json_dumps_def)
  show "sort_json v = sort_json w"
    using json_roundtrip [OF assms(1,2) t] json_roundtrip [OF assms(1,3)] t eq by simp
next
  assume "sort_json v = sort_json w"
  then show "json_dumps st v = json_dumps st w"
    unfolding json_dumps_def by (metis json_dump_sort_json)
qed

section \<open>Characters of the text\<close>

function json_scalar :: "json \<Rightarrow> bool" where
  "json_scalar JNull = True"
| "json_scalar (JBool b) = True"
| "json_scalar (JInt i) = True"
| "json_scalar (JFloat f) = True"
| "json_scalar (JStr s) = scalar_str s"
| "json_scalar (JList vs) = (\<forall>v \<in> set vs. json_scalar v)"
| "json_scalar (JObj kvs) = (\<forall>(k, v) \<in> set kvs. scalar_str k \<and> json_scalar v)"
  by pat_completeness auto
termination
  by (relation "measure size") (auto dest: json_size_item json_size_member)

lemma takeWhile_digits_scalar: "scalar_str (takeWhile is_digit s)"
  by (auto simp: list_all_iff is_digit_def dest!: set_takeWhileD)

lemma scan_exponent_scalar: "scan_exponent s = (x, r) \<Longrightarrow> scalar_str r \<Longrightarrow> scalar_str s"
proof (cases s)
  case (Cons c cs)
  assume *: "scan_exponent s = (x, r)" "scalar_str r"
  show ?thesis
  proof (cases "x = None")
    case True
    with * Cons show ?thesis by (auto simp: scan_exponent_def Let_def split: if_splits)
  next
    case False
    let ?t = "if cs \<noteq> [] \<and> (hd cs = 45 \<or> hd cs = 43) then tl cs else cs"
    have "c = 101 \<or> c = 69" "r = dropWhile is_digit ?t"
      using * Cons False by (auto simp: scan_exponent_def Let_def split: if_splits)
    moreover have "scalar_str ?t"
      using *(2) calculation(2) takeWhile_digits_scalar [of ?t]
      by (metis list_all_append takeWhile_dropWhile_id)
    ultimately show ?thesis
      using Cons by (cases cs) (auto split: if_splits)
  qed
qed (auto simp: scan_exponent_def)

lemma scan_fraction_scalar: "scan_fraction s = (x, r) \<Longrightarrow> scalar_str r \<Longrightarrow> scalar_str s"
  using takeWhile_digits_scalar
  by (auto simp: scan_fraction_def is_digit_def split: list.splits if_splits)
     (metis list_all_append takeWhile_dropWhile_id)

lemma scan_unsigned_scalar: "scan_unsigned neg s = Some (v, []) \<Longrightarrow> scalar_str s"
proof -
  assume a: "scan_unsigned neg s = Some (v, [])"
  then obtain d ds where s: "s = d # ds" and d: "is_digit d"
    by (auto simp: scan_unsigned_def split: list.splits if_splits)
  define r0 where "r0 = (if d = 48 then ds else dropWhile is_digit (d # ds))"
  obtain fp r1 where f: "scan_fraction r0 = (fp, r1)" by fastforce
  obtain x r2 where x: "scan_exponent r1 = (x, r2)" by fastforce
  have "r2 = []"
    using a d f x unfolding s
    by (simp add: scan_unsigned_def Let_def flip: r0_def del: takeWhile.simps dropWhile.simps)
  then have "scalar_str r0"
    using scan_fraction_scalar [OF f] scan_exponent_scalar [OF x] by simp
  moreover have "is_scalar d" using d by (auto simp: is_digit_def)
  ultimately show ?thesis
    using takeWhile_digits_scalar [of s] unfolding s r0_def
    by (cases "d = 48") (simp, metis list_all_append takeWhile_dropWhile_id)
qed

lemma scan_number_scalar: "scan_number s = Some (v, []) \<Longrightarrow> scalar_str s"
  by (cases s) (auto simp: scan_number_def split: if_splits dest: scan_unsigned_scalar)

lemma hex4_scalar: "scalar_str (hex4 c)"
proof -
  have "is_scalar (48 + x)" "is_scalar (87 + x)" if "x < 16" for x using that by simp_all
  then show ?thesis by (auto simp: hex4_def list_all_iff Let_def)
qed

lemma escape_char_scalar: "scalar_str (escape_char a c) \<longleftrightarrow> a \<or> is_scalar c"
  using hex4_scalar by (auto simp: escape_char_def u_escape_def)

lemma encode_string_scalar: "scalar_str (encode_string a s) \<longleftrightarrow> a \<or> scalar_str s"
  unfolding encode_string_def by (induction s) (auto simp: escape_char_scalar)

lemma newline_scalar: "ws_indent st \<Longrightarrow> scalar_str (newline st n)"
  using newline_ws [of st n] by (auto simp: list_all_iff is_ws_def)

lemma join_with_scalar:
  "scalar_str sep \<Longrightarrow> scalar_str (join_with sep ts) \<longleftrightarrow> (\<forall>t \<in> set ts. scalar_str t)"
  by (induction sep ts rule: join_with.induct) auto

lemma scalar_str_of_nat: "scalar_str (show_nat n)"
  by (auto simp: list_all_iff is_digit_def dest!: show_nat_digits)

lemma encode_float_scalar: "encode_float nan f = Inr t \<Longrightarrow> float_ok nan f \<Longrightarrow> scalar_str t"
  by (cases f) (auto simp: encode_float_def float_ok_def dest: scan_number_scalar split: if_splits)

lemma json_dump_encodable:
  "ws_indent st \<Longrightarrow> json_ok (js_nan st) v \<Longrightarrow> json_dump st n v = Inr t \<Longrightarrow>
     scalar_str t \<longleftrightarrow> js_ascii st \<or> json_scalar v"
proof (induction "size v" arbitrary: v n t rule: less_induct)
  case less
  note nl [simp] = newline_scalar [OF less.prems(1)]
  have [simp]: "scalar_str (key_separator st)" by (simp add: key_separator_def)
  let ?a = "js_ascii st"
  show ?case
  proof (cases v)
    case (JList vs)
    show ?thesis
    proof (cases "vs = []")
      case False
      then obtain ts where ts: "list_all2 (\<lambda>v t. json_dump st (Suc n) v = Inr t) vs ts"
        and t: "t = 91 # newline st (Suc n) @ join_with (44 # newline st (Suc n)) ts @ newline st n @ [93]"
        using JList less.prems(3) by (auto simp: result_simps traverse_Inr_iff)
      have "list_all2 (\<lambda>v t. scalar_str t \<longleftrightarrow> ?a \<or> json_scalar v) vs ts"
        using ts by (rule list.rel_mono_strong) (use less JList json_size_item [of _ vs] in auto)
      then show ?thesis
        unfolding t JList by (induction vs ts rule: list_all2_induct) (auto simp: join_with_scalar)
    qed (use JList less.prems in auto)
  next
    case (JObj kvs)
    show ?thesis
    proof (cases "kvs = []")
      case False
      let ?f = "\<lambda>(k, v). bind_r (json_dump st (Suc n) v) (\<lambda>t.
             Inr (encode_string ?a k @ key_separator st @ t))"
      obtain ts where ts: "list_all2 (\<lambda>x t. ?f x = Inr t) (sort_items kvs) ts"
        and t: "t = 123 # newline st (Suc n) @ join_with (44 # newline st (Suc n)) ts @ newline st n @ [125]"
        using False JObj less.prems(3) by (auto simp: result_simps traverse_Inr_iff)
      have "list_all2 (\<lambda>(k, v) t. scalar_str t \<longleftrightarrow> ?a \<or> scalar_str k \<and> json_scalar v) (sort_items kvs) ts"
        using ts
      proof (rule list.rel_mono_strong)
        fix x t assume x: "x \<in> set (sort_items kvs)" and "t \<in> set ts" and t: "?f x = Inr t"
        obtain k v where kv: "x = (k, v)" by fastforce
        then obtain u where u: "json_dump st (Suc n) v = Inr u"
          and t': "t = encode_string ?a k @ key_separator st @ u"
          using t by (auto simp: result_simps)
        have "json_ok (js_nan st) v" using less.prems(2) JObj x kv by auto
        then have "scalar_str u \<longleftrightarrow> ?a \<or> json_scalar v"
          using less.hyps [of v] u less.prems(1) JObj json_size_member [of k v kvs] x kv by simp
        then show "(case x of (k, v) \<Rightarrow> \<lambda>t. scalar_str t \<longleftrightarrow> ?a \<or> scalar_str k \<and> json_scalar v) t"
          by (auto simp: kv t' encode_string_scalar)
      qed
      then have "(\<forall>t \<in> set ts. scalar_str t) \<longleftrightarrow> (\<forall>(k, v) \<in> set (sort_items kvs). ?a \<or> scalar_str k \<and> json_scalar v)"
        by (auto simp: list_all2_conv_all_nth all_set_conv_all_nth split_beta simp del: set_sort_items)
      then show ?thesis unfolding t JObj by (cases ?a) (simp_all add: join_with_scalar)
    qed (use JObj less.prems in auto)
  qed (use less.prems in \<open>auto simp: encode_string_scalar scalar_str_of_nat show_int_def
         encode_float_scalar\<close>)
qed

lemma json_dump_scalar:
  "ws_style st \<Longrightarrow> json_ok (js_nan st) v \<Longrightarrow> json_dump st n v = Inr t \<Longrightarrow>
     scalar_str t \<longleftrightarrow> json_scalar v"
  using json_dump_encodable [of st v n t] by (simp add: ws_style_def)

text \<open>Without surrogates there is nothing to join.\<close>

lemma join_pairs_scalar: "scalar_str s \<Longrightarrow> join_pairs s = s"
  by (induction s rule: join_pairs.induct) (auto simp: is_scalar_def is_surrogate_def)

lemma join_json_scalar: "json_scalar v \<Longrightarrow> join_json v = v"
proof (induction "size v" arbitrary: v rule: less_induct)
  case less
  show ?case
  proof (cases v)
    case (JList vs)
    with less json_size_item [of _ vs] show ?thesis by (auto intro: map_idI)
  next
    case (JObj kvs)
    with less json_size_member [of _ _ kvs] show ?thesis by (fastforce simp: join_pairs_scalar intro!: map_idI)
  qed (use less.prems in \<open>simp_all add: join_pairs_scalar\<close>)
qed

lemma scalar_code_points: "scalar_str s \<Longrightarrow> code_points s"
  by (auto simp: list_all_iff is_scalar_def)

lemma json_scalar_chars: "json_scalar v \<Longrightarrow> json_chars v"
proof (induction "size v" arbitrary: v rule: less_induct)
  case less
  then show ?case
    by (cases v) (fastforce dest: json_size_item json_size_member simp: scalar_code_points)+
qed

lemma json_scalar_sort: "json_scalar (sort_json v) \<longleftrightarrow> json_scalar v"
proof (induction "size v" arbitrary: v rule: less_induct)
  case less
  show ?case
  proof (cases v)
    case (JList vs)
    with less json_size_item [of _ vs] show ?thesis by auto
  next
    case (JObj kvs)
    with less json_size_member [of _ _ kvs] show ?thesis by (fastforce simp: sort_items_map_value)
  qed simp_all
qed

end
