(* ===== verification/Sha256.thy ===== *)
theory Sha256
  imports Text
begin

text \<open>
  \<open>hashlib.sha256(data).hexdigest()\<close> of the Python standard library, after FIPS 180-4: the
  padding, the message schedule and the 64 rounds on 32-bit words, and the lowercase
  hexadecimal spelling. The components only use that the digest is a non-empty string of
  hexadecimal digits.
\<close>

unbundle bit_operations_syntax

type_synonym word32 = "32 word"

text \<open>
  The constants are the first 32 fractional bits of the cube roots of the first 64 primes, and of
  the square roots of the first 8: the integer root of \<open>p\<close> shifted left, cut to a word.
\<close>

definition primes_below :: "nat \<Rightarrow> nat list" where
  "primes_below n = filter (\<lambda>p. \<forall>d \<in> set [2..<p]. p mod d \<noteq> 0) [2..<n]"

definition integer_root :: "nat \<Rightarrow> nat \<Rightarrow> nat" where
  "integer_root k n = foldl (\<lambda>r b. if (r + 2 ^ b) ^ k \<le> n then r + 2 ^ b else r) 0 (rev [0..<40])"

definition sha_k :: "word32 list" where
  "sha_k = map (\<lambda>p. of_nat (integer_root 3 (p * 2 ^ 96))) (primes_below 312)"

definition sha_init :: "word32 list" where
  "sha_init = map (\<lambda>p. of_nat (integer_root 2 (p * 2 ^ 64))) (primes_below 20)"

definition big_endian :: "nat \<Rightarrow> nat \<Rightarrow> bytes" where
  "big_endian n x = map (\<lambda>i. of_nat (x div 256 ^ (n - 1 - i))) [0..<n]"

definition sha_pad :: "bytes \<Rightarrow> bytes" where
  "sha_pad m =
     m @ [0x80] @ replicate ((119 - length m mod 64) mod 64) 0 @ big_endian 8 (8 * length m)"

fun sha_words :: "bytes \<Rightarrow> word32 list" where
  "sha_words (a # b # c # d # r) =
     of_nat (((unat a * 256 + unat b) * 256 + unat c) * 256 + unat d) # sha_words r"
| "sha_words _ = []"

fun sha_blocks :: "word32 list \<Rightarrow> word32 list list" where
  "sha_blocks [] = []"
| "sha_blocks (w # ws) = (w # take 15 ws) # sha_blocks (drop 15 ws)"

definition sha_sigma0 :: "word32 \<Rightarrow> word32" where
  "sha_sigma0 x = word_rotr 7 x XOR word_rotr 18 x XOR drop_bit 3 x"

definition sha_sigma1 :: "word32 \<Rightarrow> word32" where
  "sha_sigma1 x = word_rotr 17 x XOR word_rotr 19 x XOR drop_bit 10 x"

text \<open>The schedule is built newest word first.\<close>

fun sha_extend :: "nat \<Rightarrow> word32 list \<Rightarrow> word32 list" where
  "sha_extend 0 ws = ws"
| "sha_extend (Suc n) ws =
     sha_extend n ((sha_sigma1 (ws ! 1) + ws ! 6 + sha_sigma0 (ws ! 14) + ws ! 15) # ws)"

definition sha_schedule :: "word32 list \<Rightarrow> word32 list" where
  "sha_schedule block = rev (sha_extend 48 (rev block))"

fun sha_round :: "word32 list \<Rightarrow> word32 \<times> word32 \<Rightarrow> word32 list" where
  "sha_round [a, b, c, d, e, f, g, h] (k, w) =
     (let s1 = word_rotr 6 e XOR word_rotr 11 e XOR word_rotr 25 e;
          ch = (e AND f) XOR (NOT e AND g);
          t1 = h + s1 + ch + k + w;
          s0 = word_rotr 2 a XOR word_rotr 13 a XOR word_rotr 22 a;
          maj = (a AND b) XOR (a AND c) XOR (b AND c)
      in [t1 + s0 + maj, a, b, c, d + t1, e, f, g])"
| "sha_round st _ = st"

definition sha_compress :: "word32 list \<Rightarrow> word32 list \<Rightarrow> word32 list" where
  "sha_compress st block =
     map2 (+) st (foldl sha_round st (zip sha_k (sha_schedule block)))"

definition lower_hex :: "nat \<Rightarrow> nat" where
  "lower_hex n = (if n < 10 then 48 + n else 87 + n)"

definition word32_hex :: "word32 \<Rightarrow> pystr" where
  "word32_hex w = map (\<lambda>i. lower_hex (unat w div 16 ^ (7 - i) mod 16)) [0..<8]"

definition sha256_hexdigest :: "bytes \<Rightarrow> pystr" where
  "sha256_hexdigest m =
     concat (map word32_hex (foldl sha_compress sha_init (sha_blocks (sha_words (sha_pad m)))))"

lemma length_sha_round: "length (sha_round st kw) = length st"
  by (cases "(st, kw)" rule: sha_round.cases) (auto simp: Let_def)

lemma length_foldl_round: "length (foldl sha_round st kws) = length st"
  by (induction kws arbitrary: st) (auto simp: length_sha_round)

lemma length_foldl_compress: "length (foldl sha_compress st bs) = length st"
  by (induction bs arbitrary: st) (auto simp: sha_compress_def length_foldl_round)

lemma lower_hex_unreserved: "n < 16 \<Longrightarrow> is_unreserved (lower_hex n)"
  by (auto simp: lower_hex_def is_unreserved_def)

lemma sha256_hexdigest_chars: "c \<in> set (sha256_hexdigest m) \<Longrightarrow> is_unreserved c"
  by (auto simp: sha256_hexdigest_def word32_hex_def lower_hex_unreserved)

lemma sha256_hexdigest_nonempty [simp]: "sha256_hexdigest m \<noteq> []"
proof -
  have "2 \<in> set (primes_below 20)" by (simp add: primes_below_def)
  then have "sha_init \<noteq> []" by (auto simp: sha_init_def)
  then have "foldl sha_compress sha_init (sha_blocks (sha_words (sha_pad m))) \<noteq> []"
    using length_foldl_compress [of sha_init] by (metis length_0_conv)
  then show ?thesis by (auto simp: sha256_hexdigest_def neq_Nil_conv word32_hex_def)
qed

lemma sha256_hexdigest_scalar: "scalar_str (sha256_hexdigest m)"
  by (auto simp: list_all_iff is_unreserved_def dest!: sha256_hexdigest_chars intro!: is_scalar_small)

end
