(* ===== verification/Identity.thy ===== *)
theory Identity
  imports Text
begin

text \<open>
  The value objects of \<open>_types/\<close>: domain identifiers, domain versions and the map of them a
  session carries, execution names, argument digests, session identifiers, the recursive
  \<open>ExecutionId\<close> and the scope its ordinal counts within.

  Each class is a datatype and a constructor \<open>mk_...\<close> that runs \<open>__post_init__\<close>: the raised
  exception or the object. What every object obtained through it satisfies is the predicate
  \<open>valid_...\<close>; the lemmas \<open>mk_..._iff\<close> say that the two agree. The regular expressions of the
  source are spelled out over code points.
\<close>

section \<open>Domains\<close>

datatype domain_id = DomainId (domain_id_value: pystr)

definition domain_start :: "nat \<Rightarrow> bool" where
  "domain_start c \<longleftrightarrow> (97 \<le> c \<and> c \<le> 122) \<or> is_digit c"

definition domain_char :: "nat \<Rightarrow> bool" where
  "domain_char c \<longleftrightarrow> domain_start c \<or> c = 95 \<or> c = 45"

definition domain_segment :: "pystr \<Rightarrow> bool" where
  "domain_segment s \<longleftrightarrow> s \<noteq> [] \<and> domain_start (hd s) \<and> list_all domain_char (tl s)"

text \<open>Segments joined by dots, each starting with a letter or a digit: the pattern \<open>_DOMAIN_ID\<close>.\<close>

definition domain_id_fullmatch :: "pystr \<Rightarrow> bool" where
  "domain_id_fullmatch s \<longleftrightarrow> list_all domain_segment (split_on 46 s)"

definition mk_domain_id :: "pystr \<Rightarrow> exn + domain_id" where
  "mk_domain_id s = (if \<not> domain_id_fullmatch s then Inl ValueError else Inr (DomainId s))"

definition valid_domain_id :: "domain_id \<Rightarrow> bool" where
  "valid_domain_id d \<longleftrightarrow> domain_id_fullmatch (domain_id_value d)"

datatype domain_version = DomainVersion (domain_version_value: pystr)

definition mk_domain_version :: "pystr \<Rightarrow> exn + domain_version" where
  "mk_domain_version s = (if s = [] then Inl ValueError else Inr (DomainVersion s))"

definition valid_domain_version :: "domain_version \<Rightarrow> bool" where
  "valid_domain_version v \<longleftrightarrow> domain_version_value v \<noteq> []"

lemma mk_domain_id_iff: "mk_domain_id s = Inr d \<longleftrightarrow> valid_domain_id d \<and> domain_id_value d = s"
  by (cases d) (auto simp: mk_domain_id_def valid_domain_id_def)

lemma mk_domain_version_iff:
  "mk_domain_version s = Inr v \<longleftrightarrow> valid_domain_version v \<and> domain_version_value v = s"
  by (cases v) (auto simp: mk_domain_version_def valid_domain_version_def)

text \<open>Domain identifiers order by their text, which is what sorting their values does.\<close>

instantiation domain_id :: linorder
begin

definition less_eq_domain_id :: "domain_id \<Rightarrow> domain_id \<Rightarrow> bool" where
  "less_eq_domain_id a b \<longleftrightarrow> domain_id_value a \<le> domain_id_value b"

definition less_domain_id :: "domain_id \<Rightarrow> domain_id \<Rightarrow> bool" where
  "less_domain_id a b \<longleftrightarrow> domain_id_value a < domain_id_value b"

instance
  by standard (auto simp: less_eq_domain_id_def less_domain_id_def domain_id.expand)

end

subsection \<open>The version map of a session\<close>

text \<open>A key or a version handed to \<open>DomainVersionMap\<close>: the object, its text, or neither.\<close>

datatype 'a given = Given 'a | GivenStr pystr | GivenOther

fun given_domain_id :: "domain_id given \<Rightarrow> exn + domain_id" where
  "given_domain_id (Given d) = Inr d"
| "given_domain_id (GivenStr s) = mk_domain_id s"
| "given_domain_id GivenOther = Inl TypeError"

fun given_domain_version :: "domain_version given \<Rightarrow> exn + domain_version" where
  "given_domain_version (Given v) = Inr v"
| "given_domain_version (GivenStr s) = mk_domain_version s"
| "given_domain_version GivenOther = Inl TypeError"

datatype domain_version_map = DomainVersionMap (dvm_versions: "(domain_id, domain_version) dict")

fun normalize_versions ::
    "(domain_id, domain_version) dict \<Rightarrow> (domain_id given \<times> domain_version given) list
       \<Rightarrow> exn + (domain_id, domain_version) dict" where
  "normalize_versions normalized [] = Inr normalized"
| "normalize_versions normalized ((d, v) # items) =
     (if d = GivenOther \<or> v = GivenOther then Inl TypeError
      else bind_r (given_domain_id d) (\<lambda>normalized_id.
        if map_of normalized normalized_id \<noteq> None then Inl ValueError
        else bind_r (given_domain_version v) (\<lambda>version.
          normalize_versions (AList.update normalized_id version normalized) items)))"

definition mk_domain_version_map ::
    "(domain_id given \<times> domain_version given) list \<Rightarrow> exn + domain_version_map" where
  "mk_domain_version_map items =
     bind_r (normalize_versions [] items) (\<lambda>normalized. Inr (DomainVersionMap normalized))"

definition dvm_get :: "domain_version_map \<Rightarrow> domain_id \<Rightarrow> exn + domain_version" where
  "dvm_get m d = (case map_of (dvm_versions m) d of None \<Rightarrow> Inl KeyError | Some v \<Rightarrow> Inr v)"

definition dvm_lookup :: "domain_version_map \<Rightarrow> domain_id \<Rightarrow> domain_version option" where
  "dvm_lookup m d = map_of (dvm_versions m) d"

definition dvm_len :: "domain_version_map \<Rightarrow> nat" where
  "dvm_len m = length (dvm_versions m)"

text \<open>Two maps are equal as Python objects when they record the same versions.\<close>

definition dvm_eq :: "domain_version_map \<Rightarrow> domain_version_map \<Rightarrow> bool" where
  "dvm_eq m n \<longleftrightarrow>
     length (dvm_versions m) = length (dvm_versions n) \<and>
     list_all (\<lambda>(d, v). map_of (dvm_versions n) d = Some v) (dvm_versions m)"

definition dvm_replacing ::
    "domain_version_map \<Rightarrow> (domain_id, domain_version) dict \<Rightarrow> exn + domain_version_map" where
  "dvm_replacing m replacements =
     mk_domain_version_map
       (map (\<lambda>(d, v). (Given d, Given v))
          (fold (\<lambda>(d, v). AList.update d v) replacements (dvm_versions m)))"

definition valid_dvm :: "domain_version_map \<Rightarrow> bool" where
  "valid_dvm m \<longleftrightarrow> distinct (map fst (dvm_versions m))"

lemma normalize_versions_given:
  "distinct (map fst acc @ map fst items) \<Longrightarrow>
   normalize_versions acc (map (\<lambda>(d, v). (Given d, Given v)) items) = Inr (acc @ items)"
proof (induction items arbitrary: acc)
  case (Cons p items)
  obtain d v where p: "p = (d, v)" by (cases p)
  have "map_of acc d = None" using Cons.prems by (auto simp: p map_of_eq_None_iff)
  moreover have "AList.update d v acc = acc @ [(d, v)]"
    using Cons.prems by (induction acc) (auto simp: p)
  moreover have "distinct (map fst (acc @ [(d, v)]) @ map fst items)"
    using Cons.prems by (auto simp: p)
  moreover have "\<forall>y. (d, y) \<notin> set acc"
    using Cons.prems by (force simp: p)
  ultimately show ?case using Cons.IH [of "acc @ [(d, v)]"] by (simp add: p)
qed simp

lemma normalize_versions_distinct:
  "normalize_versions acc items = Inr m \<Longrightarrow> distinct (map fst acc) \<Longrightarrow> distinct (map fst m)"
  by (induction acc items rule: normalize_versions.induct)
     (auto simp: result_simps split: if_splits)

lemma mk_domain_version_map_valid: "mk_domain_version_map items = Inr m \<Longrightarrow> valid_dvm m"
  by (auto simp: mk_domain_version_map_def valid_dvm_def result_simps
      dest: normalize_versions_distinct)

lemma fold_update_distinct:
  "distinct (map fst d) \<Longrightarrow> distinct (map fst (fold (\<lambda>(k, v). AList.update k v) xs d))"
  by (induction xs arbitrary: d) auto

lemma map_of_fold_update:
  "map_of (fold (\<lambda>(k, v). AList.update k v) xs d) = map_of d ++ map_of (rev xs)"
  by (induction xs arbitrary: d) (auto simp: map_add_assoc map_add_upd fun_eq_iff map_add_def split: option.splits)

lemma dvm_replacing_total:
  assumes "valid_dvm m"
  shows "dvm_replacing m rs =
    Inr (DomainVersionMap (fold (\<lambda>(d, v). AList.update d v) rs (dvm_versions m)))"
  using normalize_versions_given [of "[]" "fold (\<lambda>(d, v). AList.update d v) rs (dvm_versions m)"]
    fold_update_distinct [of "dvm_versions m" rs] assms
  by (simp add: dvm_replacing_def mk_domain_version_map_def valid_dvm_def)

section \<open>Names, digests, sessions\<close>

datatype execution_name = ExecutionName (execution_name_value: pystr)

definition mk_execution_name :: "pystr \<Rightarrow> exn + execution_name" where
  "mk_execution_name s = (if s = [] then Inl ValueError else Inr (ExecutionName s))"

definition valid_execution_name :: "execution_name \<Rightarrow> bool" where
  "valid_execution_name n \<longleftrightarrow> execution_name_value n \<noteq> []"

definition name_start :: "nat \<Rightarrow> bool" where
  "name_start c \<longleftrightarrow> (65 \<le> c \<and> c \<le> 90) \<or> (97 \<le> c \<and> c \<le> 122) \<or> is_digit c"

text \<open>The pattern \<open>_EXPLICIT_EXECUTION_NAME\<close>.\<close>

definition explicit_name_fullmatch :: "pystr \<Rightarrow> bool" where
  "explicit_name_fullmatch s \<longleftrightarrow>
     s \<noteq> [] \<and> name_start (hd s) \<and> list_all (\<lambda>c. name_start c \<or> c \<in> {46, 95, 45}) (tl s)"

definition explicit_execution_name :: "pystr \<Rightarrow> exn + execution_name" where
  "explicit_execution_name s =
     (if \<not> explicit_name_fullmatch s then Inl ValueError else mk_execution_name s)"

datatype arguments_digest = ArgumentsDigest (arguments_digest_value: pystr)

definition mk_arguments_digest :: "pystr \<Rightarrow> exn + arguments_digest" where
  "mk_arguments_digest s = (if s = [] then Inl ValueError else Inr (ArgumentsDigest s))"

definition valid_arguments_digest :: "arguments_digest \<Rightarrow> bool" where
  "valid_arguments_digest a \<longleftrightarrow> arguments_digest_value a \<noteq> []"

datatype session_id = SessionId (session_id_value: pystr)

definition mk_session_id :: "pystr \<Rightarrow> exn + session_id" where
  "mk_session_id s = (if s = [] then Inl ValueError else Inr (SessionId s))"

lemma mk_execution_name_iff:
  "mk_execution_name s = Inr n \<longleftrightarrow> valid_execution_name n \<and> execution_name_value n = s"
  by (cases n) (auto simp: mk_execution_name_def valid_execution_name_def)

lemma mk_arguments_digest_iff:
  "mk_arguments_digest s = Inr a \<longleftrightarrow> valid_arguments_digest a \<and> arguments_digest_value a = s"
  by (cases a) (auto simp: mk_arguments_digest_def valid_arguments_digest_def)

lemma name_char_scalar: "name_start c \<or> c \<in> {46, 95, 45} \<Longrightarrow> is_scalar c"
  by (rule is_scalar_small) (auto simp: name_start_def is_digit_def)

lemma explicit_execution_name_scalar:
  assumes "explicit_execution_name s = Inr n"
  shows "scalar_str (execution_name_value n)"
proof -
  from assms have n: "execution_name_value n = s" and s: "s \<noteq> []" "name_start (hd s)"
      "list_all (\<lambda>c. name_start c \<or> c \<in> {46, 95, 45}) (tl s)"
    by (auto simp: explicit_execution_name_def explicit_name_fullmatch_def mk_execution_name_def
        split: if_splits)
  have "scalar_str (tl s)"
    using s(3) by (rule list.pred_mono_strong) (rule name_char_scalar)
  with s(1,2) show ?thesis by (cases s) (auto simp: n intro: name_char_scalar)
qed

section \<open>Execution identities\<close>

datatype execution_id =
  ExecutionId (eid_parent: "execution_id option") (eid_domain: domain_id)
    (eid_name: execution_name) (eid_sequence: int) (eid_digest: arguments_digest)

text \<open>
  The ordinal as handed to the constructor: \<open>type(sequence) is not int\<close> tells a \<open>bool\<close> and
  anything else from an \<open>int\<close>.
\<close>

datatype sequence_arg = SeqInt int | SeqBool bool | SeqOther

fun mk_execution_id ::
    "execution_id option \<Rightarrow> domain_id \<Rightarrow> execution_name \<Rightarrow> sequence_arg \<Rightarrow> arguments_digest
       \<Rightarrow> exn + execution_id" where
  "mk_execution_id p d n (SeqInt i) a =
     (if i < 0 then Inl ValueError else Inr (ExecutionId p d n i a))"
| "mk_execution_id p d n (SeqBool b) a = Inl ValueError"
| "mk_execution_id p d n SeqOther a = Inl ValueError"

definition valid_frame :: "execution_id \<Rightarrow> bool" where
  "valid_frame e \<longleftrightarrow>
     valid_domain_id (eid_domain e) \<and> valid_execution_name (eid_name e) \<and>
     valid_arguments_digest (eid_digest e) \<and> 0 \<le> eid_sequence e"

text \<open>An identity and its ancestors, the identity first.\<close>

fun ancestry :: "execution_id \<Rightarrow> execution_id list" where
  "ancestry (ExecutionId p d n i a) =
     ExecutionId p d n i a # (case p of None \<Rightarrow> [] | Some q \<Rightarrow> ancestry q)"

text \<open>What every identity built through the constructors satisfies.\<close>

definition valid_execution_id :: "execution_id \<Rightarrow> bool" where
  "valid_execution_id e \<longleftrightarrow> list_all valid_frame (ancestry e)"

definition ancestor_of :: "execution_id \<Rightarrow> execution_id \<Rightarrow> bool" where
  "ancestor_of u e \<longleftrightarrow> u \<in> set (tl (ancestry e))"

lemma ancestry_unfold:
  "ancestry e = e # (case eid_parent e of None \<Rightarrow> [] | Some q \<Rightarrow> ancestry q)"
  by (cases e) simp

lemma ancestry_nonempty [simp]: "ancestry e \<noteq> []"
  by (cases e) simp

lemma hd_ancestry [simp]: "hd (ancestry e) = e"
  by (cases e) simp

lemma ancestry_self [simp]: "e \<in> set (ancestry e)"
  by (cases e) simp

lemma ancestry_parent: "eid_parent e = Some p \<Longrightarrow> ancestry e = e # ancestry p"
  by (subst ancestry_unfold) simp

lemma ancestry_root: "eid_parent e = None \<Longrightarrow> ancestry e = [e]"
  by (subst ancestry_unfold) simp

lemma ancestry_induct [case_names root child]:
  assumes "\<And>e. eid_parent e = None \<Longrightarrow> P e"
    and "\<And>e p. eid_parent e = Some p \<Longrightarrow> P p \<Longrightarrow> P e"
  shows "P e"
proof (induction e rule: ancestry.induct)
  case (1 p d n i a)
  show ?case
  proof (cases p)
    case None
    then show ?thesis using assms(1) by simp
  next
    case (Some q)
    then have "P q" by (rule "1")
    then show ?thesis using assms(2) [of "ExecutionId p d n i a" q] Some by simp
  qed
qed

lemma ancestry_suffix: "u \<in> set (ancestry e) \<Longrightarrow> \<exists>xs. ancestry e = xs @ ancestry u"
proof (induction e rule: ancestry_induct)
  case (root e)
  then show ?case by (auto simp: ancestry_root)
next
  case (child e p)
  then show ?case by (metis ancestry_parent append_Cons append_Nil set_ConsD)
qed

lemma ancestry_inj: "ancestry e = ancestry f \<Longrightarrow> e = f"
  by (metis hd_ancestry)

lemma ancestor_of_parent: "eid_parent e = Some p \<Longrightarrow> ancestor_of u e \<longleftrightarrow> u = p \<or> ancestor_of u p"
proof -
  assume "eid_parent e = Some p"
  then have "tl (ancestry e) = p # tl (ancestry p)"
    using list.collapse [OF ancestry_nonempty, of p] by (simp add: ancestry_parent)
  then show ?thesis by (simp add: ancestor_of_def)
qed

lemma ancestor_of_root: "eid_parent e = None \<Longrightarrow> \<not> ancestor_of u e"
  by (simp add: ancestor_of_def ancestry_root)

lemma ancestor_of_iff: "ancestor_of u e \<longleftrightarrow> (\<exists>xs. xs \<noteq> [] \<and> ancestry e = xs @ ancestry u)"
proof
  assume "ancestor_of u e"
  then obtain p where p: "eid_parent e = Some p" and "u \<in> set (ancestry p)"
    by (cases "eid_parent e") (auto simp: ancestor_of_def ancestry_root ancestry_parent)
  then obtain xs where "ancestry p = xs @ ancestry u" using ancestry_suffix by blast
  then have "ancestry e = (e # xs) @ ancestry u" by (simp add: ancestry_parent [OF p])
  then show "\<exists>xs. xs \<noteq> [] \<and> ancestry e = xs @ ancestry u" by blast
next
  assume "\<exists>xs. xs \<noteq> [] \<and> ancestry e = xs @ ancestry u"
  then obtain xs where "xs \<noteq> []" "ancestry e = xs @ ancestry u" by blast
  then have "tl (ancestry e) = tl xs @ ancestry u" by simp
  then show "ancestor_of u e" by (simp only: ancestor_of_def set_append) simp
qed

lemma valid_execution_id_unfold:
  "valid_execution_id e \<longleftrightarrow>
     valid_frame e \<and> (case eid_parent e of None \<Rightarrow> True | Some p \<Rightarrow> valid_execution_id p)"
  by (simp add: valid_execution_id_def ancestry_unfold [of e] split: option.splits)

section \<open>Sequence scopes\<close>

record sequence_scope =
  scope_parent :: "execution_id option"
  scope_domain :: domain_id
  scope_name :: execution_name
  scope_digest :: arguments_digest

definition scope_of :: "execution_id \<Rightarrow> sequence_scope" where
  "scope_of e = \<lparr>scope_parent = eid_parent e, scope_domain = eid_domain e,
                 scope_name = eid_name e, scope_digest = eid_digest e\<rparr>"

lemma scope_sequence_determine:
  "scope_of e = scope_of f \<Longrightarrow> eid_sequence e = eid_sequence f \<Longrightarrow> e = f"
  by (cases e; cases f) (simp add: scope_of_def)

end
