(* ===== verification/Canonical.thy ===== *)
theory Canonical
  imports Json Sha256 Identity
begin

text \<open>
  Canonical argument values and their persistent encoding (\<open>_canonical_arguments.py\<close>,
  \<open>_types/canonical.py\<close>): the values, the encoding that is the preimage of an execution's key,
  and the restoring of recorded bytes.

  The lemmas show that the encoding is a function of the logical value alone, that it tells
  different values apart (a declared fallback from every plain value included), that it
  decodes to the value it encodes, and that recorded bytes are taken back exactly when they
  are spelled canonically.
\<close>

section \<open>Values\<close>

text \<open>
  \<open>CAlien\<close> is an object of any type outside the data model; \<open>AlienKey\<close> a dictionary key that
  is not a string. The type annotations exclude both, the code tests for them.
\<close>

datatype arg_key = Name pystr | AlienKey nat

datatype cav =
    CNull | CBool bool | CInt int | CFloat pyfloat | CStr pystr
  | CFallback cav
  | CList "cav list"
  | CDict "(arg_key \<times> cav) list"
  | CAlien nat

definition fallback_marker_key :: pystr where
  "fallback_marker_key = str_of ''__glyff_fallback__''"

lemma cav_size_item: "v \<in> set vs \<Longrightarrow> size v < Suc (size_list size vs)" for v :: cav
  by (induction vs) auto

lemma cav_size_member:
  "(k, v) \<in> set kvs \<Longrightarrow> size v < Suc (size_list (size_prod (\<lambda>x. 0) size) kvs)" for v :: cav
  by (induction kvs) auto

section \<open>Encoding\<close>

definition arg_names :: "(arg_key \<times> 'v) list \<Rightarrow> exn + (pystr \<times> 'v) list" where
  "arg_names kvs = traverse (\<lambda>(k, v). case k of Name s \<Rightarrow> Inr (s, v)
     | AlienKey _ \<Rightarrow> Inl ArgumentCanonicalizationError) kvs"

definition require_unreserved_mapping :: "(pystr, 'v) dict \<Rightarrow> exn + unit" where
  "require_unreserved_mapping d =
     ensure_r (map_of d fallback_marker_key = None) ArgumentCanonicalizationError"

lemma arg_names_size:
  "arg_names kvs = Inr d \<Longrightarrow> (k, v) \<in> set d \<Longrightarrow> (Name k, v) \<in> set kvs"
  unfolding arg_names_def
  by (induction kvs arbitrary: d) (auto simp: result_simps split: arg_key.splits)

function encode_argument_value :: "cav \<Rightarrow> exn + json" where
  "encode_argument_value CNull = Inr JNull"
| "encode_argument_value (CBool b) = Inr (JBool b)"
| "encode_argument_value (CInt i) = Inr (JInt i)"
| "encode_argument_value (CFloat f) = Inr (JFloat f)"
| "encode_argument_value (CStr s) = Inr (JStr s)"
| "encode_argument_value (CFallback v) =
     bind_r (encode_argument_value v) (\<lambda>j. Inr (JObj [(fallback_marker_key, j)]))"
| "encode_argument_value (CList vs) =
     bind_r (traverse encode_argument_value vs) (\<lambda>js. Inr (JList js))"
| "encode_argument_value (CDict kvs) =
     bind_r (arg_names kvs) (\<lambda>d.
     bind_r (require_unreserved_mapping d) (\<lambda>_.
     bind_r (dict_comp encode_argument_value d) (\<lambda>js. Inr (JObj js))))"
| "encode_argument_value (CAlien n) = Inl ArgumentCanonicalizationError"
  by pat_completeness auto
termination
  by (relation "measure size") (auto dest!: arg_names_size dest: cav_size_item cav_size_member)

definition encode_argument_mapping :: "(arg_key \<times> cav) list \<Rightarrow> exn + json" where
  "encode_argument_mapping kvs = encode_argument_value (CDict kvs)"

text \<open>\<open>UnicodeEncodeError\<close> is a \<open>ValueError\<close>, so a lone surrogate is reported here too.\<close>

definition encode_canonical :: "json \<Rightarrow> exn + bytes" where
  "encode_canonical v =
     except_r (bind_r (json_dumps (compact False) v) utf8_encode) C_ValueError ArgumentCanonicalizationError"

datatype canonical_arguments = CanonicalArguments (ca_data: bytes)

definition mk_canonical_arguments :: "(arg_key \<times> cav) list \<Rightarrow> exn + canonical_arguments" where
  "mk_canonical_arguments arguments =
     bind_r (encode_argument_mapping arguments) (\<lambda>j.
     bind_r (encode_canonical j) (\<lambda>data. Inr (CanonicalArguments data)))"

definition ca_digest :: "canonical_arguments \<Rightarrow> arguments_digest" where
  "ca_digest a = ArgumentsDigest (sha256_hexdigest (ca_data a))"

section \<open>Reading bytes as JSON\<close>

text \<open>\<open>json.loads\<close> on \<open>bytes\<close> guesses the encoding from the byte order mark and the zeros.\<close>

datatype json_encoding = Utf8 | Utf16 bool | Utf32 bool

definition detect_encoding :: "nat list \<Rightarrow> json_encoding \<times> nat list" where
  "detect_encoding b =
     (if take 4 b = [0, 0, 0xFE, 0xFF] then (Utf32 True, drop 4 b)
      else if take 4 b = [0xFF, 0xFE, 0, 0] then (Utf32 False, drop 4 b)
      else if take 2 b = [0xFE, 0xFF] then (Utf16 True, drop 2 b)
      else if take 2 b = [0xFF, 0xFE] then (Utf16 False, drop 2 b)
      else if take 3 b = [0xEF, 0xBB, 0xBF] then (Utf8, drop 3 b)
      else if 4 \<le> length b then
        (if b ! 0 = 0 then (if b ! 1 \<noteq> 0 then Utf16 True else Utf32 True, b)
         else if b ! 1 = 0 then (if b ! 2 \<noteq> 0 \<or> b ! 3 \<noteq> 0 then Utf16 False else Utf32 False, b)
         else (Utf8, b))
      else if length b = 2 then
        (if b ! 0 = 0 then (Utf16 True, b) else if b ! 1 = 0 then (Utf16 False, b) else (Utf8, b))
      else (Utf8, b))"

fun utf16_units :: "bool \<Rightarrow> nat list \<Rightarrow> nat list option" where
  "utf16_units be [] = Some []"
| "utf16_units be [a] = None"
| "utf16_units be (a # b # bs) =
     map_option ((#) (if be then a * 256 + b else b * 256 + a)) (utf16_units be bs)"

fun utf16_join :: "nat list \<Rightarrow> pystr" where
  "utf16_join (u # v # us) =
     (if 0xD800 \<le> u \<and> u \<le> 0xDBFF \<and> 0xDC00 \<le> v \<and> v \<le> 0xDFFF
      then (0x10000 + (u - 0xD800) * 1024 + (v - 0xDC00)) # utf16_join us
      else u # utf16_join (v # us))"
| "utf16_join us = us"

fun utf32_decode :: "bool \<Rightarrow> nat list \<Rightarrow> pystr option" where
  "utf32_decode be (a # b # c # d # bs) =
     (let u = (if be then ((a * 256 + b) * 256 + c) * 256 + d else ((d * 256 + c) * 256 + b) * 256 + a)
      in if u > 0x10FFFF then None else map_option ((#) u) (utf32_decode be bs))"
| "utf32_decode be [] = Some []"
| "utf32_decode be bs = None"

definition decode_json_bytes :: "bytes \<Rightarrow> exn + pystr" where
  "decode_json_bytes data =
     (case (case detect_encoding (map unat data) of
              (Utf8, b) \<Rightarrow> utf8_decode_list True None b
            | (Utf16 be, b) \<Rightarrow> map_option utf16_join (utf16_units be b)
            | (Utf32 be, b) \<Rightarrow> utf32_decode be b) of
        None \<Rightarrow> Inl UnicodeDecodeError | Some s \<Rightarrow> Inr s)"

definition json_loads_bytes :: "bool \<Rightarrow> bytes \<Rightarrow> exn + json" where
  "json_loads_bytes nan data = bind_r (decode_json_bytes data) (json_loads nan)"

section \<open>Decoding\<close>

function restore_recorded_value :: "json \<Rightarrow> exn + cav" where
  "restore_recorded_value JNull = Inr CNull"
| "restore_recorded_value (JBool b) = Inr (CBool b)"
| "restore_recorded_value (JInt i) = Inr (CInt i)"
| "restore_recorded_value (JFloat f) = Inr (CFloat f)"
| "restore_recorded_value (JStr s) = Inr (CStr s)"
| "restore_recorded_value (JList vs) =
     bind_r (traverse restore_recorded_value vs) (\<lambda>us. Inr (CList us))"
| "restore_recorded_value (JObj kvs) =
     (if length kvs = 1 \<and> fallback_marker_key \<in> fst ` set kvs then
        bind_r (restore_recorded_value (snd (hd kvs))) (\<lambda>u. Inr (CFallback u))
      else if fallback_marker_key \<in> fst ` set kvs then Inl InvalidExecutionError
      else bind_r (dict_comp restore_recorded_value kvs) (\<lambda>us. Inr (CDict (map (map_prod Name id) us))))"
  by pat_completeness auto
termination
  by (relation "measure size")
     (auto dest: json_size_item json_size_member simp: length_Suc_conv)

definition ca_decode :: "canonical_arguments \<Rightarrow> exn + (arg_key \<times> cav) list" where
  "ca_decode a =
     bind_r (except_r (json_loads_bytes False (ca_data a)) C_ValueError InvalidExecutionError) (\<lambda>decoded.
       case decoded of
         JObj kvs \<Rightarrow> bind_r (dict_comp restore_recorded_value kvs) (\<lambda>us. Inr (map (map_prod Name id) us))
       | _ \<Rightarrow> Inl InvalidExecutionError)"

definition from_recorded_bytes :: "bytes \<Rightarrow> exn + canonical_arguments" where
  "from_recorded_bytes data =
     (let instance = CanonicalArguments data
      in bind_r (ca_decode instance) (\<lambda>decoded.
         bind_r (mk_canonical_arguments decoded) (\<lambda>again.
           if ca_data again \<noteq> ca_data instance then Inl InvalidExecutionError else Inr instance)))"

section \<open>What can be encoded\<close>

text \<open>
  \<open>python_value\<close> states what every Python value satisfies: the keys of a dictionary are
  distinct and the \<open>repr\<close> of a finite float reads back. \<open>shape_ok\<close> and \<open>leaf_ok\<close> are the
  conditions of the encoding.
\<close>

fun python_value :: "cav \<Rightarrow> bool" where
  "python_value (CFloat f) = float_ok True f"
| "python_value (CFallback v) = python_value v"
| "python_value (CList vs) = list_all python_value vs"
| "python_value (CDict kvs) = (distinct (map fst kvs) \<and> list_all (\<lambda>kv. python_value (snd kv)) kvs)"
| "python_value _ = True"

fun key_ok :: "arg_key \<Rightarrow> bool" where
  "key_ok (Name s) = (s \<noteq> fallback_marker_key)"
| "key_ok (AlienKey n) = False"

fun key_name :: "arg_key \<Rightarrow> pystr" where
  "key_name (Name s) = s"
| "key_name (AlienKey n) = []"

fun shape_ok :: "cav \<Rightarrow> bool" where
  "shape_ok (CFallback v) = shape_ok v"
| "shape_ok (CList vs) = list_all shape_ok vs"
| "shape_ok (CDict kvs) = list_all (\<lambda>kv. key_ok (fst kv) \<and> shape_ok (snd kv)) kvs"
| "shape_ok (CAlien n) = False"
| "shape_ok _ = True"

fun leaf_ok :: "cav \<Rightarrow> bool" where
  "leaf_ok (CFloat f) = (case f of FFin _ _ _ \<Rightarrow> True | _ \<Rightarrow> False)"
| "leaf_ok (CStr s) = scalar_str s"
| "leaf_ok (CFallback v) = leaf_ok v"
| "leaf_ok (CList vs) = list_all leaf_ok vs"
| "leaf_ok (CDict kvs) = list_all (\<lambda>kv. scalar_str (key_name (fst kv)) \<and> leaf_ok (snd kv)) kvs"
| "leaf_ok _ = True"

text \<open>The value the encoding stands for: the keys of every mapping in order.\<close>

primrec sort_cav :: "cav \<Rightarrow> cav" where
  "sort_cav CNull = CNull"
| "sort_cav (CBool b) = CBool b"
| "sort_cav (CInt i) = CInt i"
| "sort_cav (CFloat f) = CFloat f"
| "sort_cav (CStr s) = CStr s"
| "sort_cav (CFallback v) = CFallback (sort_cav v)"
| "sort_cav (CList vs) = CList (map sort_cav vs)"
| "sort_cav (CDict kvs) = CDict (sort_key (\<lambda>kv. key_name (fst kv)) (map (map_prod id sort_cav) kvs))"
| "sort_cav (CAlien n) = CAlien n"

text \<open>The encoding as a total function, for values of the right shape.\<close>

primrec enc :: "cav \<Rightarrow> json" where
  "enc CNull = JNull"
| "enc (CBool b) = JBool b"
| "enc (CInt i) = JInt i"
| "enc (CFloat f) = JFloat f"
| "enc (CStr s) = JStr s"
| "enc (CFallback v) = JObj [(fallback_marker_key, enc v)]"
| "enc (CList vs) = JList (map enc vs)"
| "enc (CDict kvs) = JObj (map (map_prod key_name enc) kvs)"
| "enc (CAlien n) = JNull"

lemma arg_names_iff:
  "arg_names kvs = (if \<forall>(k, v) \<in> set kvs. \<exists>s. k = Name s then Inr (map (map_prod key_name id) kvs)
     else Inl ArgumentCanonicalizationError)"
  unfolding arg_names_def by (induction kvs) (auto split: arg_key.splits)

lemma encode_argument_value_eq:
  "encode_argument_value v = (if shape_ok v then Inr (enc v) else Inl ArgumentCanonicalizationError)"
proof (induction "size v" arbitrary: v rule: less_induct)
  case less
  show ?case
  proof (cases v)
    case (CFallback w)
    with less show ?thesis by simp
  next
    case (CList vs)
    have IH: "encode_argument_value u = (if shape_ok u then Inr (enc u) else Inl ArgumentCanonicalizationError)"
      if "u \<in> set vs" for u using less CList json_size_item cav_size_item [OF that] by simp
    then show ?thesis using CList by (simp add: traverse_if [OF IH] list_all_iff)
  next
    case (CDict kvs)
    have IH: "encode_argument_value u = (if shape_ok u then Inr (enc u) else Inl ArgumentCanonicalizationError)"
      if "(k, u) \<in> set (map (map_prod key_name id) kvs)" for k u
      using that less CDict cav_size_member [of _ u kvs] by auto
    have "dict_comp encode_argument_value (map (map_prod key_name id) kvs) =
        (if \<forall>kv \<in> set kvs. shape_ok (snd kv) then Inr (map (map_prod key_name enc) kvs)
         else Inl ArgumentCanonicalizationError)"
      by (subst dict_comp_if [where P = shape_ok and g = enc and e = ArgumentCanonicalizationError])
         (use IH in \<open>auto simp: comp_def map_prod_def split_beta\<close>)
    moreover have "map_of (map (map_prod key_name id) kvs) fallback_marker_key = None \<longleftrightarrow>
        (\<forall>kv \<in> set kvs. key_name (fst kv) \<noteq> fallback_marker_key)"
      by (auto simp: map_of_eq_None_iff image_iff)
    moreover have "key_ok k \<longleftrightarrow> (\<exists>s. k = Name s) \<and> key_name k \<noteq> fallback_marker_key" for k
      by (cases k) auto
    ultimately show ?thesis
      unfolding CDict encode_argument_value.simps arg_names_iff require_unreserved_mapping_def
      by (simp add: list_all_iff split_beta ball_conj_distrib)
  qed simp_all
qed

lemma shape_ok_key: "key_ok k \<Longrightarrow> Name (key_name k) = k"
  by (cases k) auto

lemma member_ok:
  "shape_ok (CDict kvs) \<Longrightarrow> (k, u) \<in> set kvs \<Longrightarrow> key_ok k \<and> shape_ok u"
  "python_value (CDict kvs) \<Longrightarrow> (k, u) \<in> set kvs \<Longrightarrow> python_value u"
  by (force simp: list_all_iff)+

lemma distinct_names:
  assumes "shape_ok (CDict kvs)" "distinct (map fst kvs)"
  shows "distinct (map fst (map (map_prod key_name f) kvs))"
proof -
  have "inj_on key_name (fst ` set kvs)"
  proof (rule inj_on_inverseI)
    fix k assume "k \<in> fst ` set kvs"
    then obtain u where "(k, u) \<in> set kvs" by auto
    then show "Name (key_name k) = k" using member_ok(1) [OF assms(1)] shape_ok_key by blast
  qed
  then have "distinct (map key_name (map fst kvs))"
    using assms(2) by (auto simp: distinct_map intro: comp_inj_on)
  then show ?thesis by (simp add: comp_def)
qed

lemma sort_key_map:
  "sort_key g (map h xs) = map h (sort_key (\<lambda>x. g (h x)) xs)"
proof -
  have "insort_key g (h x) (map h xs) = map h (insort_key (\<lambda>x. g (h x)) x xs)" for x xs
    by (induction xs) auto
  then show ?thesis by (induction xs) auto
qed

lemma restore_enc:
  "shape_ok v \<Longrightarrow> restore_recorded_value (sort_json (enc v)) = Inr (sort_cav v)"
proof (induction "size v" arbitrary: v rule: less_induct)
  case less
  show ?case
  proof (cases v)
    case (CFallback w)
    with less show ?thesis by (simp add: sort_items_def)
  next
    case (CList vs)
    have "traverse restore_recorded_value (map (\<lambda>v. sort_json (enc v)) vs) = Inr (map sort_cav vs)"
      unfolding traverse_map
      by (rule traverse_Inr_map) (use less CList cav_size_item [of _ vs] in \<open>auto simp: list_all_iff\<close>)
    with CList show ?thesis by (simp add: comp_def)
  next
    case (CDict kvs)
    let ?d = "sort_items (map (map_prod key_name (\<lambda>v. sort_json (enc v))) kvs)"
    have ok: "key_ok k" "shape_ok u" if "(k, u) \<in> set kvs" for k u
      using less.prems CDict that by (auto simp: list_all_iff)
    have key: "Name (key_name k) = k" "key_name k \<noteq> fallback_marker_key" if "(k, u) \<in> set kvs" for k u
      using ok(1) [OF that] by (cases k; simp)+
    have j: "sort_json (enc v) = JObj ?d"
      by (simp add: CDict map_prod_def case_prod_unfold comp_def)
    have "fallback_marker_key \<notin> fst ` set ?d"
      using key(2) by fastforce
    moreover have "?d = map (map_prod key_name (\<lambda>v. sort_json (enc v))) (sort_key (\<lambda>kv. key_name (fst kv)) kvs)"
      unfolding sort_items_def sort_key_map by (simp add: map_prod_def split_beta)
    then have "dict_comp restore_recorded_value ?d
        = Inr (map (map_prod key_name sort_cav) (sort_key (\<lambda>kv. key_name (fst kv)) kvs))"
    proof (simp only: dict_comp_def traverse_map, intro traverse_Inr_map)
      fix x assume x: "x \<in> set (sort_key (\<lambda>kv. key_name (fst kv)) kvs)"
      then have "restore_recorded_value (sort_json (enc (snd x))) = Inr (sort_cav (snd x))"
        using less.hyps [of "snd x"] CDict cav_size_member [of "fst x" "snd x" kvs] ok(2) [of "fst x" "snd x"]
        by simp
      then show "(case map_prod key_name (\<lambda>v. sort_json (enc v)) x of (k, v) \<Rightarrow>
           bind_r (restore_recorded_value v) (\<lambda>w. Inr (k, w))) = Inr (map_prod key_name sort_cav x)"
        by (cases x) simp
    qed
    moreover have "map (map_prod Name id) (map (map_prod key_name sort_cav) (sort_key (\<lambda>kv. key_name (fst kv)) kvs))
        = sort_key (\<lambda>kv. key_name (fst kv)) (map (map_prod id sort_cav) kvs)"
      unfolding sort_key_map by (auto simp: key(1))
    ultimately show ?thesis
      unfolding j by (simp add: CDict)
  qed (use less.prems in simp_all)
qed

lemma leaf_ok_enc:
  "shape_ok v \<Longrightarrow> python_value v \<Longrightarrow> json_ok False (enc v) \<and> json_scalar (enc v) \<longleftrightarrow> leaf_ok v"
proof (induction "size v" arbitrary: v rule: less_induct)
  case less
  show ?case
  proof (cases v)
    case (CFloat f)
    with less.prems show ?thesis by (cases f) (auto simp: float_ok_def)
  next
    case (CFallback w)
    with less show ?thesis by (simp add: fallback_marker_key_def)
  next
    case (CList vs)
    have "json_ok False (enc u) \<and> json_scalar (enc u) \<longleftrightarrow> leaf_ok u" if "u \<in> set vs" for u
      using less CList cav_size_item [OF that] that by (auto simp: list_all_iff)
    with CList show ?thesis by (auto simp: list_all_iff)
  next
    case (CDict kvs)
    have IH: "json_ok False (enc u) \<and> json_scalar (enc u) \<longleftrightarrow> leaf_ok u" if "(k, u) \<in> set kvs" for k u
      using less.hyps [of u] less.prems CDict cav_size_member [OF that] member_ok [OF _ that] by simp
    have "distinct (map fst (map (map_prod key_name enc) kvs))"
      using less.prems CDict by (intro distinct_names) auto
    with CDict IH show ?thesis by (fastforce simp: list_all_iff)
  qed (use less.prems in auto)
qed

lemma python_value_enc: "shape_ok v \<Longrightarrow> python_value v \<Longrightarrow> json_ok True (enc v)"
proof (induction "size v" arbitrary: v rule: less_induct)
  case less
  show ?case
  proof (cases v)
    case (CList vs)
    have "json_ok True (enc u)" if "u \<in> set vs" for u
      using less CList cav_size_item [OF that] that by (auto simp: list_all_iff)
    with CList show ?thesis by auto
  next
    case (CDict kvs)
    have IH: "json_ok True (enc u)" if "(k, u) \<in> set kvs" for k u
      using less.hyps [of u] less.prems CDict cav_size_member [OF that] member_ok [OF _ that] by simp
    have "distinct (map fst (map (map_prod key_name enc) kvs))"
      using less.prems CDict by (intro distinct_names) auto
    with CDict IH show ?thesis by auto
  qed (use less in auto)
qed

section \<open>The encoding of a whole mapping\<close>

abbreviation mapping_ok :: "(arg_key \<times> cav) list \<Rightarrow> bool" where
  "mapping_ok kvs \<equiv> shape_ok (CDict kvs) \<and> leaf_ok (CDict kvs)"

definition sort_args :: "(arg_key \<times> cav) list \<Rightarrow> (arg_key \<times> cav) list" where
  "sort_args kvs = sort_key (\<lambda>kv. key_name (fst kv)) (map (map_prod id sort_cav) kvs)"

lemma ws_style_compact [simp]: "ws_style (compact nan)" "js_nan (compact nan) = nan"
  by (simp_all add: ws_style_def ws_indent_def compact_def)

text \<open>A text that \<open>json.dumps\<close> wrote without NaN holds none.\<close>

lemma json_dump_finite:
  "\<not> js_nan st \<Longrightarrow> json_ok True v \<Longrightarrow> json_dump st n v = Inr t \<Longrightarrow> json_ok False v"
proof (induction "size v" arbitrary: v n t rule: less_induct)
  case less
  show ?case
  proof (cases v)
    case (JFloat f)
    with less.prems show ?thesis by (cases f) (auto simp: float_ok_def encode_float_def)
  next
    case (JList vs)
    show ?thesis unfolding JList json_ok.simps
    proof
      fix u assume u: "u \<in> set vs"
      then have "vs \<noteq> []" by auto
      then obtain t' where "json_dump st (Suc n) u = Inr t'"
        using less.prems(3) JList u by (auto simp: bind_r_Inr_iff dest!: traverse_InrD)
      then show "json_ok False u" using less JList json_size_item [OF u] u by simp
    qed
  next
    case (JObj kvs)
    have "json_ok False u" if u: "(k, u) \<in> set kvs" for k u
    proof -
      have "kvs \<noteq> []" "(k, u) \<in> set (sort_items kvs)" using u by auto
      then obtain t' where "json_dump st (Suc n) u = Inr t'"
        using less.prems(3) JObj by (fastforce simp: bind_r_Inr_iff dest!: traverse_InrD)
      then show ?thesis
        using less.hyps [of u "Suc n" t'] less.prems JObj json_size_member [OF u] u by auto
    qed
    with less.prems JObj show ?thesis by auto
  qed simp_all
qed

lemma encode_canonical_iff:
  assumes "json_ok True j"
  shows "(\<exists>data. encode_canonical j = Inr data) \<longleftrightarrow> json_ok False j \<and> json_scalar j"
proof
  assume "\<exists>data. encode_canonical j = Inr data"
  then obtain t data where t: "json_dumps (compact False) j = Inr t" and e: "utf8_encode t = Inr data"
    by (auto simp: encode_canonical_def bind_r_Inr_iff)
  have "json_ok False j"
    using json_dump_finite [of "compact False" j 0 t] assms t by (simp add: json_dumps_def)
  moreover have "json_scalar j"
    using json_dump_scalar [of "compact False" j 0 t] calculation t utf8_encode_scalar [OF e]
    by (simp add: json_dumps_def)
  ultimately show "json_ok False j \<and> json_scalar j" ..
next
  assume *: "json_ok False j \<and> json_scalar j"
  then obtain t where t: "json_dumps (compact False) j = Inr t"
    using json_dump_total [of "compact False" j 0] by (auto simp: json_dumps_def)
  then have "scalar_str t"
    using json_dump_scalar [of "compact False" j 0 t] * by (simp add: json_dumps_def)
  then show "\<exists>data. encode_canonical j = Inr data"
    using t utf8_encode_total by (auto simp: encode_canonical_def bind_r_Inr_iff)
qed

lemma encode_canonical_error: "encode_canonical j = Inl e \<Longrightarrow> e = ArgumentCanonicalizationError"
  by (auto simp: encode_canonical_def json_dumps_def bind_r_Inl_iff except_r_def utf8_encode_def
      dest: json_dump_error split: sum.splits if_splits)

text \<open>The bytes of an object are read as UTF-8.\<close>

lemma decode_json_bytes_object:
  assumes "utf8_encode (123 # c # t) = Inr data" "c = 34 \<or> c = 125"
  shows "decode_json_bytes data = Inr (123 # c # t)"
proof -
  have b: "map unat data = 123 # c # concat (map utf8_cp t)"
    using assms(2) map_unat_utf8_encode [OF assms(1)] by (auto simp: utf8_cp.simps)
  have "detect_encoding (map unat data) = (Utf8, map unat data)"
    using assms(2) unfolding b by (auto simp: detect_encoding_def)
  then show ?thesis
    using utf8_decode_surrogatepass_encode [OF assms(1)]
    by (simp add: decode_json_bytes_def utf8_decode_surrogatepass_def split: option.splits)
qed

lemma mk_canonical_arguments_enc:
  "mk_canonical_arguments kvs =
     (if shape_ok (CDict kvs)
      then bind_r (encode_canonical (enc (CDict kvs))) (\<lambda>data. Inr (CanonicalArguments data))
      else Inl ArgumentCanonicalizationError)"
  unfolding mk_canonical_arguments_def encode_argument_mapping_def encode_argument_value_eq by simp

lemma mk_canonical_arguments_ok:
  assumes "mk_canonical_arguments kvs = Inr a" "python_value (CDict kvs)"
  shows "mapping_ok kvs" "json_ok False (enc (CDict kvs))"
proof -
  have shape: "shape_ok (CDict kvs)" and e: "\<exists>data. encode_canonical (enc (CDict kvs)) = Inr data"
    using assms(1) unfolding mk_canonical_arguments_enc by (auto simp: result_simps split: if_splits)
  show "json_ok False (enc (CDict kvs))"
    using e encode_canonical_iff [OF python_value_enc [OF shape assms(2)]] by blast
  show "mapping_ok kvs"
    using e shape encode_canonical_iff [OF python_value_enc [OF shape assms(2)]]
      leaf_ok_enc [OF shape assms(2)] by blast
qed

lemma compact_object_text:
  "json_dumps (compact nan) (JObj kvs) = Inr t \<Longrightarrow> \<exists>c u. t = 123 # c # u \<and> (c = 34 \<or> c = 125)"
proof (cases "kvs = []")
  case False
  assume "json_dumps (compact nan) (JObj kvs) = Inr t"
  then obtain ts where raw: "list_all2 (\<lambda>x t. (\<lambda>(k, v). bind_r (json_dump (compact nan) 1 v)
        (\<lambda>t. Inr (encode_string False k @ 58 # t))) x = Inr t) (sort_items kvs) ts"
    and t: "t = 123 # join_with [44] ts @ [125]"
    using False
    by (auto simp: json_dumps_def newline_def key_separator_def compact_def result_simps traverse_Inr_iff)
  have ts: "list_all2 (\<lambda>kv t. \<exists>k u. t = encode_string False k @ u) (sort_items kvs) ts"
    using raw by (rule list.rel_mono_strong) (auto simp: result_simps, blast)
  have ne: "sort_items kvs \<noteq> []" using False by simp
  obtain m ms where "ts = m # ms" "\<exists>k u. m = encode_string False k @ u"
    using ts ne by (cases "sort_items kvs"; cases ts) auto
  then obtain cs where "hd ts = 34 # cs" "ts \<noteq> []" by (auto simp: encode_string_def)
  then obtain x where "join_with [44] ts @ [125] = 34 # x" using join_head by blast
  then show ?thesis unfolding t by auto
qed (auto simp: json_dumps_def)

lemma json_loads_bytes_encoded:
  assumes "encode_canonical (JObj kvs) = Inr data" "json_ok False (JObj kvs)"
  shows "json_loads_bytes False data = Inr (sort_json (JObj kvs))"
proof -
  obtain t where t: "json_dumps (compact False) (JObj kvs) = Inr t" and e: "utf8_encode t = Inr data"
    using assms(1) by (auto simp: encode_canonical_def result_simps)
  obtain c u where u: "t = 123 # c # u" "c = 34 \<or> c = 125" using compact_object_text [OF t] by blast
  have "decode_json_bytes data = Inr t" using decode_json_bytes_object [of c u data] e u by simp
  then show ?thesis
    using json_roundtrip [of "compact False" "JObj kvs" t] assms(2) t by (simp add: json_loads_bytes_def)
qed

lemma ca_decode_mk:
  assumes "mk_canonical_arguments kvs = Inr a" "python_value (CDict kvs)"
  shows "ca_decode a = Inr (sort_args kvs)"
proof -
  have shape: "shape_ok (CDict kvs)" using mk_canonical_arguments_ok [OF assms] by blast
  have "encode_canonical (enc (CDict kvs)) = Inr (ca_data a)"
    using assms(1) shape unfolding mk_canonical_arguments_enc by (auto simp: result_simps)
  then have "json_loads_bytes False (ca_data a) = Inr (sort_json (enc (CDict kvs)))"
    using json_loads_bytes_encoded mk_canonical_arguments_ok(2) [OF assms] by simp
  moreover have "restore_recorded_value (sort_json (enc (CDict kvs))) = Inr (CDict (sort_args kvs))"
    using restore_enc [OF shape] by (simp add: sort_args_def)
  ultimately show ?thesis
    by (auto simp: ca_decode_def result_simps split: if_splits)
qed

lemma sort_json_enc_sort_cav: "sort_json (enc (sort_cav v)) = sort_json (enc v)"
proof (induction "size v" arbitrary: v rule: less_induct)
  case less
  show ?case
  proof (cases v)
    case (CDict kvs)
    let ?g = "\<lambda>kv :: arg_key \<times> cav. key_name (fst kv)"
    have IH: "sort_json (enc (sort_cav u)) = sort_json (enc u)" if "(k, u) \<in> set kvs" for k u
      using less CDict cav_size_member [OF that] by simp
    have obj: "sort_json (enc (CDict xs)) = JObj (map (map_prod key_name (\<lambda>u. sort_json (enc u))) (sort_key ?g xs))" for xs
      unfolding enc.simps sort_json.simps sort_items_def sort_key_map
      by (simp add: map_prod_def case_prod_unfold)
    have idem: "sort_key ?g (sort_key ?g ys) = sort_key ?g ys" for ys
      by (simp add: sort_key_id_if_sorted)
    have "sort_json (enc (sort_cav (CDict kvs))) =
        JObj (map (map_prod key_name (\<lambda>u. sort_json (enc u))) (sort_key ?g (map (map_prod id sort_cav) kvs)))"
      by (simp only: sort_cav.simps obj idem)
    also have "\<dots> = JObj (map (map_prod key_name (\<lambda>u. sort_json (enc u))) (sort_key ?g kvs))"
      unfolding sort_key_map using IH by (auto simp: map_prod_def split_beta)
    also have "\<dots> = sort_json (enc (CDict kvs))"
      by (simp only: obj)
    finally show ?thesis by (simp only: CDict)
  qed (use less cav_size_item in simp_all)
qed

lemma shape_ok_sort_cav: "shape_ok (sort_cav v) \<longleftrightarrow> shape_ok v"
proof (induction "size v" arbitrary: v rule: less_induct)
  case less
  show ?case
  proof (cases v)
    case (CDict kvs)
    with less.hyps cav_size_member [of _ _ kvs] show ?thesis by (fastforce simp: list_all_iff)
  qed (use less cav_size_item in \<open>simp_all add: list_all_iff\<close>)
qed

lemma encode_canonical_sort_json: "encode_canonical (sort_json j) = encode_canonical j"
  by (simp add: encode_canonical_def json_dumps_def json_dump_sort_json)

lemma mk_sort_args: "mk_canonical_arguments (sort_args kvs) = mk_canonical_arguments kvs"
proof -
  have s: "CDict (sort_args kvs) = sort_cav (CDict kvs)" by (simp add: sort_args_def)
  have "encode_canonical (enc (CDict (sort_args kvs))) = encode_canonical (enc (CDict kvs))"
    using sort_json_enc_sort_cav [of "CDict kvs"] unfolding s by (metis encode_canonical_sort_json)
  then show ?thesis
    unfolding mk_canonical_arguments_enc using shape_ok_sort_cav [of "CDict kvs"] unfolding s by simp
qed

section \<open>Properties\<close>

definition sample_arguments :: "(arg_key \<times> cav) list" where
  "sample_arguments =
     [(Name [98], CList [CInt (- 7), CBool True]), (Name [97], CFallback (CStr [233]))]"

text \<open>The same call with its keyword arguments given in the other order.\<close>

definition sample_swapped :: "(arg_key \<times> cav) list" where
  "sample_swapped = rev sample_arguments"

lemma sample_arguments_ok: "python_value (CDict sample_arguments)" "mapping_ok sample_arguments"
  by (simp_all add: sample_arguments_def fallback_marker_key_def)

lemma sample_swapped_ok: "python_value (CDict sample_swapped)" "mapping_ok sample_swapped"
  by (simp_all add: sample_swapped_def sample_arguments_def fallback_marker_key_def)

lemma mapping_ok_accepted:
  assumes "python_value (CDict kvs)"
  shows "(\<exists>a. mk_canonical_arguments kvs = Inr a) \<longleftrightarrow> mapping_ok kvs"
proof
  assume "\<exists>a. mk_canonical_arguments kvs = Inr a"
  then show "mapping_ok kvs" using mk_canonical_arguments_ok(1) [OF _ assms] by blast
next
  assume *: "mapping_ok kvs"
  then have "json_ok False (enc (CDict kvs)) \<and> json_scalar (enc (CDict kvs))"
    using leaf_ok_enc [of "CDict kvs"] assms by simp
  then show "\<exists>a. mk_canonical_arguments kvs = Inr a"
    using * encode_canonical_iff [OF python_value_enc [of "CDict kvs"]] assms
    unfolding mk_canonical_arguments_enc by (auto simp: result_simps)
qed

text \<open>
  C22: \<open>CanonicalArguments(arguments)\<close> accepts exactly the mappings of the JSON data model: string
  names, no reserved fallback key at any depth, finite floats, no lone surrogate. Anything else is
  refused with \<open>ArgumentCanonicalizationError\<close> and with nothing else.
\<close>
theorem canonical_arguments_accepts:
  assumes "python_value (CDict kvs)"
  shows "if mapping_ok kvs then \<exists>a. mk_canonical_arguments kvs = Inr a
         else mk_canonical_arguments kvs = Inl ArgumentCanonicalizationError"
proof (cases "mapping_ok kvs")
  case True
  then show ?thesis using mapping_ok_accepted [OF assms] by simp
next
  case False
  then obtain e where "mk_canonical_arguments kvs = Inl e"
    using mapping_ok_accepted [OF assms] by (metis sum.exhaust)
  then have "mk_canonical_arguments kvs = Inl ArgumentCanonicalizationError"
    unfolding mk_canonical_arguments_enc
    by (auto simp: bind_r_Inl_iff dest: encode_canonical_error split: if_splits)
  with False show ?thesis by auto
qed

theorem canonical_arguments_accepts_witness:
  "(\<exists>a. mk_canonical_arguments sample_arguments = Inr a) \<and>
   mk_canonical_arguments [(Name [97], CDict [(Name fallback_marker_key, CNull)])]
     = Inl ArgumentCanonicalizationError"
  using canonical_arguments_accepts [OF sample_arguments_ok(1)] sample_arguments_ok(2)
    canonical_arguments_accepts [of "[(Name [97], CDict [(Name fallback_marker_key, CNull)])]"]
  by simp

text \<open>
  What the encoding writes, \<open>decode\<close> reads back: the same logical value, declared fallbacks
  included, with the names of every mapping in sorted order.
\<close>
theorem canonical_arguments_decode:
  assumes "mk_canonical_arguments kvs = Inr a" "python_value (CDict kvs)"
  shows "ca_decode a = Inr (sort_args kvs)"
  by (rule ca_decode_mk [OF assms])

theorem canonical_arguments_decode_witness:
  "\<exists>a. mk_canonical_arguments sample_swapped = Inr a \<and> ca_decode a =
     Inr [(Name [97], CFallback (CStr [233])), (Name [98], CList [CInt (- 7), CBool True])]"
proof -
  obtain a where a: "mk_canonical_arguments sample_swapped = Inr a"
    using mapping_ok_accepted sample_swapped_ok by blast
  have "sort_args sample_swapped
      = [(Name [97], CFallback (CStr [233])), (Name [98], CList [CInt (- 7), CBool True])]"
    by (simp add: sort_args_def sample_swapped_def sample_arguments_def)
  with canonical_arguments_decode [OF a sample_swapped_ok(1)] a show ?thesis by simp
qed

text \<open>
  C23: The canonical bytes identify the logical value: two accepted mappings have equal arguments
  exactly when they are equal but for the order of names. So keyword order never changes an
  execution's key, and a declared fallback never shares one with a plain value.
\<close>
theorem canonical_arguments_eq_iff:
  assumes "mk_canonical_arguments kvs = Inr a" "mk_canonical_arguments kvs' = Inr b"
    and "python_value (CDict kvs)" "python_value (CDict kvs')"
  shows "a = b \<longleftrightarrow> sort_args kvs = sort_args kvs'"
proof
  assume "a = b"
  then show "sort_args kvs = sort_args kvs'"
    using ca_decode_mk [OF assms(1,3)] ca_decode_mk [OF assms(2,4)] by simp
next
  assume "sort_args kvs = sort_args kvs'"
  then show "a = b"
    using assms mk_sort_args [of kvs] mk_sort_args [of kvs'] by simp
qed

theorem canonical_arguments_eq_iff_witness:
  "mk_canonical_arguments sample_swapped = mk_canonical_arguments sample_arguments \<and>
   mk_canonical_arguments [(Name [97], CFallback (CInt 1))] \<noteq> mk_canonical_arguments [(Name [97], CInt 1)]"
proof -
  obtain a b where ab: "mk_canonical_arguments sample_arguments = Inr a"
      "mk_canonical_arguments sample_swapped = Inr b"
    using mapping_ok_accepted sample_swapped_ok sample_arguments_ok by blast
  have eq: "sort_args sample_arguments = sort_args sample_swapped"
    by (simp add: sort_args_def sample_swapped_def sample_arguments_def)
  have "a = b"
    using canonical_arguments_eq_iff [OF ab sample_arguments_ok(1) sample_swapped_ok(1)] eq by simp
  obtain c d where cd: "mk_canonical_arguments [(Name [97], CFallback (CInt 1))] = Inr c"
      "mk_canonical_arguments [(Name [97], CInt 1)] = Inr d"
    using mapping_ok_accepted [of "[(Name [97], CFallback (CInt 1))]"]
      mapping_ok_accepted [of "[(Name [97], CInt 1)]"] by (auto simp: fallback_marker_key_def)
  have "c \<noteq> d"
    using canonical_arguments_eq_iff [OF cd] by (simp add: sort_args_def)
  with \<open>a = b\<close> ab cd show ?thesis by simp
qed

text \<open>
  C24: Stores round-trip the bytes untouched: \<open>from_recorded_bytes\<close> takes back what the constructor
  wrote, byte for byte, and therefore with the same digest.
\<close>
theorem recorded_bytes_roundtrip:
  assumes "mk_canonical_arguments kvs = Inr a" "python_value (CDict kvs)"
  shows "from_recorded_bytes (ca_data a) = Inr a"
  using ca_decode_mk [OF assms] assms(1) mk_sort_args [of kvs]
  by (cases a) (simp add: from_recorded_bytes_def Let_def)

theorem recorded_bytes_roundtrip_witness:
  "\<exists>a. mk_canonical_arguments sample_arguments = Inr a \<and> from_recorded_bytes (ca_data a) = Inr a"
proof -
  obtain a where a: "mk_canonical_arguments sample_arguments = Inr a"
    using mapping_ok_accepted sample_arguments_ok by blast
  with recorded_bytes_roundtrip [OF a sample_arguments_ok(1)] show ?thesis by simp
qed

text \<open>What \<open>from_recorded_bytes\<close> takes is the constructor's own spelling of some mapping.\<close>

lemma from_recorded_bytes_canonical:
  "from_recorded_bytes data = Inr a \<Longrightarrow>
     ca_data a = data \<and> (\<exists>kvs. ca_decode a = Inr kvs \<and> mk_canonical_arguments kvs = Inr a)"
  by (auto simp: from_recorded_bytes_def Let_def result_simps canonical_arguments.expand split: if_splits)

text \<open>
  Bytes that hold the reserved key at the top, \<open>{"__glyff_fallback__":1}\<close>, are not canonical
  arguments, but the code reports them with the constructor's \<open>ArgumentCanonicalizationError\<close>
  instead of \<open>InvalidExecutionError\<close>; one level down they are reported as \<open>InvalidExecutionError\<close>.
\<close>
theorem reserved_top_level_error:
  "from_recorded_bytes (map of_nat ([123, 34] @ fallback_marker_key @ [34, 58, 49, 125]))
     = Inl ArgumentCanonicalizationError \<and>
   from_recorded_bytes (map of_nat ([123, 34, 97, 34, 58, 123, 34] @ fallback_marker_key @
       [34, 58, 49, 44, 34, 98, 34, 58, 50, 125, 125])) = Inl InvalidExecutionError"
  by code_simp

end
