(* ===== verification/Aggregate.thy ===== *)
theory Aggregate
  imports Canonical
begin

text \<open>
  The execution aggregate (\<open>_execution.py\<close>): a record of the identity, the lifecycle status, the
  canonical arguments, the result and the metadata entries, with the checks of its constructor
  and its three operations. \<open>valid_execution\<close> is the invariant; every operation keeps it.
\<close>

section \<open>State\<close>

datatype execution_status = STARTED | COMPLETED

datatype serialized_value = SerializedValue (sv_data: bytes)

datatype metadata = Metadata (md_key: pystr) (md_value: serialized_value)

record execution =
  ex_id :: execution_id
  ex_status :: execution_status
  ex_arguments :: canonical_arguments
  ex_result :: "serialized_value option"
  ex_metadata :: "(pystr, metadata) dict"

section \<open>Operations\<close>

text \<open>\<open>Execution(...)\<close>: the fields and then \<open>__post_init__\<close>.\<close>

definition execution_post_init :: "execution \<Rightarrow> exn + execution" where
  "execution_post_init e =
     (if eid_digest (ex_id e) \<noteq> ca_digest (ex_arguments e) then Inl InvalidExecutionError
      else if ex_status e = COMPLETED \<and> ex_result e = None then Inl InvalidExecutionError
      else if ex_status e \<noteq> COMPLETED \<and> ex_result e \<noteq> None then Inl InvalidExecutionError
      else Inr e)"

definition mk_execution ::
  "execution_id \<Rightarrow> execution_status \<Rightarrow> canonical_arguments \<Rightarrow> serialized_value option \<Rightarrow>
   (pystr, metadata) dict \<Rightarrow> exn + execution" where
  "mk_execution i st a r m =
     execution_post_init \<lparr>ex_id = i, ex_status = st, ex_arguments = a, ex_result = r, ex_metadata = m\<rparr>"

definition execution_start :: "execution_id \<Rightarrow> canonical_arguments \<Rightarrow> exn + execution" where
  "execution_start i a = mk_execution i STARTED a None []"

definition execution_complete :: "serialized_value \<Rightarrow> execution \<Rightarrow> exn + execution" where
  "execution_complete r e =
     (if ex_status e = COMPLETED then Inl ValueError
      else Inr (e\<lparr>ex_status := COMPLETED, ex_result := Some r\<rparr>))"

definition set_metadata :: "pystr \<Rightarrow> serialized_value \<Rightarrow> execution \<Rightarrow> execution" where
  "set_metadata k v e = e\<lparr>ex_metadata := AList.update k (Metadata k v) (ex_metadata e)\<rparr>"

definition get_metadata :: "pystr \<Rightarrow> execution \<Rightarrow> metadata option" where
  "get_metadata k e = map_of (ex_metadata e) k"

section \<open>Invariant\<close>

definition metadata_ok :: "(pystr, metadata) dict \<Rightarrow> bool" where
  "metadata_ok m \<longleftrightarrow> distinct (map fst m) \<and> (\<forall>(k, x) \<in> set m. md_key x = k)"

definition valid_execution :: "execution \<Rightarrow> bool" where
  "valid_execution e \<longleftrightarrow>
     eid_digest (ex_id e) = ca_digest (ex_arguments e) \<and>
     (ex_status e = COMPLETED \<longleftrightarrow> ex_result e \<noteq> None) \<and>
     metadata_ok (ex_metadata e)"

lemma execution_post_init_iff [result_simps]:
  "execution_post_init e = Inr e' \<longleftrightarrow>
     e' = e \<and> eid_digest (ex_id e) = ca_digest (ex_arguments e) \<and>
     (ex_status e = COMPLETED \<longleftrightarrow> ex_result e \<noteq> None)"
  by (auto simp: execution_post_init_def)

lemma execution_post_init_error: "execution_post_init e = Inl x \<Longrightarrow> x = InvalidExecutionError"
  by (auto simp: execution_post_init_def split: if_splits)

lemma metadata_ok_update: "metadata_ok m \<Longrightarrow> metadata_ok (AList.update k (Metadata k v) m)"
  by (induction m) (auto simp: metadata_ok_def AList.update_keys split: if_splits)

lemma execution_start_valid:
  "execution_start i a = Inr e \<Longrightarrow>
     valid_execution e \<and> ex_status e = STARTED \<and> ex_result e = None \<and> ex_metadata e = []"
  by (auto simp: execution_start_def mk_execution_def valid_execution_def metadata_ok_def result_simps)

lemma execution_start_iff:
  "execution_start i a = Inr e \<longleftrightarrow>
     eid_digest i = ca_digest a \<and>
     e = \<lparr>ex_id = i, ex_status = STARTED, ex_arguments = a, ex_result = None, ex_metadata = []\<rparr>"
  by (auto simp: execution_start_def mk_execution_def result_simps)

lemma execution_complete_valid:
  "execution_complete r e = Inr e' \<Longrightarrow> valid_execution e \<Longrightarrow> valid_execution e'"
  by (auto simp: execution_complete_def valid_execution_def split: if_splits)

lemma set_metadata_valid: "valid_execution e \<Longrightarrow> valid_execution (set_metadata k v e)"
  by (simp add: valid_execution_def set_metadata_def metadata_ok_update)

lemma get_set_metadata:
  "get_metadata k' (set_metadata k v e) = (if k' = k then Some (Metadata k v) else get_metadata k' e)"
  by (simp add: get_metadata_def set_metadata_def)

lemma get_metadata_key: "valid_execution e \<Longrightarrow> get_metadata k e = Some x \<Longrightarrow> md_key x = k"
  by (auto simp: valid_execution_def metadata_ok_def get_metadata_def dest!: map_of_SomeD)

section \<open>Lifecycle\<close>

text \<open>What a caller can do to an execution.\<close>

datatype execution_op = OpComplete serialized_value | OpSetMetadata pystr serialized_value

fun apply_op :: "execution_op \<Rightarrow> execution \<Rightarrow> execution" where
  "apply_op (OpComplete r) e = (case execution_complete r e of Inl _ \<Rightarrow> e | Inr e' \<Rightarrow> e')"
| "apply_op (OpSetMetadata k v) e = set_metadata k v e"

fun first_result :: "execution_op list \<Rightarrow> serialized_value option" where
  "first_result [] = None"
| "first_result (OpComplete r # ops) = Some r"
| "first_result (OpSetMetadata k v # ops) = first_result ops"

fun last_metadata :: "pystr \<Rightarrow> execution_op list \<Rightarrow> serialized_value option" where
  "last_metadata k [] = None"
| "last_metadata k (OpComplete r # ops) = last_metadata k ops"
| "last_metadata k (OpSetMetadata k' v # ops) =
     (case last_metadata k ops of Some w \<Rightarrow> Some w | None \<Rightarrow> if k' = k then Some v else None)"

lemma apply_op_valid: "valid_execution e \<Longrightarrow> valid_execution (apply_op op e)"
  by (cases op) (auto simp: set_metadata_valid dest: execution_complete_valid split: sum.splits)

lemma apply_op_id [simp]:
  "ex_id (apply_op op e) = ex_id e" "ex_arguments (apply_op op e) = ex_arguments e"
  by (cases op; auto simp: set_metadata_def execution_complete_def)+

lemma fold_apply_op_id [simp]:
  "ex_id (fold apply_op ops e) = ex_id e" "ex_arguments (fold apply_op ops e) = ex_arguments e"
  by (induction ops arbitrary: e) simp_all

lemma fold_apply_op_valid: "valid_execution e \<Longrightarrow> valid_execution (fold apply_op ops e)"
  by (induction ops arbitrary: e) (simp_all add: apply_op_valid)

lemma fold_apply_op_result:
  "valid_execution e \<Longrightarrow>
     ex_result (fold apply_op ops e) = (case ex_result e of Some r \<Rightarrow> Some r | None \<Rightarrow> first_result ops)"
proof (induction ops arbitrary: e)
  case (Cons op ops)
  have "ex_result (fold apply_op (op # ops) e) =
      (case ex_result (apply_op op e) of Some r \<Rightarrow> Some r | None \<Rightarrow> first_result ops)"
    using Cons.IH [OF apply_op_valid [OF Cons.prems]] by simp
  then show ?case
    using Cons.prems
    by (cases op) (auto simp: set_metadata_def execution_complete_def valid_execution_def split: option.splits)
qed (simp split: option.split)

lemma fold_apply_op_metadata:
  "get_metadata k (fold apply_op ops e) =
     (case last_metadata k ops of Some v \<Rightarrow> Some (Metadata k v) | None \<Rightarrow> get_metadata k e)"
proof (induction ops arbitrary: e)
  case (Cons op ops)
  have "get_metadata k (apply_op (OpComplete r) e) = get_metadata k e" for r
    by (simp add: execution_complete_def get_metadata_def)
  then show ?case
    by (cases op) (auto simp: Cons.IH get_set_metadata split: option.splits)
qed simp

section \<open>Properties\<close>

definition sample_ca :: canonical_arguments where
  "sample_ca = CanonicalArguments [123, 125]"

definition sample_eid :: execution_id where
  "sample_eid = ExecutionId None (DomainId [100]) (ExecutionName [102]) 0 (ca_digest sample_ca)"

text \<open>
  C31: Lifecycle. Whatever sequence of \<open>complete\<close> and \<open>set_metadata\<close> a started execution goes
  through, it keeps its identity and arguments, satisfies the invariant (digest of its own
  arguments, a result exactly when completed), its result is the one of the first \<open>complete\<close>, and
  a metadata key holds the last value set.
\<close>
theorem execution_lifecycle:
  assumes "execution_start i a = Inr e"
  shows "let f = fold apply_op ops e
         in valid_execution f \<and> ex_id f = i \<and> ex_arguments f = a \<and> ex_result f = first_result ops \<and>
            (\<forall>k. get_metadata k f = map_option (Metadata k) (last_metadata k ops))"
proof -
  have e: "valid_execution e" "ex_result e = None" "ex_metadata e = []"
    using execution_start_valid [OF assms] by auto
  moreover have "ex_id e = i" "ex_arguments e = a" using assms by (simp_all add: execution_start_iff)
  moreover have "get_metadata k (fold apply_op ops e) = map_option (Metadata k) (last_metadata k ops)" for k
    unfolding fold_apply_op_metadata using e(3) by (simp add: get_metadata_def split: option.splits)
  ultimately show ?thesis
    using fold_apply_op_result [OF e(1)] by (simp add: Let_def fold_apply_op_valid)
qed

theorem execution_lifecycle_witness:
  "let e = \<lparr>ex_id = sample_eid, ex_status = STARTED, ex_arguments = sample_ca, ex_result = None, ex_metadata = []\<rparr>;
       f = fold apply_op [OpSetMetadata [107] (SerializedValue [1]), OpComplete (SerializedValue [2]),
             OpSetMetadata [107] (SerializedValue [3]), OpComplete (SerializedValue [4])] e
   in ex_result f = Some (SerializedValue [2]) \<and> get_metadata [107] f = Some (Metadata [107] (SerializedValue [3]))"
proof -
  have "execution_start sample_eid sample_ca
      = Inr \<lparr>ex_id = sample_eid, ex_status = STARTED, ex_arguments = sample_ca, ex_result = None, ex_metadata = []\<rparr>"
    by (simp add: execution_start_iff sample_eid_def)
  from execution_lifecycle [OF this, of "[OpSetMetadata [107] (SerializedValue [1]),
      OpComplete (SerializedValue [2]), OpSetMetadata [107] (SerializedValue [3]),
      OpComplete (SerializedValue [4])]"]
  show ?thesis by (simp add: Let_def)
qed

end
