(* ===== verification/Staging.thy ===== *)
theory Staging
  imports Aggregate
begin

text \<open>
  Transaction-local execution mutations (\<open>store/staging.py\<close>): snapshots of aggregates, the
  registry of open stages with its \<open>ContextVar\<close>, and the stages themselves.

  A context is a number (\<open>asyncio\<close> gives every task a copy of its creator's context), a stage
  is the index of its object. \<open>sg_open\<close> is the value of the context variable in every context,
  \<open>sg_tokens\<close> what \<open>ContextVar.set\<close> returned for a stage: the context it was set in and the value
  it replaced. \<open>ContextVar.reset\<close> refuses a token of another context.

  The step relation covers every operation in every context and the copying of contexts; the
  lemmas are its invariants and what they give: a stage gives its parent back, a closed batch is
  final, and no context reads a closed stage.
\<close>

section \<open>Snapshots and mutations\<close>

datatype execution_key = ExecutionKey (key_session: session_id) (key_execution: execution_id)

record execution_snapshot =
  sn_id :: execution_id
  sn_status :: execution_status
  sn_arguments :: bytes
  sn_result :: "bytes option"
  sn_metadata :: "(pystr \<times> bytes) list"

definition from_execution :: "execution \<Rightarrow> execution_snapshot" where
  "from_execution e =
     \<lparr>sn_id = ex_id e, sn_status = ex_status e, sn_arguments = ca_data (ex_arguments e),
      sn_result = map_option sv_data (ex_result e),
      sn_metadata = sort_items (map (\<lambda>(name, item). (name, sv_data (md_value item))) (ex_metadata e))\<rparr>"

definition to_execution :: "execution_snapshot \<Rightarrow> exn + execution" where
  "to_execution s =
     bind_r (from_recorded_bytes (sn_arguments s)) (\<lambda>arguments.
       mk_execution (sn_id s) (sn_status s) arguments (map_option SerializedValue (sn_result s))
         (map (\<lambda>(name, value). (name, Metadata name (SerializedValue value))) (sn_metadata s)))"

datatype mutation = SaveExecution execution_snapshot | DeleteExecution

type_synonym batch = "(execution_key, mutation) dict"

section \<open>The registry and the stages\<close>

record stage =
  st_mutations :: batch
  st_batch :: "batch option"

record staging =
  sg_open :: "nat \<Rightarrow> nat option"
  sg_contexts :: nat
  sg_tokens :: "(nat, nat \<times> nat option) dict"
  sg_stages :: "stage list"

definition staging_init :: staging where
  "staging_init = \<lparr>sg_open = (\<lambda>_. None), sg_contexts = 1, sg_tokens = [], sg_stages = []\<rparr>"

definition stage_closed :: "nat \<Rightarrow> staging \<Rightarrow> bool" where
  "stage_closed i s \<longleftrightarrow> st_batch (sg_stages s ! i) \<noteq> None"

definition registry_open :: "nat \<Rightarrow> staging \<Rightarrow> nat option" where
  "registry_open c s =
     (case sg_open s c of None \<Rightarrow> None | Some i \<Rightarrow> if stage_closed i s then None else Some i)"

definition registry_enter :: "nat \<Rightarrow> nat \<Rightarrow> staging \<Rightarrow> staging" where
  "registry_enter c i s =
     s\<lparr>sg_open := (sg_open s)(c := Some i),
       sg_tokens := AList.update i (c, sg_open s c) (sg_tokens s)\<rparr>"

text \<open>The token is popped before \<open>reset\<close> can refuse it.\<close>

definition registry_leave :: "nat \<Rightarrow> nat \<Rightarrow> staging \<Rightarrow> (exn + unit) \<times> staging" where
  "registry_leave c i s =
     (case map_of (sg_tokens s) i of
        None \<Rightarrow> (Inl RuntimeError, s)
      | Some (c', old) \<Rightarrow>
          if sg_open s c \<noteq> Some i then (Inl RuntimeError, s)
          else
            (let popped = s\<lparr>sg_tokens := AList.delete i (sg_tokens s)\<rparr>
             in if c' \<noteq> c then (Inl ValueError, popped)
                else (Inr (), popped\<lparr>sg_open := (sg_open s)(c := old)\<rparr>)))"

definition update_stage :: "nat \<Rightarrow> (stage \<Rightarrow> stage) \<Rightarrow> staging \<Rightarrow> staging" where
  "update_stage i f s = s\<lparr>sg_stages := (sg_stages s)[i := f (sg_stages s ! i)]\<rparr>"

definition stage_put :: "nat \<Rightarrow> execution_key \<Rightarrow> mutation \<Rightarrow> staging \<Rightarrow> exn + staging" where
  "stage_put i k m s =
     (if stage_closed i s then Inl RuntimeError
      else Inr (update_stage i (\<lambda>st. st\<lparr>st_mutations := AList.update k m (st_mutations st)\<rparr>) s))"

definition stage_save :: "nat \<Rightarrow> session_id \<Rightarrow> execution \<Rightarrow> staging \<Rightarrow> exn + staging" where
  "stage_save i sess e s = stage_put i (ExecutionKey sess (ex_id e)) (SaveExecution (from_execution e)) s"

definition stage_delete :: "nat \<Rightarrow> session_id \<Rightarrow> execution_id \<Rightarrow> staging \<Rightarrow> exn + staging" where
  "stage_delete i sess x s = stage_put i (ExecutionKey sess x) DeleteExecution s"

definition stage_lookup :: "nat \<Rightarrow> session_id \<Rightarrow> execution_id \<Rightarrow> staging \<Rightarrow> mutation option" where
  "stage_lookup i sess x s = map_of (st_mutations (sg_stages s ! i)) (ExecutionKey sess x)"

definition stage_snapshot :: "nat \<Rightarrow> staging \<Rightarrow> batch" where
  "stage_snapshot i s = st_mutations (sg_stages s ! i)"

definition stage_get_batch :: "nat \<Rightarrow> staging \<Rightarrow> exn + batch" where
  "stage_get_batch i s =
     (case st_batch (sg_stages s ! i) of None \<Rightarrow> Inl RuntimeError | Some b \<Rightarrow> Inr b)"

definition stage_close :: "nat \<Rightarrow> nat \<Rightarrow> staging \<Rightarrow> (exn + unit) \<times> staging" where
  "stage_close c i s =
     (case registry_leave c i s of
        (Inl x, s') \<Rightarrow> (Inl x, s')
      | (Inr _, s') \<Rightarrow> (Inr (), update_stage i (\<lambda>st. st\<lparr>st_batch := Some (st_mutations st)\<rparr>) s'))"

definition staging_begin :: "nat \<Rightarrow> staging \<Rightarrow> nat \<times> staging" where
  "staging_begin c s =
     (let i = length (sg_stages s)
      in (i, registry_enter c i (s\<lparr>sg_stages := sg_stages s @ [\<lparr>st_mutations = [], st_batch = None\<rparr>]\<rparr>)))"

definition staging_current :: "nat \<Rightarrow> staging \<Rightarrow> nat option" where
  "staging_current c s = registry_open c s"

definition staging_require_current :: "nat \<Rightarrow> staging \<Rightarrow> exn + nat" where
  "staging_require_current c s =
     (case registry_open c s of None \<Rightarrow> Inl RuntimeError | Some i \<Rightarrow> Inr i)"

text \<open>A task is created in context \<open>c\<close>: the new context starts with the same value.\<close>

definition copy_context :: "nat \<Rightarrow> staging \<Rightarrow> nat \<times> staging" where
  "copy_context c s =
     (sg_contexts s,
      s\<lparr>sg_open := (sg_open s)(sg_contexts s := sg_open s c), sg_contexts := Suc (sg_contexts s)\<rparr>)"

section \<open>Snapshots keep the aggregate\<close>

text \<open>Arguments a store may hold: bytes that \<open>from_recorded_bytes\<close> takes back.\<close>

definition recordable :: "canonical_arguments \<Rightarrow> bool" where
  "recordable a \<longleftrightarrow> from_recorded_bytes (ca_data a) = Inr a"

lemma recordable_mk: "mk_canonical_arguments kvs = Inr a \<Longrightarrow> python_value (CDict kvs) \<Longrightarrow> recordable a"
  unfolding recordable_def
  using ca_decode_mk [of kvs a] mk_sort_args [of kvs]
  by (cases a) (simp add: from_recorded_bytes_def Let_def)

text \<open>What a snapshot keeps of an execution: everything but the order of its metadata.\<close>

definition sort_execution :: "execution \<Rightarrow> execution" where
  "sort_execution e = e\<lparr>ex_metadata := sort_items (ex_metadata e)\<rparr>"

lemma sort_execution_simps [simp]:
  "ex_id (sort_execution e) = ex_id e" "ex_status (sort_execution e) = ex_status e"
  "ex_arguments (sort_execution e) = ex_arguments e" "ex_result (sort_execution e) = ex_result e"
  "ex_metadata (sort_execution e) = sort_items (ex_metadata e)"
  "sort_execution (sort_execution e) = sort_execution e"
  by (simp_all add: sort_execution_def)

lemma valid_sort_execution [simp]: "valid_execution (sort_execution e) = valid_execution e"
  by (auto simp: valid_execution_def metadata_ok_def)

lemma get_metadata_sort: "valid_execution e \<Longrightarrow> get_metadata k (sort_execution e) = get_metadata k e"
  by (simp add: get_metadata_def valid_execution_def metadata_ok_def map_of_sort_items)

lemma sort_items_map_snd:
  "sort_items (map (\<lambda>(k, v). (k, g v)) d) = map (\<lambda>(k, v). (k, g v)) (sort_items (d :: ('k :: linorder, 'v) dict))"
  using sort_items_map_value [of g d] by (simp add: map_prod_def id_def)

lemma to_from_execution:
  assumes "valid_execution e" "recordable (ex_arguments e)"
  shows "to_execution (from_execution e) = Inr (sort_execution e)"
proof -
  have "\<forall>(k, x) \<in> set (sort_items (ex_metadata e)). Metadata k (md_value x) = x"
    using assms(1) by (auto simp: valid_execution_def metadata_ok_def metadata.expand)
  then have m: "map (\<lambda>(k, x). (k, Metadata k (md_value x))) (sort_items (ex_metadata e)) = sort_items (ex_metadata e)"
    by (intro map_idI) auto
  have M: "map (\<lambda>(name, value). (name, Metadata name (SerializedValue value)))
      (sort_items (map (\<lambda>(name, item). (name, sv_data (md_value item))) (ex_metadata e)))
    = sort_items (ex_metadata e)"
    unfolding sort_items_map_snd using m by (simp add: comp_def case_prod_unfold)
  have R: "map_option SerializedValue (map_option sv_data (ex_result e)) = ex_result e"
    by (cases "ex_result e") simp_all
  have "execution_post_init (sort_execution e) = Inr (sort_execution e)"
    using assms(1) by (auto simp: valid_execution_def result_simps)
  moreover have "sort_execution e = \<lparr>ex_id = ex_id e, ex_status = ex_status e, ex_arguments = ex_arguments e,
      ex_result = ex_result e, ex_metadata = sort_items (ex_metadata e)\<rparr>"
    by (simp add: sort_execution_def)
  ultimately show ?thesis
    using assms(2) M R
    by (simp add: to_execution_def from_execution_def recordable_def mk_execution_def)
qed

lemma to_execution_valid:
  assumes "to_execution s = Inr e" "distinct (map fst (sn_metadata s))"
  shows "valid_execution e" "recordable (ex_arguments e)" "ex_id e = sn_id s" "ex_status e = sn_status s"
proof -
  obtain a where a: "from_recorded_bytes (sn_arguments s) = Inr a"
    and e: "mk_execution (sn_id s) (sn_status s) a (map_option SerializedValue (sn_result s))
         (map (\<lambda>(name, value). (name, Metadata name (SerializedValue value))) (sn_metadata s)) = Inr e"
    using assms(1) by (auto simp: to_execution_def result_simps)
  show "ex_id e = sn_id s" "ex_status e = sn_status s"
    using e by (auto simp: mk_execution_def result_simps)
  show "recordable (ex_arguments e)"
    using a e from_recorded_bytes_canonical [OF a] by (auto simp: recordable_def mk_execution_def result_simps)
  have "metadata_ok (map (\<lambda>(name, value). (name, Metadata name (SerializedValue value))) (sn_metadata s))"
    using assms(2) by (auto simp: metadata_ok_def comp_def case_prod_unfold)
  then show "valid_execution e"
    using e by (auto simp: mk_execution_def result_simps valid_execution_def)
qed

section \<open>Steps\<close>

inductive staging_step :: "staging \<Rightarrow> staging \<Rightarrow> bool" where
  step_copy: "c < sg_contexts s \<Longrightarrow> copy_context c s = (c', s') \<Longrightarrow> staging_step s s'"
| step_begin: "c < sg_contexts s \<Longrightarrow> staging_begin c s = (i, s') \<Longrightarrow> staging_step s s'"
| step_put: "i < length (sg_stages s) \<Longrightarrow> stage_put i k m s = Inr s' \<Longrightarrow> staging_step s s'"
| step_close: "c < sg_contexts s \<Longrightarrow> i < length (sg_stages s) \<Longrightarrow> stage_close c i s = (r, s') \<Longrightarrow> staging_step s s'"

inductive_simps staging_step_simps: "staging_step s s'"

inductive staging_steps :: "staging \<Rightarrow> staging \<Rightarrow> bool" where
  steps_refl: "staging_steps s s"
| steps_step: "staging_steps s s' \<Longrightarrow> staging_step s' s'' \<Longrightarrow> staging_steps s s''"

lemma staging_steps_trans: "staging_steps s s' \<Longrightarrow> staging_steps s' s'' \<Longrightarrow> staging_steps s s''"
  by (rotate_tac, induction rule: staging_steps.induct) (auto intro: steps_step)

lemmas stage_defs =
  stage_put_def update_stage_def stage_close_def registry_leave_def registry_enter_def
  staging_begin_def copy_context_def stage_closed_def

text \<open>The invariant of reachable states.\<close>

definition staging_inv :: "staging \<Rightarrow> bool" where
  "staging_inv s \<longleftrightarrow>
     (\<forall>c i. sg_open s c = Some i \<longrightarrow> i < length (sg_stages s)) \<and>
     (\<forall>c \<ge> sg_contexts s. sg_open s c = None) \<and>
     (\<forall>i c j. map_of (sg_tokens s) i = Some (c, j) \<longrightarrow>
        i < length (sg_stages s) \<and> c < sg_contexts s \<and> \<not> stage_closed i s \<and>
        (\<forall>k. j = Some k \<longrightarrow> k < i)) \<and>
     (\<forall>i < length (sg_stages s). distinct (map fst (st_mutations (sg_stages s ! i))) \<and>
        (\<forall>b. st_batch (sg_stages s ! i) = Some b \<longrightarrow> b = st_mutations (sg_stages s ! i)))"

lemma staging_inv_init: "staging_inv staging_init"
  by (simp add: staging_inv_def staging_init_def)

lemma copy_context_inv:
  assumes "staging_inv s" "c < sg_contexts s" "copy_context c s = (c', s')"
  shows "staging_inv s'"
proof -
  have s': "s' = s\<lparr>sg_open := (sg_open s)(sg_contexts s := sg_open s c), sg_contexts := Suc (sg_contexts s)\<rparr>"
    using assms(3) by (auto simp: copy_context_def)
  show ?thesis
    unfolding s' using assms(1,2) unfolding staging_inv_def stage_closed_def
    by (simp add: less_Suc_eq)
qed

lemma staging_begin_inv:
  assumes "staging_inv s" "c < sg_contexts s" "staging_begin c s = (i, s')"
  shows "staging_inv s'"
proof -
  let ?n = "length (sg_stages s)"
  have s': "s' = s\<lparr>sg_stages := sg_stages s @ [\<lparr>st_mutations = [], st_batch = None\<rparr>],
      sg_open := (sg_open s)(c := Some ?n), sg_tokens := AList.update ?n (c, sg_open s c) (sg_tokens s)\<rparr>"
    using assms(3) by (auto simp: staging_begin_def registry_enter_def Let_def)
  note inv = assms(1) [unfolded staging_inv_def]
  show ?thesis unfolding staging_inv_def
  proof (intro conjI allI impI)
    fix d j assume "sg_open s' d = Some j"
    then show "j < length (sg_stages s')" using inv by (auto simp: s' less_Suc_eq split: if_splits)
  next
    fix d assume "sg_contexts s' \<le> d"
    then show "sg_open s' d = None" using inv assms(2) by (auto simp: s')
  next
    fix j d k assume t: "map_of (sg_tokens s') j = Some (d, k)"
    show "j < length (sg_stages s')" "d < sg_contexts s'" "\<not> stage_closed j s'"
      using t inv assms(2) by (auto simp: s' stage_closed_def nth_append less_Suc_eq split: if_splits)
    fix k' assume "k = Some k'"
    then show "k' < j" using t inv by (auto simp: s' split: if_splits)
  next
    fix j assume j: "j < length (sg_stages s')"
    then show "distinct (map fst (st_mutations (sg_stages s' ! j)))"
      using inv by (auto simp: s' nth_append less_Suc_eq)
    fix b assume "st_batch (sg_stages s' ! j) = Some b"
    then show "b = st_mutations (sg_stages s' ! j)"
      using inv j by (auto simp: s' nth_append less_Suc_eq split: if_splits)
  qed
qed

lemma stage_put_inv:
  assumes "staging_inv s" "i < length (sg_stages s)" "stage_put i k m s = Inr s'"
  shows "staging_inv s'"
proof -
  have open_i: "st_batch (sg_stages s ! i) = None"
    and s': "s' = s\<lparr>sg_stages := (sg_stages s)[i := (sg_stages s ! i)
      \<lparr>st_mutations := AList.update k m (st_mutations (sg_stages s ! i))\<rparr>]\<rparr>"
    using assms(3) by (auto simp: stage_defs split: if_splits)
  show ?thesis
    using assms(1,2) open_i unfolding s' staging_inv_def stage_closed_def
    by (auto simp: nth_list_update)
qed

lemma stage_close_cases:
  assumes "stage_close c i s = (r, s')"
  obtains (refused) "r = Inl RuntimeError" "s' = s"
    | (stranded) c' old where "r = Inl ValueError" "map_of (sg_tokens s) i = Some (c', old)" "c' \<noteq> c"
        "sg_open s c = Some i" "s' = s\<lparr>sg_tokens := AList.delete i (sg_tokens s)\<rparr>"
    | (closed) old where "r = Inr ()" "map_of (sg_tokens s) i = Some (c, old)" "sg_open s c = Some i"
        "s' = s\<lparr>sg_tokens := AList.delete i (sg_tokens s), sg_open := (sg_open s)(c := old),
           sg_stages := (sg_stages s)[i := (sg_stages s ! i)\<lparr>st_batch := Some (st_mutations (sg_stages s ! i))\<rparr>]\<rparr>"
  using assms by (auto simp: stage_close_def registry_leave_def update_stage_def Let_def split: option.splits if_splits)

lemma stage_close_inv:
  assumes "staging_inv s" "c < sg_contexts s" "i < length (sg_stages s)" "stage_close c i s = (r, s')"
  shows "staging_inv s'"
  using assms(4)
proof (cases rule: stage_close_cases)
  case refused
  with assms(1) show ?thesis by simp
next
  case (stranded c' old)
  then show ?thesis using assms(1) by (auto simp: staging_inv_def stage_closed_def)
next
  case (closed old)
  have "old = Some k \<Longrightarrow> k < length (sg_stages s)" for k
    using closed(2) assms(1,3) unfolding staging_inv_def by (metis less_trans)
  then show ?thesis
    using assms(1,2,3) unfolding closed(4) staging_inv_def stage_closed_def
    by (auto simp: nth_list_update split: if_splits)
qed

lemma staging_step_inv: "staging_step s s' \<Longrightarrow> staging_inv s \<Longrightarrow> staging_inv s'"
  by (induction rule: staging_step.induct)
    (auto intro: copy_context_inv staging_begin_inv stage_put_inv stage_close_inv)

lemma staging_steps_inv: "staging_steps s s' \<Longrightarrow> staging_inv s \<Longrightarrow> staging_inv s'"
  by (induction rule: staging_steps.induct) (auto intro: staging_step_inv)

section \<open>What steps leave alone\<close>

text \<open>A stage never disappears; a closed one never changes; its token, once gone, never returns.\<close>

lemma staging_step_mono:
  assumes "staging_step s s'" "staging_inv s"
  shows "length (sg_stages s) \<le> length (sg_stages s')"
    and "i < length (sg_stages s) \<Longrightarrow> stage_closed i s \<Longrightarrow> sg_stages s' ! i = sg_stages s ! i"
    and "i < length (sg_stages s) \<Longrightarrow> map_of (sg_tokens s) i = None \<Longrightarrow> map_of (sg_tokens s') i = None"
    and "i < length (sg_stages s) \<Longrightarrow> map_of (sg_tokens s') i = Some t \<Longrightarrow> map_of (sg_tokens s) i = Some t"
    and "i < length (sg_stages s) \<Longrightarrow> map_of (sg_tokens s) i = None \<Longrightarrow> \<not> stage_closed i s \<Longrightarrow> \<not> stage_closed i s'"
proof -
  have "length (sg_stages s) \<le> length (sg_stages s') \<and>
    (i < length (sg_stages s) \<longrightarrow> (stage_closed i s \<longrightarrow> sg_stages s' ! i = sg_stages s ! i) \<and>
     (map_of (sg_tokens s') i = None \<or> map_of (sg_tokens s') i = map_of (sg_tokens s) i) \<and>
     (map_of (sg_tokens s) i = None \<longrightarrow> \<not> stage_closed i s \<longrightarrow> \<not> stage_closed i s'))"
    using assms(1)
  proof (cases rule: staging_step.cases)
    case (step_close c j r)
    have "\<not> stage_closed j s" if "map_of (sg_tokens s) j = Some t" for t
      using that assms(2) unfolding staging_inv_def by (cases t) blast
    with step_close(3) show ?thesis
      by (cases rule: stage_close_cases) (auto simp: stage_closed_def nth_list_update)
  qed (auto simp: stage_defs Let_def nth_append nth_list_update split: if_splits)
  then show "length (sg_stages s) \<le> length (sg_stages s')"
    and "i < length (sg_stages s) \<Longrightarrow> stage_closed i s \<Longrightarrow> sg_stages s' ! i = sg_stages s ! i"
    and "i < length (sg_stages s) \<Longrightarrow> map_of (sg_tokens s) i = None \<Longrightarrow> map_of (sg_tokens s') i = None"
    and "i < length (sg_stages s) \<Longrightarrow> map_of (sg_tokens s') i = Some t \<Longrightarrow> map_of (sg_tokens s) i = Some t"
    and "i < length (sg_stages s) \<Longrightarrow> map_of (sg_tokens s) i = None \<Longrightarrow> \<not> stage_closed i s \<Longrightarrow> \<not> stage_closed i s'"
    by auto
qed

lemma staging_steps_mono:
  assumes "staging_steps s s'" "staging_inv s" "i < length (sg_stages s)"
  shows "i < length (sg_stages s') \<and>
    (stage_closed i s \<longrightarrow> sg_stages s' ! i = sg_stages s ! i) \<and>
    (map_of (sg_tokens s) i = None \<longrightarrow> map_of (sg_tokens s') i = None) \<and>
    (\<forall>t. map_of (sg_tokens s') i = Some t \<longrightarrow> map_of (sg_tokens s) i = Some t) \<and>
    (map_of (sg_tokens s) i = None \<longrightarrow> \<not> stage_closed i s \<longrightarrow> \<not> stage_closed i s')"
  using assms
proof (induction rule: staging_steps.induct)
  case (steps_step s s' s'')
  then have IH: "i < length (sg_stages s') \<and>
    (stage_closed i s \<longrightarrow> sg_stages s' ! i = sg_stages s ! i) \<and>
    (map_of (sg_tokens s) i = None \<longrightarrow> map_of (sg_tokens s') i = None) \<and>
    (\<forall>t. map_of (sg_tokens s') i = Some t \<longrightarrow> map_of (sg_tokens s) i = Some t) \<and>
    (map_of (sg_tokens s) i = None \<longrightarrow> \<not> stage_closed i s \<longrightarrow> \<not> stage_closed i s')" by blast
  note m = staging_step_mono(2,3,4,5) [OF steps_step.hyps(2) staging_steps_inv [OF steps_step.hyps(1) steps_step.prems(1)], of i]
  have i: "i < length (sg_stages s')" using IH by blast
  have len: "i < length (sg_stages s'')"
    using i staging_step_mono(1) [OF steps_step.hyps(2) staging_steps_inv [OF steps_step.hyps(1) steps_step.prems(1)]]
    by (rule less_le_trans)
  have "stage_closed i s \<Longrightarrow> stage_closed i s'" using IH by (simp add: stage_closed_def)
  then have "stage_closed i s \<longrightarrow> sg_stages s'' ! i = sg_stages s ! i" using IH m(1) [OF i] by simp
  moreover have "map_of (sg_tokens s) i = None \<longrightarrow> map_of (sg_tokens s'') i = None" using IH m(2) [OF i] by blast
  moreover have "\<forall>t. map_of (sg_tokens s'') i = Some t \<longrightarrow> map_of (sg_tokens s) i = Some t"
    using IH m(3) [OF i] by blast
  moreover have "map_of (sg_tokens s) i = None \<longrightarrow> \<not> stage_closed i s \<longrightarrow> \<not> stage_closed i s''"
    using IH m(4) [OF i] by blast
  ultimately show ?case using len by blast
qed simp

lemma no_token_refused:
  "map_of (sg_tokens s) i = None \<Longrightarrow> stage_close c i s = (Inl RuntimeError, s)"
  by (simp add: stage_close_def registry_leave_def)

lemma closed_no_token:
  "staging_inv s \<Longrightarrow> stage_closed i s \<Longrightarrow> map_of (sg_tokens s) i = None"
  unfolding staging_inv_def by (metis not_None_eq surj_pair)

lemma begin_token:
  "staging_begin c s = (i, s') \<Longrightarrow>
     i = length (sg_stages s) \<and> i < length (sg_stages s') \<and> map_of (sg_tokens s') i = Some (c, sg_open s c) \<and>
     sg_open s' c = Some i \<and> sg_contexts s' = sg_contexts s \<and> \<not> stage_closed i s' \<and> st_mutations (sg_stages s' ! i) = []"
  by (auto simp: stage_defs Let_def)

section \<open>Properties\<close>

text \<open>
  A stage gives its parent back. Whatever happens in any context between \<open>begin\<close> and a close
  that succeeds, the close is made from the context that began the stage, restores there exactly
  the stage that was open before, and fixes the batch to what was staged.
\<close>
theorem stage_gives_parent_back:
  assumes "staging_inv s" "c < sg_contexts s" "staging_begin c s = (i, s1)"
    and "staging_steps s1 s2" "stage_close d i s2 = (Inr (), s3)"
  shows "d = c \<and> sg_open s3 c = sg_open s c \<and> stage_get_batch i s3 = Inr (stage_snapshot i s2) \<and>
         staging_current d s3 \<noteq> Some i"
proof -
  note b = begin_token [OF assms(3)]
  have inv1: "staging_inv s1" by (rule staging_begin_inv [OF assms(1,2,3)])
  note m = staging_steps_mono [OF assms(4) inv1 conjunct1 [OF conjunct2 [OF b]]]
  show ?thesis
    using assms(5)
  proof (cases rule: stage_close_cases)
    case (closed old)
    then have "(d, old) = (c, sg_open s c)" using m b by auto
    moreover have "stage_closed i s3" using closed(4) m by (auto simp: stage_closed_def)
    ultimately show ?thesis
      using closed m by (auto simp: stage_get_batch_def stage_snapshot_def staging_current_def registry_open_def
          split: option.splits)
  qed simp_all
qed

theorem stage_gives_parent_back_witness:
  "let (i, s1) = staging_begin 0 staging_init; (j, s2) = staging_begin 0 s1; (r, s3) = stage_close 0 j s2
   in r = Inr () \<and> staging_current 0 s3 = Some i \<and> stage_get_batch j s3 = Inr []"
proof -
  obtain i s1 where b1: "staging_begin 0 staging_init = (i, s1)" by fastforce
  obtain j s2 where b2: "staging_begin 0 s1 = (j, s2)" by fastforce
  have inv1: "staging_inv s1" and c: "0 < sg_contexts s1"
    using staging_begin_inv [OF staging_inv_init _ b1] begin_token [OF b1] by (simp_all add: staging_init_def)
  note t1 = begin_token [OF b1] and t2 = begin_token [OF b2]
  have "map_of (sg_tokens s2) j = Some (0, sg_open s1 0)" "sg_open s2 0 = Some j" using t2 by blast+
  then obtain s3 where s3: "stage_close 0 j s2 = (Inr (), s3)"
    by (simp add: stage_close_def registry_leave_def Let_def)
  have g: "sg_open s3 0 = sg_open s1 0" "stage_get_batch j s3 = Inr (stage_snapshot j s2)"
    using stage_gives_parent_back [OF inv1 c b2 steps_refl s3] by auto
  have "staging_step s2 s3"
    using t2 c s3 by (intro staging_step.step_close [of 0 s2 j]) auto
  moreover have "staging_step s1 s2"
    using c b2 by (rule staging_step.step_begin)
  ultimately have "staging_steps s1 s3" by (meson steps_refl steps_step)
  then have "\<not> stage_closed i s3"
  proof -
    have "sg_stages s3 ! i = sg_stages s1 ! i"
      using s3 b2 t1 t2 by (cases rule: stage_close_cases [OF s3])
        (auto simp: stage_defs Let_def nth_append nth_list_update)
    moreover have "\<not> stage_closed i s1" using t1 by blast
    ultimately show ?thesis by (simp add: stage_closed_def)
  qed
  then have "staging_current 0 s3 = Some i"
    using g t1 by (simp add: staging_current_def registry_open_def)
  moreover have "stage_snapshot j s2 = []" unfolding stage_snapshot_def using t2 by blast
  ultimately show ?thesis
    unfolding b1 b2 s3 Let_def prod.case using g by simp
qed

text \<open>
  A closed batch is final. After a stage has closed, whatever else happens in any context,
  its batch stays the same, no write or second close of it succeeds or changes anything, and no
  context (a copy taken while it was open included) sees it as its open stage.
\<close>
theorem closed_batch_final:
  assumes "staging_inv s" "i < length (sg_stages s)" "stage_closed i s" "staging_steps s s'"
  shows "stage_get_batch i s' = stage_get_batch i s \<and> stage_put i k m s' = Inl RuntimeError \<and>
         stage_close c i s' = (Inl RuntimeError, s') \<and> staging_current c s' \<noteq> Some i"
proof -
  note mono = staging_steps_mono [OF assms(4,1,2)]
  have "map_of (sg_tokens s') i = None" using mono closed_no_token [OF assms(1,3)] by blast
  moreover have "stage_closed i s'" using mono assms(3) by (auto simp: stage_closed_def)
  ultimately show ?thesis
    using mono assms(3) no_token_refused [of s' i c]
    by (auto simp: stage_get_batch_def stage_put_def staging_current_def registry_open_def split: option.splits)
qed

theorem closed_batch_final_witness:
  "\<exists>i s. stage_closed i s \<and> staging_current 1 s = None \<and> sg_open s 1 = Some i \<and> stage_close 1 i s = (Inl RuntimeError, s)"
proof -
  let ?s = "snd (stage_close 0 0 (snd (copy_context 0 (snd (staging_begin 0 staging_init)))))"
  have s1: "staging_inv (snd (staging_begin 0 staging_init))"
    by (rule staging_begin_inv [OF staging_inv_init, of 0 0]) (simp_all add: staging_init_def staging_begin_def)
  have s2: "staging_inv (snd (copy_context 0 (snd (staging_begin 0 staging_init))))"
    by (rule copy_context_inv [OF s1, of 0 1]) (simp_all add: staging_init_def stage_defs)
  have i: "staging_inv ?s"
    by (rule stage_close_inv [OF s2, of 0 0 "Inr ()"]) (simp_all add: staging_init_def stage_defs Let_def)
  have l: "0 < length (sg_stages ?s)" "stage_closed 0 ?s" "sg_open ?s 1 = Some 0"
    by (simp_all add: staging_init_def stage_defs Let_def)
  then have "staging_current 1 ?s = None" by (simp add: staging_current_def registry_open_def)
  with closed_batch_final [OF i l(1,2) steps_refl, where c = 1] l show ?thesis by blast
qed

text \<open>
  A close from a copied context strands the stage. When a task that inherited the open stage
  closes it, \<open>leave\<close> pops the token before \<open>ContextVar.reset\<close> refuses it with \<open>ValueError\<close>; from
  then on the stage is open for ever: no context, its own included, can close it.
\<close>
theorem copied_close_strands:
  assumes "staging_inv s" "c < sg_contexts s" "staging_begin c s = (i, s1)"
    and "copy_context c s1 = (d, s2)" "staging_steps s2 s2'" "sg_open s2' d = Some i"
    and "stage_close d i s2' = (r, s3)" "staging_steps s3 s4"
  shows "r \<noteq> Inr () \<and> (r = Inl ValueError \<longrightarrow>
           \<not> stage_closed i s4 \<and> (\<forall>e. stage_close e i s4 = (Inl RuntimeError, s4)))"
proof -
  note b = begin_token [OF assms(3)]
  have inv1: "staging_inv s1" by (rule staging_begin_inv [OF assms(1,2,3)])
  have d: "d = sg_contexts s1" "sg_tokens s2 = sg_tokens s1" "length (sg_stages s2) = length (sg_stages s1)"
    using assms(4) by (auto simp: copy_context_def)
  have inv2: "staging_inv s2" using copy_context_inv [OF inv1 _ assms(4)] b assms(2) by simp
  have i2: "i < length (sg_stages s2)" using b d by simp
  have inv2': "staging_inv s2'" by (rule staging_steps_inv [OF assms(5) inv2])
  note m = staging_steps_mono [OF assms(5) inv2 i2]
  have tok: "map_of (sg_tokens s2') i = Some t \<Longrightarrow> t = (c, sg_open s c)" for t
    using m b d by auto
  have "d \<noteq> c" using d b assms(2) by simp
  show ?thesis
    using assms(7)
  proof (cases rule: stage_close_cases)
    case (closed old)
    with tok \<open>d \<noteq> c\<close> show ?thesis by blast
  next
    case (stranded c' old)
    have "\<not> stage_closed i s2'" using stranded(2) inv2' unfolding staging_inv_def by blast
    then have s3: "map_of (sg_tokens s3) i = None" "\<not> stage_closed i s3" "i < length (sg_stages s3)"
      using stranded(5) m by (simp_all add: stage_closed_def)
    have inv3: "staging_inv s3"
      using inv2' stranded(5) by (auto simp: staging_inv_def stage_closed_def)
    note m' = staging_steps_mono [OF assms(8) inv3 s3(3)]
    have "map_of (sg_tokens s4) i = None" using m' s3 by blast
    then show ?thesis using m' s3 no_token_refused stranded(1) by simp
  qed simp
qed

theorem copied_close_strands_witness:
  "\<exists>i d s2 s3. stage_close d i s2 = (Inl ValueError, s3) \<and> \<not> stage_closed i s3 \<and> sg_open s3 0 = Some i \<and>
     stage_close 0 i s3 = (Inl RuntimeError, s3)"
proof -
  let ?s1 = "snd (staging_begin 0 staging_init)"
  let ?s2 = "snd (copy_context 0 ?s1)"
  let ?s3 = "snd (stage_close 1 0 ?s2)"
  have c: "staging_begin 0 staging_init = (0, ?s1)" "copy_context 0 ?s1 = (1, ?s2)"
    "sg_open ?s2 1 = Some 0" "stage_close 1 0 ?s2 = (Inl ValueError, ?s3)" "sg_open ?s3 0 = Some 0"
    by (simp_all add: staging_init_def stage_defs Let_def)
  have "\<not> stage_closed 0 ?s3 \<and> (\<forall>e. stage_close e 0 ?s3 = (Inl RuntimeError, ?s3))"
    using copied_close_strands [OF staging_inv_init _ c(1,2) steps_refl c(3,4) steps_refl]
    by (simp add: staging_init_def)
  with c show ?thesis by blast
qed

end
