(* ===== verification/Codec.thy ===== *)
theory Codec
  imports Staging
begin

text \<open>
  The JSON codec of the text backends (\<open>store/aggregate_codec.py\<close>): an execution as a JSON
  object with the fields \<open>arguments\<close> (the exact canonical text, as a string), \<open>status\<close>,
  \<open>result\<close> and \<open>metadata\<close> (embedded JSON values).

  Embedding loses the layout of a serialized value, so what comes back is its normal form:
  \<open>normal_execution\<close>. The main lemma is the round trip up to it, the arguments byte for byte;
  a second round trip changes nothing.
\<close>

section \<open>Values\<close>

definition validate_json_text_value :: "serialized_value \<Rightarrow> exn + json" where
  "validate_json_text_value v =
     bind_r (except_r (utf8_decode (sv_data v)) C_UnicodeDecodeError SerializationError) (\<lambda>data.
       except_r (json_loads True data) C_JSONDecodeError SerializationError)"

definition pack_value :: "serialized_value option \<Rightarrow> exn + json" where
  "pack_value v = (case v of None \<Rightarrow> Inr JNull | Some w \<Rightarrow> validate_json_text_value w)"

definition json_bytes :: "json \<Rightarrow> exn + bytes" where
  "json_bytes v = bind_r (json_dumps (compact True) v) utf8_encode"

definition unpack_value :: "json \<Rightarrow> exn + serialized_value" where
  "unpack_value v = bind_r (json_bytes v) (\<lambda>b. Inr (SerializedValue b))"

definition pack_metadata :: "(pystr, metadata) dict \<Rightarrow> exn + (pystr, json) dict" where
  "pack_metadata m = dict_comp (\<lambda>item. pack_value (Some (md_value item))) m"

definition unpack_metadata :: "json \<Rightarrow> exn + (pystr, metadata) dict" where
  "unpack_metadata raw =
     (case raw of
        JObj entries \<Rightarrow>
          traverse (\<lambda>(k, v). bind_r (unpack_value v) (\<lambda>w. Inr (k, Metadata k w))) entries
      | _ \<Rightarrow> Inr [])"

definition pack_arguments :: "canonical_arguments \<Rightarrow> exn + pystr" where
  "pack_arguments a = except_r (utf8_decode (ca_data a)) C_UnicodeDecodeError SerializationError"

section \<open>Executions\<close>

definition status_name :: "execution_status \<Rightarrow> pystr" where
  "status_name st = (case st of STARTED \<Rightarrow> str_of ''started'' | COMPLETED \<Rightarrow> str_of ''completed'')"

text \<open>\<open>_NAME_TO_STATUS[...]\<close>: a value that cannot be a dictionary key is a \<open>TypeError\<close>.\<close>

definition name_to_status :: "json \<Rightarrow> exn + execution_status" where
  "name_to_status v =
     (case v of
        JStr s \<Rightarrow>
          (if s = status_name STARTED then Inr STARTED
           else if s = status_name COMPLETED then Inr COMPLETED else Inl KeyError)
      | JList _ \<Rightarrow> Inl TypeError
      | JObj _ \<Rightarrow> Inl TypeError
      | _ \<Rightarrow> Inl KeyError)"

definition k_arguments :: pystr where "k_arguments = str_of ''arguments''"
definition k_status :: pystr where "k_status = str_of ''status''"
definition k_result :: pystr where "k_result = str_of ''result''"
definition k_metadata :: pystr where "k_metadata = str_of ''metadata''"

definition execution_to_dict :: "execution \<Rightarrow> exn + (pystr, json) dict" where
  "execution_to_dict e =
     bind_r (pack_arguments (ex_arguments e)) (\<lambda>a.
     bind_r (pack_value (ex_result e)) (\<lambda>r.
     bind_r (pack_metadata (ex_metadata e)) (\<lambda>m.
       Inr [(k_arguments, JStr a), (k_status, JStr (status_name (ex_status e))),
            (k_result, r), (k_metadata, JObj m)])))"

definition dict_get :: "pystr \<Rightarrow> (pystr, json) dict \<Rightarrow> json" where
  "dict_get k d = (case map_of d k of None \<Rightarrow> JNull | Some v \<Rightarrow> v)"

definition dict_item :: "pystr \<Rightarrow> (pystr, json) dict \<Rightarrow> exn + json" where
  "dict_item k d = (case map_of d k of None \<Rightarrow> Inl KeyError | Some v \<Rightarrow> Inr v)"

definition execution_from_dict :: "execution_id \<Rightarrow> (pystr, json) dict \<Rightarrow> exn + execution" where
  "execution_from_dict i stored =
     bind_r (bind_r (dict_item k_status stored) name_to_status) (\<lambda>status.
     bind_r (dict_item k_arguments stored) (\<lambda>arguments.
     bind_r (case arguments of JStr s \<Rightarrow> utf8_encode s | _ \<Rightarrow> Inl AttributeError) (\<lambda>data.
     bind_r (from_recorded_bytes data) (\<lambda>a.
     bind_r (if status = COMPLETED
             then bind_r (unpack_value (dict_get k_result stored)) (\<lambda>v. Inr (Some v)) else Inr None) (\<lambda>r.
     bind_r (unpack_metadata (dict_get k_metadata stored)) (\<lambda>m.
       mk_execution i status a r m))))))"

section \<open>Normal forms\<close>

text \<open>A serialized value a text backend can keep: UTF-8 JSON text of characters only.\<close>

definition json_text_value :: "serialized_value \<Rightarrow> bool" where
  "json_text_value v \<longleftrightarrow>
     (case validate_json_text_value v of Inr j \<Rightarrow> json_ok True j \<and> json_scalar j | Inl _ \<Rightarrow> False)"

definition normal_value :: "serialized_value \<Rightarrow> serialized_value" where
  "normal_value v =
     (case bind_r (validate_json_text_value v) unpack_value of Inr w \<Rightarrow> w | Inl _ \<Rightarrow> v)"

definition normal_metadata :: "(pystr, metadata) dict \<Rightarrow> (pystr, metadata) dict" where
  "normal_metadata m = map (\<lambda>(k, x). (k, Metadata k (normal_value (md_value x)))) (sort_items m)"

definition normal_execution :: "execution \<Rightarrow> execution" where
  "normal_execution e =
     e\<lparr>ex_result := map_option normal_value (ex_result e), ex_metadata := normal_metadata (ex_metadata e)\<rparr>"

definition json_execution :: "execution \<Rightarrow> bool" where
  "json_execution e \<longleftrightarrow>
     (case ex_result e of None \<Rightarrow> True | Some v \<Rightarrow> json_text_value v) \<and>
     (\<forall>(k, x) \<in> set (ex_metadata e). scalar_str k \<and> json_text_value (md_value x))"

lemma json_bytes_valid:
  assumes "json_bytes j = Inr b" "json_ok True j"
  shows "validate_json_text_value (SerializedValue b) = Inr (sort_json j)"
proof -
  obtain t where t: "json_dumps (compact True) j = Inr t" "utf8_encode t = Inr b"
    using assms(1) by (auto simp: json_bytes_def result_simps)
  then show ?thesis
    using json_roundtrip [of "compact True" j t] assms(2) utf8_decode_encode [OF t(2)]
    by (simp add: validate_json_text_value_def)
qed

lemma json_text_valueE:
  assumes "json_text_value v"
  obtains j b where "validate_json_text_value v = Inr j" "json_ok True j" "json_scalar j"
    "json_bytes j = Inr b" "json_bytes (sort_json j) = Inr b" "normal_value v = SerializedValue b"
    "validate_json_text_value (SerializedValue b) = Inr (sort_json j)"
proof -
  obtain j where j: "validate_json_text_value v = Inr j" "json_ok True j" "json_scalar j"
    using assms by (auto simp: json_text_value_def split: sum.splits)
  obtain t where t: "json_dumps (compact True) j = Inr t"
    using json_dump_total [of "compact True" j 0] j by (auto simp: json_dumps_def)
  have "scalar_str t"
    using json_dump_scalar [of "compact True" j 0 t] j t by (simp add: json_dumps_def)
  then obtain b where b: "utf8_encode t = Inr b" using utf8_encode_total by blast
  have jb: "json_bytes j = Inr b" using t b by (simp add: json_bytes_def)
  moreover have "json_bytes (sort_json j) = Inr b"
    using jb by (simp add: json_bytes_def json_dumps_def json_dump_sort_json)
  moreover have "normal_value v = SerializedValue b"
    using j jb by (simp add: normal_value_def unpack_value_def)
  moreover have "validate_json_text_value (SerializedValue b) = Inr (sort_json j)"
    by (rule json_bytes_valid [OF jb j(2)])
  ultimately show ?thesis using that j by blast
qed

lemma json_scalar_sort_json [simp]: "json_scalar (sort_json j) \<longleftrightarrow> json_scalar j"
proof (induction "size j" arbitrary: j rule: less_induct)
  case less
  show ?case
  proof (cases j)
    case (JList vs)
    with less json_size_item [of _ vs] show ?thesis by auto
  next
    case (JObj kvs)
    with less json_size_member [of _ _ kvs] show ?thesis
      by (fastforce simp: sort_items_map_value)
  qed simp_all
qed

lemma normal_value_json: "json_text_value v \<Longrightarrow> json_text_value (normal_value v)"
  by (erule json_text_valueE) (simp add: json_text_value_def sort_json_ok)

lemma normal_value_idem: "json_text_value v \<Longrightarrow> normal_value (normal_value v) = normal_value v"
  by (erule json_text_valueE) (simp add: normal_value_def unpack_value_def)

lemma recordable_text:
  assumes "recordable a"
  obtains t where "utf8_encode t = Inr (ca_data a)" "pack_arguments a = Inr t"
proof -
  obtain kvs where "mk_canonical_arguments kvs = Inr a"
    using from_recorded_bytes_canonical assms unfolding recordable_def by blast
  then obtain t where t: "utf8_encode t = Inr (ca_data a)"
    unfolding mk_canonical_arguments_enc by (auto simp: encode_canonical_def result_simps split: if_splits)
  then have "pack_arguments a = Inr t" by (simp add: pack_arguments_def utf8_decode_encode)
  with t that show ?thesis by blast
qed

section \<open>The stored form\<close>

definition parsed_value :: "serialized_value \<Rightarrow> json" where
  "parsed_value v = (case validate_json_text_value v of Inr j \<Rightarrow> j | Inl _ \<Rightarrow> JNull)"

definition result_json :: "execution \<Rightarrow> json" where
  "result_json e = (case ex_result e of None \<Rightarrow> JNull | Some v \<Rightarrow> parsed_value v)"

definition metadata_json :: "execution \<Rightarrow> (pystr, json) dict" where
  "metadata_json e = map (\<lambda>(k, x). (k, parsed_value (md_value x))) (ex_metadata e)"

definition arguments_text :: "execution \<Rightarrow> pystr" where
  "arguments_text e = (case pack_arguments (ex_arguments e) of Inr t \<Rightarrow> t | Inl _ \<Rightarrow> [])"

definition stored_dict :: "execution \<Rightarrow> (pystr, json) dict" where
  "stored_dict e =
     [(k_arguments, JStr (arguments_text e)), (k_status, JStr (status_name (ex_status e))),
      (k_result, result_json e), (k_metadata, JObj (metadata_json e))]"

text \<open>An execution a text backend can keep.\<close>

definition storable_execution :: "execution \<Rightarrow> bool" where
  "storable_execution e \<longleftrightarrow> valid_execution e \<and> recordable (ex_arguments e) \<and> json_execution e"

lemma key_names_distinct [simp]:
  "k_arguments \<noteq> k_status" "k_arguments \<noteq> k_result" "k_arguments \<noteq> k_metadata"
  "k_status \<noteq> k_arguments" "k_status \<noteq> k_result" "k_status \<noteq> k_metadata"
  "k_result \<noteq> k_arguments" "k_result \<noteq> k_status" "k_result \<noteq> k_metadata"
  "k_metadata \<noteq> k_arguments" "k_metadata \<noteq> k_status" "k_metadata \<noteq> k_result"
  by (simp_all add: k_arguments_def k_status_def k_result_def k_metadata_def)

lemma parsed_value_simps:
  assumes "json_text_value v"
  shows "validate_json_text_value v = Inr (parsed_value v)" "json_ok True (parsed_value v)"
    "json_scalar (parsed_value v)"
    "unpack_value (parsed_value v) = Inr (normal_value v)"
    "unpack_value (sort_json (parsed_value v)) = Inr (normal_value v)"
  using assms by (auto elim!: json_text_valueE simp: parsed_value_def unpack_value_def)

lemma parsed_normal_value:
  "json_text_value v \<Longrightarrow> parsed_value (normal_value v) = sort_json (parsed_value v)"
  by (erule json_text_valueE) (simp add: parsed_value_def)

lemma json_executionD:
  assumes "json_execution e"
  shows "ex_result e = Some v \<Longrightarrow> json_text_value v"
    and "(k, x) \<in> set (ex_metadata e) \<Longrightarrow> json_text_value (md_value x)"
    and "(k, x) \<in> set (ex_metadata e) \<Longrightarrow> scalar_str k"
  using assms by (auto simp: json_execution_def)

lemma execution_to_dict_stored:
  assumes "storable_execution e"
  shows "execution_to_dict e = Inr (stored_dict e)"
proof -
  have j: "json_execution e" using assms by (simp add: storable_execution_def)
  obtain t where "pack_arguments (ex_arguments e) = Inr t"
    using assms recordable_text by (auto simp: storable_execution_def)
  moreover have "pack_value (ex_result e) = Inr (result_json e)"
    using json_executionD(1) [OF j] parsed_value_simps(1)
    by (cases "ex_result e") (auto simp: pack_value_def result_json_def)
  moreover have "pack_metadata (ex_metadata e) = Inr (metadata_json e)"
  proof -
    have "pack_metadata (ex_metadata e) = Inr (map (map_prod id (\<lambda>x. parsed_value (md_value x))) (ex_metadata e))"
      unfolding pack_metadata_def pack_value_def
      using json_executionD(2) [OF j] parsed_value_simps(1)
      by (intro dict_comp_Inr_map) auto
    then show ?thesis by (simp add: metadata_json_def map_prod_def)
  qed
  ultimately show ?thesis
    by (simp add: execution_to_dict_def stored_dict_def arguments_text_def)
qed

lemma unpack_metadata_map:
  assumes "\<And>k x. (k, x) \<in> set m \<Longrightarrow> unpack_value (f x) = Inr (g x)"
  shows "unpack_metadata (JObj (map (\<lambda>(k, x). (k, f x)) m)) = Inr (map (\<lambda>(k, x). (k, Metadata k (g x))) m)"
proof -
  have "traverse (\<lambda>(k, v). bind_r (unpack_value v) (\<lambda>w. Inr (k, Metadata k w))) (map (\<lambda>(k, x). (k, f x)) m)
      = Inr (map (\<lambda>(k, x). (k, Metadata k (g x))) m)"
    unfolding traverse_map by (rule traverse_Inr_map) (use assms in \<open>auto split: prod.splits\<close>)
  then show ?thesis by (simp add: unpack_metadata_def)
qed

lemma sort_metadata_json:
  "sort_json (JObj (metadata_json e))
     = JObj (map (\<lambda>(k, x). (k, sort_json (parsed_value (md_value x)))) (sort_items (ex_metadata e)))"
  using sort_items_map_snd [of "\<lambda>x. sort_json (parsed_value (md_value x))" "ex_metadata e"]
  by (simp add: metadata_json_def comp_def case_prod_unfold map_prod_def)

text \<open>Reading any dictionary that holds the four fields, sorted or not.\<close>

lemma execution_from_dict_fields:
  assumes "storable_execution e"
    and "map_of d k_arguments = Some (JStr (arguments_text e))"
    and "map_of d k_status = Some (JStr (status_name (ex_status e)))"
    and "map_of d k_result = Some r" "r = result_json e \<or> r = sort_json (result_json e)"
    and "map_of d k_metadata = Some md" "unpack_metadata md = Inr m"
  shows "execution_from_dict (ex_id e) d
           = Inr (e\<lparr>ex_result := map_option normal_value (ex_result e), ex_metadata := m\<rparr>)"
proof -
  have valid: "valid_execution e" and rec: "recordable (ex_arguments e)" and j: "json_execution e"
    using assms(1) by (simp_all add: storable_execution_def)
  obtain t where t: "utf8_encode t = Inr (ca_data (ex_arguments e))" "arguments_text e = t"
    by (rule recordable_text [OF rec]) (simp add: arguments_text_def)
  have st: "name_to_status (JStr (status_name (ex_status e))) = Inr (ex_status e)"
    by (cases "ex_status e") (simp_all add: name_to_status_def status_name_def)
  have res: "(if ex_status e = COMPLETED then bind_r (unpack_value r) (\<lambda>v. Inr (Some v)) else Inr None)
      = Inr (map_option normal_value (ex_result e))"
  proof (cases "ex_result e")
    case None
    then show ?thesis using valid by (simp add: valid_execution_def)
  next
    case (Some v)
    then have "unpack_value r = Inr (normal_value v)"
      using assms(5) parsed_value_simps(4,5) [OF json_executionD(1) [OF j Some]]
      by (auto simp: result_json_def)
    then show ?thesis using valid Some by (simp add: valid_execution_def)
  qed
  have "mk_execution (ex_id e) (ex_status e) (ex_arguments e) (map_option normal_value (ex_result e)) m
      = Inr (e\<lparr>ex_result := map_option normal_value (ex_result e), ex_metadata := m\<rparr>)"
    using valid by (auto simp: mk_execution_def valid_execution_def result_simps)
  moreover have "from_recorded_bytes (ca_data (ex_arguments e)) = Inr (ex_arguments e)"
    using rec by (simp add: recordable_def)
  ultimately show ?thesis
    unfolding execution_from_dict_def dict_item_def dict_get_def assms(2,3,4,6)
    by (simp only: option.case json.case bind_r_simps st res t assms(7))
qed

lemma stored_dict_lookup [simp]:
  "map_of (stored_dict e) k_arguments = Some (JStr (arguments_text e))"
  "map_of (stored_dict e) k_status = Some (JStr (status_name (ex_status e)))"
  "map_of (stored_dict e) k_result = Some (result_json e)"
  "map_of (stored_dict e) k_metadata = Some (JObj (metadata_json e))"
  "distinct (map fst (stored_dict e))"
  by (simp_all add: stored_dict_def)

text \<open>A dictionary that went through a JSON document comes back with sorted keys.\<close>

definition sorted_dict :: "execution \<Rightarrow> (pystr, json) dict" where
  "sorted_dict e = sort_items (map (map_prod id sort_json) (stored_dict e))"

lemma sort_json_stored: "sort_json (JObj (stored_dict e)) = JObj (sorted_dict e)"
  by (simp add: sorted_dict_def)

lemma map_of_sorted_dict: "map_of (sorted_dict e) k = map_option sort_json (map_of (stored_dict e) k)"
proof -
  have "distinct (map fst (map (map_prod id sort_json) (stored_dict e)))" by simp
  then show ?thesis
    unfolding sorted_dict_def by (simp add: map_of_sort_items map_of_map_prod_id)
qed

lemma execution_from_stored_dict:
  assumes "storable_execution e"
  shows "execution_from_dict (ex_id e) (stored_dict e)
    = Inr (e\<lparr>ex_result := map_option normal_value (ex_result e),
             ex_metadata := map (\<lambda>(k, x). (k, Metadata k (normal_value (md_value x)))) (ex_metadata e)\<rparr>)"
  using assms unpack_metadata_map [of "ex_metadata e" "\<lambda>x. parsed_value (md_value x)"]
    parsed_value_simps(4) json_executionD(2)
  by (intro execution_from_dict_fields) (auto simp: metadata_json_def storable_execution_def)

lemma execution_from_sorted_dict:
  assumes "storable_execution e"
  shows "execution_from_dict (ex_id e) (sorted_dict e) = Inr (normal_execution e)"
proof -
  have "unpack_metadata (sort_json (JObj (metadata_json e))) = Inr (normal_metadata (ex_metadata e))"
    unfolding sort_metadata_json normal_metadata_def
    by (rule unpack_metadata_map)
      (use assms parsed_value_simps(5) json_executionD(2) in \<open>auto simp: storable_execution_def\<close>)
  then show ?thesis
    unfolding normal_execution_def
    by (intro execution_from_dict_fields [OF assms]) (auto simp: map_of_sorted_dict)
qed

section \<open>Normal executions\<close>

lemma normal_metadata_simps:
  "map fst (normal_metadata m) = map fst (sort_items m)"
  "(k, y) \<in> set (normal_metadata m) \<longleftrightarrow> (\<exists>x. (k, x) \<in> set m \<and> y = Metadata k (normal_value (md_value x)))"
  by (auto simp: normal_metadata_def comp_def split_beta image_iff) force

lemma normal_execution_simps [simp]:
  "ex_id (normal_execution e) = ex_id e" "ex_status (normal_execution e) = ex_status e"
  "ex_arguments (normal_execution e) = ex_arguments e"
  "ex_result (normal_execution e) = map_option normal_value (ex_result e)"
  "ex_metadata (normal_execution e) = normal_metadata (ex_metadata e)"
  by (simp_all add: normal_execution_def)

lemma normal_metadata_Nil [simp]: "normal_metadata [] = []"
  by (simp add: normal_metadata_def)

lemma storable_normal:
  assumes "storable_execution e"
  shows "storable_execution (normal_execution e)"
proof -
  have j: "json_execution e" using assms by (simp add: storable_execution_def)
  have "valid_execution (normal_execution e)"
    using assms by (auto simp: storable_execution_def valid_execution_def metadata_ok_def normal_metadata_simps)
  moreover have "json_execution (normal_execution e)"
    using json_executionD [OF j]
    by (auto simp: json_execution_def normal_metadata_simps normal_value_json split: option.splits)
  ultimately show ?thesis using assms by (simp add: storable_execution_def)
qed

lemma normal_execution_idem:
  assumes "storable_execution e"
  shows "normal_execution (normal_execution e) = normal_execution e"
proof -
  have j: "json_execution e" using assms by (simp add: storable_execution_def)
  have "map_option normal_value (map_option normal_value (ex_result e)) = map_option normal_value (ex_result e)"
    using json_executionD(1) [OF j] by (cases "ex_result e") (auto simp: normal_value_idem)
  moreover have "normal_metadata (normal_metadata (ex_metadata e)) = normal_metadata (ex_metadata e)"
  proof -
    have "sort_items (normal_metadata (ex_metadata e)) = normal_metadata (ex_metadata e)"
      unfolding sort_items_def by (rule sort_key_id_if_sorted) (simp add: normal_metadata_simps)
    moreover have "(case y of (k, x) \<Rightarrow> (k, Metadata k (normal_value (md_value x)))) = y"
      if y: "y \<in> set (normal_metadata (ex_metadata e))" for y
    proof -
      obtain k z where "y = (k, z)" by fastforce
      then show ?thesis
        using y json_executionD(2) [OF j] by (auto simp: normal_metadata_simps normal_value_idem)
    qed
    ultimately show ?thesis
      unfolding normal_metadata_def [of "normal_metadata (ex_metadata e)"] by (simp add: map_idI)
  qed
  ultimately show ?thesis by (simp add: normal_execution_def)
qed

text \<open>Sorting the metadata first, as a snapshot does, makes no difference.\<close>

lemma normal_sort_execution [simp]: "normal_execution (sort_execution e) = normal_execution e"
  by (simp add: normal_execution_def normal_metadata_def sort_execution_def)

lemma storable_sort_execution [simp]: "storable_execution (sort_execution e) = storable_execution e"
  by (simp add: storable_execution_def json_execution_def)

lemma to_from_execution_storable:
  "storable_execution e \<Longrightarrow> to_execution (from_execution e) = Inr (sort_execution e)"
  by (simp add: storable_execution_def to_from_execution)

section \<open>Properties\<close>

definition json_ascii :: "string \<Rightarrow> serialized_value" where
  "json_ascii s = SerializedValue (map of_nat (str_of s))"

lemma sample_ca_recordable: "recordable sample_ca"
proof (rule recordable_mk)
  show "mk_canonical_arguments [] = Inr sample_ca"
    using ascii_utf8 [of "[123, 125]"]
    by (simp add: mk_canonical_arguments_enc encode_canonical_def json_dumps_def sample_ca_def)
qed simp

definition sample_execution :: execution where
  "sample_execution = \<lparr>ex_id = sample_eid, ex_status = COMPLETED, ex_arguments = sample_ca,
     ex_result = Some (json_ascii ''[ 1,true]''), ex_metadata = [([107], Metadata [107] (json_ascii ''null''))]\<rparr>"

lemma sample_values:
  "validate_json_text_value (json_ascii ''[ 1,true]'') = Inr (JList [JInt 1, JBool True])"
  "validate_json_text_value (json_ascii ''null'') = Inr JNull"
  "unpack_value (JList [JInt 1, JBool True]) = Inr (json_ascii ''[1,true]'')"
proof -
  show "validate_json_text_value (json_ascii ''[ 1,true]'') = Inr (JList [JInt 1, JBool True])"
    "validate_json_text_value (json_ascii ''null'') = Inr JNull"
    unfolding json_ascii_def by code_simp+
  have "json_dumps (compact True) (JList [JInt 1, JBool True]) = Inr (str_of ''[1,true]'')" by code_simp
  then show "unpack_value (JList [JInt 1, JBool True]) = Inr (json_ascii ''[1,true]'')"
    using ascii_utf8 [of "str_of ''[1,true]''"] by (simp add: unpack_value_def json_bytes_def json_ascii_def)
qed

lemma sample_execution_storable: "storable_execution sample_execution"
  using sample_ca_recordable
  by (simp add: storable_execution_def sample_execution_def valid_execution_def metadata_ok_def
      json_execution_def json_text_value_def sample_values sample_eid_def)

text \<open>
  C32: Codec round trip. An execution a text backend can keep has a stored form, and what the stored
  form reads back as, directly or after a trip through a JSON document that sorts its keys, is the
  same execution: same identity, status and argument bytes, its result and metadata values in
  normal form; doing it again changes nothing more.
\<close>
theorem codec_roundtrip:
  assumes "storable_execution e"
  shows "\<exists>d. execution_to_dict e = Inr d \<and>
     (\<forall>d'. sort_json (JObj d) = JObj d' \<longrightarrow> execution_from_dict (ex_id e) d' = Inr (normal_execution e)) \<and>
     (\<exists>f. execution_from_dict (ex_id e) d = Inr f \<and> sort_execution f = normal_execution e) \<and>
     storable_execution (normal_execution e) \<and> normal_execution (normal_execution e) = normal_execution e"
proof -
  have "sort_items (map (\<lambda>(k, x). (k, Metadata k (normal_value (md_value x)))) (ex_metadata e))
      = normal_metadata (ex_metadata e)"
    unfolding normal_metadata_def
    using sort_key_map [of fst "\<lambda>(k, x). (k, Metadata k (normal_value (md_value x)))" "ex_metadata e"]
    by (simp add: sort_items_def case_prod_unfold)
  then show ?thesis
    using execution_to_dict_stored [OF assms] execution_from_stored_dict [OF assms]
      execution_from_sorted_dict [OF assms] storable_normal [OF assms] normal_execution_idem [OF assms]
    by (simp add: sorted_dict_def sort_execution_def normal_execution_def)
qed

theorem codec_roundtrip_witness:
  "\<exists>d f. execution_to_dict sample_execution = Inr d \<and> execution_from_dict sample_eid d = Inr f \<and>
     ex_result f = Some (json_ascii ''[1,true]'')"
proof -
  obtain d f where "execution_to_dict sample_execution = Inr d"
      "execution_from_dict sample_eid d = Inr f" "sort_execution f = normal_execution sample_execution"
    using codec_roundtrip [OF sample_execution_storable] by (auto simp: sample_execution_def)
  moreover have "ex_result (normal_execution sample_execution) = Some (json_ascii ''[1,true]'')"
    by (simp add: sample_execution_def normal_value_def sample_values)
  ultimately show ?thesis by (metis sort_execution_simps(4))
qed

lemma validate_error: "validate_json_text_value v = Inl x \<Longrightarrow> x = SerializationError"
  by (auto simp: validate_json_text_value_def bind_r_Inl_iff except_r_def utf8_decode_def json_loads_def
      split: sum.splits option.splits if_splits prod.splits)

text \<open>
  A text backend takes exactly the executions whose result and metadata values are UTF-8 JSON
  text; for any other it raises \<open>SerializationError\<close>, whichever field is at fault.
\<close>
theorem codec_rejects_non_json:
  assumes "recordable (ex_arguments e)"
  shows "if (\<forall>v \<in> set_option (ex_result e) \<union> (md_value ` snd ` set (ex_metadata e)).
              \<exists>j. validate_json_text_value v = Inr j)
         then \<exists>d. execution_to_dict e = Inr d else execution_to_dict e = Inl SerializationError"
proof -
  obtain t where t: "pack_arguments (ex_arguments e) = Inr t" using recordable_text [OF assms] by blast
  have r: "pack_value (ex_result e) = Inl x \<Longrightarrow> x = SerializationError" for x
    by (auto simp: pack_value_def dest: validate_error split: option.splits)
  have m: "pack_metadata (ex_metadata e) = Inl x \<Longrightarrow> x = SerializationError" for x
    unfolding pack_metadata_def pack_value_def by (auto dest!: dict_comp_InlD validate_error)
  show ?thesis
  proof (cases "(\<exists>j. pack_value (ex_result e) = Inr j) \<and> (\<exists>j. pack_metadata (ex_metadata e) = Inr j)")
    case True
    then obtain md where md: "pack_metadata (ex_metadata e) = Inr md" by blast
    have "\<exists>j. validate_json_text_value v = Inr j" if "v \<in> md_value ` snd ` set (ex_metadata e)" for v
      using md that unfolding pack_metadata_def dict_comp_def pack_value_def
      by (auto simp: result_simps dest!: traverse_InrD)
    with True t show ?thesis
      by (auto simp: execution_to_dict_def pack_value_def split: option.splits)
  next
    case False
    then have "execution_to_dict e = Inl SerializationError"
      using t r m by (auto simp: execution_to_dict_def bind_r_def split: sum.splits)
    moreover have "\<not> (\<forall>v \<in> set_option (ex_result e) \<union> (md_value ` snd ` set (ex_metadata e)).
              \<exists>j. validate_json_text_value v = Inr j)"
    proof
      assume *: "\<forall>v \<in> set_option (ex_result e) \<union> (md_value ` snd ` set (ex_metadata e)).
              \<exists>j. validate_json_text_value v = Inr j"
      have "\<exists>j. pack_value (ex_result e) = Inr j"
        using * by (cases "ex_result e") (auto simp: pack_value_def)
      moreover have "\<exists>j. pack_metadata (ex_metadata e) = Inr j"
        unfolding pack_metadata_def pack_value_def by (rule dict_comp_total) (use * in force)
      ultimately show False using False by blast
    qed
    ultimately show ?thesis by auto
  qed
qed

theorem codec_rejects_non_json_witness:
  "execution_to_dict (sample_execution\<lparr>ex_result := Some (json_ascii ''nope'')\<rparr>) = Inl SerializationError"
proof -
  have "validate_json_text_value (json_ascii ''nope'') = Inl SerializationError"
    unfolding json_ascii_def by code_simp
  then show ?thesis
    using codec_rejects_non_json [of "sample_execution\<lparr>ex_result := Some (json_ascii ''nope'')\<rparr>"]
      sample_ca_recordable
    by (simp add: sample_execution_def)
qed

text \<open>
  A value with an escaped lone surrogate, as \<open>JsonSerializer(ensure_ascii=True)\<close> writes one, is
  accepted by \<open>validate_json_text_value\<close> and packed, but it cannot be written back as text: the
  backend fails later with \<open>UnicodeEncodeError\<close> instead of refusing it with \<open>SerializationError\<close>.
\<close>
theorem surrogate_value_accepted_unwritable:
  "validate_json_text_value (SerializedValue (map of_nat [34, 92, 117, 100, 56, 48, 48, 34])) = Inr (JStr [0xD800]) \<and>
   json_bytes (JStr [0xD800]) = Inl UnicodeEncodeError"
proof
  have "json_loads True [34, 92, 117, 100, 56, 48, 48, 34] = Inr (JStr [0xD800])"
    by (simp add: json_loads_def parse_value.simps scan_string_unfold scan_hex4_def hex_value_def scan_low_half_def)
  then show "validate_json_text_value (SerializedValue (map of_nat [34, 92, 117, 100, 56, 48, 48, 34])) = Inr (JStr [0xD800])"
    using utf8_decode_encode [OF ascii_utf8 [of "[34, 92, 117, 100, 56, 48, 48, 34]"]]
    by (simp add: validate_json_text_value_def)
  have "json_dumps (compact True) (JStr [0xD800]) = Inr [34, 0xD800, 34]"
    by (simp add: json_dumps_def encode_string_def escape_char_def compact_def)
  then show "json_bytes (JStr [0xD800]) = Inl UnicodeEncodeError"
    by (simp add: json_bytes_def utf8_encode_def is_scalar_def is_surrogate_def)
qed

end
