(* ===== verification/Paths.thy ===== *)
theory Paths
  imports Identity
begin

text \<open>
  \<open>store/utils.py\<close>: the path an execution identity is stored under, one percent-encoded
  frame \<open>domain:name#sequence:digest\<close> per identity of the chain, root first, joined by
  slashes; and the strict reader of such paths.

  The lemmas give both round trips, what a path prefix selects, and the order of paths along a
  chain; \<open>path_codec\<close> states as a locale what a store relies on of the codec, and is
  interpreted on it.
\<close>

section \<open>The codec\<close>

definition encode_component :: "pystr \<Rightarrow> exn + pystr" where
  "encode_component value = quote value"

definition decode_component :: "pystr \<Rightarrow> exn + pystr" where
  "decode_component encoded =
     (let decoded = unquote encoded
      in bind_r (encode_component decoded) (\<lambda>e.
           if e \<noteq> encoded then Inl ValueError else Inr decoded))"

definition decode_sequence :: "pystr \<Rightarrow> exn + int" where
  "decode_sequence spelling =
     bind_r (except_r (py_int spelling) C_ValueError ValueError) (\<lambda>sequence.
       if sequence < 0 \<or> show_int sequence \<noteq> spelling then Inl ValueError else Inr sequence)"

definition format_frame :: "execution_id \<Rightarrow> exn + pystr" where
  "format_frame eid =
     bind_r (encode_component (domain_id_value (eid_domain eid))) (\<lambda>d.
     bind_r (encode_component (execution_name_value (eid_name eid))) (\<lambda>n.
     bind_r (encode_component (arguments_digest_value (eid_digest eid))) (\<lambda>a.
       Inr (d @ [58] @ n @ [35] @ show_int (eid_sequence eid) @ [58] @ a))))"

definition parse_frame_components ::
    "pystr \<Rightarrow> exn + domain_id \<times> execution_name \<times> int \<times> arguments_digest" where
  "parse_frame_components frame_str =
     (case partition_at 35 frame_str of (identity, _, ordinal) \<Rightarrow>
        if ordinal = [] then Inl ValueError
        else (case partition_at 58 identity of (domain, sep, name) \<Rightarrow>
          if \<not> sep then Inl ValueError
          else (case partition_at 58 ordinal of (sequence, sep', digest) \<Rightarrow>
            if \<not> sep' then Inl ValueError
            else bind_r (bind_r (decode_component domain) mk_domain_id) (\<lambda>d.
                 bind_r (bind_r (decode_component name) mk_execution_name) (\<lambda>n.
                 bind_r (decode_sequence sequence) (\<lambda>i.
                 bind_r (bind_r (decode_component digest) mk_arguments_digest) (\<lambda>a.
                   Inr (d, n, i, a))))))))"

definition execution_id_to_path :: "execution_id \<Rightarrow> exn + pystr" where
  "execution_id_to_path eid =
     bind_r (traverse format_frame (ancestry eid)) (\<lambda>frames. Inr (join_with [47] (rev frames)))"

fun path_loop :: "execution_id option \<Rightarrow> pystr list \<Rightarrow> exn + execution_id option" where
  "path_loop parent [] = Inr parent"
| "path_loop parent (frame_str # frames) =
     bind_r (parse_frame_components frame_str) (\<lambda>(d, n, i, a).
     bind_r (mk_execution_id parent d n (SeqInt i) a) (\<lambda>eid. path_loop (Some eid) frames))"

definition path_to_execution_id :: "pystr \<Rightarrow> exn + execution_id" where
  "path_to_execution_id path =
     (if path = [] then Inl ValueError
      else bind_r (path_loop None (split_on 47 path)) (\<lambda>eid.
        case eid of None \<Rightarrow> Inl ValueError | Some e \<Rightarrow> Inr e))"

section \<open>Components\<close>

lemma decode_encode_component: "encode_component s = Inr e \<Longrightarrow> decode_component e = Inr s"
  by (simp add: decode_component_def encode_component_def unquote_quote)

lemma encode_decode_component: "decode_component e = Inr s \<Longrightarrow> encode_component s = Inr e"
  by (auto simp: decode_component_def Let_def result_simps split: if_splits)

lemma encode_component_avoids:
  assumes "encode_component s = Inr e" "c \<in> {35, 47, 58}"
  shows "c \<notin> set e"
  using quote_chars [OF assms(1) [unfolded encode_component_def], of c] assms(2)
  by (auto simp: is_unreserved_def)

lemma decode_sequence_show: "0 \<le> i \<Longrightarrow> decode_sequence (show_int i) = Inr i"
  by (simp add: decode_sequence_def py_int_show_int_nonneg)

lemma decode_sequence_iff: "decode_sequence s = Inr i \<longleftrightarrow> 0 \<le> i \<and> s = show_int i"
  by (auto simp: decode_sequence_def result_simps py_int_show_int_nonneg)

lemma show_int_avoids: "0 \<le> i \<Longrightarrow> c \<in> {35, 47, 58} \<Longrightarrow> c \<notin> set (show_int i)"
  using show_int_nonneg_digits by (fastforce simp: is_digit_def)

section \<open>Frames\<close>

definition frame_parts :: "execution_id \<Rightarrow> domain_id \<times> execution_name \<times> int \<times> arguments_digest" where
  "frame_parts e = (eid_domain e, eid_name e, eid_sequence e, eid_digest e)"

lemma format_frameE:
  assumes "format_frame e = Inr f"
  obtains d n a where
    "encode_component (domain_id_value (eid_domain e)) = Inr d"
    "encode_component (execution_name_value (eid_name e)) = Inr n"
    "encode_component (arguments_digest_value (eid_digest e)) = Inr a"
    "f = d @ 58 # n @ 35 # show_int (eid_sequence e) @ 58 # a"
  using assms by (auto simp: format_frame_def result_simps)

lemma parse_format_frame:
  assumes "format_frame e = Inr f" "valid_frame e"
  shows "parse_frame_components f = Inr (frame_parts e)"
proof -
  obtain d n a where
      enc: "encode_component (domain_id_value (eid_domain e)) = Inr d"
        "encode_component (execution_name_value (eid_name e)) = Inr n"
        "encode_component (arguments_digest_value (eid_digest e)) = Inr a"
      and f: "f = d @ 58 # n @ 35 # show_int (eid_sequence e) @ 58 # a"
    using assms(1) by (rule format_frameE)
  have v: "mk_domain_id (domain_id_value (eid_domain e)) = Inr (eid_domain e)"
      "mk_execution_name (execution_name_value (eid_name e)) = Inr (eid_name e)"
      "mk_arguments_digest (arguments_digest_value (eid_digest e)) = Inr (eid_digest e)"
      "0 \<le> eid_sequence e"
    using assms(2)
    by (auto simp: valid_frame_def mk_domain_id_iff mk_execution_name_iff mk_arguments_digest_iff)
  have "partition_at 35 ((d @ 58 # n) @ 35 # show_int (eid_sequence e) @ 58 # a)
      = (d @ 58 # n, True, show_int (eid_sequence e) @ 58 # a)"
    using enc by (intro partition_at_found) (auto dest: encode_component_avoids)
  moreover have "partition_at 58 (d @ 58 # n) = (d, True, n)"
    using enc by (intro partition_at_found) (auto dest: encode_component_avoids)
  moreover have "partition_at 58 (show_int (eid_sequence e) @ 58 # a)
      = (show_int (eid_sequence e), True, a)"
    using v(4) by (intro partition_at_found) (auto dest: show_int_avoids)
  ultimately show ?thesis
    using v by (simp add: f parse_frame_components_def decode_encode_component [OF enc(1)]
        decode_encode_component [OF enc(2)] decode_encode_component [OF enc(3)]
        decode_sequence_show frame_parts_def)
qed

lemma format_parse_frame:
  assumes "parse_frame_components f = Inr (d, n, i, a)"
  shows "format_frame (ExecutionId p d n i a) = Inr f \<and> valid_frame (ExecutionId p d n i a)"
proof -
  obtain identity sep ordinal where 1: "partition_at 35 f = (identity, sep, ordinal)"
    by (cases "partition_at 35 f") auto
  with assms have "ordinal \<noteq> []" by (auto simp: parse_frame_components_def)
  with 1 have sep: "sep" by (cases sep) (auto dest: partition_at_False)
  obtain domain name where 2: "partition_at 58 identity = (domain, True, name)"
    using assms 1 by (cases "partition_at 58 identity")
      (auto simp: parse_frame_components_def split: if_splits)
  obtain sequence digest where 3: "partition_at 58 ordinal = (sequence, True, digest)"
    using assms 1 2 by (cases "partition_at 58 ordinal")
      (auto simp: parse_frame_components_def split: if_splits)
  have f: "f = domain @ 58 # name @ 35 # sequence @ 58 # digest"
    using partition_at_True [OF 1 [unfolded sep [THEN eqTrueI]]] partition_at_True [OF 2]
      partition_at_True [OF 3] sep by simp
  obtain d' n' a' where
      "decode_component domain = Inr d'" "mk_domain_id d' = Inr d"
      "decode_component name = Inr n'" "mk_execution_name n' = Inr n"
      "decode_sequence sequence = Inr i"
      "decode_component digest = Inr a'" "mk_arguments_digest a' = Inr a"
    using assms 1 2 3 \<open>ordinal \<noteq> []\<close>
    by (auto simp: parse_frame_components_def result_simps)
  then show ?thesis
    by (auto simp: f format_frame_def valid_frame_def mk_domain_id_iff mk_execution_name_iff
        mk_arguments_digest_iff decode_sequence_iff encode_decode_component)
qed

lemma format_frame_no_slash:
  assumes "format_frame e = Inr f" "valid_frame e"
  shows "47 \<notin> set f"
  using assms(1)
  by (rule format_frameE)
     (use assms(2) in \<open>auto simp: valid_frame_def dest: encode_component_avoids show_int_avoids\<close>)

lemma format_frame_nonempty: "format_frame e = Inr f \<Longrightarrow> f \<noteq> []"
  by (auto elim: format_frameE)

lemma parse_frame_nonempty: "parse_frame_components f = Inr x \<Longrightarrow> f \<noteq> []"
  by (auto simp: parse_frame_components_def)

text \<open>The identities whose text UTF-8 can write: no lone surrogate in any component.\<close>

definition encodable_frame :: "execution_id \<Rightarrow> bool" where
  "encodable_frame e \<longleftrightarrow>
     scalar_str (domain_id_value (eid_domain e)) \<and> scalar_str (execution_name_value (eid_name e)) \<and>
     scalar_str (arguments_digest_value (eid_digest e))"

definition encodable_id :: "execution_id \<Rightarrow> bool" where
  "encodable_id e \<longleftrightarrow> list_all encodable_frame (ancestry e)"

lemma format_frame_iff: "(\<exists>f. format_frame e = Inr f) \<longleftrightarrow> encodable_frame e"
proof
  assume "\<exists>f. format_frame e = Inr f"
  then show "encodable_frame e"
    by (auto simp: encodable_frame_def encode_component_def elim!: format_frameE dest: quote_scalar)
next
  assume "encodable_frame e"
  then obtain d n a where "quote (domain_id_value (eid_domain e)) = Inr d"
      "quote (execution_name_value (eid_name e)) = Inr n"
      "quote (arguments_digest_value (eid_digest e)) = Inr a"
    by (auto simp: encodable_frame_def dest!: quote_total)
  then show "\<exists>f. format_frame e = Inr f"
    by (simp add: format_frame_def encode_component_def)
qed

lemma format_frame_error: "format_frame e = Inl x \<Longrightarrow> x = UnicodeEncodeError"
  by (auto simp: format_frame_def encode_component_def quote_def utf8_encode_def result_simps
      split: if_splits)

section \<open>Paths\<close>

text \<open>The frames of a path, root first.\<close>

definition frames_of :: "execution_id \<Rightarrow> exn + pystr list" where
  "frames_of e = traverse format_frame (rev (ancestry e))"

lemma traverse_rev: "traverse f (rev xs) = Inr ys \<longleftrightarrow> traverse f xs = Inr (rev ys)"
  by (simp add: traverse_Inr_iff list_all2_rev1)

lemma execution_id_to_path_iff:
  "execution_id_to_path e = Inr p \<longleftrightarrow> (\<exists>fs. frames_of e = Inr fs \<and> p = join_with [47] fs)"
  unfolding execution_id_to_path_def frames_of_def bind_r_Inr_iff traverse_rev
  by (metis rev_rev_ident sum.inject(2))

lemma frames_of_child:
  "eid_parent e = Some p \<Longrightarrow>
   frames_of e = bind_r (frames_of p) (\<lambda>fs. bind_r (format_frame e) (\<lambda>f. Inr (fs @ [f])))"
  by (simp add: frames_of_def ancestry_parent traverse_append bind_r_assoc)

lemma frames_of_root:
  "eid_parent e = None \<Longrightarrow> frames_of e = bind_r (format_frame e) (\<lambda>f. Inr [f])"
  by (simp add: frames_of_def ancestry_root)

lemma frames_of_props:
  "frames_of e = Inr fs \<Longrightarrow> valid_execution_id e \<Longrightarrow> fs \<noteq> [] \<and> (\<forall>f \<in> set fs. 47 \<notin> set f \<and> f \<noteq> [])"
proof (induction e arbitrary: fs rule: ancestry_induct)
  case (root e)
  then show ?case
    by (auto simp: frames_of_root valid_execution_id_unfold [of e] result_simps
        dest: format_frame_no_slash format_frame_nonempty)
next
  case (child e p)
  then show ?case
    by (auto simp: frames_of_child valid_execution_id_unfold [of e] result_simps
        dest: format_frame_no_slash format_frame_nonempty)
qed

lemma path_loop_append:
  "path_loop q (xs @ ys) = bind_r (path_loop q xs) (\<lambda>r. path_loop r ys)"
  by (induction xs arbitrary: q) (auto simp: bind_r_assoc split_def)

lemma path_loop_frame:
  "format_frame e = Inr f \<Longrightarrow> valid_frame e \<Longrightarrow> path_loop (eid_parent e) [f] = Inr (Some e)"
  by (cases e) (simp add: parse_format_frame frame_parts_def valid_frame_def)

lemma path_loop_frames:
  "frames_of e = Inr fs \<Longrightarrow> valid_execution_id e \<Longrightarrow> path_loop None fs = Inr (Some e)"
proof (induction e arbitrary: fs rule: ancestry_induct)
  case (root e)
  then show ?case
    using path_loop_frame [of e]
    by (auto simp: frames_of_root valid_execution_id_unfold [of e] bind_r_Inr_iff simp del: path_loop.simps)
next
  case (child e p)
  then show ?case
    using path_loop_frame [of e]
    by (auto simp: frames_of_child valid_execution_id_unfold [of e] bind_r_Inr_iff path_loop_append
        simp del: path_loop.simps)
qed

lemma frames_of_path_loop:
  "path_loop None fs = Inr (Some e) \<Longrightarrow> frames_of e = Inr fs \<and> valid_execution_id e"
proof (induction fs arbitrary: e rule: rev_induct)
  case (snoc f fs)
  then obtain q d n i a where q: "path_loop None fs = Inr q"
      and f: "parse_frame_components f = Inr (d, n, i, a)"
      and e: "e = ExecutionId q d n i a"
    by (auto simp: path_loop_append result_simps split: if_splits)
  show ?case
  proof (cases q)
    case None
    then have "fs = []"
      using q by (cases fs rule: rev_cases) (auto simp: path_loop_append result_simps)
    then show ?thesis
      using format_parse_frame [OF f, of q] None
      by (simp add: e frames_of_root valid_execution_id_unfold)
  next
    case (Some p)
    then show ?thesis
      using format_parse_frame [OF f, of q] snoc.IH [of p] q
      by (simp add: e frames_of_child valid_execution_id_unfold [of "ExecutionId _ _ _ _ _"])
  qed
qed simp

lemma frames_of_encodable: "encodable_id e \<Longrightarrow> \<exists>fs. frames_of e = Inr fs"
  unfolding frames_of_def encodable_id_def
  by (rule traverse_total) (simp add: list_all_iff format_frame_iff)

lemma frames_of_encodableD: "frames_of e = Inr fs \<Longrightarrow> encodable_id e"
  unfolding frames_of_def encodable_id_def list_all_iff
  by (metis format_frame_iff set_rev traverse_InrD)

lemma join_frames_nonempty: "fs \<noteq> [] \<Longrightarrow> \<forall>f \<in> set fs. f \<noteq> [] \<Longrightarrow> join_with sep fs \<noteq> []"
  by (cases "(sep, fs)" rule: join_with.cases) auto

lemma execution_id_to_path_frames:
  assumes "execution_id_to_path e = Inr p" "valid_execution_id e"
  obtains fs where "frames_of e = Inr fs" "p = join_with [47] fs" "p \<noteq> []" "split_on 47 p = fs"
proof -
  from assms(1) obtain fs where fs: "frames_of e = Inr fs" and p: "p = join_with [47] fs"
    by (auto simp: execution_id_to_path_iff)
  from frames_of_props [OF fs assms(2)] have "p \<noteq> []" "split_on 47 p = fs"
    unfolding p by (auto intro: split_join dest: join_frames_nonempty [of _ "[47]"])
  with fs p that show thesis by blast
qed

lemma path_loop_frames_path:
  "execution_id_to_path e = Inr p \<Longrightarrow> valid_execution_id e \<Longrightarrow> path_to_execution_id p = Inr e"
  using path_loop_frames by (auto simp: path_to_execution_id_def elim!: execution_id_to_path_frames)

section \<open>Round trips\<close>

text \<open>
  C19: Every execution identity built by the constructors whose text UTF-8 can write has a
  path, and reading that path gives the identity back with its whole parent chain.
\<close>

theorem path_roundtrip:
  assumes "valid_execution_id e" and "encodable_id e"
  shows "\<exists>p. execution_id_to_path e = Inr p \<and> path_to_execution_id p = Inr e"
proof -
  obtain fs where fs: "frames_of e = Inr fs" using frames_of_encodable [OF assms(2)] by blast
  then have path: "execution_id_to_path e = Inr (join_with [47] fs)"
    by (simp add: execution_id_to_path_iff)
  then show ?thesis using path path_loop_frames_path [OF path assms(1)] by blast
qed

definition sample_root :: execution_id where
  "sample_root = ExecutionId None (DomainId (str_of ''com.example'')) (ExecutionName (str_of ''pay/#:%''))
     0 (ArgumentsDigest (str_of ''d0''))"

definition sample_child :: execution_id where
  "sample_child = ExecutionId (Some sample_root) (DomainId (str_of ''lib''))
     (ExecutionName [0x3053, 0x1F600]) 12 (ArgumentsDigest (str_of ''d1''))"

lemma sample_ids: "valid_execution_id sample_root" "encodable_id sample_root"
  "valid_execution_id sample_child" "encodable_id sample_child"
  by (simp_all add: valid_execution_id_def encodable_id_def sample_child_def sample_root_def
      valid_frame_def encodable_frame_def valid_domain_id_def domain_id_fullmatch_def
      domain_segment_def domain_start_def domain_char_def is_digit_def valid_execution_name_def
      valid_arguments_digest_def is_scalar_def is_surrogate_def)

theorem path_roundtrip_witness:
  "\<exists>p. execution_id_to_path sample_child = Inr p \<and> path_to_execution_id p = Inr sample_child"
  using path_roundtrip [OF sample_ids(3,4)] .

text \<open>
  C20: The reader takes only what the writer writes: a path that reads as an identity is the
  path of that identity, so no two paths name one record, and the identity read is valid.
\<close>

theorem path_canonical:
  assumes "path_to_execution_id p = Inr e"
  shows "execution_id_to_path e = Inr p \<and> valid_execution_id e"
proof -
  from assms have "path_loop None (split_on 47 p) = Inr (Some e)"
    by (auto simp: path_to_execution_id_def result_simps split: option.splits)
  from frames_of_path_loop [OF this] show ?thesis
    by (auto simp: execution_id_to_path_iff join_split)
qed

theorem path_canonical_witness:
  "execution_id_to_path
     (ExecutionId None (DomainId (str_of ''a'')) (ExecutionName (str_of ''b/'')) 7 (ArgumentsDigest (str_of ''c'')))
   = Inr (str_of ''a:b%2F#7:c'')"
proof -
  let ?e = "ExecutionId None (DomainId (str_of ''a'')) (ExecutionName (str_of ''b/'')) 7
         (ArgumentsDigest (str_of ''c''))"
  have "execution_id_to_path ?e = Inr (str_of ''a:b%2F#7:c'')"
    by (simp add: execution_id_to_path_def format_frame_def encode_component_def quote_def
        utf8_encode_def utf8_cp.simps quote_byte_def is_unreserved_def upper_hex_def show_int_def
        show_nat.simps)
  moreover have "valid_execution_id ?e" "encodable_id ?e"
    by (simp_all add: valid_execution_id_def encodable_id_def
      valid_frame_def encodable_frame_def valid_domain_id_def domain_id_fullmatch_def
      domain_segment_def domain_start_def is_digit_def valid_execution_name_def
      valid_arguments_digest_def)
  ultimately have "path_to_execution_id (str_of ''a:b%2F#7:c'') = Inr ?e"
    by (metis path_loop_frames_path)
  from path_canonical [OF this] show ?thesis by simp
qed

section \<open>Prefixes\<close>

lemma frames_of_ancestor:
  assumes "frames_of e = Inr fs" "frames_of u = Inr gs"
  shows "ancestor_of u e \<Longrightarrow> \<exists>hs. hs \<noteq> [] \<and> fs = gs @ hs"
proof -
  assume "ancestor_of u e"
  then obtain xs where xs: "xs \<noteq> []" "ancestry e = xs @ ancestry u"
    by (auto simp: ancestor_of_iff)
  then show ?thesis
    using assms by (auto simp: frames_of_def traverse_append bind_r_Inr_iff)
      (metis list_all2_Nil2 rev_is_Nil_conv traverse_Inr_iff)
qed

lemma frames_of_prefix:
  assumes "frames_of e = Inr (gs @ hs)" "valid_execution_id e"
    and "frames_of u = Inr gs" "valid_execution_id u" and "hs \<noteq> []"
  shows "ancestor_of u e"
  using assms(1,2,5)
proof (induction e arbitrary: hs rule: ancestry_induct)
  case (root e)
  then obtain f where "[f] = gs @ hs" by (auto simp: frames_of_root bind_r_Inr_iff)
  from arg_cong [OF this, of length] have "length gs + length hs = 1" by simp
  then have "gs = []" using root.prems(3) by (cases gs) auto
  then show ?case using frames_of_props [OF assms(3,4)] by simp
next
  case (child e p)
  obtain h hs' where hs: "hs = hs' @ [h]" using child.prems(3) by (cases hs rule: rev_cases) auto
  then have p: "frames_of p = Inr (gs @ hs')" "valid_execution_id p"
    using child by (auto simp: frames_of_child bind_r_Inr_iff valid_execution_id_unfold [of e])
  show ?case
  proof (cases "hs' = []")
    case True
    with p have "path_loop None gs = Inr (Some p)" by (simp add: path_loop_frames)
    with path_loop_frames [OF assms(3,4)] have "p = u" by simp
    then show ?thesis by (simp add: ancestor_of_parent [OF child.hyps(1)])
  next
    case False
    then show ?thesis using child.IH p by (simp add: ancestor_of_parent [OF child.hyps(1)])
  qed
qed

lemma join_prefix_frames:
  assumes "fs \<noteq> []" "\<forall>f \<in> set fs. c \<notin> set f" "gs \<noteq> []" "\<forall>g \<in> set gs. c \<notin> set g"
  shows "(\<exists>r. join_with [c] fs = join_with [c] gs @ c # r) \<longleftrightarrow> (\<exists>hs. hs \<noteq> [] \<and> fs = gs @ hs)"
proof
  assume "\<exists>r. join_with [c] fs = join_with [c] gs @ c # r"
  then obtain r where "join_with [c] fs = join_with [c] gs @ c # r" by blast
  also have "\<dots> = join_with [c] (gs @ split_on c r)"
    using assms(3) by (simp add: join_with_append join_split)
  finally have "split_on c (join_with [c] fs) = split_on c (join_with [c] (gs @ split_on c r))"
    by simp
  also have "\<dots> = gs @ split_on c r"
    using assms by (intro split_join) (auto dest: split_on_no_sep_in)
  finally show "\<exists>hs. hs \<noteq> [] \<and> fs = gs @ hs"
    using assms by (auto simp: split_join intro!: exI [of _ "split_on c r"])
next
  assume "\<exists>hs. hs \<noteq> [] \<and> fs = gs @ hs"
  then show "\<exists>r. join_with [c] fs = join_with [c] gs @ c # r"
    using assms(3) by (auto simp: join_with_append)
qed

lemma path_prefix_ancestor:
  assumes "execution_id_to_path e = Inr p" "valid_execution_id e"
    and "execution_id_to_path u = Inr q" "valid_execution_id u"
  shows "(\<exists>r. p = (q @ [47]) @ r) \<longleftrightarrow> ancestor_of u e"
proof -
  obtain fs where fs: "frames_of e = Inr fs" "p = join_with [47] fs"
    using assms(1,2) by (rule execution_id_to_path_frames)
  obtain gs where gs: "frames_of u = Inr gs" "q = join_with [47] gs"
    using assms(3,4) by (rule execution_id_to_path_frames)
  have "(\<exists>r. p = (q @ [47]) @ r) \<longleftrightarrow> (\<exists>hs. hs \<noteq> [] \<and> fs = gs @ hs)"
    using join_prefix_frames [of fs 47 gs] frames_of_props [OF fs(1) assms(2)]
      frames_of_props [OF gs(1) assms(4)] by (simp add: fs(2) gs(2))
  also have "\<dots> \<longleftrightarrow> ancestor_of u e"
    using frames_of_ancestor [OF fs(1) gs(1)] frames_of_prefix [OF _ assms(2) gs(1) assms(4)] fs(1)
    by blast
  finally show ?thesis .
qed

text \<open>
  C21: The paths that start with the path of \<open>u\<close> and a slash are exactly those of the strict
  descendants of \<open>u\<close>, which is what makes the prefix search of the stores a subtree query.
\<close>

theorem path_prefix_iff_ancestor:
  assumes "execution_id_to_path e = Inr p" "valid_execution_id e"
    and "execution_id_to_path u = Inr q" "valid_execution_id u"
  shows "(\<exists>r. p = (q @ [47]) @ r) \<longleftrightarrow> ancestor_of u e"
  by (rule path_prefix_ancestor [OF assms])

theorem path_prefix_iff_ancestor_witness:
  "\<exists>p q r. execution_id_to_path sample_child = Inr p \<and> execution_id_to_path sample_root = Inr q
     \<and> p = (q @ [47]) @ r"
proof -
  obtain p q where p: "execution_id_to_path sample_child = Inr p"
      and q: "execution_id_to_path sample_root = Inr q"
    using frames_of_encodable [OF sample_ids(2)] frames_of_encodable [OF sample_ids(4)]
    by (auto simp: execution_id_to_path_iff)
  have "ancestor_of sample_root sample_child"
    by (simp add: ancestor_of_parent [of _ sample_root] sample_child_def)
  with path_prefix_iff_ancestor [OF p sample_ids(3) q sample_ids(1)] p q show ?thesis by blast
qed

text \<open>
  An ancestor's path is strictly less than its descendants', so enumerating in the order
  of paths yields every identity after its own ancestors.
\<close>

theorem path_ancestor_less:
  assumes "execution_id_to_path e = Inr p" "valid_execution_id e"
    and "execution_id_to_path u = Inr q" "valid_execution_id u"
    and "ancestor_of u e"
  shows "q < p"
proof -
  have "\<exists>r. p = (q @ [47]) @ r"
  proof -
    obtain fs where fs: "frames_of e = Inr fs" "p = join_with [47] fs"
      using assms(1,2) by (rule execution_id_to_path_frames)
    obtain gs where gs: "frames_of u = Inr gs" "q = join_with [47] gs"
      using assms(3,4) by (rule execution_id_to_path_frames)
    show ?thesis
      using frames_of_ancestor [OF fs(1) gs(1) assms(5)] frames_of_props [OF gs(1) assms(4)]
      by (auto simp: fs(2) gs(2) join_with_append)
  qed
  then show ?thesis by (auto intro: strict_prefix_less)
qed

theorem path_ancestor_less_witness:
  "\<exists>p q. execution_id_to_path sample_child = Inr p \<and> execution_id_to_path sample_root = Inr q \<and> q < p"
proof -
  obtain p q where p: "execution_id_to_path sample_child = Inr p"
      and q: "execution_id_to_path sample_root = Inr q"
    using frames_of_encodable [OF sample_ids(2)] frames_of_encodable [OF sample_ids(4)]
    by (auto simp: execution_id_to_path_iff)
  have "ancestor_of sample_root sample_child"
    by (simp add: ancestor_of_parent [of _ sample_root] sample_child_def)
  with path_ancestor_less [OF p sample_ids(3) q sample_ids(1)] p q show ?thesis by blast
qed

text \<open>
  An execution name with a lone surrogate passes the constructors, and its identity has no
  path: every store operation on it raises \<open>UnicodeEncodeError\<close>.
\<close>

theorem surrogate_name_has_no_path:
  assumes "mk_execution_name s = Inr n" and "\<not> scalar_str s"
    and "mk_execution_id None d n (SeqInt i) a = Inr e"
  shows "execution_id_to_path e = Inl UnicodeEncodeError"
proof -
  have e: "e = ExecutionId None d n i a" and n: "execution_name_value n = s"
    using assms by (auto simp: mk_execution_name_iff split: if_splits)
  then have "\<not> (\<exists>f. format_frame e = Inr f)"
    using assms(2) by (simp add: format_frame_iff encodable_frame_def)
  then obtain x where x: "format_frame e = Inl x" by (cases "format_frame e") auto
  then show ?thesis
    using format_frame_error [OF x] by (simp add: execution_id_to_path_def e)
qed

theorem surrogate_name_has_no_path_witness:
  "execution_id_to_path
     (ExecutionId None (DomainId (str_of ''a'')) (ExecutionName [0xD800]) 0 (ArgumentsDigest (str_of ''d'')))
   = Inl UnicodeEncodeError"
  by (rule surrogate_name_has_no_path [of "[0xD800]" "ExecutionName [0xD800]"
        "DomainId (str_of ''a'')" 0 "ArgumentsDigest (str_of ''d'')"])
     (simp_all add: mk_execution_name_def is_scalar_def is_surrogate_def)

section \<open>The interface of the stores\<close>

text \<open>
  What a store that keys records by path relies on: the writer is defined on the identities
  it holds, the reader inverts it, and prefixes and order follow the identity chain.
\<close>

locale path_codec =
  fixes to_path :: "'i \<Rightarrow> 'e + 'k :: linorder"
    and of_path :: "'k \<Rightarrow> 'e + 'i"
    and ok :: "'i \<Rightarrow> bool"
    and under :: "'i \<Rightarrow> 'i \<Rightarrow> bool"
  assumes to_path_total: "ok i \<Longrightarrow> \<exists>p. to_path i = Inr p"
    and of_to_path: "ok i \<Longrightarrow> to_path i = Inr p \<Longrightarrow> of_path p = Inr i"
    and to_of_path: "of_path p = Inr i \<Longrightarrow> to_path i = Inr p \<and> ok i"
    and under_less: "ok i \<Longrightarrow> ok u \<Longrightarrow> to_path i = Inr p \<Longrightarrow> to_path u = Inr q \<Longrightarrow> under u i \<Longrightarrow> q < p"
begin

definition path_of :: "'i \<Rightarrow> 'k" where
  "path_of i = projr (to_path i)"

lemma path_of_eq: "ok i \<Longrightarrow> to_path i = Inr (path_of i)"
  using to_path_total by (fastforce simp: path_of_def)

lemma path_of_inj: "ok i \<Longrightarrow> ok j \<Longrightarrow> path_of i = path_of j \<Longrightarrow> i = j"
  by (metis of_to_path path_of_eq sum.inject(2))

lemma path_of_inj_on: "\<forall>i \<in> A. ok i \<Longrightarrow> inj_on path_of A"
  by (auto intro: inj_onI path_of_inj)

lemma traverse_of_path: "\<forall>i \<in> set is. ok i \<Longrightarrow> traverse of_path (map path_of is) = Inr is"
  by (induction "is") (auto simp: of_to_path path_of_eq)

text \<open>Reading the paths back in their order lists every identity after its ancestors.\<close>

lemma sorted_paths_ancestors_first:
  assumes "sorted (map path_of is)" "\<forall>i \<in> set is. ok i"
    and "m < length is" "n < length is" "under (is ! m) (is ! n)"
  shows "m < n"
proof (rule ccontr)
  assume "\<not> m < n"
  then have "path_of (is ! n) \<le> path_of (is ! m)"
    using assms(1,3,4) by (auto simp: sorted_iff_nth_mono)
  moreover have "path_of (is ! m) < path_of (is ! n)"
    using assms by (intro under_less [of "is ! n" "is ! m"]) (auto simp: path_of_eq)
  ultimately show False by simp
qed

end

abbreviation storable_id :: "execution_id \<Rightarrow> bool" where
  "storable_id e \<equiv> valid_execution_id e \<and> encodable_id e"

lemma to_path_encodable: "execution_id_to_path e = Inr p \<Longrightarrow> encodable_id e"
  by (auto simp: execution_id_to_path_iff dest: frames_of_encodableD)

interpretation pc: path_codec execution_id_to_path path_to_execution_id storable_id ancestor_of
proof
  fix i p assume "storable_id i" "execution_id_to_path i = Inr p"
  then show "path_to_execution_id p = Inr i" by (simp add: path_loop_frames_path)
next
  fix p i assume "path_to_execution_id p = Inr i"
  then have "path_loop None (split_on 47 p) = Inr (Some i)"
    by (auto simp: path_to_execution_id_def result_simps split: option.splits)
  from frames_of_path_loop [OF this]
  show "execution_id_to_path i = Inr p \<and> storable_id i"
    by (auto simp: execution_id_to_path_iff join_split dest: frames_of_encodableD)
next
  fix i u p q
  assume a: "storable_id i" "storable_id u" "execution_id_to_path i = Inr p"
    "execution_id_to_path u = Inr q" "ancestor_of u i"
  obtain fs gs where fs: "frames_of i = Inr fs" "p = join_with [47] fs"
      and gs: "frames_of u = Inr gs" "q = join_with [47] gs"
    using a(3,4) by (auto simp: execution_id_to_path_iff)
  show "q < p"
    using frames_of_ancestor [OF fs(1) gs(1) a(5)] frames_of_props [OF gs(1)] a(2)
    by (auto simp: fs(2) gs(2) join_with_append intro: strict_prefix_less)
qed (auto simp: execution_id_to_path_iff dest: frames_of_encodable)

end
