(* ===== verification/Transactions.thy ===== *)
theory Transactions
  imports Codec Paths
begin

text \<open>
  What the three backends share: a repository that reads and writes through the open stage, and
  transactions that hand a closed stage's batch to the store (\<open>_store.py\<close>, \<open>_transaction.py\<close>,
  \<open>_memory.py\<close> all have this code). A backend differs in its client: how it reads a committed
  execution, applies a batch, lists a session, and claims a domain. Here the client is a record
  of these four operations.

  The locale \<open>store_contract\<close> states what a client promises; inside it the transactional
  behaviour is proved once. Every backend interprets it on its own model.
\<close>

section \<open>Paths are plain text\<close>

lemma format_frame_scalar:
  assumes "format_frame e = Inr f"
  shows "scalar_str f"
proof (rule format_frameE [OF assms])
  fix d n a
  assume "encode_component (domain_id_value (eid_domain e)) = Inr d"
    "encode_component (execution_name_value (eid_name e)) = Inr n"
    "encode_component (arguments_digest_value (eid_digest e)) = Inr a"
    and f: "f = d @ 58 # n @ 35 # show_int (eid_sequence e) @ 58 # a"
  then have "scalar_str d" "scalar_str n" "scalar_str a"
    unfolding encode_component_def by (auto simp: list_all_iff dest!: quote_ascii)
  then show ?thesis by (simp add: f show_int_def scalar_str_of_nat)
qed

lemma path_scalar:
  assumes "execution_id_to_path e = Inr p"
  shows "scalar_str p"
proof -
  obtain fs where fs: "traverse format_frame (rev (ancestry e)) = Inr fs" and p: "p = join_with [47] fs"
    using assms by (auto simp: execution_id_to_path_iff frames_of_def)
  have "scalar_str f" if "f \<in> set fs" for f
    using fs that unfolding traverse_Inr_iff
    by (auto simp: in_set_conv_nth list_all2_conv_all_nth intro: format_frame_scalar)
  then show ?thesis by (simp add: p join_with_scalar)
qed

text \<open>So are domain identifiers; a version a text backend keeps must be.\<close>

definition text_version_ok :: "domain_version \<Rightarrow> bool" where
  "text_version_ok v \<longleftrightarrow> valid_domain_version v \<and> scalar_str (domain_version_value v)"

lemma domain_id_scalar:
  assumes "valid_domain_id d"
  shows "scalar_str (domain_id_value d)"
proof -
  have "scalar_str seg" if "domain_segment seg" for seg
    using that by (cases seg)
      (auto simp: domain_segment_def domain_char_def domain_start_def is_digit_def list_all_iff is_scalar_def is_surrogate_def)
  then have "scalar_str (join_with [46] (split_on 46 (domain_id_value d)))"
    using assms by (subst join_with_scalar)
      (auto simp: valid_domain_id_def domain_id_fullmatch_def list_all_iff [of domain_segment] is_scalar_def is_surrogate_def)
  then show ?thesis by (simp only: join_split)
qed

section \<open>Clients and backends\<close>

record 's client =
  cl_read :: "session_id \<Rightarrow> execution_id \<Rightarrow> 's \<Rightarrow> exn + execution option"
  cl_commit :: "batch \<Rightarrow> 's \<Rightarrow> exn + 's"
  cl_list :: "session_id \<Rightarrow> execution_status option \<Rightarrow> execution_id option \<Rightarrow> batch \<Rightarrow> 's
               \<Rightarrow> exn + execution list"
  cl_claim :: "session_id \<Rightarrow> domain_id \<Rightarrow> domain_version \<Rightarrow> 's \<Rightarrow> exn + domain_version \<times> 's"

record 's backend =
  bk_staging :: staging
  bk_store :: 's

section \<open>The repository\<close>

definition repo_get ::
  "'s client \<Rightarrow> nat \<Rightarrow> session_id \<Rightarrow> execution_id \<Rightarrow> 's backend \<Rightarrow> exn + execution option" where
  "repo_get C c sess x st =
     (case (case staging_current c (bk_staging st) of
              None \<Rightarrow> None | Some i \<Rightarrow> stage_lookup i sess x (bk_staging st)) of
        Some (SaveExecution sn) \<Rightarrow> bind_r (to_execution sn) (\<lambda>e. Inr (Some e))
      | Some DeleteExecution \<Rightarrow> Inr None
      | None \<Rightarrow> cl_read C sess x (bk_store st))"

definition lift_staging :: "exn + staging \<Rightarrow> 's backend \<Rightarrow> exn + 's backend" where
  "lift_staging r st = bind_r r (\<lambda>s. Inr (st\<lparr>bk_staging := s\<rparr>))"

definition repo_save :: "nat \<Rightarrow> session_id \<Rightarrow> execution \<Rightarrow> 's backend \<Rightarrow> exn + 's backend" where
  "repo_save c sess e st =
     bind_r (staging_require_current c (bk_staging st)) (\<lambda>i.
       lift_staging (stage_save i sess e (bk_staging st)) st)"

fun delete_each :: "nat \<Rightarrow> session_id \<Rightarrow> execution_id list \<Rightarrow> staging \<Rightarrow> exn + staging" where
  "delete_each i sess [] s = Inr s"
| "delete_each i sess (x # xs) s = bind_r (stage_delete i sess x s) (delete_each i sess xs)"

definition repo_delete_many :: "nat \<Rightarrow> session_id \<Rightarrow> execution_id list \<Rightarrow> 's backend \<Rightarrow> exn + 's backend" where
  "repo_delete_many c sess xs st =
     bind_r (staging_require_current c (bk_staging st)) (\<lambda>i.
       lift_staging (delete_each i sess xs (bk_staging st)) st)"

definition staged_items :: "nat \<Rightarrow> 's backend \<Rightarrow> batch" where
  "staged_items c st =
     (case staging_current c (bk_staging st) of None \<Rightarrow> [] | Some i \<Rightarrow> stage_snapshot i (bk_staging st))"

definition repo_executions ::
  "'s client \<Rightarrow> nat \<Rightarrow> session_id \<Rightarrow> execution_status option \<Rightarrow> execution_id option \<Rightarrow> 's backend
     \<Rightarrow> exn + execution list" where
  "repo_executions C c sess status below st =
     cl_list C sess status below (staged_items c st) (bk_store st)"

section \<open>Transactions\<close>

record transaction =
  tx_stage :: "nat option"
  tx_closed :: bool

definition tx_new :: transaction where
  "tx_new = \<lparr>tx_stage = None, tx_closed = False\<rparr>"

definition tx_begin :: "nat \<Rightarrow> 's backend \<Rightarrow> transaction \<times> 's backend" where
  "tx_begin c st =
     (case staging_begin c (bk_staging st) of
        (i, s) \<Rightarrow> (tx_new\<lparr>tx_stage := Some i\<rparr>, st\<lparr>bk_staging := s\<rparr>))"

definition tx_commit ::
  "'s client \<Rightarrow> nat \<Rightarrow> transaction \<Rightarrow> 's backend \<Rightarrow> (exn + unit) \<times> transaction \<times> 's backend" where
  "tx_commit C c tx st =
     (if tx_closed tx then (Inr (), tx, st)
      else case tx_stage tx of
        None \<Rightarrow> (Inl RuntimeError, tx, st)
      | Some i \<Rightarrow>
          (case stage_close c i (bk_staging st) of
             (Inl x, s) \<Rightarrow> (Inl x, tx, st\<lparr>bk_staging := s\<rparr>)
           | (Inr _, s) \<Rightarrow>
               (case bind_r (stage_get_batch i s) (\<lambda>b. cl_commit C b (bk_store st)) of
                  Inl x \<Rightarrow> (Inl x, tx\<lparr>tx_closed := True\<rparr>, st\<lparr>bk_staging := s\<rparr>)
                | Inr store \<Rightarrow>
                    (Inr (), tx\<lparr>tx_closed := True\<rparr>, st\<lparr>bk_staging := s, bk_store := store\<rparr>))))"

definition tx_rollback ::
  "nat \<Rightarrow> transaction \<Rightarrow> 's backend \<Rightarrow> (exn + unit) \<times> transaction \<times> 's backend" where
  "tx_rollback c tx st =
     (if tx_closed tx then (Inr (), tx, st)
      else case tx_stage tx of
        None \<Rightarrow> (Inl RuntimeError, tx, st)
      | Some i \<Rightarrow>
          (case stage_close c i (bk_staging st) of
             (Inl x, s) \<Rightarrow> (Inl x, tx, st\<lparr>bk_staging := s\<rparr>)
           | (Inr _, s) \<Rightarrow> (Inr (), tx\<lparr>tx_closed := True\<rparr>, st\<lparr>bk_staging := s\<rparr>)))"

section \<open>Writes inside a transaction\<close>

datatype store_write = WSave session_id execution | WDelete session_id "execution_id list"

fun apply_write :: "nat \<Rightarrow> store_write \<Rightarrow> 's backend \<Rightarrow> exn + 's backend" where
  "apply_write c (WSave sess e) st = repo_save c sess e st"
| "apply_write c (WDelete sess xs) st = repo_delete_many c sess xs st"

fun run_writes :: "nat \<Rightarrow> store_write list \<Rightarrow> 's backend \<Rightarrow> exn + 's backend" where
  "run_writes c [] st = Inr st"
| "run_writes c (w # ws) st = bind_r (apply_write c w st) (run_writes c ws)"

fun write_mutation :: "store_write \<Rightarrow> execution_key \<Rightarrow> mutation option" where
  "write_mutation (WSave sess e) k =
     (if k = ExecutionKey sess (ex_id e) then Some (SaveExecution (from_execution e)) else None)"
| "write_mutation (WDelete sess xs) k =
     (if k \<in> ExecutionKey sess ` set xs then Some DeleteExecution else None)"

text \<open>The last write to a key.\<close>

fun last_write :: "store_write list \<Rightarrow> execution_key \<Rightarrow> mutation option" where
  "last_write [] k = None"
| "last_write (w # ws) k =
     (case last_write ws k of Some m \<Rightarrow> Some m | None \<Rightarrow> write_mutation w k)"

definition put_stage :: "nat \<Rightarrow> batch \<Rightarrow> 's backend \<Rightarrow> 's backend" where
  "put_stage i b st = st\<lparr>bk_staging := update_stage i (\<lambda>s. s\<lparr>st_mutations := b\<rparr>) (bk_staging st)\<rparr>"

text \<open>The stage \<open>i\<close> is the open one of context \<open>c\<close>.\<close>

definition stage_is_open :: "nat \<Rightarrow> nat \<Rightarrow> 's backend \<Rightarrow> bool" where
  "stage_is_open c i st \<longleftrightarrow>
     staging_current c (bk_staging st) = Some i \<and> i < length (sg_stages (bk_staging st))"

lemma stage_closed_put [simp]: "stage_closed i (bk_staging (put_stage j b st)) = stage_closed i (bk_staging st)"
  by (cases "j < length (sg_stages (bk_staging st))"; cases "i = j")
     (simp_all add: put_stage_def update_stage_def stage_closed_def list_update_beyond)

lemma put_stage_simps [simp]:
  "bk_store (put_stage i b st) = bk_store st"
  "i < length (sg_stages (bk_staging st)) \<Longrightarrow> stage_snapshot i (bk_staging (put_stage i b st)) = b"
  "sg_open (bk_staging (put_stage i b st)) = sg_open (bk_staging st)"
  "sg_tokens (bk_staging (put_stage i b st)) = sg_tokens (bk_staging st)"
  "sg_contexts (bk_staging (put_stage i b st)) = sg_contexts (bk_staging st)"
  "length (sg_stages (bk_staging (put_stage i b st))) = length (sg_stages (bk_staging st))"
  by (simp_all add: put_stage_def update_stage_def stage_snapshot_def)

lemma put_stage_twice [simp]: "put_stage i b (put_stage i b' st) = put_stage i b st"
  by (cases "i < length (sg_stages (bk_staging st))")
     (simp_all add: put_stage_def update_stage_def list_update_beyond)

lemma stage_is_open_put [simp]: "stage_is_open c i (put_stage j b st) \<longleftrightarrow> stage_is_open c i st"
  by (simp add: stage_is_open_def staging_current_def registry_open_def split: option.splits)

lemma stage_put_open:
  "stage_is_open c i st \<Longrightarrow>
     stage_put i k m (bk_staging st)
       = Inr (bk_staging (put_stage i (AList.update k m (stage_snapshot i (bk_staging st))) st))"
  by (auto simp: stage_is_open_def stage_put_def staging_current_def registry_open_def put_stage_def
      update_stage_def stage_snapshot_def split: option.splits if_splits)

lemma put_stage_staging:
  "st\<lparr>bk_staging := bk_staging (put_stage i b st)\<rparr> = put_stage i b st"
  by (simp add: put_stage_def)

lemma delete_each_open:
  "stage_is_open c i st \<Longrightarrow>
     \<exists>b. delete_each i sess xs (bk_staging st) = Inr (bk_staging (put_stage i b st)) \<and>
         (distinct (map fst (stage_snapshot i (bk_staging st))) \<longrightarrow> distinct (map fst b)) \<and>
         (\<forall>k. map_of b k = (if k \<in> ExecutionKey sess ` set xs then Some DeleteExecution
                else map_of (stage_snapshot i (bk_staging st)) k))"
proof (induction xs arbitrary: st)
  case Nil
  have "put_stage i (stage_snapshot i (bk_staging st)) st = st"
    by (simp add: put_stage_def update_stage_def stage_snapshot_def)
  then show ?case by (intro exI [of _ "stage_snapshot i (bk_staging st)"]) simp
next
  case (Cons x xs)
  let ?b = "AList.update (ExecutionKey sess x) DeleteExecution (stage_snapshot i (bk_staging st))"
  have i: "i < length (sg_stages (bk_staging st))" using Cons.prems by (simp add: stage_is_open_def)
  obtain b where "delete_each i sess xs (bk_staging (put_stage i ?b st)) = Inr (bk_staging (put_stage i b st))"
    and b: "distinct (map fst ?b) \<longrightarrow> distinct (map fst b)"
      "\<forall>k. map_of b k = (if k \<in> ExecutionKey sess ` set xs then Some DeleteExecution else map_of ?b k)"
    using Cons.IH [of "put_stage i ?b st"] Cons.prems unfolding put_stage_simps(2) [OF i] put_stage_twice by auto
  then have "delete_each i sess (x # xs) (bk_staging st) = Inr (bk_staging (put_stage i b st))"
    by (simp add: stage_delete_def stage_put_open [OF Cons.prems])
  then show ?case using b by (intro exI [of _ b]) auto
qed

lemma apply_write_open:
  assumes "stage_is_open c i st"
  shows "\<exists>b. apply_write c w st = Inr (put_stage i b st) \<and>
         (distinct (map fst (stage_snapshot i (bk_staging st))) \<longrightarrow> distinct (map fst b)) \<and>
         (\<forall>k. map_of b k = (case write_mutation w k of Some m \<Rightarrow> Some m
                | None \<Rightarrow> map_of (stage_snapshot i (bk_staging st)) k))"
proof -
  have r: "staging_require_current c (bk_staging st) = Inr i"
    using assms by (simp add: stage_is_open_def staging_require_current_def staging_current_def)
  show ?thesis
  proof (cases w)
    case (WSave sess e)
    then show ?thesis
      using assms r
      by (intro exI [of _ "AList.update (ExecutionKey sess (ex_id e)) (SaveExecution (from_execution e))
            (stage_snapshot i (bk_staging st))"])
        (auto simp: repo_save_def stage_save_def stage_put_open lift_staging_def put_stage_staging)
  next
    case (WDelete sess xs)
    with delete_each_open [OF assms, of sess xs] r show ?thesis
      by (auto simp: repo_delete_many_def lift_staging_def put_stage_staging)
  qed
qed

lemma run_writes_open:
  "stage_is_open c i st \<Longrightarrow>
     \<exists>b. run_writes c ws st = Inr (put_stage i b st) \<and>
         (distinct (map fst (stage_snapshot i (bk_staging st))) \<longrightarrow> distinct (map fst b)) \<and>
         (\<forall>k. map_of b k = (case last_write ws k of Some m \<Rightarrow> Some m
                | None \<Rightarrow> map_of (stage_snapshot i (bk_staging st)) k))"
proof (induction ws arbitrary: st)
  case Nil
  have "put_stage i (stage_snapshot i (bk_staging st)) st = st"
    by (simp add: put_stage_def update_stage_def stage_snapshot_def)
  then show ?case by (intro exI [of _ "stage_snapshot i (bk_staging st)"]) simp
next
  case (Cons w ws)
  obtain b where b: "apply_write c w st = Inr (put_stage i b st)"
    "distinct (map fst (stage_snapshot i (bk_staging st))) \<longrightarrow> distinct (map fst b)"
    "\<forall>k. map_of b k = (case write_mutation w k of Some m \<Rightarrow> Some m
            | None \<Rightarrow> map_of (stage_snapshot i (bk_staging st)) k)"
    using apply_write_open [OF Cons.prems] by blast
  have i: "i < length (sg_stages (bk_staging st))" using Cons.prems by (simp add: stage_is_open_def)
  obtain b' where b': "run_writes c ws (put_stage i b st) = Inr (put_stage i b' st)"
    "distinct (map fst b) \<longrightarrow> distinct (map fst b')"
    "\<forall>k. map_of b' k = (case last_write ws k of Some m \<Rightarrow> Some m | None \<Rightarrow> map_of b k)"
    using Cons.IH [of "put_stage i b st"] Cons.prems unfolding put_stage_simps(2) [OF i] put_stage_twice by auto
  show ?case
    using b b' by (intro exI [of _ b']) (auto split: option.splits)
qed

section \<open>What a client promises\<close>

definition session_ok :: "session_id \<Rightarrow> bool" where
  "session_ok sess \<longleftrightarrow> session_id_value sess \<noteq> [] \<and> scalar_str (session_id_value sess)"

definition batch_ok :: "(execution \<Rightarrow> bool) \<Rightarrow> batch \<Rightarrow> bool" where
  "batch_ok ok b \<longleftrightarrow> distinct (map fst b) \<and>
     (\<forall>(k, m) \<in> set b. session_ok (key_session k) \<and> storable_id (key_execution k) \<and>
        (case m of DeleteExecution \<Rightarrow> True
         | SaveExecution sn \<Rightarrow> \<exists>e. ok e \<and> ex_id e = key_execution k \<and> sn = from_execution e))"

text \<open>What a session shows of an execution under the staged batch \<open>b\<close>.\<close>

definition visible ::
  "'s client \<Rightarrow> session_id \<Rightarrow> execution_id \<Rightarrow> batch \<Rightarrow> 's \<Rightarrow> exn + execution option" where
  "visible C sess x b s =
     (case map_of b (ExecutionKey sess x) of
        Some (SaveExecution sn) \<Rightarrow> bind_r (to_execution sn) (\<lambda>e. Inr (Some e))
      | Some DeleteExecution \<Rightarrow> Inr None
      | None \<Rightarrow> cl_read C sess x s)"

lemma repo_get_visible: "repo_get C c sess x st = visible C sess x (staged_items c st) (bk_store st)"
  by (simp add: repo_get_def visible_def staged_items_def stage_lookup_def stage_snapshot_def split: option.split)

lemma batch_ok_simps:
  "batch_ok ok []"
  "batch_ok ok ((k, m) # b) \<longleftrightarrow> k \<notin> fst ` set b \<and> batch_ok ok b \<and> session_ok (key_session k) \<and>
     storable_id (key_execution k) \<and>
     (case m of DeleteExecution \<Rightarrow> True
      | SaveExecution sn \<Rightarrow> \<exists>e. ok e \<and> ex_id e = key_execution k \<and> sn = from_execution e)"
  by (auto simp: batch_ok_def)

lemma batch_ok_update: "batch_ok ok b \<Longrightarrow> batch_ok ok [(k, m)] \<Longrightarrow> batch_ok ok (AList.update k m b)"
proof (induction b)
  case (Cons km b)
  obtain k' m' where km: "km = (k', m')" by fastforce
  have "fst ` set (AList.update k m b) = insert k (fst ` set b)" by (simp add: AList.update_keys dom_update)
  then show ?case using Cons unfolding km by (cases "k' = k") (auto simp: batch_ok_simps)
qed simp

lemma batch_okD:
  assumes "batch_ok ok b" "(k, m) \<in> set b"
  shows "session_ok (key_session k) \<and> storable_id (key_execution k) \<and>
     (case m of DeleteExecution \<Rightarrow> True
      | SaveExecution sn \<Rightarrow> \<exists>e. ok e \<and> ex_id e = key_execution k \<and> sn = from_execution e)"
  using bspec [OF conjunct2 [OF assms(1) [unfolded batch_ok_def]] assms(2)] by simp

lemma batch_ok_SomeD:
  "batch_ok ok b \<Longrightarrow> map_of b (ExecutionKey sess x) = Some (SaveExecution sn) \<Longrightarrow>
     \<exists>e. ok e \<and> ex_id e = x \<and> sn = from_execution e"
  by (fastforce simp: batch_ok_def dest!: map_of_SomeD)

fun write_ok :: "(execution \<Rightarrow> bool) \<Rightarrow> store_write \<Rightarrow> bool" where
  "write_ok ok (WSave sess e) \<longleftrightarrow> session_ok sess \<and> ok e \<and> storable_id (ex_id e)"
| "write_ok ok (WDelete sess xs) \<longleftrightarrow> session_ok sess \<and> (\<forall>x \<in> set xs. storable_id x)"

lemma last_write_ok:
  "\<forall>w \<in> set ws. write_ok ok w \<Longrightarrow> last_write ws k = Some m \<Longrightarrow>
     session_ok (key_session k) \<and> storable_id (key_execution k) \<and>
     (case m of DeleteExecution \<Rightarrow> True
      | SaveExecution sn \<Rightarrow> \<exists>e. ok e \<and> ex_id e = key_execution k \<and> sn = from_execution e)"
proof (induction ws)
  case (Cons w ws)
  show ?case
  proof (cases "last_write ws k")
    case None
    with Cons.prems have "write_mutation w k = Some m" "write_ok ok w" by auto
    then show ?thesis by (cases w) (auto split: if_splits)
  next
    case (Some m')
    with Cons show ?thesis by auto
  qed
qed simp

lemma batch_ok_last_writes:
  assumes "\<forall>w \<in> set ws. write_ok ok w" "distinct (map fst b)" "\<forall>k. map_of b k = last_write ws k"
  shows "batch_ok ok b"
  unfolding batch_ok_def
proof (intro conjI assms(2) ballI, clarify)
  fix k m assume "(k, m) \<in> set b"
  then have "last_write ws k = Some m" using assms(2,3) by (metis map_of_is_SomeI)
  from last_write_ok [OF assms(1) this]
  show "session_ok (key_session k) \<and> (valid_execution_id (key_execution k) \<and> encodable_id (key_execution k)) \<and>
     (case m of DeleteExecution \<Rightarrow> True
      | SaveExecution sn \<Rightarrow> \<exists>e. ok e \<and> ex_id e = key_execution k \<and> sn = from_execution e)" by simp
qed

locale store_contract =
  fixes C :: "'s client"
    and inv :: "'s \<Rightarrow> bool"
    and ok :: "execution \<Rightarrow> bool"
    and norm :: "execution \<Rightarrow> execution"
  assumes read_total: "inv s \<Longrightarrow> session_ok sess \<Longrightarrow> storable_id x \<Longrightarrow> \<exists>r. cl_read C sess x s = Inr r"
    and read_ok: "inv s \<Longrightarrow> session_ok sess \<Longrightarrow> storable_id x \<Longrightarrow> cl_read C sess x s = Inr (Some e) \<Longrightarrow>
          ex_id e = x \<and> ok e \<and> norm e = e"
    and commit_total: "inv s \<Longrightarrow> batch_ok ok b \<Longrightarrow> \<exists>s'. cl_commit C b s = Inr s' \<and> inv s'"
    and read_commit: "inv s \<Longrightarrow> batch_ok ok b \<Longrightarrow> cl_commit C b s = Inr s' \<Longrightarrow> session_ok sess \<Longrightarrow> storable_id x \<Longrightarrow>
          cl_read C sess x s' = map_sum id (map_option norm) (visible C sess x b s)"
    and ok_stageable: "ok e \<Longrightarrow> valid_execution e \<and> recordable (ex_arguments e)"
    and norm_simps: "ok e \<Longrightarrow> ok (norm e) \<and> ex_id (norm e) = ex_id e \<and> ex_status (norm e) = ex_status e \<and>
          ex_arguments (norm e) = ex_arguments e \<and> norm (norm e) = norm e \<and> norm (sort_execution e) = norm e \<and> ok (sort_execution e) \<and>
          (ex_metadata e = [] \<longrightarrow> ex_metadata (norm e) = [])"
begin

lemma visible_save:
  assumes "batch_ok ok b" "map_of b (ExecutionKey sess x) = Some (SaveExecution sn)"
  obtains e where "ok e" "ex_id e = x" "sn = from_execution e"
    "visible C sess x b s = Inr (Some (sort_execution e))"
proof -
  obtain e where e: "ok e" "ex_id e = x" "sn = from_execution e"
    using batch_ok_SomeD [OF assms] by blast
  then have "visible C sess x b s = Inr (Some (sort_execution e))"
    using assms(2) ok_stageable [OF e(1)] by (simp add: visible_def to_from_execution)
  with e that show ?thesis by blast
qed

lemma visible_total:
  assumes "inv s" "session_ok sess" "storable_id x" "batch_ok ok b"
  shows "\<exists>r. visible C sess x b s = Inr r"
proof (cases "map_of b (ExecutionKey sess x)")
  case None
  then show ?thesis using read_total [OF assms(1,2,3)] by (simp add: visible_def)
next
  case (Some m)
  then show ?thesis
    by (cases m) (auto intro: visible_save [OF assms(4)] simp: visible_def)
qed

end

text \<open>What the writes of one transaction stage, and what a read inside it returns.\<close>

lemma begin_open:
  assumes "staging_inv (bk_staging st)" "c < sg_contexts (bk_staging st)" "tx_begin c st = (tx, st1)"
  shows "\<exists>i. tx = tx_new\<lparr>tx_stage := Some i\<rparr> \<and> stage_is_open c i st1 \<and> stage_snapshot i (bk_staging st1) = [] \<and>
     map_of (sg_tokens (bk_staging st1)) i = Some (c, sg_open (bk_staging st) c) \<and>
     sg_open (bk_staging st1) c = Some i \<and> bk_store st1 = bk_store st \<and> staging_inv (bk_staging st1) \<and>
     sg_contexts (bk_staging st1) = sg_contexts (bk_staging st) \<and> i = length (sg_stages (bk_staging st)) \<and>
     (\<forall>j < i. sg_stages (bk_staging st1) ! j = sg_stages (bk_staging st) ! j)"
proof -
  obtain i s where b: "staging_begin c (bk_staging st) = (i, s)" by fastforce
  then have "tx = tx_new\<lparr>tx_stage := Some i\<rparr>" "st1 = st\<lparr>bk_staging := s\<rparr>"
    using assms(3) by (auto simp: tx_begin_def)
  moreover note begin_token [OF b] staging_begin_inv [OF assms(1,2) b]
  moreover have "\<forall>j < i. sg_stages s ! j = sg_stages (bk_staging st) ! j"
    using b by (auto simp: stage_defs Let_def nth_append)
  ultimately show ?thesis
    by (intro exI [of _ i]) (elim conjE,
      simp add: stage_is_open_def staging_current_def registry_open_def stage_snapshot_def)
qed

lemma close_after_writes:
  assumes "map_of (sg_tokens s) i = Some (c, old)" "sg_open s c = Some i" "i < length (sg_stages s)"
  shows "\<exists>s'. stage_close c i s = (Inr (), s') \<and> sg_open s' c = old \<and>
           stage_get_batch i s' = Inr (stage_snapshot i s) \<and> sg_contexts s' = sg_contexts s \<and>
           (\<forall>j. j \<noteq> i \<longrightarrow> sg_stages s' ! j = sg_stages s ! j)"
  using assms by (auto simp: stage_defs stage_get_batch_def stage_snapshot_def Let_def)

lemma staged_items_open: "stage_is_open c i st \<Longrightarrow> staged_items c st = stage_snapshot i (bk_staging st)"
  by (simp add: stage_is_open_def staged_items_def)

text \<open>A transaction over the writes \<open>ws\<close>, up to the moment it is closed.\<close>

lemma transaction_writes:
  assumes "staging_inv (bk_staging st)" "c < sg_contexts (bk_staging st)" "tx_begin c st = (tx, st1)"
    and "run_writes c ws st1 = Inr st2"
  obtains i b where "tx = tx_new\<lparr>tx_stage := Some i\<rparr>" "bk_store st2 = bk_store st"
    "stage_is_open c i st2" "stage_snapshot i (bk_staging st2) = b" "distinct (map fst b)"
    "\<forall>k. map_of b k = last_write ws k"
    "map_of (sg_tokens (bk_staging st2)) i = Some (c, sg_open (bk_staging st) c)"
    "sg_open (bk_staging st2) c = Some i" "i < length (sg_stages (bk_staging st2))"
    "\<forall>j < length (sg_stages (bk_staging st)). sg_stages (bk_staging st2) ! j = sg_stages (bk_staging st) ! j"
    "i = length (sg_stages (bk_staging st))"
proof -
  obtain i where i: "tx = tx_new\<lparr>tx_stage := Some i\<rparr>" "stage_is_open c i st1"
    "stage_snapshot i (bk_staging st1) = []"
    "map_of (sg_tokens (bk_staging st1)) i = Some (c, sg_open (bk_staging st) c)"
    "sg_open (bk_staging st1) c = Some i" "bk_store st1 = bk_store st" "i = length (sg_stages (bk_staging st))"
    "\<forall>j < i. sg_stages (bk_staging st1) ! j = sg_stages (bk_staging st) ! j"
    using begin_open [OF assms(1,2,3)] by blast
  obtain b where b0: "run_writes c ws st1 = Inr (put_stage i b st1)" "distinct (map fst b)"
    "\<forall>k. map_of b k = (case last_write ws k of Some m \<Rightarrow> Some m | None \<Rightarrow> map_of [] k)"
    using run_writes_open [OF i(2), of ws] unfolding i(3) by auto
  have b: "run_writes c ws st1 = Inr (put_stage i b st1)" "distinct (map fst b)"
    "\<forall>k. map_of b k = last_write ws k"
    using b0 by (simp_all split: option.split)
  have st2: "st2 = put_stage i b st1" using b(1) assms(4) by simp
  have len: "i < length (sg_stages (bk_staging st1))" using i(2) by (simp add: stage_is_open_def)
  show ?thesis
  proof (rule that [of i b])
    show "\<forall>j < length (sg_stages (bk_staging st)). sg_stages (bk_staging st2) ! j = sg_stages (bk_staging st) ! j"
      using i(7,8) by (auto simp: st2 put_stage_def update_stage_def)
  qed (use i b len in \<open>simp_all add: st2\<close>)
qed

context store_contract
begin

text \<open>Reading inside a transaction sees its own writes and nothing of the stage around it.\<close>

lemma read_own_writes:
  assumes "staging_inv (bk_staging st)" "c < sg_contexts (bk_staging st)" "tx_begin c st = (tx, st1)"
    and "run_writes c ws st1 = Inr st2"
  shows "repo_get C c sess x st2 =
    (case last_write ws (ExecutionKey sess x) of
       None \<Rightarrow> cl_read C sess x (bk_store st)
     | Some DeleteExecution \<Rightarrow> Inr None
     | Some (SaveExecution sn) \<Rightarrow> bind_r (to_execution sn) (\<lambda>e. Inr (Some e)))"
proof (rule transaction_writes [OF assms])
  fix i b
  assume "bk_store st2 = bk_store st" "stage_is_open c i st2" "stage_snapshot i (bk_staging st2) = b"
    "\<forall>k. map_of b k = last_write ws k"
  then show ?thesis
    by (simp add: repo_get_visible staged_items_open visible_def split: option.split mutation.split)
qed

text \<open>A commit makes exactly the writes visible and gives the enclosing stage back.\<close>

lemma commit_visible:
  assumes "staging_inv (bk_staging st)" "c < sg_contexts (bk_staging st)" "tx_begin c st = (tx, st1)"
    and "run_writes c ws st1 = Inr st2" "inv (bk_store st)" "\<forall>w \<in> set ws. write_ok ok w"
  shows "\<exists>tx' st3. tx_commit C c tx st2 = (Inr (), tx', st3) \<and> tx_closed tx' \<and> inv (bk_store st3) \<and>
     sg_open (bk_staging st3) c = sg_open (bk_staging st) c \<and> staged_items c st3 = staged_items c st \<and>
     (\<forall>sess x. session_ok sess \<longrightarrow> storable_id x \<longrightarrow>
        cl_read C sess x (bk_store st3) =
          (case last_write ws (ExecutionKey sess x) of
             None \<Rightarrow> cl_read C sess x (bk_store st)
           | Some DeleteExecution \<Rightarrow> Inr None
           | Some (SaveExecution sn) \<Rightarrow> map_sum id (\<lambda>e. Some (norm e)) (to_execution sn)))"
proof (rule transaction_writes [OF assms(1-4)])
  fix i b
  assume tx: "tx = tx_new\<lparr>tx_stage := Some i\<rparr>" and store: "bk_store st2 = bk_store st"
    and snap: "stage_snapshot i (bk_staging st2) = b" and b: "distinct (map fst b)" "\<forall>k. map_of b k = last_write ws k"
    and tok: "map_of (sg_tokens (bk_staging st2)) i = Some (c, sg_open (bk_staging st) c)"
      "sg_open (bk_staging st2) c = Some i" "i < length (sg_stages (bk_staging st2))"
    and old: "\<forall>j < length (sg_stages (bk_staging st)). sg_stages (bk_staging st2) ! j = sg_stages (bk_staging st) ! j"
    and i: "i = length (sg_stages (bk_staging st))"
  obtain s where s: "stage_close c i (bk_staging st2) = (Inr (), s)" "sg_open s c = sg_open (bk_staging st) c"
    "stage_get_batch i s = Inr b" "\<forall>j. j \<noteq> i \<longrightarrow> sg_stages s ! j = sg_stages (bk_staging st2) ! j"
    using close_after_writes [OF tok] snap by auto
  have ok_b: "batch_ok ok b" by (rule batch_ok_last_writes [OF assms(6) b])
  obtain store' where store': "cl_commit C b (bk_store st) = Inr store'" "inv store'"
    using commit_total [OF assms(5) ok_b] by blast
  let ?st3 = "st2\<lparr>bk_staging := s, bk_store := store'\<rparr>"
  have commit: "tx_commit C c tx st2 = (Inr (), tx\<lparr>tx_closed := True\<rparr>, ?st3)"
    by (simp add: tx_commit_def tx tx_new_def s store store')
  have items: "staged_items c ?st3 = staged_items c st"
  proof -
    have "j < i" if "sg_open (bk_staging st) c = Some j" for j
      using that assms(1) i by (auto simp: staging_inv_def)
    then show ?thesis
      using s(2,4) old i
      by (auto simp: staged_items_def staging_current_def registry_open_def stage_closed_def stage_snapshot_def
          split: option.splits)
  qed
  have reads: "cl_read C sess x store' =
          (case last_write ws (ExecutionKey sess x) of
             None \<Rightarrow> cl_read C sess x (bk_store st)
           | Some DeleteExecution \<Rightarrow> Inr None
           | Some (SaveExecution sn) \<Rightarrow> map_sum id (\<lambda>e. Some (norm e)) (to_execution sn))"
    if x: "session_ok sess" "storable_id x" for sess x
  proof (cases "last_write ws (ExecutionKey sess x)")
    case None
    obtain r where r: "cl_read C sess x (bk_store st) = Inr r" using read_total [OF assms(5) x] by blast
    then have "map_option norm r = r"
      using read_ok [OF assms(5) x] by (cases r) auto
    with None r read_commit [OF assms(5) ok_b store'(1) x] b(2) show ?thesis by (simp add: visible_def)
  next
    case (Some m)
    with read_commit [OF assms(5) ok_b store'(1) x] b(2) show ?thesis
      by (auto simp: visible_def bind_r_def map_sum_def split: mutation.splits sum.splits)
  qed
  show ?thesis
    using commit store' s(2) items reads by (intro exI [of _ "tx\<lparr>tx_closed := True\<rparr>"] exI [of _ ?st3]) simp
qed

end

text \<open>A rollback leaves the store and the enclosing stage as they were.\<close>

lemma rollback_invisible:
  assumes "staging_inv (bk_staging st)" "c < sg_contexts (bk_staging st)" "tx_begin c st = (tx, st1)"
    and "run_writes c ws st1 = Inr st2"
  shows "\<exists>tx' st3. tx_rollback c tx st2 = (Inr (), tx', st3) \<and> bk_store st3 = bk_store st \<and>
     sg_open (bk_staging st3) c = sg_open (bk_staging st) c \<and> staged_items c st3 = staged_items c st"
proof (rule transaction_writes [OF assms])
  fix i b
  assume tx: "tx = tx_new\<lparr>tx_stage := Some i\<rparr>" and store: "bk_store st2 = bk_store st"
    and tok: "map_of (sg_tokens (bk_staging st2)) i = Some (c, sg_open (bk_staging st) c)"
      "sg_open (bk_staging st2) c = Some i" "i < length (sg_stages (bk_staging st2))"
    and old: "\<forall>j < length (sg_stages (bk_staging st)). sg_stages (bk_staging st2) ! j = sg_stages (bk_staging st) ! j"
    and i: "i = length (sg_stages (bk_staging st))"
  obtain s where s: "stage_close c i (bk_staging st2) = (Inr (), s)" "sg_open s c = sg_open (bk_staging st) c"
    "\<forall>j. j \<noteq> i \<longrightarrow> sg_stages s ! j = sg_stages (bk_staging st2) ! j"
    using close_after_writes [OF tok] by auto
  let ?st3 = "st2\<lparr>bk_staging := s\<rparr>"
  have "j < i" if "sg_open (bk_staging st) c = Some j" for j
    using that assms(1) i by (auto simp: staging_inv_def)
  then have items: "staged_items c ?st3 = staged_items c st"
    using s(2,3) old i
    by (auto simp: staged_items_def staging_current_def registry_open_def stage_closed_def stage_snapshot_def
        split: option.splits)
  have "tx_rollback c tx st2 = (Inr (), tx\<lparr>tx_closed := True\<rparr>, ?st3)"
    by (simp add: tx_rollback_def tx tx_new_def s)
  with store s(2) items show ?thesis by (intro exI [of _ "tx\<lparr>tx_closed := True\<rparr>"] exI [of _ ?st3]) simp
qed

section \<open>Listing a session\<close>

definition starts_with :: "pystr \<Rightarrow> pystr \<Rightarrow> bool" where
  "starts_with pre s \<longleftrightarrow> take (length pre) s = pre"

lemma starts_with_iff: "starts_with pre s \<longleftrightarrow> (\<exists>r. s = pre @ r)"
  unfolding starts_with_def by (metis append_eq_conv_conj append_take_drop_id)

text \<open>\<open>execution_id_to_path(under) + "/" if under is not None else ""\<close>.\<close>

definition under_prefix :: "execution_id option \<Rightarrow> exn + pystr" where
  "under_prefix below =
     (case below of None \<Rightarrow> Inr [] | Some u \<Rightarrow> bind_r (execution_id_to_path u) (\<lambda>p. Inr (p @ [47])))"

definition status_matches :: "execution_status option \<Rightarrow> execution \<Rightarrow> bool" where
  "status_matches status e \<longleftrightarrow> status = None \<or> status = Some (ex_status e)"

definition below_matches :: "execution_id option \<Rightarrow> execution_id \<Rightarrow> bool" where
  "below_matches below x \<longleftrightarrow> (case below of None \<Rightarrow> True | Some u \<Rightarrow> ancestor_of u x)"

text \<open>The items of a path-keyed dictionary under a prefix, in path order, decoded and filtered.\<close>

definition list_visible ::
  "(pystr \<Rightarrow> 'v \<Rightarrow> exn + execution) \<Rightarrow> pystr \<Rightarrow> execution_status option \<Rightarrow> (pystr, 'v) dict
     \<Rightarrow> exn + execution list" where
  "list_visible decode prefix status vis =
     bind_r (traverse (\<lambda>(p, v). decode p v) (filter (\<lambda>(p, v). starts_with prefix p) (sort_items vis)))
       (\<lambda>es. Inr (filter (status_matches status) es))"

lemma under_prefix_total:
  "\<forall>u \<in> set_option below. storable_id u \<Longrightarrow> \<exists>pre. under_prefix below = Inr pre"
  by (auto simp: under_prefix_def pc.path_of_eq split: option.split)

lemma under_prefix_matches:
  assumes "under_prefix below = Inr pre" "storable_id x" "\<forall>u \<in> set_option below. storable_id u"
  shows "starts_with pre (pc.path_of x) \<longleftrightarrow> below_matches below x"
proof (cases below)
  case None
  with assms(1) show ?thesis by (simp add: under_prefix_def below_matches_def starts_with_def)
next
  case (Some u)
  with assms have u: "storable_id u" "pre = pc.path_of u @ [47]"
    by (auto simp: under_prefix_def pc.path_of_eq)
  then show ?thesis
    using path_prefix_ancestor [OF pc.path_of_eq [OF assms(2)] _ pc.path_of_eq [OF u(1)]] assms(2) Some
    by (simp add: starts_with_iff below_matches_def)
qed

text \<open>The listing every backend owes, up to the store's normal form.\<close>

definition listing_spec ::
  "(execution \<Rightarrow> execution) \<Rightarrow> (execution_id \<Rightarrow> exn + execution option) \<Rightarrow> execution_status option
     \<Rightarrow> execution_id option \<Rightarrow> execution list \<Rightarrow> bool" where
  "listing_spec norm view status below es \<longleftrightarrow>
     sorted_wrt (\<lambda>e f. pc.path_of (ex_id e) < pc.path_of (ex_id f)) es \<and>
     (\<forall>e \<in> set es. storable_id (ex_id e)) \<and>
     norm ` set es = {norm e | e. storable_id (ex_id e) \<and> view (ex_id e) = Inr (Some e) \<and>
                        status_matches status e \<and> below_matches below (ex_id e)}"

lemma sorted_wrt_map_less: "sorted_wrt (\<lambda>x y. f x < (f y :: 'b :: linorder)) xs \<longleftrightarrow> sorted_wrt (<) (map f xs)"
  by (induction xs) auto

lemma list_visible_ok:
  assumes "distinct (map fst vis)"
    and dec: "\<And>p v. (p, v) \<in> set vis \<Longrightarrow>
      \<exists>e. decode p v = Inr e \<and> storable_id (ex_id e) \<and> p = pc.path_of (ex_id e)"
    and pre: "under_prefix below = Inr pre" and below: "\<forall>u \<in> set_option below. storable_id u"
  shows "\<exists>es. list_visible decode pre status vis = Inr es \<and>
    sorted_wrt (\<lambda>e f. pc.path_of (ex_id e) < pc.path_of (ex_id f)) es \<and> (\<forall>e \<in> set es. storable_id (ex_id e)) \<and>
    set es = {e. (\<exists>v. (pc.path_of (ex_id e), v) \<in> set vis \<and> decode (pc.path_of (ex_id e)) v = Inr e) \<and>
                status_matches status e \<and> below_matches below (ex_id e)}"
proof -
  let ?sel = "filter (\<lambda>(p, v). starts_with pre p) (sort_items vis)"
  define g where "g = (\<lambda>(p, v). projr (decode p v))"
  have g: "decode p v = Inr (g (p, v)) \<and> storable_id (ex_id (g (p, v))) \<and> p = pc.path_of (ex_id (g (p, v)))"
    if "(p, v) \<in> set vis" for p v
    using dec [OF that] by (auto simp: g_def)
  have tr: "traverse (\<lambda>(p, v). decode p v) ?sel = Inr (map g ?sel)"
    by (rule traverse_Inr_map) (use g in auto)
  have fst_eq: "map (\<lambda>e. pc.path_of (ex_id e)) (map g ?sel) = map fst ?sel"
    using g by (auto intro!: map_cong)
  have "sorted (map fst (sort_items vis))" "distinct (map fst (sort_items vis))" using assms(1) by simp_all
  then have "sorted_wrt (<) (map fst (sort_items vis))" by (simp add: strict_sorted_iff)
  then have "sorted_wrt (<) (map fst ?sel)"
    by (simp add: sorted_wrt_map sorted_wrt_filter)
  then have "sorted_wrt (\<lambda>e f. pc.path_of (ex_id e) < pc.path_of (ex_id f)) (map g ?sel)"
    using fst_eq by (simp only: sorted_wrt_map_less [of "\<lambda>e. pc.path_of (ex_id e)" "map g ?sel"])
  then have srt: "sorted_wrt (\<lambda>e f. pc.path_of (ex_id e) < pc.path_of (ex_id f)) (filter (status_matches status) (map g ?sel))"
    by (rule sorted_wrt_filter)
  have set_eq: "set (filter (status_matches status) (map g ?sel)) =
      {e. (\<exists>v. (pc.path_of (ex_id e), v) \<in> set vis \<and> decode (pc.path_of (ex_id e)) v = Inr e) \<and>
                status_matches status e \<and> below_matches below (ex_id e)}" (is "?L = ?R")
  proof (intro set_eqI iffI)
    fix e assume "e \<in> ?L"
    then obtain p v where pv: "(p, v) \<in> set vis" "starts_with pre p" "e = g (p, v)" "status_matches status e" by auto
    have e: "decode p v = Inr e" "storable_id (ex_id e)" "pc.path_of (ex_id e) = p"
      using g [OF pv(1)] pv(3) by auto
    then have "below_matches below (ex_id e)"
      using pv(2) under_prefix_matches [OF pre e(2) below] by simp
    then show "e \<in> ?R" using e pv(1,4) by auto
  next
    fix e assume "e \<in> ?R"
    then obtain v where v: "(pc.path_of (ex_id e), v) \<in> set vis" "decode (pc.path_of (ex_id e)) v = Inr e"
      "status_matches status e" "below_matches below (ex_id e)" by auto
    moreover have "e = g (pc.path_of (ex_id e), v)" "storable_id (ex_id e)" using g [OF v(1)] v(2) by auto
    ultimately show "e \<in> ?L"
      using under_prefix_matches [OF pre _ below] by (auto intro!: image_eqI [of _ _ "(pc.path_of (ex_id e), v)"])
  qed
  have "list_visible decode pre status vis = Inr (filter (status_matches status) (map g ?sel))"
    by (simp only: list_visible_def tr bind_r_simps)
  moreover have "\<forall>e \<in> set (filter (status_matches status) (map g ?sel)). storable_id (ex_id e)" using g by auto
  ultimately show ?thesis using srt set_eq by blast
qed

text \<open>A path-keyed dictionary whose entries decode, up to \<open>norm\<close>, to what a view shows.\<close>

definition shows_view ::
  "(execution \<Rightarrow> execution) \<Rightarrow> (pystr \<Rightarrow> 'v \<Rightarrow> exn + execution) \<Rightarrow> (pystr, 'v) dict
     \<Rightarrow> (execution_id \<Rightarrow> exn + execution option) \<Rightarrow> bool" where
  "shows_view norm decode vis view \<longleftrightarrow>
     distinct (map fst vis) \<and> (\<forall>p \<in> fst ` set vis. \<exists>x. storable_id x \<and> p = pc.path_of x) \<and>
     (\<forall>x. storable_id x \<longrightarrow>
        (case map_of vis (pc.path_of x) of
           None \<Rightarrow> view x = Inr None
         | Some v \<Rightarrow> \<exists>e f. view x = Inr (Some e) \<and> decode (pc.path_of x) v = Inr f \<and> ex_id f = x \<and> ex_id e = x \<and>
                        ex_status f = ex_status e \<and> norm f = norm e))"

lemma listing_from_view:
  assumes "shows_view norm decode vis view"
    and pre: "under_prefix below = Inr pre" and below: "\<forall>u \<in> set_option below. storable_id u"
  shows "\<exists>es. list_visible decode pre status vis = Inr es \<and> listing_spec norm view status below es"
proof -
  have dist: "distinct (map fst vis)" using assms(1) by (simp add: shows_view_def)
  have at: "\<exists>x e f. storable_id x \<and> p = pc.path_of x \<and> view x = Inr (Some e) \<and> decode p v = Inr f \<and> ex_id f = x \<and>
      ex_id e = x \<and> ex_status f = ex_status e \<and> norm f = norm e" if pv: "(p, v) \<in> set vis" for p v
  proof -
    obtain x where x: "storable_id x" "p = pc.path_of x"
      using assms(1) imageI [OF pv, of fst] unfolding shows_view_def by auto
    have "map_of vis (pc.path_of x) = Some v" using pv dist x(2) by simp
    moreover have "case map_of vis (pc.path_of x) of None \<Rightarrow> view x = Inr None
         | Some v \<Rightarrow> \<exists>e f. view x = Inr (Some e) \<and> decode (pc.path_of x) v = Inr f \<and> ex_id f = x \<and> ex_id e = x \<and>
                        ex_status f = ex_status e \<and> norm f = norm e"
      using assms(1) x(1) unfolding shows_view_def by blast
    ultimately have "\<exists>e f. view x = Inr (Some e) \<and> decode (pc.path_of x) v = Inr f \<and> ex_id f = x \<and> ex_id e = x \<and>
                        ex_status f = ex_status e \<and> norm f = norm e" by simp
    with x show ?thesis by blast
  qed
  have dec: "\<exists>e. decode p v = Inr e \<and> storable_id (ex_id e) \<and> p = pc.path_of (ex_id e)" if "(p, v) \<in> set vis" for p v
    using at [OF that] by blast
  obtain es where es: "list_visible decode pre status vis = Inr es"
    "sorted_wrt (\<lambda>e f. pc.path_of (ex_id e) < pc.path_of (ex_id f)) es" "\<forall>e \<in> set es. storable_id (ex_id e)"
    "set es = {e. (\<exists>v. (pc.path_of (ex_id e), v) \<in> set vis \<and> decode (pc.path_of (ex_id e)) v = Inr e) \<and>
                status_matches status e \<and> below_matches below (ex_id e)}"
    using list_visible_ok [where status = status and decode = decode, OF dist dec pre below] by blast
  have "norm ` set es = {norm e | e. storable_id (ex_id e) \<and> view (ex_id e) = Inr (Some e) \<and>
                        status_matches status e \<and> below_matches below (ex_id e)}" (is "?L = ?R")
  proof (intro set_eqI iffI)
    fix n assume "n \<in> ?L"
    then obtain f v where f: "n = norm f" "(pc.path_of (ex_id f), v) \<in> set vis" "decode (pc.path_of (ex_id f)) v = Inr f"
      "status_matches status f" "below_matches below (ex_id f)" unfolding es(4) by blast
    obtain e where "storable_id (ex_id f)" "view (ex_id f) = Inr (Some e)" "ex_id e = ex_id f"
      "ex_status f = ex_status e" "norm f = norm e" using at [OF f(2)] f(3) by auto
    then show "n \<in> ?R" using f(1,4,5) by (auto simp: status_matches_def)
  next
    fix n assume "n \<in> ?R"
    then obtain e where e: "n = norm e" "storable_id (ex_id e)" "view (ex_id e) = Inr (Some e)"
      "status_matches status e" "below_matches below (ex_id e)" by blast
    have "case map_of vis (pc.path_of (ex_id e)) of
           None \<Rightarrow> view (ex_id e) = Inr None
         | Some v \<Rightarrow> \<exists>e' f. view (ex_id e) = Inr (Some e') \<and> decode (pc.path_of (ex_id e)) v = Inr f \<and> ex_id f = ex_id e \<and>
             ex_id e' = ex_id e \<and> ex_status f = ex_status e' \<and> norm f = norm e'"
      using assms(1) e(2) unfolding shows_view_def by blast
    then obtain v f where f: "map_of vis (pc.path_of (ex_id e)) = Some v" "decode (pc.path_of (ex_id e)) v = Inr f"
      "ex_id f = ex_id e" "ex_status f = ex_status e" "norm f = norm e"
      using e(3) by (auto split: option.splits)
    then have "f \<in> set es"
      using e(4,5) map_of_SomeD [OF f(1)] unfolding es(4) by (auto simp: status_matches_def)
    then show "n \<in> ?L" using e(1) f(5) by (auto intro!: image_eqI [of _ _ f])
  qed
  with es show ?thesis by (auto simp: listing_spec_def)
qed

text \<open>Staged mutations laid over a dictionary.\<close>

definition overlay :: "('m \<Rightarrow> 'v option) \<Rightarrow> ('k, 'm) dict \<Rightarrow> ('k, 'v) dict \<Rightarrow> ('k, 'v) dict" where
  "overlay f b d = fold (\<lambda>(k, m) d. case f m of None \<Rightarrow> AList.delete k d | Some v \<Rightarrow> AList.update k v d) b d"

lemma overlay_simps [simp]:
  "overlay f [] d = d"
  "overlay f ((k, m) # b) d =
     overlay f b (case f m of None \<Rightarrow> AList.delete k d | Some v \<Rightarrow> AList.update k v d)"
  by (simp_all add: overlay_def)

lemma overlay_distinct: "distinct (map fst d) \<Longrightarrow> distinct (map fst (overlay f b d))"
proof (induction b arbitrary: d)
  case (Cons km b)
  obtain k m where "km = (k, m)" by fastforce
  with Cons show ?case by (cases "f m") simp_all
qed simp

lemma map_of_overlay:
  "distinct (map fst b) \<Longrightarrow>
     map_of (overlay f b d) k = (case map_of b k of None \<Rightarrow> map_of d k | Some m \<Rightarrow> f m)"
proof (induction b arbitrary: d)
  case (Cons km b)
  obtain k' m where km: "km = (k', m)" by fastforce
  have "map_of b k' = None" using Cons.prems km by (simp add: map_of_eq_None_iff)
  then show ?case
    using Cons km by (cases "f m"; cases "k = k'"; cases "map_of b k") simp_all
qed simp

text \<open>The part of a session in a dictionary keyed by session and execution, by path.\<close>

definition paths_of_items :: "(execution_id \<times> 'v) list \<Rightarrow> exn + (pystr \<times> 'v) list" where
  "paths_of_items d = traverse (\<lambda>(x, v). bind_r (execution_id_to_path x) (\<lambda>p. Inr (p, v))) d"

text \<open>A dictionary comprehension: of two items with one key the last wins.\<close>

definition dict_of :: "('k \<times> 'v) list \<Rightarrow> ('k, 'v) dict" where
  "dict_of items = fold (\<lambda>(k, v) d. AList.update k v d) items []"

definition session_batch :: "session_id \<Rightarrow> batch \<Rightarrow> (execution_id \<times> mutation) list" where
  "session_batch sess b = map (\<lambda>(k, m). (key_execution k, m)) (filter (\<lambda>(k, m). key_session k = sess) b)"

lemma paths_of_items_ok:
  "\<forall>(x, v) \<in> set d. storable_id x \<Longrightarrow> paths_of_items d = Inr (map (map_prod pc.path_of id) d)"
  unfolding paths_of_items_def by (rule traverse_Inr_map) (auto simp: pc.path_of_eq)

lemma distinct_path_items:
  assumes "distinct (map fst d)" "\<forall>(x, v) \<in> set d. storable_id x"
  shows "distinct (map fst (map (map_prod pc.path_of id) d))"
proof -
  have "inj_on pc.path_of (fst ` set d)"
    using assms(2) by (intro pc.path_of_inj_on) auto
  then have "distinct (map pc.path_of (map fst d))" using assms(1) by (simp add: distinct_map comp_inj_on)
  then show ?thesis by (simp add: comp_def)
qed

lemma map_of_path_items:
  "\<forall>(x, v) \<in> set d. storable_id x \<Longrightarrow> storable_id y \<Longrightarrow>
     map_of (map (map_prod pc.path_of id) d) (pc.path_of y) = map_of d y"
proof (induction d)
  case (Cons xv d)
  obtain x v where "xv = (x, v)" by fastforce
  with Cons pc.path_of_inj [of x y] show ?case by (cases "x = y") auto
qed simp

lemma map_of_session_items:
  "map_of (map (\<lambda>(k, v). (key_execution k, v)) (filter (\<lambda>(k, v). key_session k = sess) d)) x
     = map_of d (ExecutionKey sess x)"
proof (induction d)
  case (Cons kv d)
  obtain s y v where "kv = (ExecutionKey s y, v)" by (metis execution_key.exhaust surj_pair)
  with Cons show ?case by auto
qed simp

lemma distinct_session_items:
  assumes "distinct (map fst d)"
  shows "distinct (map fst (map (\<lambda>(k, v). (key_execution k, v)) (filter (\<lambda>(k, v). key_session k = sess) d)))"
proof -
  have "inj_on key_execution (fst ` set (filter (\<lambda>(k, v). key_session k = sess) d))"
    by (rule inj_onI) (auto intro: execution_key.expand)
  moreover have "distinct (map fst (filter (\<lambda>(k, v). key_session k = sess) d))"
    using assms by (simp add: distinct_map_filter)
  ultimately have "distinct (map key_execution (map fst (filter (\<lambda>(k, v). key_session k = sess) d)))"
    by (subst distinct_map) simp
  then show ?thesis by (simp add: comp_def split_beta)
qed

lemma dict_of_distinct: "distinct (map fst d) \<Longrightarrow> dict_of d = d"
proof -
  have "distinct (map fst (e @ d)) \<Longrightarrow> fold (\<lambda>(k, v) d. AList.update k v d) d e = e @ d" for e
  proof (induction d arbitrary: e)
    case (Cons kv d)
    obtain k v where kv: "kv = (k, v)" by fastforce
    have "AList.update k v e = e @ [(k, v)]"
      using Cons.prems kv by (intro update_new_key) auto
    then show ?case using Cons.IH [of "e @ [(k, v)]"] Cons.prems kv by simp
  qed simp
  from this [of "[]"] show "distinct (map fst d) \<Longrightarrow> dict_of d = d" by (simp add: dict_of_def)
qed

section \<open>Extended contracts\<close>

locale listing_store = store_contract +
  assumes list_ok: "inv s \<Longrightarrow> batch_ok ok b \<Longrightarrow> session_ok sess \<Longrightarrow> \<forall>u \<in> set_option below. storable_id u \<Longrightarrow>
     \<exists>es. cl_list C sess status below b s = Inr es \<and>
          listing_spec norm (\<lambda>x. visible C sess x b s) status below es"
begin

text \<open>Every execution is listed after its own ancestors.\<close>

lemma listed_after_ancestors:
  assumes "inv s" "batch_ok ok b" "session_ok sess" "\<forall>u \<in> set_option below. storable_id u"
    and "cl_list C sess status below b s = Inr es" "m < length es" "n < length es"
    and "ancestor_of (ex_id (es ! m)) (ex_id (es ! n))"
  shows "m < n"
proof -
  have spec: "sorted_wrt (\<lambda>e f. pc.path_of (ex_id e) < pc.path_of (ex_id f)) es" "\<forall>e \<in> set es. storable_id (ex_id e)"
    using list_ok [OF assms(1-4), of status] assms(5) by (auto simp: listing_spec_def)
  have "sorted (map pc.path_of (map ex_id es))"
    using spec(1) by (simp add: sorted_map) (erule sorted_wrt_mono_rel [rotated], simp)
  then show ?thesis
    using pc.sorted_paths_ancestors_first [of "map ex_id es" m n] spec(2) assms(6-8) by simp
qed

end

locale claiming_store = store_contract +
  fixes recorded :: "session_id \<Rightarrow> domain_id \<Rightarrow> 's \<Rightarrow> domain_version option"
    and version_ok :: "domain_version \<Rightarrow> bool"
  assumes claim_ok: "inv s \<Longrightarrow> session_ok sess \<Longrightarrow> valid_domain_id d \<Longrightarrow> version_ok v \<Longrightarrow>
      \<exists>s'. cl_claim C sess d v s = Inr (case recorded sess d s of None \<Rightarrow> v | Some w \<Rightarrow> w, s') \<and> inv s' \<and>
        (\<forall>sess' d'. session_ok sess' \<longrightarrow> valid_domain_id d' \<longrightarrow> recorded sess' d' s' =
           (if sess' = sess \<and> d' = d then Some (case recorded sess d s of None \<Rightarrow> v | Some w \<Rightarrow> w)
            else recorded sess' d' s)) \<and>
        (\<forall>sess' x. session_ok sess' \<longrightarrow> storable_id x \<longrightarrow> cl_read C sess' x s' = cl_read C sess' x s)"
    and claim_repeat: "inv s \<Longrightarrow> session_ok sess \<Longrightarrow> valid_domain_id d \<Longrightarrow> version_ok v \<Longrightarrow>
      recorded sess d s = Some w \<Longrightarrow> cl_claim C sess d v s = Inr (w, s)"
    and commit_recorded: "inv s \<Longrightarrow> batch_ok ok b \<Longrightarrow> cl_commit C b s = Inr s' \<Longrightarrow>
      session_ok sess \<Longrightarrow> valid_domain_id d \<Longrightarrow> recorded sess d s' = recorded sess d s"
begin

text \<open>The first claim of a pair wins: later ones are told its version and change nothing.\<close>

lemma first_claim_wins:
  assumes "inv s" "session_ok sess" "valid_domain_id d" "version_ok v" "version_ok w"
    and "cl_claim C sess d v s = Inr (v', s')" "batch_ok ok b" "cl_commit C b s' = Inr s''"
  shows "\<exists>s3. cl_claim C sess d w s'' = Inr (v', s3)"
proof -
  obtain s1 where s1: "cl_claim C sess d v s = Inr (case recorded sess d s of None \<Rightarrow> v | Some w \<Rightarrow> w, s1)" "inv s1"
      "recorded sess d s1 = Some (case recorded sess d s of None \<Rightarrow> v | Some w \<Rightarrow> w)"
    using claim_ok [OF assms(1-4)] assms(2,3) by auto
  then have "s1 = s'" "recorded sess d s' = Some v'" "inv s'" using assms(6) by auto
  then have "recorded sess d s'' = Some v'" "inv s''"
    using commit_recorded [OF _ assms(7,8,2,3)] commit_total [OF _ assms(7)] assms(8) by fastforce+
  then show ?thesis using claim_ok [OF _ assms(2,3,5), of s''] by auto
qed

end

section \<open>Sample inputs\<close>

definition sample_session :: session_id where
  "sample_session = SessionId [115]"

definition sample_started :: execution where
  "sample_started = \<lparr>ex_id = sample_eid, ex_status = STARTED, ex_arguments = sample_ca, ex_result = None,
     ex_metadata = []\<rparr>"

definition sample_batch :: batch where
  "sample_batch = [(ExecutionKey sample_session sample_eid, SaveExecution (from_execution sample_execution))]"

lemma sample_session_ok [simp]: "session_ok sample_session"
  by (simp add: session_ok_def sample_session_def is_scalar_def is_surrogate_def)

lemma sample_eid_storable [simp]: "valid_execution_id sample_eid" "encodable_id sample_eid"
  using sha256_hexdigest_scalar
  by (simp_all add: valid_execution_id_def encodable_id_def sample_eid_def ca_digest_def
      valid_frame_def encodable_frame_def valid_domain_id_def domain_id_fullmatch_def
      domain_segment_def domain_start_def domain_char_def is_digit_def valid_execution_name_def
      valid_arguments_digest_def is_scalar_def is_surrogate_def)

lemma sample_execution_simps [simp]: "ex_id sample_execution = sample_eid" "ex_status sample_execution = COMPLETED"
  by (simp_all add: sample_execution_def)

lemma sample_batch_ok: "ok sample_execution \<Longrightarrow> batch_ok ok sample_batch"
  by (auto simp: sample_batch_def batch_ok_simps)

text \<open>A transaction that saves the sample execution, on any backend that has no open stage.\<close>

lemma sample_transaction:
  assumes "bk_staging st = staging_init"
  shows "\<exists>tx st1 st2. staging_inv (bk_staging st) \<and> 0 < sg_contexts (bk_staging st) \<and> tx_begin 0 st = (tx, st1) \<and>
     run_writes 0 [WSave sample_session sample_execution] st1 = Inr st2"
proof -
  obtain tx st1 where b: "tx_begin 0 st = (tx, st1)" by fastforce
  have i: "staging_inv (bk_staging st)" "0 < sg_contexts (bk_staging st)"
    using assms by (simp_all add: staging_init_def staging_inv_def)
  obtain i where "stage_is_open 0 i st1" using begin_open [OF i b] by blast
  from run_writes_open [OF this, of "[WSave sample_session sample_execution]"] b i show ?thesis by blast
qed

end
