(* ===== verification/Events.thy ===== *)
theory Events
  imports Exceptions
begin

text \<open>
  The event system (\<open>_event_system.py\<close>): which event types a handler takes, the handler map of
  an emitter, and \<open>emit\<close>. Classes are the two of \<open>events.py\<close>, their base and classes of the
  application; a handler is the number of its object, its \<open>handle\<close> a function from the event to
  what it raises or nothing. The emitter's observable effect is the list of handlers it called.
\<close>

section \<open>Event types of a handler\<close>

datatype event_class = E_Event | E_ExecutionCompleted | E_ExecutionFailed | E_App nat

text \<open>A type argument: a union, a class, a generic alias of a class, or anything else.\<close>

datatype type_arg = T_Union "type_arg list" | T_Alias event_class | T_Class event_class | T_Other

fun event_types_from_type_arg :: "type_arg \<Rightarrow> event_class list" where
  "event_types_from_type_arg (T_Union args) = concat (map event_types_from_type_arg args)"
| "event_types_from_type_arg (T_Alias c) = [c]"
| "event_types_from_type_arg (T_Class c) = [c]"
| "event_types_from_type_arg T_Other = []"

text \<open>The first arguments of the \<open>EventHandler[...]\<close> bases, in MRO order; \<open>None\<close> without one.\<close>

fun infer_event_types :: "type_arg option list \<Rightarrow> event_class list" where
  "infer_event_types [] = [E_Event]"
| "infer_event_types (None # bases) = infer_event_types bases"
| "infer_event_types (Some arg # bases) =
     (let types = event_types_from_type_arg arg in if types \<noteq> [] then types else infer_event_types bases)"

section \<open>Emitting\<close>

type_synonym handler_map = "(event_class, nat list) dict"

definition map_get :: "event_class \<Rightarrow> handler_map \<Rightarrow> nat list" where
  "map_get c m = (case map_of m c of None \<Rightarrow> [] | Some hs \<Rightarrow> hs)"

definition register_handler :: "nat \<times> event_class list \<Rightarrow> handler_map \<Rightarrow> handler_map" where
  "register_handler h m = fold (\<lambda>c m. AList.update c (map_get c m @ [fst h]) m) (snd h) m"

definition resolve_handler_map :: "(nat \<times> event_class list) list \<Rightarrow> handler_map" where
  "resolve_handler_map handlers = fold register_handler handlers []"

text \<open>A class in an MRO: a subclass of \<open>Event\<close>, or not.\<close>

datatype py_class = EventClass event_class | OtherClass nat

fun collect_handlers :: "nat list \<Rightarrow> nat list \<Rightarrow> nat list" where
  "collect_handlers [] to_run = to_run"
| "collect_handlers (h # hs) to_run = collect_handlers hs (if h \<in> set to_run then to_run else to_run @ [h])"

fun handlers_to_run :: "handler_map \<Rightarrow> py_class list \<Rightarrow> nat list \<Rightarrow> nat list" where
  "handlers_to_run m [] to_run = to_run"
| "handlers_to_run m (OtherClass _ # mro) to_run = handlers_to_run m mro to_run"
| "handlers_to_run m (EventClass c # mro) to_run = handlers_to_run m mro (collect_handlers (map_get c m) to_run)"

fun run_handlers :: "(nat \<Rightarrow> exn + unit) \<Rightarrow> nat list \<Rightarrow> nat list \<times> (exn + unit)" where
  "run_handlers handle [] = ([], Inr ())"
| "run_handlers handle (h # hs) =
     (case handle h of
        Inl x \<Rightarrow>
          (if is_instance x C_Exception
           then (case run_handlers handle hs of (called, r) \<Rightarrow> (h # called, r))
           else ([h], Inl x))
      | Inr _ \<Rightarrow> (case run_handlers handle hs of (called, r) \<Rightarrow> (h # called, r)))"

definition emit_event :: "handler_map \<Rightarrow> (nat \<Rightarrow> exn + unit) \<Rightarrow> py_class list \<Rightarrow> nat list \<times> (exn + unit)" where
  "emit_event m handle mro = run_handlers handle (handlers_to_run m mro [])"

section \<open>Lemmas\<close>

lemma map_get_update: "map_get c (AList.update c' hs m) = (if c = c' then hs else map_get c m)"
  by (simp add: map_get_def)

lemma map_get_register:
  "map_get c (register_handler (h, types) m) = map_get c m @ replicate (count_list types c) h"
proof -
  have "map_get c (fold (\<lambda>c m. AList.update c (map_get c m @ [h]) m) types m)
      = map_get c m @ replicate (count_list types c) h"
    by (induction types arbitrary: m) (simp_all add: map_get_update replicate_app_Cons_same)
  then show ?thesis by (simp add: register_handler_def)
qed

lemma map_get_resolve:
  "map_get c (resolve_handler_map handlers) = concat (map (\<lambda>(h, types). replicate (count_list types c) h) handlers)"
proof -
  have "map_get c (fold register_handler handlers m)
      = map_get c m @ concat (map (\<lambda>(h, types). replicate (count_list types c) h) handlers)" for m
  proof (induction handlers arbitrary: m)
    case (Cons ht handlers)
    obtain h types where "ht = (h, types)" by fastforce
    then show ?case by (simp add: Cons.IH map_get_register)
  qed simp
  from this [of "[]"] show ?thesis by (simp add: resolve_handler_map_def map_get_def)
qed

text \<open>The first occurrence of every handler.\<close>

fun keep_first :: "'a list \<Rightarrow> 'a list" where
  "keep_first [] = []"
| "keep_first (h # hs) = h # filter (\<lambda>x. x \<noteq> h) (keep_first hs)"

lemma set_keep_first [simp]: "set (keep_first hs) = set hs"
  by (induction hs) auto

lemma distinct_keep_first [simp]: "distinct (keep_first hs)"
  by (induction hs) auto

lemma collect_handlers_eq: "collect_handlers hs to_run = to_run @ filter (\<lambda>h. h \<notin> set to_run) (keep_first hs)"
proof (induction hs arbitrary: to_run)
  case (Cons h hs)
  have "h \<in> set to_run \<Longrightarrow> filter (\<lambda>x. x \<notin> set to_run) (filter (\<lambda>x. x \<noteq> h) xs) = filter (\<lambda>x. x \<notin> set to_run) xs" for xs
    by (auto intro: filter_cong)
  then show ?case by (auto simp: Cons.IH intro: filter_cong)
qed simp

lemma collect_handlers_append: "collect_handlers (xs @ ys) r = collect_handlers ys (collect_handlers xs r)"
  by (induction xs arbitrary: r) simp_all

definition event_classes :: "py_class list \<Rightarrow> event_class list" where
  "event_classes mro = concat (map (\<lambda>c. case c of EventClass e \<Rightarrow> [e] | OtherClass _ \<Rightarrow> []) mro)"

lemma handlers_to_run_eq:
  "handlers_to_run m mro r = collect_handlers (concat (map (\<lambda>c. map_get c m) (event_classes mro))) r"
  by (induction m mro r rule: handlers_to_run.induct) (simp_all add: event_classes_def collect_handlers_append)

lemma run_handlers_all:
  "\<forall>h \<in> set hs. \<forall>x. handle h = Inl x \<longrightarrow> is_instance x C_Exception \<Longrightarrow> run_handlers handle hs = (hs, Inr ())"
  by (induction hs) (auto split: sum.split)

lemma run_handlers_result:
  "run_handlers handle hs = (called, r) \<Longrightarrow>
     (\<exists>rest. hs = called @ rest) \<and> (r = Inr () \<and> called = hs \<or> (\<exists>x. r = Inl x \<and> \<not> is_instance x C_Exception))"
  by (induction hs arbitrary: called r) (auto split: sum.splits if_splits prod.splits)

lemma run_handlers_eq:
  "run_handlers handle hs =
     (if \<exists>h \<in> set hs. handle h = Inl CancelledError
      then (takeWhile (\<lambda>h. handle h \<noteq> Inl CancelledError) hs @
              [hd (dropWhile (\<lambda>h. handle h \<noteq> Inl CancelledError) hs)], Inl CancelledError)
      else (hs, Inr ()))"
proof (induction hs)
  case (Cons h hs)
  then show ?case by (cases "handle h") (simp_all add: is_instance_Exception)
qed simp

lemma filter_keep_first: "filter P (keep_first hs) = keep_first (filter P hs)"
proof (induction hs)
  case (Cons h hs)
  have "\<not> P h \<Longrightarrow> filter P (filter (\<lambda>x. x \<noteq> h) xs) = filter P xs" for xs
    by (auto intro: filter_cong)
  moreover have "filter P (filter (\<lambda>x. x \<noteq> h) xs) = filter (\<lambda>x. x \<noteq> h) (filter P xs)" for xs
    by (simp add: conj_commute)
  ultimately show ?case by (simp add: Cons.IH [symmetric])
qed simp

lemma keep_first_replicate: "keep_first (replicate n h @ hs) = keep_first ((if n = 0 then [] else [h]) @ hs)"
proof (induction n)
  case (Suc n)
  then show ?case by (cases n) simp_all
qed simp

lemma keep_first_append: "keep_first (xs @ ys) = keep_first xs @ filter (\<lambda>y. y \<notin> set xs) (keep_first ys)"
  by (induction xs) (auto intro: filter_cong)

text \<open>The registrations of a class, in order.\<close>

definition registered :: "event_class \<Rightarrow> (nat \<times> event_class list) list \<Rightarrow> nat list" where
  "registered c handlers = map fst (filter (\<lambda>(h, types). c \<in> set types) handlers)"

lemma set_registered: "h \<in> set (registered c handlers) \<longleftrightarrow> (\<exists>types. (h, types) \<in> set handlers \<and> c \<in> set types)"
  by (force simp: registered_def)

lemma count_list_pos: "count_list xs x \<noteq> 0 \<longleftrightarrow> x \<in> set xs"
  by (induction xs) auto

lemma keep_first_map_get: "keep_first (map_get c (resolve_handler_map handlers)) = keep_first (registered c handlers)"
proof -
  have "keep_first (concat (map (\<lambda>(h, types). replicate (count_list types c) h) handlers)) = keep_first (registered c handlers)"
  proof (induction handlers)
    case (Cons ht handlers)
    obtain h types where ht: "ht = (h, types)" by fastforce
    have "keep_first (replicate (count_list types c) h @ hs) = keep_first ((if c \<in> set types then [h] else []) @ hs)" for hs
      using count_list_pos [of types c] by (simp only: keep_first_replicate if_not_P split: if_split) auto
    from this [of "concat (map (\<lambda>(h, types). replicate (count_list types c) h) handlers)"] Cons show ?case
      by (simp add: ht registered_def)
  qed (simp add: registered_def)
  then show ?thesis by (simp add: map_get_resolve)
qed

lemma set_map_get: "set (map_get c (resolve_handler_map handlers)) = set (registered c handlers)"
  using set_keep_first [of "map_get c (resolve_handler_map handlers)"] by (simp only: keep_first_map_get set_keep_first)

lemma emit_event_eq:
  "emit_event m handle mro = run_handlers handle (keep_first (concat (map (\<lambda>c. map_get c m) (event_classes mro))))"
  by (simp add: emit_event_def handlers_to_run_eq collect_handlers_eq)

lemma set_event_classes: "c \<in> set (event_classes mro) \<longleftrightarrow> EventClass c \<in> set mro"
  by (induction mro) (auto simp: event_classes_def split: py_class.splits)

text \<open>What takes one class of the event only is called in the order of that class.\<close>

lemma one_class_order:
  assumes "c \<in> set cs" "\<And>c' h. c' \<in> set cs \<Longrightarrow> P h \<Longrightarrow> h \<in> set (m c') \<Longrightarrow> c' = c"
  shows "filter P (keep_first (concat (map m cs))) = filter P (keep_first (m c))"
  using assms
proof (induction cs)
  case (Cons d cs)
  show ?case
  proof (cases "d = c")
    case True
    have "h \<in> set (m c)" if h: "h \<in> set (m c')" "c' \<in> set cs" "P h" for h c'
      using Cons.prems(2) [of c' h] h by auto
    then have "filter P (filter (\<lambda>y. y \<notin> set (m c)) (keep_first (concat (map m cs)))) = []"
      by (auto simp: filter_empty_conv)
    then show ?thesis using True by (simp add: keep_first_append del: filter_filter)
  next
    case False
    then have none: "filter P (m d) = []" using Cons.prems(2) [of d] by (auto simp: filter_empty_conv)
    have "filter P (keep_first (concat (map m cs))) = filter P (keep_first (m c))"
      using Cons False by auto
    then show ?thesis using none by (simp add: filter_keep_first)
  qed
qed simp

section \<open>Properties\<close>

text \<open>
  C39: Delivery of an event. The handlers an event reaches are those registered for one of its
  classes, each once, whatever they do, and those of them that take a single one of its classes are in
  the order they were registered for it. \<open>emit\<close> calls them all and returns, whatever ordinary exceptions they
  raise; a cancellation raised in one is passed on and ends the delivery there. (The order among handlers of
  different classes of the event is not the order of registration that the method is documented to keep: see
  below.)
\<close>
theorem emit_delivers:
  "let m = resolve_handler_map handlers; order = fst (emit_event m (\<lambda>_. Inr ()) mro);
       takes = \<lambda>h c. EventClass c \<in> set mro \<and> h \<in> set (registered c handlers)
   in distinct order \<and> (\<forall>h. h \<in> set order \<longleftrightarrow> (\<exists>c. takes h c)) \<and>
     (\<forall>c. EventClass c \<in> set mro \<longrightarrow>
        filter (\<lambda>h. \<forall>c'. takes h c' \<longrightarrow> c' = c) order =
        filter (\<lambda>h. \<forall>c'. takes h c' \<longrightarrow> c' = c) (keep_first (registered c handlers))) \<and>
     (\<forall>handle. emit_event m handle mro =
        (if \<exists>h \<in> set order. handle h = Inl CancelledError
         then (takeWhile (\<lambda>h. handle h \<noteq> Inl CancelledError) order @
                 [hd (dropWhile (\<lambda>h. handle h \<noteq> Inl CancelledError) order)], Inl CancelledError)
         else (order, Inr ())))"
proof -
  let ?m = "\<lambda>c. map_get c (resolve_handler_map handlers)"
  let ?order = "keep_first (concat (map ?m (event_classes mro)))"
  let ?takes = "\<lambda>h c. EventClass c \<in> set mro \<and> h \<in> set (registered c handlers)"
  have order: "fst (emit_event (resolve_handler_map handlers) (\<lambda>_. Inr ()) mro) = ?order"
    by (simp add: emit_event_eq run_handlers_all)
  have "h \<in> set ?order \<longleftrightarrow> (\<exists>c. ?takes h c)" for h
    by (auto simp: set_event_classes set_map_get)
  moreover have "filter (\<lambda>h. \<forall>c'. ?takes h c' \<longrightarrow> c' = c) ?order =
      filter (\<lambda>h. \<forall>c'. ?takes h c' \<longrightarrow> c' = c) (keep_first (registered c handlers))" if "EventClass c \<in> set mro" for c
    unfolding keep_first_map_get [symmetric]
    by (rule one_class_order) (use that in \<open>auto simp: set_event_classes set_map_get\<close>)
  moreover have "emit_event (resolve_handler_map handlers) handle mro =
      (if \<exists>h \<in> set ?order. handle h = Inl CancelledError
       then (takeWhile (\<lambda>h. handle h \<noteq> Inl CancelledError) ?order @
               [hd (dropWhile (\<lambda>h. handle h \<noteq> Inl CancelledError) ?order)], Inl CancelledError)
       else (?order, Inr ()))" for handle
    unfolding emit_event_eq run_handlers_eq ..
  ultimately show ?thesis unfolding Let_def order by simp
qed

theorem emit_delivers_witness:
  "let m = resolve_handler_map [(7, [E_Event]), (8, [E_ExecutionCompleted, E_Event]), (7, [E_Event]), (9, [E_Event])];
       mro = [EventClass E_ExecutionCompleted, EventClass E_Event, OtherClass 0]
   in emit_event m (\<lambda>h. if h = 8 then Inl (AppError 1) else Inr ()) mro = ([8, 7, 9], Inr ()) \<and>
      emit_event m (\<lambda>h. if h = 7 then Inl CancelledError else Inr ()) mro = ([8, 7], Inl CancelledError)"
proof -
  let ?handlers = "[(7, [E_Event]), (8, [E_ExecutionCompleted, E_Event]), (7, [E_Event]), (9, [E_Event])]"
  let ?m = "resolve_handler_map ?handlers" and ?mro = "[EventClass E_ExecutionCompleted, EventClass E_Event, OtherClass 0]"
  have order: "fst (emit_event ?m (\<lambda>_. Inr ()) ?mro) = [8, 7, 9]"
    by (simp add: emit_event_def resolve_handler_map_def register_handler_def map_get_def)
  have "emit_event ?m handle ?mro =
      (if \<exists>h \<in> set [8, 7, 9]. handle h = Inl CancelledError
       then (takeWhile (\<lambda>h. handle h \<noteq> Inl CancelledError) [8, 7, 9] @
               [hd (dropWhile (\<lambda>h. handle h \<noteq> Inl CancelledError) [8, 7, 9])], Inl CancelledError)
       else ([8, 7, 9], Inr ()))" for handle
    using emit_delivers [of ?handlers ?mro] unfolding Let_def order by blast
  then show ?thesis unfolding Let_def by simp
qed

text \<open>The order of the delivery, class by class along the MRO of the event.\<close>

lemma emit_order:
  "fst (emit_event (resolve_handler_map handlers) (\<lambda>_. Inr ()) mro) =
     keep_first (concat (map (\<lambda>c. registered c handlers) (event_classes mro)))"
proof -
  have "keep_first (concat (map (\<lambda>c. map_get c (resolve_handler_map handlers)) cs))
      = keep_first (concat (map (\<lambda>c. registered c handlers) cs))" for cs
  proof (induction cs)
    case (Cons c cs)
    then show ?case by (simp add: keep_first_append keep_first_map_get set_map_get)
  qed simp
  then show ?thesis by (simp add: emit_event_eq run_handlers_all)
qed

text \<open>
  Handlers do not run in registration order: a handler registered first for the base class runs
  after one registered later for the class of the event itself.
\<close>
theorem emit_not_registration_order:
  "emit_event (resolve_handler_map [(0, [E_Event]), (1, [E_ExecutionCompleted])]) (\<lambda>_. Inr ())
     [EventClass E_ExecutionCompleted, EventClass E_Event, OtherClass 0] = ([1, 0], Inr ())"
  by (simp add: emit_event_def resolve_handler_map_def register_handler_def map_get_def)

end
