(* ===== verification/Function.thy ===== *)
theory Function
  imports Identity Exceptions
begin

text \<open>
  What the library understands an engraved Python function to be (\<open>_function.py\<close>): the definition
  read from a callable, with its two hint checks, and the binding of a call's arguments.

  A callable is what the reflection API returns for it: module, qualified name, parameters with
  their kinds and defaults, its unevaluated annotations, and the outcome of evaluating them (code of
  the application, so it may raise anything). \<open>bind_arguments\<close> is \<open>Signature.bind\<close> followed by
  \<open>apply_defaults\<close>; the two only ever raise \<open>TypeError\<close>, so the order in which they find a fault is
  not kept. Bound values of \<open>*args\<close> and \<open>**kwargs\<close> are a tuple and a dictionary.
\<close>

section \<open>Callables\<close>

datatype param_kind = POSITIONAL_ONLY | POSITIONAL_OR_KEYWORD | VAR_POSITIONAL | KEYWORD_ONLY | VAR_KEYWORD

record 'v parameter =
  pa_name :: pystr
  pa_kind :: param_kind
  pa_default :: "'v option"

record ('v, 't) callable =
  ca_module :: pystr
  ca_qualname :: pystr
  ca_parameters :: "'v parameter list"
  ca_annotations :: "pystr list"
  ca_resolved :: "exn + (pystr, 't) dict"

record ('v, 't) function_definition =
  fd_name :: execution_name
  fd_return :: 't
  fd_signature :: "'v parameter list"

definition is_variadic :: "param_kind \<Rightarrow> bool" where
  "is_variadic k \<longleftrightarrow> k = VAR_POSITIONAL \<or> k = VAR_KEYWORD"

definition missing_required_type_hints :: "'v parameter list \<Rightarrow> pystr list \<Rightarrow> pystr list" where
  "missing_required_type_hints params hints =
     (if str_of ''return'' \<notin> set hints then [str_of ''return''] else []) @
     map pa_name (filter (\<lambda>p. pa_name p \<notin> {str_of ''self'', str_of ''cls''} \<and>
        \<not> is_variadic (pa_kind p) \<and> pa_name p \<notin> set hints) params)"

definition from_callable :: "('v, 't) callable \<Rightarrow> execution_name option \<Rightarrow> exn + ('v, 't) function_definition" where
  "from_callable f name =
     bind_r (case name of Some n \<Rightarrow> Inr n | None \<Rightarrow> mk_execution_name (ca_module f @ 46 # ca_qualname f)) (\<lambda>n.
       if missing_required_type_hints (ca_parameters f) (ca_annotations f) \<noteq> [] then Inl MissingTypeHintError
       else bind_r (except_r (ca_resolved f) C_Exception TypeHintResolutionError) (\<lambda>hints.
         case map_of hints (str_of ''return'') of
           None \<Rightarrow> Inl KeyError
         | Some t \<Rightarrow> Inr \<lparr>fd_name = n, fd_return = t, fd_signature = ca_parameters f\<rparr>))"

section \<open>Binding a call\<close>

datatype 'v bound = Single 'v | VarTuple "'v list" | VarDict "(pystr, 'v) dict"

definition or_default :: "'v parameter \<Rightarrow> exn + 'v" where
  "or_default p = (case pa_default p of Some v \<Rightarrow> Inr v | None \<Rightarrow> Inl TypeError)"

definition keyword_or_default :: "'v parameter \<Rightarrow> (pystr, 'v) dict \<Rightarrow> exn + 'v" where
  "keyword_or_default p kwargs =
     (case map_of kwargs (pa_name p) of Some v \<Rightarrow> Inr v | None \<Rightarrow> or_default p)"

fun bind_arguments :: "'v parameter list \<Rightarrow> 'v list \<Rightarrow> (pystr, 'v) dict \<Rightarrow> exn + (pystr, 'v bound) dict" where
  "bind_arguments [] args kwargs = (if args = [] \<and> kwargs = [] then Inr [] else Inl TypeError)"
| "bind_arguments (p # ps) args kwargs =
     (case pa_kind p of
        POSITIONAL_ONLY \<Rightarrow>
          (case args of
             a # as \<Rightarrow> bind_r (bind_arguments ps as kwargs) (\<lambda>r. Inr ((pa_name p, Single a) # r))
           | [] \<Rightarrow> bind_r (or_default p) (\<lambda>v.
               bind_r (bind_arguments ps [] kwargs) (\<lambda>r. Inr ((pa_name p, Single v) # r))))
      | POSITIONAL_OR_KEYWORD \<Rightarrow>
          (case args of
             a # as \<Rightarrow> if pa_name p \<in> fst ` set kwargs then Inl TypeError
               else bind_r (bind_arguments ps as kwargs) (\<lambda>r. Inr ((pa_name p, Single a) # r))
           | [] \<Rightarrow> bind_r (keyword_or_default p kwargs) (\<lambda>v.
               bind_r (bind_arguments ps [] (AList.delete (pa_name p) kwargs)) (\<lambda>r.
                 Inr ((pa_name p, Single v) # r))))
      | VAR_POSITIONAL \<Rightarrow>
          bind_r (bind_arguments ps [] kwargs) (\<lambda>r. Inr ((pa_name p, VarTuple args) # r))
      | KEYWORD_ONLY \<Rightarrow>
          if args \<noteq> [] then Inl TypeError
          else bind_r (keyword_or_default p kwargs) (\<lambda>v.
            bind_r (bind_arguments ps [] (AList.delete (pa_name p) kwargs)) (\<lambda>r.
              Inr ((pa_name p, Single v) # r)))
      | VAR_KEYWORD \<Rightarrow>
          if args \<noteq> [] then Inl TypeError
          else bind_r (bind_arguments ps [] []) (\<lambda>r. Inr ((pa_name p, VarDict kwargs) # r)))"

section \<open>Lemmas\<close>

lemma bind_arguments_type_error: "bind_arguments ps args kwargs = Inl e \<Longrightarrow> e = TypeError"
  by (induction ps args kwargs rule: bind_arguments.induct)
     (auto simp: result_simps or_default_def keyword_or_default_def
       split: param_kind.splits list.splits if_splits option.splits)

lemma bind_arguments_names: "bind_arguments ps args kwargs = Inr r \<Longrightarrow> map fst r = map pa_name ps"
  by (induction ps args kwargs arbitrary: r rule: bind_arguments.induct)
     (auto simp: result_simps split: param_kind.splits list.splits if_splits)

text \<open>Keywords for later parameters pass an earlier one by.\<close>

lemma delete_absent: "k \<notin> fst ` set d \<Longrightarrow> AList.delete k d = d"
  by (simp add: AList.delete_eq) (induction d; auto)

lemma bind_keyword_head:
  assumes "pa_kind p = POSITIONAL_OR_KEYWORD" "pa_name p \<notin> fst ` set kwargs"
  shows "bind_arguments (p # ps) [] ((pa_name p, a) # kwargs)
       = bind_r (bind_arguments ps [] kwargs) (\<lambda>r. Inr ((pa_name p, Single a) # r))"
  using assms delete_absent [OF assms(2)] by (simp add: keyword_or_default_def AList.delete_eq)

section \<open>Properties\<close>

text \<open>
  How an argument is passed does not matter. For a function of ordinary parameters with distinct
  names, passing the first arguments by position binds exactly as passing them by keyword, whether
  the call succeeds or not, so both are the same call to the identity derived from the binding.
\<close>
theorem positional_is_keyword:
  assumes "\<forall>p \<in> set ps. pa_kind p = POSITIONAL_OR_KEYWORD" "distinct (map pa_name ps)"
    and "length args \<le> length ps"
  shows "bind_arguments ps args [] = bind_arguments ps [] (zip (map pa_name ps) args)"
  using assms
proof (induction ps arbitrary: args)
  case (Cons p ps)
  show ?case
  proof (cases args)
    case (Cons a as)
    have "pa_name p \<notin> fst ` set (zip (map pa_name ps) as)"
      using Cons.prems(2) by (auto dest: set_zip_leftD)
    from bind_keyword_head [OF _ this, where ps = ps and a = a]
    show ?thesis using Cons.prems Cons.IH [of as] by (simp add: Cons)
  qed simp
qed simp

theorem positional_is_keyword_witness:
  "let ps = [\<lparr>pa_name = [97], pa_kind = POSITIONAL_OR_KEYWORD, pa_default = None\<rparr>,
             \<lparr>pa_name = [98], pa_kind = POSITIONAL_OR_KEYWORD, pa_default = Some (5 :: int)\<rparr>]
   in bind_arguments ps [7] [] = Inr [([97], Single 7), ([98], Single 5)] \<and>
      bind_arguments ps [7] [] = bind_arguments ps [] [([97], 7)]"
  using positional_is_keyword [of "[\<lparr>pa_name = [97], pa_kind = POSITIONAL_OR_KEYWORD, pa_default = None\<rparr>,
     \<lparr>pa_name = [98], pa_kind = POSITIONAL_OR_KEYWORD, pa_default = Some (5 :: int)\<rparr>]" "[7]"]
  by (simp add: Let_def keyword_or_default_def or_default_def)

text \<open>
  Leaving out an argument is passing its default. For any parameter that can be given by keyword
  and has a default, a call without it binds exactly as the call that passes the default explicitly.
\<close>
theorem default_is_explicit:
  assumes "p \<in> set ps" "pa_kind p = POSITIONAL_OR_KEYWORD \<or> pa_kind p = KEYWORD_ONLY" "pa_default p = Some v"
    and "distinct (map pa_name ps)" "pa_name p \<notin> fst ` set kwargs"
    and "length args \<le> length (takeWhile (\<lambda>q. q \<noteq> p) ps)"
    and "\<forall>q \<in> set (takeWhile (\<lambda>q. q \<noteq> p) ps). pa_kind q \<noteq> VAR_KEYWORD"
  shows "bind_arguments ps args kwargs = bind_arguments ps args ((pa_name p, v) # kwargs)"
  using assms
proof (induction ps arbitrary: args kwargs)
  case (Cons q ps)
  show ?case
  proof (cases "q = p")
    case True
    then have "args = []" using Cons.prems(6) by simp
    then show ?thesis
      using True Cons.prems(2,3,5) delete_absent [OF Cons.prems(5)]
      by (auto simp: keyword_or_default_def or_default_def AList.delete_eq
          iffD2 [OF map_of_eq_None_iff Cons.prems(5)])
  next
    case False
    then have p: "p \<in> set ps" "pa_name q \<noteq> pa_name p" using Cons.prems(1,4) by auto
    have IH: "bind_arguments ps as ks = bind_arguments ps as ((pa_name p, v) # ks)"
      if "pa_name p \<notin> fst ` set ks" "length as \<le> length (takeWhile (\<lambda>q. q \<noteq> p) ps)" for as ks
      using that Cons.IH [OF p(1) Cons.prems(2,3)] Cons.prems(4,7) False by auto
    have del: "pa_name p \<notin> fst ` set (AList.delete (pa_name q) kwargs)"
      using Cons.prems(5) AList.delete_keys [of "pa_name q" kwargs] by (auto simp: AList.delete_eq)
    have len: "length as \<le> length (takeWhile (\<lambda>q. q \<noteq> p) ps)" if "args = a # as" for a as
      using Cons.prems(6) that False by simp
    have ad: "AList.delete (pa_name q) ((pa_name p, v) # kwargs) = (pa_name p, v) # AList.delete (pa_name q) kwargs"
      using p(2) by (simp add: AList.delete_eq)
    show ?thesis
      using IH [OF Cons.prems(5)] IH [OF del, of "[]"] p(2) len Cons.prems(7) False ad
      by (auto simp: keyword_or_default_def split: param_kind.split list.split option.split)
  qed
qed simp

theorem default_is_explicit_witness:
  "let ps = [\<lparr>pa_name = [97], pa_kind = POSITIONAL_OR_KEYWORD, pa_default = None\<rparr>,
             \<lparr>pa_name = [98], pa_kind = KEYWORD_ONLY, pa_default = Some (5 :: int)\<rparr>]
   in bind_arguments ps [7] [] = Inr [([97], Single 7), ([98], Single 5)] \<and>
      bind_arguments ps [7] [] = bind_arguments ps [7] [([98], 5)]"
  using default_is_explicit [of "\<lparr>pa_name = [98], pa_kind = KEYWORD_ONLY, pa_default = Some (5 :: int)\<rparr>"
     "[\<lparr>pa_name = [97], pa_kind = POSITIONAL_OR_KEYWORD, pa_default = None\<rparr>,
     \<lparr>pa_name = [98], pa_kind = KEYWORD_ONLY, pa_default = Some (5 :: int)\<rparr>]" 5 "[]" "[7]"]
  by (simp add: Let_def keyword_or_default_def or_default_def)

text \<open>
  A function is accepted exactly when it has a type hint for its return value and for every
  parameter other than \<open>self\<close>, \<open>cls\<close> and the variadic ones, and its annotations evaluate; a missing
  hint is reported as such whatever evaluating the annotations would have raised.
\<close>
theorem from_callable_hints:
  "let hinted = str_of ''return'' \<in> set (ca_annotations f) \<and>
       (\<forall>p \<in> set (ca_parameters f). pa_name p \<in> {str_of ''self'', str_of ''cls''} \<or> is_variadic (pa_kind p) \<or>
          pa_name p \<in> set (ca_annotations f))
   in ((\<exists>d. from_callable f name = Inr d) \<longleftrightarrow>
         hinted \<and> (\<exists>hints t. ca_resolved f = Inr hints \<and> map_of hints (str_of ''return'') = Some t)) \<and>
      (from_callable f name = Inl MissingTypeHintError \<longleftrightarrow> \<not> hinted)"
proof -
  obtain n where n: "(case name of Some n \<Rightarrow> Inr n | None \<Rightarrow> mk_execution_name (ca_module f @ 46 # ca_qualname f)) = Inr n"
    by (cases name) (simp_all add: mk_execution_name_def)
  have e: "is_instance MissingTypeHintError C_Exception" by (simp add: is_instance_def)
  show ?thesis
  proof (cases "ca_resolved f")
    case (Inl x)
    then show ?thesis
      using e unfolding from_callable_def Let_def n
      by (auto simp: missing_required_type_hints_def filter_empty_conv)
  next
    case (Inr hints)
    then show ?thesis
      unfolding from_callable_def Let_def n
      by (cases "map_of hints (str_of ''return'')")
         (auto simp: missing_required_type_hints_def filter_empty_conv)
  qed
qed

theorem from_callable_hints_witness:
  "let f = \<lparr>ca_module = [109], ca_qualname = [102],
       ca_parameters = [\<lparr>pa_name = [97], pa_kind = POSITIONAL_OR_KEYWORD, pa_default = None :: int option\<rparr>],
       ca_annotations = [str_of ''return''], ca_resolved = Inr [(str_of ''return'', ())]\<rparr>
   in from_callable f None = Inl MissingTypeHintError"
  using from_callable_hints [of "\<lparr>ca_module = [109], ca_qualname = [102],
       ca_parameters = [\<lparr>pa_name = [97], pa_kind = POSITIONAL_OR_KEYWORD, pa_default = None :: int option\<rparr>],
       ca_annotations = [str_of ''return''], ca_resolved = Inr [(str_of ''return'', ())]\<rparr>" None]
  by (simp add: Let_def is_variadic_def)

end
