(* ===== verification/Runtime.thy ===== *)
theory Runtime
  imports Transactions Events Function
begin

text \<open>
  The objects a session runs on: the sequencer that numbers calls (\<open>_sequencer.py\<close>), the domain
  versions a session has observed (\<open>_domain_claims.py\<close>), the call stack, transaction scopes and the
  context variable of \<open>_context.py\<close>, and the session that sets it (\<open>_session.py\<close>).

  Locks make an operation atomic, which an operation here is; the dictionary of locks the sequencer
  keeps is state all the same, because \<open>reset_for_call\<close> deletes from it. An operation whose failure
  leaves a changed state behind returns that state.
\<close>

section \<open>The sequencer\<close>

record sequencer =
  sq_locks :: "sequence_scope list"
  sq_counters :: "(sequence_scope, int) dict"

definition sequencer_init :: sequencer where
  "sequencer_init = \<lparr>sq_locks = [], sq_counters = []\<rparr>"

definition counter_of :: "sequence_scope \<Rightarrow> sequencer \<Rightarrow> int" where
  "counter_of k s = (case map_of (sq_counters s) k of None \<Rightarrow> 0 | Some n \<Rightarrow> n)"

definition sequencer_next :: "sequence_scope \<Rightarrow> sequencer \<Rightarrow> int \<times> sequencer" where
  "sequencer_next key s =
     (let seq = counter_of key s
      in (seq, \<lparr>sq_locks = (if key \<in> set (sq_locks s) then sq_locks s else sq_locks s @ [key]),
                sq_counters = AList.update key (seq + 1) (sq_counters s)\<rparr>))"

text \<open>\<open>del self._counters[key]; del self._locks[key]\<close>, each of which raises on a missing key.\<close>

fun delete_scopes :: "sequence_scope list \<Rightarrow> sequencer \<Rightarrow> (exn + unit) \<times> sequencer" where
  "delete_scopes [] s = (Inr (), s)"
| "delete_scopes (key # keys) s =
     (if key \<notin> fst ` set (sq_counters s) then (Inl KeyError, s)
      else let s1 = s\<lparr>sq_counters := AList.delete key (sq_counters s)\<rparr>
           in if key \<notin> set (sq_locks s1) then (Inl KeyError, s1)
              else delete_scopes keys (s1\<lparr>sq_locks := remove1 key (sq_locks s1)\<rparr>))"

definition reset_for_call :: "execution_id \<Rightarrow> sequencer \<Rightarrow> (exn + unit) \<times> sequencer" where
  "reset_for_call x s =
     delete_scopes (filter (\<lambda>k. scope_parent k = Some x) (map fst (sq_counters s))) s"

definition sequencer_inv :: "sequencer \<Rightarrow> bool" where
  "sequencer_inv s \<longleftrightarrow> distinct (map fst (sq_counters s)) \<and> distinct (sq_locks s) \<and>
     set (sq_locks s) = fst ` set (sq_counters s) \<and> (\<forall>(k, n) \<in> set (sq_counters s). 0 \<le> n)"

lemma sequencer_inv_init [simp]: "sequencer_inv sequencer_init"
  by (simp add: sequencer_inv_def sequencer_init_def)

lemma counter_of_init [simp]: "counter_of k sequencer_init = 0"
  by (simp add: counter_of_def sequencer_init_def)

lemma counter_nonneg: "sequencer_inv s \<Longrightarrow> 0 \<le> counter_of k s"
  by (auto simp: counter_of_def sequencer_inv_def split: option.split dest!: map_of_SomeD)

lemma sequencer_next_inv:
  assumes "sequencer_inv s"
  shows "sequencer_inv (snd (sequencer_next key s))"
proof -
  have "\<forall>(k, n) \<in> set (AList.update key (counter_of key s + 1) (sq_counters s)). 0 \<le> n"
  proof clarify
    fix k n assume "(k, n) \<in> set (AList.update key (counter_of key s + 1) (sq_counters s))"
    moreover have "distinct (map fst (AList.update key (counter_of key s + 1) (sq_counters s)))"
      using assms by (simp add: sequencer_inv_def)
    ultimately have "map_of (AList.update key (counter_of key s + 1) (sq_counters s)) k = Some n"
      by (metis map_of_is_SomeI)
    then show "0 \<le> n"
      using counter_nonneg [OF assms, of key] assms
      by (auto simp: sequencer_inv_def split: if_splits dest!: map_of_SomeD)
  qed
  then show ?thesis
    using assms by (auto simp: sequencer_inv_def sequencer_next_def Let_def AList.update_keys dom_update)
qed

lemma counter_after_next:
  "counter_of k (snd (sequencer_next key s)) = (if k = key then counter_of key s + 1 else counter_of k s)"
  by (simp add: sequencer_next_def Let_def counter_of_def)

lemma delete_keys_set: "fst ` set (AList.delete k d) = fst ` set d - {k}"
  by (auto simp: AList.delete_eq)

lemma delete_scopes_ok:
  "sequencer_inv s \<Longrightarrow> distinct keys \<Longrightarrow> set keys \<subseteq> fst ` set (sq_counters s) \<Longrightarrow>
     \<exists>s'. delete_scopes keys s = (Inr (), s') \<and> sequencer_inv s' \<and>
       (\<forall>k. counter_of k s' = (if k \<in> set keys then 0 else counter_of k s))"
proof (induction keys arbitrary: s)
  case (Cons key keys)
  let ?s = "s\<lparr>sq_counters := AList.delete key (sq_counters s), sq_locks := remove1 key (sq_locks s)\<rparr>"
  have key: "key \<in> fst ` set (sq_counters s)" "key \<in> set (sq_locks s)"
    using Cons.prems(1,3) by (auto simp: sequencer_inv_def)
  have "sequencer_inv ?s"
    using Cons.prems(1) distinct_keys_delete [of "sq_counters s" key]
    by (auto simp: sequencer_inv_def delete_keys_set) (auto simp: AList.delete_eq)
  moreover have "set keys \<subseteq> fst ` set (sq_counters ?s)"
    using Cons.prems(2,3) by (auto simp: delete_keys_set)
  ultimately obtain s' where s': "delete_scopes keys ?s = (Inr (), s')" "sequencer_inv s'"
      "\<forall>k. counter_of k s' = (if k \<in> set keys then 0 else counter_of k ?s)"
    using Cons.IH [of ?s] Cons.prems(2) by auto
  moreover have "counter_of k ?s = (if k = key then 0 else counter_of k s)" for k
    by (simp add: counter_of_def)
  ultimately show ?case using key by (auto simp: Let_def)
qed simp

lemma reset_for_call_ok:
  assumes "sequencer_inv s"
  obtains s' where "reset_for_call x s = (Inr (), s')" "sequencer_inv s'"
    "\<And>k. counter_of k s' = (if scope_parent k = Some x then 0 else counter_of k s)"
proof -
  let ?keys = "filter (\<lambda>k. scope_parent k = Some x) (map fst (sq_counters s))"
  obtain s' where s': "delete_scopes ?keys s = (Inr (), s')" "sequencer_inv s'"
      "\<forall>k. counter_of k s' = (if k \<in> set ?keys then 0 else counter_of k s)"
    using delete_scopes_ok [OF assms, of ?keys] assms by (auto simp: sequencer_inv_def)
  have zero: "counter_of k s = 0" if "k \<notin> fst ` set (sq_counters s)" for k
    using that by (simp add: counter_of_def map_of_eq_None_iff [THEN iffD2])
  have "counter_of k s' = (if scope_parent k = Some x then 0 else counter_of k s)" for k
    using s'(3) zero [of k] by auto
  with s'(1,2) that show ?thesis by (simp add: reset_for_call_def)
qed

text \<open>A run of the sequencer, and the ordinals it owes: how often a scope came up since its parent
  was last reset. \<open>past\<close> is the latest operation first.\<close>

datatype sequencer_op = SeqNext sequence_scope | SeqReset execution_id

fun sequencer_run :: "sequencer_op list \<Rightarrow> sequencer \<Rightarrow> (exn + int list) \<times> sequencer" where
  "sequencer_run [] s = (Inr [], s)"
| "sequencer_run (SeqNext k # ops) s =
     (case sequencer_next k s of
        (n, s1) \<Rightarrow> (case sequencer_run ops s1 of (r, s2) \<Rightarrow> (bind_r r (\<lambda>ns. Inr (n # ns)), s2)))"
| "sequencer_run (SeqReset x # ops) s =
     (case reset_for_call x s of
        (Inl e, s1) \<Rightarrow> (Inl e, s1)
      | (Inr _, s1) \<Rightarrow> sequencer_run ops s1)"

fun ordinal :: "sequencer_op list \<Rightarrow> sequence_scope \<Rightarrow> int" where
  "ordinal [] k = 0"
| "ordinal (SeqNext k' # past) k = ordinal past k + (if k' = k then 1 else 0)"
| "ordinal (SeqReset x # past) k = (if scope_parent k = Some x then 0 else ordinal past k)"

fun ordinals :: "sequencer_op list \<Rightarrow> sequencer_op list \<Rightarrow> int list" where
  "ordinals past [] = []"
| "ordinals past (SeqNext k # ops) = ordinal past k # ordinals (SeqNext k # past) ops"
| "ordinals past (SeqReset x # ops) = ordinals (SeqReset x # past) ops"

lemma sequencer_run_ordinals:
  "sequencer_inv s \<Longrightarrow> \<forall>k. counter_of k s = ordinal past k \<Longrightarrow>
     \<exists>s'. sequencer_run ops s = (Inr (ordinals past ops), s') \<and> sequencer_inv s'"
proof (induction ops arbitrary: past s)
  case (Cons op ops)
  show ?case
  proof (cases op)
    case (SeqNext k)
    obtain n s1 where n: "sequencer_next k s = (n, s1)" by fastforce
    then have "n = ordinal past k" using Cons.prems(2) by (auto simp: sequencer_next_def Let_def)
    moreover have "sequencer_inv s1" using sequencer_next_inv [OF Cons.prems(1), of k] n by simp
    moreover have "\<forall>j. counter_of j s1 = ordinal (SeqNext k # past) j"
      using counter_after_next [of _ k s] n Cons.prems(2) by auto
    ultimately show ?thesis using Cons.IH [of s1 "SeqNext k # past"] n SeqNext by auto
  next
    case (SeqReset x)
    obtain s1 where s1: "reset_for_call x s = (Inr (), s1)" "sequencer_inv s1"
      "\<And>k. counter_of k s1 = (if scope_parent k = Some x then 0 else counter_of k s)"
      using reset_for_call_ok [OF Cons.prems(1)] by metis
    have "\<forall>k. counter_of k s1 = ordinal (SeqReset x # past) k" using s1(3) Cons.prems(2) by simp
    from Cons.IH [OF s1(2) this] show ?thesis using SeqReset s1(1) by simp
  qed
qed simp

section \<open>Domain versions observed in a session\<close>

type_synonym observed = "(domain_id, domain_version) dict"

definition claims_observe ::
  "'s client \<Rightarrow> session_id \<Rightarrow> domain_id \<Rightarrow> domain_version \<Rightarrow> observed \<Rightarrow> 's
     \<Rightarrow> exn + domain_version \<times> observed \<times> 's" where
  "claims_observe C sess d v obs s =
     (case map_of obs d of
        Some w \<Rightarrow> Inr (w, obs, s)
      | None \<Rightarrow> bind_r (cl_claim C sess d v s) (\<lambda>(w, s'). Inr (w, AList.update d w obs, s')))"

definition claims_require :: "domain_id \<Rightarrow> domain_version \<Rightarrow> domain_version \<Rightarrow> exn + unit" where
  "claims_require d v recorded =
     ensure_r (recorded = v)
       (DomainVersionMismatchError (domain_id_value d) (domain_version_value recorded) (domain_version_value v))"

definition claims_ensure ::
  "'s client \<Rightarrow> session_id \<Rightarrow> domain_id \<Rightarrow> domain_version \<Rightarrow> observed \<Rightarrow> 's
     \<Rightarrow> (exn + unit) \<times> observed \<times> 's" where
  "claims_ensure C sess d v obs s =
     (case map_of obs d of
        Some w \<Rightarrow> (claims_require d v w, obs, s)
      | None \<Rightarrow>
          (case claims_observe C sess d v obs s of
             Inl e \<Rightarrow> (Inl e, obs, s)
           | Inr (w, obs', s') \<Rightarrow> (claims_require d v w, obs', s')))"

section \<open>The call stack\<close>

definition tracer_current :: "execution_id list \<Rightarrow> execution_id option" where
  "tracer_current stack = (if stack = [] then None else Some (last stack))"

definition tracer_start :: "execution_id \<Rightarrow> execution_id list \<Rightarrow> execution_id list" where
  "tracer_start x stack = stack @ [x]"

definition tracer_end :: "execution_id list \<Rightarrow> execution_id list" where
  "tracer_end stack = butlast stack"

lemma tracer_simps [simp]:
  "tracer_current [] = None" "tracer_current (tracer_start x stack) = Some x"
  "tracer_end (tracer_start x stack) = stack" "set (tracer_start x stack) = insert x (set stack)"
  by (simp_all add: tracer_current_def tracer_start_def tracer_end_def)

section \<open>Transaction scopes\<close>

record scope =
  sc_transaction :: "transaction option"
  sc_closed :: bool

definition scope_new :: scope where
  "scope_new = \<lparr>sc_transaction = None, sc_closed = False\<rparr>"

definition scope_enter :: "nat \<Rightarrow> scope \<Rightarrow> 's backend \<Rightarrow> (exn + unit) \<times> scope \<times> 's backend" where
  "scope_enter c sc st =
     (if sc_closed sc \<or> sc_transaction sc \<noteq> None then (Inl RuntimeError, sc, st)
      else case tx_begin c st of (tx, st1) \<Rightarrow> (Inr (), sc\<lparr>sc_transaction := Some tx\<rparr>, st1))"

definition take_transaction :: "scope \<Rightarrow> exn + transaction \<times> scope" where
  "take_transaction sc =
     (if sc_closed sc then Inl RuntimeError
      else case sc_transaction sc of
        None \<Rightarrow> Inl RuntimeError
      | Some tx \<Rightarrow> Inr (tx, sc\<lparr>sc_transaction := None, sc_closed := True\<rparr>))"

definition scope_commit ::
  "'s client \<Rightarrow> nat \<Rightarrow> scope \<Rightarrow> 's backend \<Rightarrow> (exn + unit) \<times> scope \<times> 's backend" where
  "scope_commit C c sc st =
     (case take_transaction sc of
        Inl e \<Rightarrow> (Inl e, sc, st)
      | Inr (tx, sc') \<Rightarrow> (case tx_commit C c tx st of (r, _, st') \<Rightarrow> (r, sc', st')))"

definition scope_rollback :: "nat \<Rightarrow> scope \<Rightarrow> 's backend \<Rightarrow> (exn + unit) \<times> scope \<times> 's backend" where
  "scope_rollback c sc st =
     (case take_transaction sc of
        Inl e \<Rightarrow> (Inl e, sc, st)
      | Inr (tx, sc') \<Rightarrow> (case tx_rollback c tx st of (r, _, st') \<Rightarrow> (r, sc', st')))"

definition scope_exit ::
  "'s client \<Rightarrow> nat \<Rightarrow> exn option \<Rightarrow> scope \<Rightarrow> 's backend \<Rightarrow> (exn + unit) \<times> scope \<times> 's backend" where
  "scope_exit C c raised sc st =
     (if sc_transaction sc = None then (Inr (), sc, st)
      else if raised = None then scope_commit C c sc st else scope_rollback c sc st)"

lemma scope_enter_new:
  "tx_begin c st = (tx, st1) \<Longrightarrow>
     scope_enter c scope_new st = (Inr (), \<lparr>sc_transaction = Some tx, sc_closed = False\<rparr>, st1)"
  by (simp add: scope_enter_def scope_new_def)

lemma scope_exit_open:
  "scope_exit C c raised \<lparr>sc_transaction = Some tx, sc_closed = False\<rparr> st =
     (case (if raised = None then tx_commit C c tx st else tx_rollback c tx st) of
        (r, _, st') \<Rightarrow> (r, \<lparr>sc_transaction = None, sc_closed = True\<rparr>, st'))"
  by (simp add: scope_exit_def scope_commit_def scope_rollback_def take_transaction_def split: prod.split)

section \<open>The context variable and the session\<close>

text \<open>
  \<open>cv_value\<close> is the value in every task's context, a token what \<open>ContextVar.set\<close> returned: its
  number, the context it was created in and the value it replaced. A token resets once, and only in
  its own context.
\<close>

datatype 'ctx token = Token (tk_number: nat) (tk_context: nat) (tk_old: "'ctx option")

record 'ctx context_var =
  cv_value :: "nat \<Rightarrow> 'ctx option"
  cv_tokens :: nat
  cv_used :: "nat list"

definition get_context :: "nat \<Rightarrow> 'ctx context_var \<Rightarrow> exn + 'ctx" where
  "get_context c v = (case cv_value v c of None \<Rightarrow> Inl ContextNotSetError | Some ctx \<Rightarrow> Inr ctx)"

definition set_context :: "nat \<Rightarrow> 'ctx \<Rightarrow> 'ctx context_var \<Rightarrow> 'ctx token \<times> 'ctx context_var" where
  "set_context c ctx v =
     (Token (cv_tokens v) c (cv_value v c),
      v\<lparr>cv_value := (cv_value v)(c := Some ctx), cv_tokens := Suc (cv_tokens v)\<rparr>)"

definition reset_context :: "nat \<Rightarrow> 'ctx token \<Rightarrow> 'ctx context_var \<Rightarrow> exn + 'ctx context_var" where
  "reset_context c t v =
     (if tk_number t \<in> set (cv_used v) then Inl RuntimeError
      else if tk_context t \<noteq> c then Inl ValueError
      else Inr (v\<lparr>cv_value := (cv_value v)(c := tk_old t), cv_used := tk_number t # cv_used v\<rparr>))"

record 'ctx session =
  ss_context :: "'ctx option"
  ss_token :: "'ctx token option"

definition session_enter :: "nat \<Rightarrow> 'ctx \<Rightarrow> 'ctx session \<Rightarrow> 'ctx context_var \<Rightarrow> 'ctx session \<times> 'ctx context_var" where
  "session_enter c fresh ss v =
     (case set_context c fresh v of (t, v') \<Rightarrow> (\<lparr>ss_context = Some fresh, ss_token = Some t\<rparr>, v'))"

definition session_exit :: "nat \<Rightarrow> 'ctx session \<Rightarrow> 'ctx context_var \<Rightarrow> exn + 'ctx context_var" where
  "session_exit c ss v =
     (case ss_token ss of None \<Rightarrow> Inr v | Some t \<Rightarrow> reset_context c t v)"

text \<open>Sessions nested in one task, the outermost first, around some code.\<close>

fun nested_sessions ::
  "nat \<Rightarrow> 'ctx list \<Rightarrow> ('ctx context_var \<Rightarrow> exn + 'ctx context_var) \<Rightarrow> 'ctx context_var \<Rightarrow> exn + 'ctx context_var" where
  "nested_sessions c [] body v = body v"
| "nested_sessions c (fresh # rest) body v =
     (case session_enter c fresh \<lparr>ss_context = None, ss_token = None\<rparr> v of
        (ss, v1) \<Rightarrow> bind_r (nested_sessions c rest body v1) (session_exit c ss))"

definition context_var_inv :: "'ctx context_var \<Rightarrow> bool" where
  "context_var_inv v \<longleftrightarrow> (\<forall>n \<in> set (cv_used v). n < cv_tokens v)"

lemma nested_sessions_restore:
  "context_var_inv v \<Longrightarrow>
     (\<And>w. context_var_inv w \<Longrightarrow> \<exists>w'. body w = Inr w' \<and> context_var_inv w' \<and> cv_value w' = cv_value w \<and>
        cv_tokens w \<le> cv_tokens w' \<and> (\<forall>n < cv_tokens w. n \<in> set (cv_used w') \<longrightarrow> n \<in> set (cv_used w))) \<Longrightarrow>
     \<exists>v'. nested_sessions c ctxs body v = Inr v' \<and> context_var_inv v' \<and> cv_value v' = cv_value v \<and>
        cv_tokens v \<le> cv_tokens v' \<and> (\<forall>n < cv_tokens v. n \<in> set (cv_used v') \<longrightarrow> n \<in> set (cv_used v))"
proof (induction ctxs arbitrary: v)
  case (Cons fresh rest)
  let ?v1 = "v\<lparr>cv_value := (cv_value v)(c := Some fresh), cv_tokens := Suc (cv_tokens v)\<rparr>"
  have "context_var_inv ?v1" using Cons.prems(1) by (auto simp: context_var_inv_def)
  from Cons.IH [OF this Cons.prems(2)] obtain v2 where
    v2: "nested_sessions c rest body ?v1 = Inr v2" "context_var_inv v2" "cv_value v2 = cv_value ?v1"
      "cv_tokens ?v1 \<le> cv_tokens v2" "\<forall>n < cv_tokens ?v1. n \<in> set (cv_used v2) \<longrightarrow> n \<in> set (cv_used ?v1)"
    by blast
  moreover have "cv_tokens v \<notin> set (cv_used v2)"
    using v2(5) Cons.prems(1) by (auto simp: context_var_inv_def)
  ultimately show ?case
    by (auto simp: session_enter_def set_context_def session_exit_def reset_context_def context_var_inv_def)
qed simp

section \<open>Properties\<close>

text \<open>
  Ordinals are deterministic. Whatever calls a session makes and whatever parents are re-executed,
  the sequencer never raises, and the number it gives a call is exactly how often the same scope
  (parent, domain, name, digest) has come up since its parent was last reset.
\<close>
theorem sequencer_counts:
  "fst (sequencer_run ops sequencer_init) = Inr (ordinals [] ops)"
  using sequencer_run_ordinals [of sequencer_init "[]" ops] by auto

text \<open>
  Nested sessions unwind. Entering any number of sessions in one task and leaving them again,
  around code that itself keeps the context variable, gives every task the context it had, so a
  function called outside is told so exactly when it was before.
\<close>
theorem sessions_unwind:
  assumes "context_var_inv v"
  shows "\<exists>v'. nested_sessions c ctxs Inr v = Inr v' \<and> (\<forall>t. get_context t v' = get_context t v)"
  using nested_sessions_restore [OF assms, of Inr c ctxs] by (auto simp: get_context_def)

theorem sessions_unwind_witness:
  "\<exists>v'. nested_sessions 0 [1 :: nat, 2] Inr \<lparr>cv_value = (\<lambda>_. None), cv_tokens = 0, cv_used = []\<rparr> = Inr v' \<and>
     get_context 0 v' = Inl ContextNotSetError"
  using sessions_unwind [of "\<lparr>cv_value = (\<lambda>_. None), cv_tokens = 0, cv_used = []\<rparr>" 0 "[1 :: nat, 2]"]
  by (auto simp: context_var_inv_def get_context_def)

text \<open>
  A session leaves only in the task that entered it, and only once: elsewhere the exit raises
  \<open>ValueError\<close>, a second time \<open>RuntimeError\<close>.
\<close>
theorem session_exit_refused:
  assumes "context_var_inv v" "session_enter c fresh ss v = (ss', v1)" "session_exit c ss' v1 = Inr v2" "d \<noteq> c"
  shows "session_exit d ss' v1 = Inl ValueError \<and> session_exit c ss' v2 = Inl RuntimeError"
  using assms by (auto simp: session_enter_def set_context_def session_exit_def reset_context_def
      context_var_inv_def split: if_splits)

theorem session_exit_refused_witness:
  "\<exists>ss v1 v2. session_enter 0 (7 :: nat) \<lparr>ss_context = None, ss_token = None\<rparr>
       \<lparr>cv_value = (\<lambda>_. None), cv_tokens = 0, cv_used = []\<rparr> = (ss, v1) \<and>
     session_exit 0 ss v1 = Inr v2 \<and> session_exit 1 ss v1 = Inl ValueError \<and> session_exit 0 ss v2 = Inl RuntimeError"
proof -
  let ?v = "\<lparr>cv_value = (\<lambda>_. None :: nat option), cv_tokens = 0, cv_used = []\<rparr>"
  obtain ss v1 where e: "session_enter 0 7 \<lparr>ss_context = None, ss_token = None\<rparr> ?v = (ss, v1)" by fastforce
  then obtain v2 where x: "session_exit 0 ss v1 = Inr v2"
    by (auto simp: session_enter_def set_context_def session_exit_def reset_context_def)
  have "context_var_inv ?v" by (simp add: context_var_inv_def)
  from session_exit_refused [OF this e x, of 1] e x show ?thesis by auto
qed

end
