(* ===== verification/Executor.thy ===== *)
theory Executor
  imports Runtime
begin

text \<open>
  The execution of engraved functions: \<open>_executor.py\<close>, the call wrapper of \<open>_domain.py\<close> and the
  metadata accessor of \<open>_context.py\<close>.

  The body of an engraved function is code of the application: a \<open>prog\<close>, a tree of what such code
  can ask of the library (call another engraved function, set or get metadata), whose continuations
  receive the outcome, an exception included, so a body may catch what a call raises. An environment
  holds everything the application hands to a session: the backend's client, the serializer, the
  canonicalizer, the event handlers and the engraved functions.

  A computation maps a state to an outcome and a state, or to \<open>None\<close> where the call depth \<open>n\<close> of
  \<open>call_n\<close> is used up. \<open>with_scope\<close> is \<open>async with\<close> on a transaction scope; the local variable
  \<open>func_exception\<close> of \<open>execute\<close> is the first component of its state. \<open>rt_commits\<close> is not a variable
  of the program: it lists the durable states the store went through, one of which a crash leaves.
\<close>

section \<open>Computations\<close>

type_synonym ('z, 'a) comp = "'z \<Rightarrow> ((exn + 'a) \<times> 'z) option"

definition return_c :: "'a \<Rightarrow> ('z, 'a) comp" where
  "return_c v = (\<lambda>s. Some (Inr v, s))"

definition lift_r :: "exn + 'a \<Rightarrow> ('z, 'a) comp" where
  "lift_r r = (\<lambda>s. Some (r, s))"

definition raise_c :: "exn \<Rightarrow> ('z, 'a) comp" where
  "raise_c e = lift_r (Inl e)"

definition bind_c :: "('z, 'a) comp \<Rightarrow> ('a \<Rightarrow> ('z, 'b) comp) \<Rightarrow> ('z, 'b) comp" where
  "bind_c m f = (\<lambda>s. case m s of
      None \<Rightarrow> None
    | Some (Inl e, s') \<Rightarrow> Some (Inl e, s')
    | Some (Inr v, s') \<Rightarrow> f v s')"

text \<open>\<open>try: m except BaseException as e: h e\<close> and \<open>try: m finally: fin\<close>.\<close>

definition catch_c :: "('z, 'a) comp \<Rightarrow> (exn \<Rightarrow> ('z, 'a) comp) \<Rightarrow> ('z, 'a) comp" where
  "catch_c m h = (\<lambda>s. case m s of
      None \<Rightarrow> None
    | Some (Inl e, s') \<Rightarrow> h e s'
    | Some (Inr v, s') \<Rightarrow> Some (Inr v, s'))"

definition finally_c :: "('z, 'a) comp \<Rightarrow> ('z \<Rightarrow> 'z) \<Rightarrow> ('z, 'a) comp" where
  "finally_c m fin = (\<lambda>s. case m s of None \<Rightarrow> None | Some (r, s') \<Rightarrow> Some (r, fin s'))"

text \<open>Going on with whatever the outcome was.\<close>

definition settle_c :: "('z, 'a) comp \<Rightarrow> (exn + 'a \<Rightarrow> ('z, 'b) comp) \<Rightarrow> ('z, 'b) comp" where
  "settle_c m k = (\<lambda>s. case m s of None \<Rightarrow> None | Some (r, s') \<Rightarrow> k r s')"

text \<open>A computation that depends on the state it starts in.\<close>

definition ask_c :: "('z \<Rightarrow> ('z, 'a) comp) \<Rightarrow> ('z, 'a) comp" where
  "ask_c f = (\<lambda>s. f s s)"

text \<open>A computation on the runtime inside a function with a local variable.\<close>

definition shared :: "('z, 'a) comp \<Rightarrow> ('l \<times> 'z, 'a) comp" where
  "shared m = (\<lambda>(l, s). case m s of None \<Rightarrow> None | Some (r, s') \<Rightarrow> Some (r, (l, s')))"

section \<open>Programs, environments and the runtime\<close>

datatype ('v, 't) prog =
    PReturn 'v
  | PRaise exn
  | PCall nat "'v list" "(pystr, 'v) dict" "exn + 'v \<Rightarrow> ('v, 't) prog"
  | PSetMetadata pystr 'v "'t option" "exn + unit \<Rightarrow> ('v, 't) prog"
  | PGetMetadata pystr 't "execution_id option" "exn + 'v option \<Rightarrow> ('v, 't) prog"

datatype event = ExecutionCompleted execution_id | ExecutionFailed execution_id exn

fun event_mro :: "event \<Rightarrow> py_class list" where
  "event_mro (ExecutionCompleted x) = [EventClass E_ExecutionCompleted, EventClass E_Event, OtherClass 0, OtherClass 1]"
| "event_mro (ExecutionFailed x e) = [EventClass E_ExecutionFailed, EventClass E_Event, OtherClass 0, OtherClass 1]"

record ('v, 't) engraved =
  ef_domain :: domain_id
  ef_version :: domain_version
  ef_definition :: "('v, 't) function_definition"
  ef_body :: "(pystr, 'v bound) dict \<Rightarrow> ('v, 't) prog"

record ('s, 'v, 't) env =
  en_client :: "'s client"
  en_session :: session_id
  en_task :: nat
  en_serialize :: "'v \<Rightarrow> 't \<Rightarrow> exn + bytes"
  en_deserialize :: "bytes \<Rightarrow> 't \<Rightarrow> exn + 'v"
  en_type_of :: "'v \<Rightarrow> 't"
  en_canonicalize :: "(pystr, 'v bound) dict \<Rightarrow> exn + canonical_arguments"
  en_handlers :: handler_map
  en_handle :: "nat \<Rightarrow> event \<Rightarrow> exn + unit"
  en_functions :: "nat \<Rightarrow> ('v, 't) engraved"

record 's runtime =
  rt_backend :: "'s backend"
  rt_sequencer :: sequencer
  rt_observed :: observed
  rt_stack :: "execution_id list"
  rt_log :: "(event \<times> nat list) list"
  rt_commits :: "'s list"

definition session_start :: "'s backend \<Rightarrow> 's runtime" where
  "session_start bk =
     \<lparr>rt_backend = bk, rt_sequencer = sequencer_init, rt_observed = [], rt_stack = [], rt_log = [], rt_commits = []\<rparr>"

section \<open>What the executor calls\<close>

definition get_execution :: "('s, 'v, 't) env \<Rightarrow> execution_id \<Rightarrow> ('s runtime, execution option) comp" where
  "get_execution E x = (\<lambda>rt. Some (repo_get (en_client E) (en_task E) (en_session E) x (rt_backend rt), rt))"

definition save_execution :: "('s, 'v, 't) env \<Rightarrow> execution \<Rightarrow> ('s runtime, unit) comp" where
  "save_execution E e = (\<lambda>rt.
     case repo_save (en_task E) (en_session E) e (rt_backend rt) of
       Inl x \<Rightarrow> Some (Inl x, rt)
     | Inr bk \<Rightarrow> Some (Inr (), rt\<lparr>rt_backend := bk\<rparr>))"

definition reset_children :: "execution_id \<Rightarrow> ('s runtime, unit) comp" where
  "reset_children x = (\<lambda>rt.
     case reset_for_call x (rt_sequencer rt) of (r, sq) \<Rightarrow> Some (r, rt\<lparr>rt_sequencer := sq\<rparr>))"

definition next_ordinal :: "sequence_scope \<Rightarrow> ('s runtime, int) comp" where
  "next_ordinal key = (\<lambda>rt.
     case sequencer_next key (rt_sequencer rt) of (seq, sq) \<Rightarrow> Some (Inr seq, rt\<lparr>rt_sequencer := sq\<rparr>))"

definition emit_to_handlers :: "('s, 'v, 't) env \<Rightarrow> event \<Rightarrow> ('s runtime, unit) comp" where
  "emit_to_handlers E ev = (\<lambda>rt.
     case emit_event (en_handlers E) (\<lambda>h. en_handle E h ev) (event_mro ev) of
       (called, r) \<Rightarrow> Some (r, rt\<lparr>rt_log := rt_log rt @ [(ev, called)]\<rparr>))"

definition ensure_domain :: "('s, 'v, 't) env \<Rightarrow> domain_id \<Rightarrow> domain_version \<Rightarrow> ('s runtime, unit) comp" where
  "ensure_domain E d v = (\<lambda>rt.
     case claims_ensure (en_client E) (en_session E) d v (rt_observed rt) (bk_store (rt_backend rt)) of
       (r, obs, s) \<Rightarrow>
         Some (r, rt\<lparr>rt_observed := obs, rt_backend := (rt_backend rt)\<lparr>bk_store := s\<rparr>,
                     rt_commits := rt_commits rt @ [s]\<rparr>))"

definition with_scope ::
  "('s, 'v, 't) env \<Rightarrow> ('l \<times> 's runtime, 'a) comp \<Rightarrow> ('l \<times> 's runtime, 'a) comp" where
  "with_scope E m = (\<lambda>(l, rt).
     case scope_enter (en_task E) scope_new (rt_backend rt) of
       (Inl x, _, bk) \<Rightarrow> Some (Inl x, (l, rt\<lparr>rt_backend := bk\<rparr>))
     | (Inr _, sc, bk) \<Rightarrow>
         (case m (l, rt\<lparr>rt_backend := bk\<rparr>) of
            None \<Rightarrow> None
          | Some (r, (l', rt')) \<Rightarrow>
              (case scope_exit (en_client E) (en_task E) (case r of Inl e \<Rightarrow> Some e | Inr _ \<Rightarrow> None) sc (rt_backend rt') of
                 (closed, _, bk') \<Rightarrow>
                   Some (bind_r closed (\<lambda>_. r),
                     (l', rt'\<lparr>rt_backend := bk', rt_commits := rt_commits rt' @ [bk_store bk']\<rparr>)))))"

section \<open>Metadata of the current execution\<close>

definition metadata_set ::
  "('s, 'v, 't) env \<Rightarrow> pystr \<Rightarrow> 'v \<Rightarrow> 't option \<Rightarrow> ('s runtime, unit) comp" where
  "metadata_set E key v value_type = ask_c (\<lambda>rt.
     case tracer_current (rt_stack rt) of
        None \<Rightarrow> raise_c NoCurrentExecutionError
      | Some x \<Rightarrow>
          bind_c (get_execution E x) (\<lambda>found.
            case found of
              None \<Rightarrow> raise_c LookupError
            | Some e \<Rightarrow>
                bind_c (lift_r (en_serialize E v (case value_type of None \<Rightarrow> en_type_of E v | Some t \<Rightarrow> t))) (\<lambda>b.
                  save_execution E (set_metadata key (SerializedValue b) e))))"

definition metadata_get ::
  "('s, 'v, 't) env \<Rightarrow> pystr \<Rightarrow> 't \<Rightarrow> execution_id option \<Rightarrow> ('s runtime, 'v option) comp" where
  "metadata_get E key t target = ask_c (\<lambda>rt.
     case (case target of Some x \<Rightarrow> Some x | None \<Rightarrow> tracer_current (rt_stack rt)) of
        None \<Rightarrow> raise_c NoCurrentExecutionError
      | Some x \<Rightarrow>
          bind_c (get_execution E x) (\<lambda>found.
            case found of
              None \<Rightarrow> return_c None
            | Some e \<Rightarrow>
                (case get_metadata key e of
                   None \<Rightarrow> return_c None
                 | Some m \<Rightarrow> lift_r (map_sum id Some (en_deserialize E (sv_data (md_value m)) t)))))"

section \<open>Execute\<close>

definition execute_body ::
  "('s, 'v, 't) env \<Rightarrow> execution_id \<Rightarrow> ('s runtime, 'v) comp \<Rightarrow> 't \<Rightarrow> (exn option \<times> 's runtime, 'v) comp" where
  "execute_body E x func return_type =
     bind_c
       (with_scope E
          (bind_c (catch_c (shared func)
                     (\<lambda>e (func_exception, rt).
                        Some (Inl e, (if is_instance e C_Exception then Some e else func_exception, rt)))) (\<lambda>result.
           bind_c (shared (get_execution E x)) (\<lambda>execution.
             case execution of
               None \<Rightarrow> raise_c LookupError
             | Some e \<Rightarrow>
                 bind_c (lift_r (en_serialize E result return_type)) (\<lambda>serialized.
                 bind_c (lift_r (execution_complete (SerializedValue serialized) e)) (\<lambda>completed.
                 bind_c (shared (save_execution E completed)) (\<lambda>_. return_c result)))))))
       (\<lambda>result. bind_c (shared (emit_to_handlers E (ExecutionCompleted x))) (\<lambda>_. return_c result))"

definition report_failure ::
  "('s, 'v, 't) env \<Rightarrow> execution_id \<Rightarrow> exn \<Rightarrow> (exn option \<times> 's runtime, 'v) comp" where
  "report_failure E x e = ask_c (\<lambda>(func_exception, rt).
     if is_instance e C_Exception
      then case func_exception of
             None \<Rightarrow> raise_c e
           | Some f \<Rightarrow> bind_c (shared (emit_to_handlers E (ExecutionFailed x f))) (\<lambda>_. raise_c e)
      else raise_c e)"

text \<open>\<open>tracer.start(x)\<close>, then \<open>try: m finally: tracer.end()\<close>.\<close>

definition within_call :: "execution_id \<Rightarrow> ('l \<times> 's runtime, 'a) comp \<Rightarrow> ('l \<times> 's runtime, 'a) comp" where
  "within_call x m = (\<lambda>(l, rt).
     finally_c m (\<lambda>(l, rt). (l, rt\<lparr>rt_stack := tracer_end (rt_stack rt)\<rparr>))
       (l, rt\<lparr>rt_stack := tracer_start x (rt_stack rt)\<rparr>))"

definition start_execution ::
  "('s, 'v, 't) env \<Rightarrow> execution_id \<Rightarrow> canonical_arguments \<Rightarrow> (exn option \<times> 's runtime, unit) comp" where
  "start_execution E x ca =
     with_scope E
       (bind_c (shared (reset_children x)) (\<lambda>_.
        bind_c (shared (get_execution E x)) (\<lambda>found.
          if found = None
          then bind_c (lift_r (execution_start x ca)) (\<lambda>e. shared (save_execution E e))
          else return_c ())))"

definition execute ::
  "('s, 'v, 't) env \<Rightarrow> execution_id \<Rightarrow> canonical_arguments \<Rightarrow> ('s runtime, 'v) comp \<Rightarrow> 't
     \<Rightarrow> (exn option \<times> 's runtime, 'v) comp" where
  "execute E x ca func return_type =
     bind_c (shared (get_execution E x)) (\<lambda>cached.
       case (case cached of Some e \<Rightarrow> if ex_status e = COMPLETED then Some e else None | None \<Rightarrow> None) of
         Some e \<Rightarrow>
           (case ex_result e of
              None \<Rightarrow> raise_c AssertionError
            | Some r \<Rightarrow> lift_r (en_deserialize E (sv_data r) return_type))
       | None \<Rightarrow>
           bind_c (start_execution E x ca) (\<lambda>_.
             within_call x (catch_c (execute_body E x func return_type) (report_failure E x))))"

section \<open>Calling an engraved function\<close>

definition resolve_call_identity ::
  "('s, 'v, 't) env \<Rightarrow> ('v, 't) engraved \<Rightarrow> 'v list \<Rightarrow> (pystr, 'v) dict
     \<Rightarrow> ('s runtime, execution_id \<times> canonical_arguments) comp" where
  "resolve_call_identity E f args kwargs = ask_c (\<lambda>rt.
     let parent = tracer_current (rt_stack rt) in
     bind_c (lift_r (bind_arguments (fd_signature (ef_definition f)) args kwargs)) (\<lambda>arguments.
     bind_c (lift_r (except_r (en_canonicalize E arguments) C_ArgumentCanonicalizationError
                       ArgumentCanonicalizationError)) (\<lambda>ca.
     bind_c (next_ordinal \<lparr>scope_parent = parent, scope_domain = ef_domain f,
               scope_name = fd_name (ef_definition f), scope_digest = ca_digest ca\<rparr>) (\<lambda>seq.
     bind_c (lift_r (mk_execution_id parent (ef_domain f) (fd_name (ef_definition f)) (SeqInt seq) (ca_digest ca)))
       (\<lambda>x. return_c (x, ca))))))"

text \<open>The wrapper \<open>engrave\<close> returns, with \<open>run\<close> for the call of the wrapped function.\<close>

definition engraved_call ::
  "('s, 'v, 't) env \<Rightarrow> (('v, 't) prog \<Rightarrow> ('s runtime, 'v) comp) \<Rightarrow> nat \<Rightarrow> 'v list \<Rightarrow> (pystr, 'v) dict
     \<Rightarrow> ('s runtime, 'v) comp" where
  "engraved_call E run i args kwargs =
     (let f = en_functions E i in
      bind_c (ensure_domain E (ef_domain f) (ef_version f)) (\<lambda>_.
      bind_c (resolve_call_identity E f args kwargs) (\<lambda>(x, ca) rt.
        map_option (map_prod id snd)
          (execute E x ca
             (bind_c (lift_r (bind_arguments (fd_signature (ef_definition f)) args kwargs)) (\<lambda>arguments.
                run (ef_body f arguments)))
             (fd_return (ef_definition f)) (None, rt)))))"

primrec run_prog ::
  "('s, 'v, 't) env \<Rightarrow> (nat \<Rightarrow> 'v list \<Rightarrow> (pystr, 'v) dict \<Rightarrow> ('s runtime, 'v) comp) \<Rightarrow> ('v, 't) prog
     \<Rightarrow> ('s runtime, 'v) comp" where
  "run_prog E call (PReturn v) = return_c v"
| "run_prog E call (PRaise e) = raise_c e"
| "run_prog E call (PCall i args kwargs k) = settle_c (call i args kwargs) (\<lambda>r. run_prog E call (k r))"
| "run_prog E call (PSetMetadata key v value_type k) =
     settle_c (metadata_set E key v value_type) (\<lambda>r. run_prog E call (k r))"
| "run_prog E call (PGetMetadata key t target k) =
     settle_c (metadata_get E key t target) (\<lambda>r. run_prog E call (k r))"

text \<open>Calls nested at most \<open>n\<close> deep.\<close>

primrec call_n ::
  "('s, 'v, 't) env \<Rightarrow> nat \<Rightarrow> nat \<Rightarrow> 'v list \<Rightarrow> (pystr, 'v) dict \<Rightarrow> ('s runtime, 'v) comp" where
  "call_n E 0 = (\<lambda>i args kwargs rt. None)"
| "call_n E (Suc n) = engraved_call E (run_prog E (call_n E n))"

section \<open>Stages and the call stack are given back\<close>

text \<open>
  \<open>staging_kept c X\<close>: in context \<open>c\<close> the open stage is the one it was, and of the stages there were
  nothing changed but the mutations of those in \<open>X\<close>.
\<close>

definition staging_kept :: "nat \<Rightarrow> nat set \<Rightarrow> staging \<Rightarrow> staging \<Rightarrow> bool" where
  "staging_kept c X s s' \<longleftrightarrow>
     staging_inv s' \<and> sg_contexts s' = sg_contexts s \<and> sg_open s' c = sg_open s c \<and>
     length (sg_stages s) \<le> length (sg_stages s') \<and>
     (\<forall>j < length (sg_stages s). map_of (sg_tokens s') j = map_of (sg_tokens s) j \<and>
        stage_closed j s' = stage_closed j s \<and> (j \<notin> X \<longrightarrow> sg_stages s' ! j = sg_stages s ! j))"

definition open_stages :: "nat \<Rightarrow> staging \<Rightarrow> nat set" where
  "open_stages c s = {j. sg_open s c = Some j}"

definition disciplined :: "nat \<Rightarrow> 's runtime \<Rightarrow> bool" where
  "disciplined c rt \<longleftrightarrow> staging_inv (bk_staging (rt_backend rt)) \<and> c < sg_contexts (bk_staging (rt_backend rt)) \<and>
     sequencer_inv (rt_sequencer rt)"

definition kept :: "nat \<Rightarrow> nat set \<Rightarrow> 's runtime \<Rightarrow> 's runtime \<Rightarrow> bool" where
  "kept c X rt rt' \<longleftrightarrow> rt_stack rt' = rt_stack rt \<and> sequencer_inv (rt_sequencer rt') \<and>
     staging_kept c X (bk_staging (rt_backend rt)) (bk_staging (rt_backend rt'))"

lemma staging_kept_refl: "staging_inv s \<Longrightarrow> staging_kept c X s s"
  by (simp add: staging_kept_def)

lemma staging_kept_trans: "staging_kept c X s s' \<Longrightarrow> staging_kept c X s' s'' \<Longrightarrow> staging_kept c X s s''"
  unfolding staging_kept_def by auto

lemma staging_kept_mono: "staging_kept c X s s' \<Longrightarrow> X \<subseteq> Y \<Longrightarrow> staging_kept c Y s s'"
  by (auto simp: staging_kept_def)

lemma kept_refl: "disciplined c rt \<Longrightarrow> kept c X rt rt"
  by (simp add: kept_def disciplined_def staging_kept_refl)

lemma kept_trans: "kept c X a b \<Longrightarrow> kept c X b d \<Longrightarrow> kept c X a d"
  by (auto simp: kept_def intro: staging_kept_trans)

lemma kept_mono: "kept c X a b \<Longrightarrow> X \<subseteq> Y \<Longrightarrow> kept c Y a b"
  by (auto simp: kept_def intro: staging_kept_mono)

lemma kept_disciplined: "disciplined c a \<Longrightarrow> kept c X a b \<Longrightarrow> disciplined c b"
  by (simp add: kept_def disciplined_def staging_kept_def)

lemma kept_open: "kept c X a b \<Longrightarrow> open_stages c (bk_staging (rt_backend b)) = open_stages c (bk_staging (rt_backend a))"
  by (simp add: kept_def staging_kept_def open_stages_def)

text \<open>A computation keeps the stages; with \<open>own\<close> it may write into the one that is open.\<close>

definition keeps :: "nat \<Rightarrow> bool \<Rightarrow> ('z \<Rightarrow> 's runtime) \<Rightarrow> ('z, 'a) comp \<Rightarrow> bool" where
  "keeps c own p m \<longleftrightarrow> (\<forall>z r z'. disciplined c (p z) \<longrightarrow> m z = Some (r, z') \<longrightarrow>
     kept c (if own then open_stages c (bk_staging (rt_backend (p z))) else {}) (p z) (p z'))"

named_theorems keeps_rules \<open>computations that keep the stages\<close>

lemma keepsI:
  "(\<And>z r z'. disciplined c (p z) \<Longrightarrow> m z = Some (r, z') \<Longrightarrow>
     kept c (if own then open_stages c (bk_staging (rt_backend (p z))) else {}) (p z) (p z')) \<Longrightarrow> keeps c own p m"
  by (simp add: keeps_def)

lemma keepsD:
  "keeps c own p m \<Longrightarrow> disciplined c (p z) \<Longrightarrow> m z = Some (r, z') \<Longrightarrow>
     kept c (if own then open_stages c (bk_staging (rt_backend (p z))) else {}) (p z) (p z')"
  by (simp add: keeps_def)

lemma keeps_weaken: "keeps c False p m \<Longrightarrow> keeps c own p m"
  unfolding keeps_def by (auto intro: kept_mono)

lemma keeps_ask [keeps_rules]: "(\<And>z. keeps c own p (f z)) \<Longrightarrow> keeps c own p (ask_c f)"
  by (auto simp: keeps_def ask_c_def)

lemma keeps_lift [keeps_rules]: "keeps c own p (lift_r r)"
  by (auto simp: keeps_def lift_r_def kept_refl)

lemma keeps_return [keeps_rules]: "keeps c own p (return_c v)"
  by (auto simp: keeps_def return_c_def kept_refl)

lemma keeps_raise [keeps_rules]: "keeps c own p (raise_c e)"
  by (simp add: raise_c_def keeps_lift)

lemma keeps_bind [keeps_rules]:
  assumes "keeps c own p m" "\<And>v. keeps c own p (f v)"
  shows "keeps c own p (bind_c m f)"
proof (rule keepsI)
  fix z r z' assume d: "disciplined c (p z)" and "bind_c m f z = Some (r, z')"
  then consider e where "m z = Some (Inl e, z')" | v z1 where "m z = Some (Inr v, z1)" "f v z1 = Some (r, z')"
    by (auto simp: bind_c_def split: option.splits sum.splits)
  then show "kept c (if own then open_stages c (bk_staging (rt_backend (p z))) else {}) (p z) (p z')"
  proof cases
    case 1
    then show ?thesis using keepsD [OF assms(1) d] by simp
  next
    case (2 v z1)
    note k = keepsD [OF assms(1) d 2(1)]
    from keepsD [OF assms(2) kept_disciplined [OF d k] 2(2)] k show ?thesis
      by (cases own) (auto simp: kept_open [OF k] intro: kept_trans)
  qed
qed

lemma keeps_catch [keeps_rules]:
  assumes "keeps c own p m" "\<And>e. keeps c own p (h e)"
  shows "keeps c own p (catch_c m h)"
proof (rule keepsI)
  fix z r z' assume d: "disciplined c (p z)" and "catch_c m h z = Some (r, z')"
  then consider v where "m z = Some (Inr v, z')" | e z1 where "m z = Some (Inl e, z1)" "h e z1 = Some (r, z')"
    by (auto simp: catch_c_def split: option.splits sum.splits)
  then show "kept c (if own then open_stages c (bk_staging (rt_backend (p z))) else {}) (p z) (p z')"
  proof cases
    case 1
    then show ?thesis using keepsD [OF assms(1) d] by simp
  next
    case (2 e z1)
    note k = keepsD [OF assms(1) d 2(1)]
    from keepsD [OF assms(2) kept_disciplined [OF d k] 2(2)] k show ?thesis
      by (cases own) (auto simp: kept_open [OF k] intro: kept_trans)
  qed
qed

lemma keeps_settle [keeps_rules]:
  assumes "keeps c own p m" "\<And>r. keeps c own p (k r)"
  shows "keeps c own p (settle_c m k)"
proof (rule keepsI)
  fix z r z' assume d: "disciplined c (p z)" and "settle_c m k z = Some (r, z')"
  then obtain q z1 where m: "m z = Some (q, z1)" and r: "k q z1 = Some (r, z')"
    by (auto simp: settle_c_def split: option.splits)
  note k1 = keepsD [OF assms(1) d m]
  from keepsD [OF assms(2) kept_disciplined [OF d k1] r] k1
  show "kept c (if own then open_stages c (bk_staging (rt_backend (p z))) else {}) (p z) (p z')"
    by (cases own) (auto simp: kept_open [OF k1] intro: kept_trans)
qed

lemma keeps_shared [keeps_rules]: "keeps c own (\<lambda>rt. rt) m \<Longrightarrow> keeps c own snd (shared m)"
  by (auto simp: keeps_def shared_def split: option.splits)

lemma keeps_get [keeps_rules]: "keeps c own (\<lambda>rt. rt) (get_execution E x)"
  by (auto simp: keeps_def get_execution_def kept_refl)

lemma keeps_emit [keeps_rules]: "keeps c own (\<lambda>rt. rt) (emit_to_handlers E ev)"
  by (auto simp: keeps_def emit_to_handlers_def kept_def disciplined_def staging_kept_refl split: prod.splits)

lemma keeps_ensure [keeps_rules]: "keeps c own (\<lambda>rt. rt) (ensure_domain E d v)"
  by (auto simp: keeps_def ensure_domain_def kept_def disciplined_def staging_kept_refl split: prod.splits)

lemma keeps_reset [keeps_rules]: "keeps c own (\<lambda>rt. rt) (reset_children x)"
proof (rule keepsI)
  fix rt :: "'s runtime" and r rt'
  assume d: "disciplined c rt" and r: "reset_children x rt = Some (r, rt')"
  obtain sq where "reset_for_call x (rt_sequencer rt) = (Inr (), sq)" "sequencer_inv sq"
    using reset_for_call_ok [of "rt_sequencer rt" x] d by (auto simp: disciplined_def)
  then show "kept c (if own then open_stages c (bk_staging (rt_backend rt)) else {}) rt rt'"
    using r d by (auto simp: reset_children_def kept_def disciplined_def staging_kept_refl)
qed

text \<open>A save goes into the open stage.\<close>

lemma save_staging_kept:
  assumes "staging_inv (bk_staging st)" "repo_save c sess e st = Inr st'"
  shows "staging_kept c (open_stages c (bk_staging st)) (bk_staging st) (bk_staging st')"
proof -
  let ?s = "bk_staging st"
  obtain i where i: "registry_open c ?s = Some i"
    and p: "stage_save i sess e ?s = Inr (bk_staging st')"
    using assms(2) by (auto simp: repo_save_def staging_require_current_def lift_staging_def result_simps split: option.splits)
  have o: "sg_open ?s c = Some i" "i < length (sg_stages ?s)" "\<not> stage_closed i ?s"
    using i assms(1) by (auto simp: registry_open_def staging_inv_def split: option.splits if_splits)
  have "staging_inv (bk_staging st')" using stage_put_inv [OF assms(1) o(2)] p by (simp add: stage_save_def)
  then show ?thesis
    using o stage_save_def [of i sess e ?s] p
    by (auto simp: staging_kept_def open_stages_def stage_put_def update_stage_def stage_closed_def
        nth_list_update dest!: sym [where t = "bk_staging st'"])
qed

lemma keeps_save:
  assumes "en_task E = c"
  shows "keeps c True (\<lambda>rt. rt) (save_execution E e)"
proof (rule keepsI)
  fix rt r rt'
  assume d: "disciplined c rt" and r: "save_execution E e rt = Some (r, rt')"
  show "kept c (if True then open_stages c (bk_staging (rt_backend rt)) else {}) rt rt'"
  proof (cases "repo_save c (en_session E) e (rt_backend rt)")
    case (Inl x)
    then show ?thesis using r d assms by (auto simp: save_execution_def kept_refl)
  next
    case (Inr bk)
    then show ?thesis
      using r d assms save_staging_kept [OF _ Inr] by (auto simp: save_execution_def kept_def disciplined_def)
  qed
qed

text \<open>Beginning a stage, work that keeps it, and closing it give the outer stages back.\<close>

lemma begin_kept:
  assumes "staging_inv (bk_staging st)" "c < sg_contexts (bk_staging st)" "tx_begin c st = (tx, st1)"
  obtains i where "tx = tx_new\<lparr>tx_stage := Some i\<rparr>" "i = length (sg_stages (bk_staging st))"
    "staging_inv (bk_staging st1)" "sg_contexts (bk_staging st1) = sg_contexts (bk_staging st)"
    "sg_open (bk_staging st1) c = Some i" "stage_is_open c i st1" "stage_snapshot i (bk_staging st1) = []"
    "map_of (sg_tokens (bk_staging st1)) i = Some (c, sg_open (bk_staging st) c)"
    "\<forall>j < i. sg_stages (bk_staging st1) ! j = sg_stages (bk_staging st) ! j \<and>
       map_of (sg_tokens (bk_staging st1)) j = map_of (sg_tokens (bk_staging st)) j"
    "bk_store st1 = bk_store st"
proof -
  obtain i where i: "tx = tx_new\<lparr>tx_stage := Some i\<rparr>" "stage_is_open c i st1" "stage_snapshot i (bk_staging st1) = []"
    "map_of (sg_tokens (bk_staging st1)) i = Some (c, sg_open (bk_staging st) c)"
    "sg_open (bk_staging st1) c = Some i" "bk_store st1 = bk_store st" "staging_inv (bk_staging st1)"
    "sg_contexts (bk_staging st1) = sg_contexts (bk_staging st)" "i = length (sg_stages (bk_staging st))"
    "\<forall>j < i. sg_stages (bk_staging st1) ! j = sg_stages (bk_staging st) ! j"
    using begin_open [OF assms] by blast
  moreover have "\<forall>j < i. map_of (sg_tokens (bk_staging st1)) j = map_of (sg_tokens (bk_staging st)) j"
    using assms(3) i(9) by (auto simp: tx_begin_def staging_begin_def registry_enter_def Let_def)
  ultimately show ?thesis using that by blast
qed

definition closed_stage :: "nat \<Rightarrow> nat \<Rightarrow> nat option \<Rightarrow> staging \<Rightarrow> staging" where
  "closed_stage c i old s =
     s\<lparr>sg_tokens := AList.delete i (sg_tokens s), sg_open := (sg_open s)(c := old),
       sg_stages := (sg_stages s)[i := (sg_stages s ! i)\<lparr>st_batch := Some (st_mutations (sg_stages s ! i))\<rparr>]\<rparr>"

lemma close_open_stage:
  "map_of (sg_tokens s) i = Some (c, old) \<Longrightarrow> sg_open s c = Some i \<Longrightarrow>
     stage_close c i s = (Inr (), closed_stage c i old s)"
  by (simp add: stage_close_def registry_leave_def update_stage_def closed_stage_def Let_def)

lemma closed_stage_simps [simp]:
  "i < length (sg_stages s) \<Longrightarrow> stage_get_batch i (closed_stage c i old s) = Inr (stage_snapshot i s)"
  "sg_open (closed_stage c i old s) c = old" "sg_contexts (closed_stage c i old s) = sg_contexts s"
  "length (sg_stages (closed_stage c i old s)) = length (sg_stages s)"
  by (simp_all add: closed_stage_def stage_get_batch_def stage_snapshot_def)

lemma closed_stage_kept:
  assumes "staging_inv s" "c < sg_contexts s" "staging_inv s1" "sg_contexts s1 = sg_contexts s"
    and "i = length (sg_stages s)" "sg_open s1 c = Some i" "map_of (sg_tokens s1) i = Some (c, sg_open s c)"
    and "\<forall>j < i. sg_stages s1 ! j = sg_stages s ! j \<and> map_of (sg_tokens s1) j = map_of (sg_tokens s) j"
    and "i < length (sg_stages s1)" "staging_kept c {i} s1 s2"
  shows "staging_kept c {} s (closed_stage c i (sg_open s c) s2)"
    and "stage_close c i s2 = (Inr (), closed_stage c i (sg_open s c) s2)"
    and "i < length (sg_stages s2)" "sg_open s2 c = Some i"
proof -
  have k: "staging_inv s2" "sg_contexts s2 = sg_contexts s1" "sg_open s2 c = Some i" "i < length (sg_stages s2)"
    "map_of (sg_tokens s2) i = Some (c, sg_open s c)"
    "\<forall>j < i. map_of (sg_tokens s2) j = map_of (sg_tokens s) j \<and> sg_stages s2 ! j = sg_stages s ! j"
    using assms by (auto simp: staging_kept_def)
  show close: "stage_close c i s2 = (Inr (), closed_stage c i (sg_open s c) s2)"
    by (rule close_open_stage [OF k(5,3)])
  have "staging_inv (closed_stage c i (sg_open s c) s2)"
    by (rule stage_close_inv [OF k(1) _ k(4) close]) (use assms(2,4) k(2) in simp)
  then show "staging_kept c {} s (closed_stage c i (sg_open s c) s2)"
    using k assms(4,5) by (auto simp: staging_kept_def closed_stage_def stage_closed_def)
  show "i < length (sg_stages s2)" "sg_open s2 c = Some i" by (fact k(4), fact k(3))
qed

lemma tx_commit_close:
  assumes "stage_close c i (bk_staging st) = (Inr (), s)"
  shows "tx_commit C c (tx_new\<lparr>tx_stage := Some i\<rparr>) st =
    (case bind_r (stage_get_batch i s) (\<lambda>b. cl_commit C b (bk_store st)) of
       Inl x \<Rightarrow> (Inl x, \<lparr>tx_stage = Some i, tx_closed = False\<rparr>\<lparr>tx_closed := True\<rparr>, st\<lparr>bk_staging := s\<rparr>)
     | Inr store \<Rightarrow> (Inr (), \<lparr>tx_stage = Some i, tx_closed = False\<rparr>\<lparr>tx_closed := True\<rparr>, st\<lparr>bk_staging := s, bk_store := store\<rparr>))"
  using assms by (simp add: tx_commit_def tx_new_def)

lemma tx_rollback_close:
  "stage_close c i (bk_staging st) = (Inr (), s) \<Longrightarrow>
     tx_rollback c (tx_new\<lparr>tx_stage := Some i\<rparr>) st =
       (Inr (), \<lparr>tx_stage = Some i, tx_closed = False\<rparr>\<lparr>tx_closed := True\<rparr>, st\<lparr>bk_staging := s\<rparr>)"
  by (simp add: tx_rollback_def tx_new_def)

lemma keeps_scope [keeps_rules]:
  assumes "en_task E = c" "keeps c True snd m"
  shows "keeps c own snd (with_scope E m)"
proof (rule keeps_weaken, rule keepsI)
  fix z r z' assume d: "disciplined c (snd z)" and run: "with_scope E m z = Some (r, z')"
  obtain l rt where z: "z = (l, rt)" by fastforce
  let ?st = "rt_backend rt"
  have st: "staging_inv (bk_staging ?st)" "c < sg_contexts (bk_staging ?st)"
    using d by (simp_all add: z disciplined_def)
  obtain tx bk where b: "tx_begin c ?st = (tx, bk)" by fastforce
  obtain i where i: "tx = tx_new\<lparr>tx_stage := Some i\<rparr>" "i = length (sg_stages (bk_staging ?st))"
    "staging_inv (bk_staging bk)" "sg_contexts (bk_staging bk) = sg_contexts (bk_staging ?st)"
    "sg_open (bk_staging bk) c = Some i" "stage_is_open c i bk"
    "map_of (sg_tokens (bk_staging bk)) i = Some (c, sg_open (bk_staging ?st) c)"
    "\<forall>j < i. sg_stages (bk_staging bk) ! j = sg_stages (bk_staging ?st) ! j \<and>
       map_of (sg_tokens (bk_staging bk)) j = map_of (sg_tokens (bk_staging ?st)) j"
    using begin_kept [OF st b] by metis
  have len: "i < length (sg_stages (bk_staging bk))" using i(6) by (simp add: stage_is_open_def)
  let ?rt1 = "rt\<lparr>rt_backend := bk\<rparr>"
  have d1: "disciplined c (snd (l, ?rt1))" using d i(3,4) by (simp add: z disciplined_def)
  obtain r1 l' rt2 where m: "m (l, ?rt1) = Some (r1, (l', rt2))"
    using run assms(1) by (auto simp: with_scope_def z scope_enter_new [OF b] split: option.splits)
  have k: "rt_stack rt2 = rt_stack rt" "sequencer_inv (rt_sequencer rt2)"
    "staging_kept c {i} (bk_staging bk) (bk_staging (rt_backend rt2))"
    using keepsD [OF assms(2) d1 m] i(5) by (auto simp: kept_def open_stages_def)
  note c = closed_stage_kept [OF st i(3,4,2,5,7,8) len k(3)]
  let ?s = "closed_stage c i (sg_open (bk_staging ?st) c) (bk_staging (rt_backend rt2))"
  have "bk_staging (rt_backend (snd z')) = ?s \<and> rt_stack (snd z') = rt_stack rt \<and>
      rt_sequencer (snd z') = rt_sequencer rt2"
    using run m assms(1) k(1)
    by (auto simp: with_scope_def z scope_enter_new [OF b] scope_exit_open i(1) tx_commit_close [OF c(2)]
        tx_rollback_close [OF c(2)] split: sum.splits option.splits if_splits prod.splits)
  then show "kept c (if False then open_stages c (bk_staging (rt_backend (snd z))) else {}) (snd z) (snd z')"
    using c(1) k(2) by (simp add: kept_def z)
qed

lemma keeps_note [keeps_rules]: "keeps c own snd (\<lambda>(l, rt). Some (r, (f l, rt)))"
  by (auto simp: keeps_def kept_refl)

lemma keeps_metadata_set [keeps_rules]:
  "en_task E = c \<Longrightarrow> keeps c True (\<lambda>rt. rt) (metadata_set E key v value_type)"
  unfolding metadata_set_def by (auto intro!: keeps_rules keeps_save split: option.split)

lemma keeps_metadata_get [keeps_rules]: "keeps c own (\<lambda>rt. rt) (metadata_get E key t target)"
  unfolding metadata_get_def by (auto intro!: keeps_rules split: option.split)

lemma keeps_report_failure [keeps_rules]: "keeps c own snd (report_failure E x e)"
  unfolding report_failure_def by (auto intro!: keeps_rules split: option.split)

lemma keeps_start_execution [keeps_rules]:
  "en_task E = c \<Longrightarrow> keeps c own snd (start_execution E x ca)"
  unfolding start_execution_def by (auto intro!: keeps_rules keeps_save)

lemma keeps_execute_body [keeps_rules]:
  "en_task E = c \<Longrightarrow> keeps c True (\<lambda>rt. rt) func \<Longrightarrow> keeps c own snd (execute_body E x func t)"
  unfolding execute_body_def by (auto intro!: keeps_rules keeps_save split: option.split)

text \<open>The body runs with its identity on the stack, which is taken off however it ends.\<close>

lemma keeps_within [keeps_rules]:
  assumes "keeps c own snd m"
  shows "keeps c own snd (within_call x m)"
proof (rule keepsI)
  fix z r z' assume d: "disciplined c (snd z)" and run: "within_call x m z = Some (r, z')"
  obtain l rt where z: "z = (l, rt)" by fastforce
  obtain l' rt' where m: "m (l, rt\<lparr>rt_stack := tracer_start x (rt_stack rt)\<rparr>) = Some (r, (l', rt'))"
    and z': "z' = (l', rt'\<lparr>rt_stack := tracer_end (rt_stack rt')\<rparr>)"
    using run by (auto simp: within_call_def z finally_c_def split: option.splits)
  have "disciplined c (snd (l, rt\<lparr>rt_stack := tracer_start x (rt_stack rt)\<rparr>))"
    using d by (simp add: z disciplined_def)
  from keepsD [OF assms this m]
  show "kept c (if own then open_stages c (bk_staging (rt_backend (snd z))) else {}) (snd z) (snd z')"
    by (auto simp: kept_def z z')
qed

lemma keeps_execute [keeps_rules]:
  "en_task E = c \<Longrightarrow> keeps c True (\<lambda>rt. rt) func \<Longrightarrow> keeps c own snd (execute E x ca func t)"
  unfolding execute_def by (auto intro!: keeps_rules split: option.split)

lemma keeps_next [keeps_rules]: "keeps c own (\<lambda>rt. rt) (next_ordinal key)"
proof (rule keepsI)
  fix rt r rt'
  assume d: "disciplined c rt" and run: "next_ordinal key rt = Some (r, rt')"
  then show "kept c (if own then open_stages c (bk_staging (rt_backend rt)) else {}) rt rt'"
    using sequencer_next_inv [of "rt_sequencer rt" key]
    by (auto simp: next_ordinal_def kept_def disciplined_def staging_kept_refl split: prod.splits)
qed

lemma keeps_resolve [keeps_rules]: "keeps c own (\<lambda>rt. rt) (resolve_call_identity E f args kwargs)"
  unfolding resolve_call_identity_def Let_def by (intro keeps_rules)

lemma keeps_frame [keeps_rules]:
  "keeps c own snd m \<Longrightarrow> keeps c own (\<lambda>rt. rt) (\<lambda>rt. map_option (map_prod id snd) (m (l, rt)))"
  by (force simp: keeps_def)

lemma keeps_engraved_call:
  assumes "en_task E = c" "\<And>prog. keeps c True (\<lambda>rt. rt) (run prog)"
  shows "keeps c own (\<lambda>rt. rt) (engraved_call E run i args kwargs)"
  unfolding engraved_call_def Let_def
  by (auto intro!: keeps_rules assms split: prod.split)

lemma keeps_run_prog:
  assumes "en_task E = c" "\<And>i args kwargs. keeps c False (\<lambda>rt. rt) (call i args kwargs)"
  shows "keeps c True (\<lambda>rt. rt) (run_prog E call prog)"
  by (induction prog) (auto intro!: keeps_rules assms(1) keeps_weaken [OF assms(2)])

lemma keeps_call_n: "en_task E = c \<Longrightarrow> keeps c False (\<lambda>rt. rt) (call_n E n i args kwargs)"
proof (induction n arbitrary: i args kwargs)
  case (Suc n)
  note IH = Suc.IH [OF Suc.prems]
  have "keeps c True (\<lambda>rt. rt) (run_prog E (call_n E n) prog)" for prog
    by (intro keeps_run_prog Suc.prems IH)
  then show ?case by (simp add: keeps_engraved_call [OF Suc.prems])
qed (simp add: keeps_def)

end
