(* ===== verification/Memory.thy ===== *)
theory Memory
  imports Transactions
begin

text \<open>
  The in-memory backend (\<open>store/_memory.py\<close>, \<open>store/_memory_client.py\<close>): committed snapshots in a
  dictionary keyed by session and execution, domain versions in another. It takes every valid
  execution with recordable arguments; the only thing it does not keep is the order of metadata.
\<close>

section \<open>The store\<close>

record memory =
  mem_data :: "(execution_key, execution_snapshot) dict"
  mem_versions :: "(pystr \<times> pystr, domain_version) dict"

definition memory_new :: memory where
  "memory_new = \<lparr>mem_data = [], mem_versions = []\<rparr>"

definition read_committed :: "execution_key \<Rightarrow> memory \<Rightarrow> execution_snapshot option" where
  "read_committed k s = map_of (mem_data s) k"

definition committed_for_session :: "session_id \<Rightarrow> memory \<Rightarrow> (execution_id, execution_snapshot) dict" where
  "committed_for_session sess s =
     map (\<lambda>(k, sn). (key_execution k, sn)) (filter (\<lambda>(k, sn). key_session k = sess) (mem_data s))"

definition mutation_value :: "mutation \<Rightarrow> execution_snapshot option" where
  "mutation_value m = (case m of SaveExecution sn \<Rightarrow> Some sn | DeleteExecution \<Rightarrow> None)"

definition memory_commit_mutations :: "batch \<Rightarrow> memory \<Rightarrow> memory" where
  "memory_commit_mutations b s = s\<lparr>mem_data := overlay mutation_value b (mem_data s)\<rparr>"

section \<open>Repository and claims\<close>

definition memory_read :: "session_id \<Rightarrow> execution_id \<Rightarrow> memory \<Rightarrow> exn + execution option" where
  "memory_read sess x s =
     (case read_committed (ExecutionKey sess x) s of
        None \<Rightarrow> Inr None
      | Some sn \<Rightarrow> bind_r (to_execution sn) (\<lambda>e. Inr (Some e)))"

definition memory_executions ::
  "session_id \<Rightarrow> execution_status option \<Rightarrow> execution_id option \<Rightarrow> batch \<Rightarrow> memory \<Rightarrow> exn + execution list" where
  "memory_executions sess status below staged s =
     bind_r (under_prefix below) (\<lambda>prefix.
     bind_r (paths_of_items (committed_for_session sess s)) (\<lambda>committed.
     bind_r (paths_of_items (session_batch sess staged)) (\<lambda>mutations.
       list_visible (\<lambda>path sn. to_execution sn) prefix status
         (overlay mutation_value mutations (dict_of committed)))))"

definition memory_claim_domain ::
  "session_id \<Rightarrow> domain_id \<Rightarrow> domain_version \<Rightarrow> memory \<Rightarrow> domain_version \<times> memory" where
  "memory_claim_domain sess d v s =
     (let (w, versions) = dict_setdefault (session_id_value sess, domain_id_value d) v (mem_versions s)
      in (w, s\<lparr>mem_versions := versions\<rparr>))"

definition memory_client :: "memory client" where
  "memory_client =
     \<lparr>cl_read = memory_read, cl_commit = (\<lambda>b s. Inr (memory_commit_mutations b s)),
      cl_list = memory_executions, cl_claim = (\<lambda>sess d v s. Inr (memory_claim_domain sess d v s))\<rparr>"

section \<open>Contract\<close>

definition stageable :: "execution \<Rightarrow> bool" where
  "stageable e \<longleftrightarrow> valid_execution e \<and> recordable (ex_arguments e)"

definition memory_inv :: "memory \<Rightarrow> bool" where
  "memory_inv s \<longleftrightarrow> batch_ok stageable (map (map_prod id SaveExecution) (mem_data s))"

lemma memory_inv_new: "memory_inv memory_new"
  by (simp add: memory_inv_def memory_new_def batch_ok_simps)

lemma memory_inv_keys: "memory_inv s \<Longrightarrow> distinct (map fst (mem_data s))"
  by (simp add: memory_inv_def batch_ok_def)

lemma memory_inv_item:
  assumes "memory_inv s" "(k, sn) \<in> set (mem_data s)"
  shows "session_ok (key_session k) \<and> storable_id (key_execution k) \<and>
    (\<exists>e. stageable e \<and> ex_id e = key_execution k \<and> sn = from_execution e)"
  using assms unfolding memory_inv_def batch_ok_def by fastforce

lemma stageable_to_execution: "stageable e \<Longrightarrow> to_execution (from_execution e) = Inr (sort_execution e)"
  by (simp add: stageable_def to_from_execution)

lemma memory_commit_inv:
  assumes "memory_inv s" "batch_ok stageable b"
  shows "memory_inv (memory_commit_mutations b s)"
proof -
  let ?d = "overlay mutation_value b (mem_data s)"
  have dist: "distinct (map fst ?d)" by (rule overlay_distinct [OF memory_inv_keys [OF assms(1)]])
  have b: "distinct (map fst b)" using assms(2) by (simp add: batch_ok_def)
  have "session_ok (key_session k) \<and> storable_id (key_execution k) \<and>
    (\<exists>e. stageable e \<and> ex_id e = key_execution k \<and> sn = from_execution e)" if "(k, sn) \<in> set ?d" for k sn
  proof -
    have m: "map_of ?d k = Some sn" using that dist by simp
    show ?thesis
    proof (cases "map_of b k")
      case None
      then have "map_of (mem_data s) k = Some sn" using m b by (simp add: map_of_overlay)
      then have "(k, sn) \<in> set (mem_data s)" by (rule map_of_SomeD)
      then show ?thesis by (rule memory_inv_item [OF assms(1)])
    next
      case (Some mu)
      then have "mu = SaveExecution sn" "(k, mu) \<in> set b"
        using m b by (auto simp: map_of_overlay mutation_value_def split: mutation.splits dest: map_of_SomeD)
      then show ?thesis using assms(2) by (fastforce simp: batch_ok_def)
    qed
  qed
  then show ?thesis
    using dist by (auto simp: memory_inv_def batch_ok_def memory_commit_mutations_def comp_def)
qed

lemma memory_read_visible:
  assumes "memory_inv s" "batch_ok stageable b"
  shows "visible memory_client sess x b s =
    (case (case map_of b (ExecutionKey sess x) of Some m \<Rightarrow> mutation_value m
           | None \<Rightarrow> map_of (mem_data s) (ExecutionKey sess x)) of
       None \<Rightarrow> Inr None | Some sn \<Rightarrow> map_sum id Some (to_execution sn))"
  by (auto simp: visible_def memory_client_def memory_read_def read_committed_def mutation_value_def bind_r_def
      map_sum_def split: option.split mutation.split sum.split)

lemma memory_list_ok:
  assumes inv: "memory_inv s" and b: "batch_ok stageable b" and sess: "session_ok sess"
    and below: "\<forall>u \<in> set_option below. storable_id u"
  shows "\<exists>es. memory_executions sess status below b s = Inr es \<and>
     listing_spec sort_execution (\<lambda>x. visible memory_client sess x b s) status below es"
proof -
  let ?com = "committed_for_session sess s" and ?mut = "session_batch sess b"
  have com_ok: "\<forall>(x, sn) \<in> set ?com. storable_id x"
    using memory_inv_item [OF inv] by (auto simp: committed_for_session_def)
  have mut_ok: "\<forall>(x, m) \<in> set ?mut. storable_id x"
    using b by (auto simp: session_batch_def batch_ok_def)
  have com_dist: "distinct (map fst ?com)"
    using distinct_session_items [OF memory_inv_keys [OF inv]] by (simp add: committed_for_session_def)
  have mut_dist: "distinct (map fst ?mut)"
    using distinct_session_items b by (auto simp: session_batch_def batch_ok_def)
  let ?vis = "overlay mutation_value (map (map_prod pc.path_of id) ?mut) (map (map_prod pc.path_of id) ?com)"
  have vis_dist: "distinct (map fst ?vis)"
    by (rule overlay_distinct [OF distinct_path_items [OF com_dist com_ok]])
  have vis: "map_of ?vis (pc.path_of x) =
      (case map_of b (ExecutionKey sess x) of Some m \<Rightarrow> mutation_value m
       | None \<Rightarrow> map_of (mem_data s) (ExecutionKey sess x))" if "storable_id x" for x
    unfolding map_of_overlay [OF distinct_path_items [OF mut_dist mut_ok]] map_of_path_items [OF com_ok that]
      map_of_path_items [OF mut_ok that]
    unfolding committed_for_session_def session_batch_def map_of_session_items
    by (simp split: option.split)
  have vis_key: "\<exists>x. storable_id x \<and> p = pc.path_of x" if "(p, sn) \<in> set ?vis" for p sn
  proof -
    have "map_of ?vis p = Some sn" using that vis_dist by simp
    then have "p \<in> fst ` set (map (map_prod pc.path_of id) ?mut) \<or> p \<in> fst ` set (map (map_prod pc.path_of id) ?com)"
      by (auto simp: map_of_overlay [OF distinct_path_items [OF mut_dist mut_ok]] split: option.splits
          dest!: map_of_SomeD) force+
    then show ?thesis using com_ok mut_ok by force
  qed
  have vis_val: "\<exists>e. stageable e \<and> ex_id e = x \<and> sn = from_execution e"
    if "storable_id x" "(pc.path_of x, sn) \<in> set ?vis" for x sn
  proof -
    have "(case map_of b (ExecutionKey sess x) of Some m \<Rightarrow> mutation_value m
       | None \<Rightarrow> map_of (mem_data s) (ExecutionKey sess x)) = Some sn"
      using vis [OF that(1)] that(2) vis_dist by simp
    then show ?thesis
      using batch_ok_SomeD [OF b, of sess x] memory_inv_item [OF inv]
      by (fastforce simp: mutation_value_def split: option.splits mutation.splits dest!: map_of_SomeD)
  qed
  have dec: "\<exists>e. to_execution sn = Inr e \<and> storable_id (ex_id e) \<and> p = pc.path_of (ex_id e)"
    if psn: "(p, sn) \<in> set ?vis" for p sn
  proof -
    obtain x where x: "storable_id x" "p = pc.path_of x" using vis_key [OF psn] by blast
    then obtain e where "stageable e" "ex_id e = x" "sn = from_execution e" using vis_val psn by blast
    then show ?thesis using x by (simp add: stageable_to_execution)
  qed
  obtain pre where pre: "under_prefix below = Inr pre" using under_prefix_total [OF below] by blast
  obtain es where es: "list_visible (\<lambda>path sn. to_execution sn) pre status ?vis = Inr es"
    "sorted_wrt (\<lambda>e f. pc.path_of (ex_id e) < pc.path_of (ex_id f)) es" "\<forall>e \<in> set es. storable_id (ex_id e)"
    "set es = {e. (\<exists>v. (pc.path_of (ex_id e), v) \<in> set ?vis \<and> to_execution v = Inr e) \<and>
                status_matches status e \<and> below_matches below (ex_id e)}"
    using list_visible_ok [where decode = "\<lambda>path sn. to_execution sn", OF vis_dist dec pre below] by blast
  have view: "(\<exists>v. (pc.path_of x, v) \<in> set ?vis \<and> to_execution v = Inr e) \<longleftrightarrow>
      visible memory_client sess x b s = Inr (Some e)" if "storable_id x" for x e
  proof -
    have "(pc.path_of x, v) \<in> set ?vis \<longleftrightarrow> (case map_of b (ExecutionKey sess x) of Some m \<Rightarrow> mutation_value m
       | None \<Rightarrow> map_of (mem_data s) (ExecutionKey sess x)) = Some v" for v
      using vis [OF that] vis_dist by (metis map_of_SomeD map_of_is_SomeI)
    then show ?thesis
      unfolding memory_read_visible [OF inv b] by (auto simp: map_sum_def split: option.splits sum.splits)
  qed
  have "memory_executions sess status below b s = Inr es"
    unfolding memory_executions_def pre paths_of_items_ok [OF com_ok] paths_of_items_ok [OF mut_ok] bind_r_simps
      dict_of_distinct [OF distinct_path_items [OF com_dist com_ok]]
    by (rule es(1))
  moreover have "set es = {e. storable_id (ex_id e) \<and> visible memory_client sess (ex_id e) b s = Inr (Some e) \<and>
      status_matches status e \<and> below_matches below (ex_id e)}"
    using es(3,4) view by blast
  ultimately show ?thesis using es(2,3) by (auto simp: listing_spec_def)
qed

definition memory_recorded :: "session_id \<Rightarrow> domain_id \<Rightarrow> memory \<Rightarrow> domain_version option" where
  "memory_recorded sess d s = map_of (mem_versions s) (session_id_value sess, domain_id_value d)"

lemma memory_client_simps [simp]:
  "cl_read memory_client = memory_read"
  "cl_commit memory_client = (\<lambda>b s. Inr (memory_commit_mutations b s))"
  "cl_list memory_client = memory_executions"
  "cl_claim memory_client = (\<lambda>sess d v s. Inr (memory_claim_domain sess d v s))"
  by (simp_all add: memory_client_def)

lemma memory_read_item:
  assumes "memory_inv s" "session_ok sess" "storable_id x"
  shows "(\<exists>e. memory_read sess x s = Inr (Some (sort_execution e)) \<and> stageable e \<and> ex_id e = x) \<or>
         memory_read sess x s = Inr None"
proof (cases "map_of (mem_data s) (ExecutionKey sess x)")
  case (Some sn)
  then obtain e where "stageable e" "ex_id e = x" "sn = from_execution e"
    using memory_inv_item [OF assms(1) map_of_SomeD [OF Some]] by auto
  with Some show ?thesis
    by (auto simp: memory_read_def read_committed_def stageable_to_execution)
qed (simp add: memory_read_def read_committed_def)

lemma stageable_sort [simp]: "stageable (sort_execution e) = stageable e"
  by (simp add: stageable_def)

lemma memory_read_commit:
  assumes inv: "memory_inv s" and b: "batch_ok stageable b" and sess: "session_ok sess" "storable_id x"
  shows "memory_read sess x (memory_commit_mutations b s) = map_sum id (map_option sort_execution) (visible memory_client sess x b s)"
proof (cases "map_of b (ExecutionKey sess x)")
  case None
  then have "memory_read sess x (memory_commit_mutations b s) = memory_read sess x s"
    using b by (simp add: memory_read_def read_committed_def memory_commit_mutations_def map_of_overlay batch_ok_def)
  then show ?thesis
    using memory_read_item [OF inv sess] None by (auto simp: visible_def)
next
  case (Some m)
  then have *: "memory_read sess x (memory_commit_mutations b s)
      = (case mutation_value m of None \<Rightarrow> Inr None | Some sn \<Rightarrow> bind_r (to_execution sn) (\<lambda>e. Inr (Some e)))"
    using b by (simp add: memory_read_def read_committed_def memory_commit_mutations_def map_of_overlay batch_ok_def)
  show ?thesis
  proof (cases m)
    case (SaveExecution sn)
    then obtain e where "stageable e" "sn = from_execution e" using batch_ok_SomeD [OF b] Some by blast
    then show ?thesis
      using * Some SaveExecution by (simp add: visible_def mutation_value_def stageable_to_execution)
  qed (use * Some in \<open>simp add: visible_def mutation_value_def\<close>)
qed

interpretation mem: store_contract memory_client memory_inv stageable sort_execution
proof
  fix s sess x assume a: "memory_inv s" "session_ok sess" "storable_id x"
  show "\<exists>r. cl_read memory_client sess x s = Inr r" using memory_read_item [OF a] by auto
  fix e assume "cl_read memory_client sess x s = Inr (Some e)"
  then show "ex_id e = x \<and> stageable e \<and> sort_execution e = e" using memory_read_item [OF a] by auto
next
  fix s b assume "memory_inv s" "batch_ok stageable b"
  then show "\<exists>s'. cl_commit memory_client b s = Inr s' \<and> memory_inv s'" by (simp add: memory_commit_inv)
next
  fix e assume "stageable e"
  then show "valid_execution e \<and> recordable (ex_arguments e)" by (simp add: stageable_def)
qed (auto simp: memory_read_commit)

interpretation mem: listing_store memory_client memory_inv stageable sort_execution
  by unfold_locales (simp add: memory_list_ok)

interpretation mem: claiming_store memory_client memory_inv stageable sort_execution memory_recorded "\<lambda>_. True"
proof
  fix s sess d v
  assume inv: "memory_inv s"
  let ?w = "case memory_recorded sess d s of None \<Rightarrow> v | Some w \<Rightarrow> w"
  let ?k = "(session_id_value sess, domain_id_value d)"
  let ?s = "snd (memory_claim_domain sess d v s)"
  have "memory_claim_domain sess d v s = (?w, ?s)"
    by (simp add: memory_claim_domain_def dict_setdefault_def memory_recorded_def split: option.split)
  moreover have "memory_inv ?s"
    using inv by (simp add: memory_claim_domain_def dict_setdefault_def memory_inv_def split: option.split)
  moreover have "memory_recorded sess' d' ?s = (if sess' = sess \<and> d' = d then Some ?w else memory_recorded sess' d' s)"
    for sess' d'
    by (cases sess; cases sess'; cases d; cases d')
      (auto simp: memory_claim_domain_def dict_setdefault_def memory_recorded_def split: option.split)
  moreover have "memory_read sess' x ?s = memory_read sess' x s" for sess' x
    by (simp add: memory_claim_domain_def dict_setdefault_def memory_read_def read_committed_def split: option.split)
  ultimately show "\<exists>s'. cl_claim memory_client sess d v s = Inr (?w, s') \<and> memory_inv s' \<and>
        (\<forall>sess' d'. session_ok sess' \<longrightarrow> valid_domain_id d' \<longrightarrow> memory_recorded sess' d' s' =
           (if sess' = sess \<and> d' = d then Some ?w else memory_recorded sess' d' s)) \<and>
        (\<forall>sess' x. session_ok sess' \<longrightarrow> storable_id x \<longrightarrow> cl_read memory_client sess' x s' = cl_read memory_client sess' x s)"
    by (intro exI [of _ ?s]) simp
qed (auto simp: memory_commit_mutations_def memory_recorded_def memory_claim_domain_def dict_setdefault_def)

section \<open>Properties\<close>

definition memory_backend_new :: "memory backend" where
  "memory_backend_new = \<lparr>bk_staging = staging_init, bk_store = memory_new\<rparr>"

text \<open>
  A commit of the in-memory backend is durable and exact: a transaction over any writes of
  valid executions commits, the enclosing stage is open again with what it had staged, and every
  execution reads as its last write left it or, untouched, as before.
\<close>
theorem memory_commit_durable:
  assumes "staging_inv (bk_staging st)" "c < sg_contexts (bk_staging st)" "tx_begin c st = (tx, st1)"
    and "run_writes c ws st1 = Inr st2" "memory_inv (bk_store st)"
    and "\<forall>w \<in> set ws. write_ok stageable w"
  shows "\<exists>tx' st3. tx_commit memory_client c tx st2 = (Inr (), tx', st3) \<and> tx_closed tx' \<and> memory_inv (bk_store st3) \<and>
     sg_open (bk_staging st3) c = sg_open (bk_staging st) c \<and> staged_items c st3 = staged_items c st \<and>
     (\<forall>sess x. session_ok sess \<longrightarrow> storable_id x \<longrightarrow>
        memory_read sess x (bk_store st3) =
          (case last_write ws (ExecutionKey sess x) of
             None \<Rightarrow> memory_read sess x (bk_store st)
           | Some DeleteExecution \<Rightarrow> Inr None
           | Some (SaveExecution sn) \<Rightarrow> map_sum id (\<lambda>e. Some (sort_execution e)) (to_execution sn)))"
  using mem.commit_visible [OF assms] unfolding memory_client_simps .

lemma sample_execution_stageable: "stageable sample_execution"
  using sample_execution_storable by (simp add: stageable_def storable_execution_def)

theorem memory_commit_durable_witness:
  "\<exists>tx st1 st2 tx' st3.
     tx_begin 0 memory_backend_new = (tx, st1) \<and>
     run_writes 0 [WSave sample_session sample_execution] st1 = Inr st2 \<and>
     tx_commit memory_client 0 tx st2 = (Inr (), tx', st3) \<and>
     memory_read sample_session sample_eid (bk_store st3) = Inr (Some sample_execution)"
proof -
  let ?st = memory_backend_new and ?ws = "[WSave sample_session sample_execution]"
  have new: "bk_staging ?st = staging_init" "bk_store ?st = memory_new" by (simp_all add: memory_backend_new_def)
  obtain tx st1 st2 where t: "staging_inv (bk_staging ?st)" "0 < sg_contexts (bk_staging ?st)" "tx_begin 0 ?st = (tx, st1)"
    "run_writes 0 ?ws st1 = Inr st2" using sample_transaction [OF new(1)] by auto
  have w: "\<forall>w \<in> set ?ws. write_ok stageable w" by (simp add: sample_execution_stageable)
  obtain tx' st3 where "tx_commit memory_client 0 tx st2 = (Inr (), tx', st3)"
    "\<forall>sess x. session_ok sess \<longrightarrow> storable_id x \<longrightarrow>
        memory_read sess x (bk_store st3) =
          (case last_write ?ws (ExecutionKey sess x) of
             None \<Rightarrow> memory_read sess x (bk_store ?st)
           | Some DeleteExecution \<Rightarrow> Inr None
           | Some (SaveExecution sn) \<Rightarrow> map_sum id (\<lambda>e. Some (sort_execution e)) (to_execution sn))"
    using memory_commit_durable [OF t _ w] memory_inv_new new(2) by auto
  moreover from this(2) have "memory_read sample_session sample_eid (bk_store st3) = Inr (Some (sort_execution sample_execution))"
    by (simp add: stageable_to_execution sample_execution_stageable)
  moreover have "sort_execution sample_execution = sample_execution"
    by (simp add: sort_execution_def sample_execution_def sort_items_def)
  ultimately show ?thesis using t(3,4) by auto
qed

text \<open>
  Read your own writes. Inside a transaction a read returns the last write of that
  transaction to the execution, a deleted execution as absent, and otherwise what is committed;
  nothing staged by an enclosing transaction shows through.
\<close>
theorem memory_read_own_writes:
  assumes "staging_inv (bk_staging st)" "c < sg_contexts (bk_staging st)" "tx_begin c st = (tx, st1)"
    and "run_writes c ws st1 = Inr st2"
  shows "repo_get memory_client c sess x st2 =
    (case last_write ws (ExecutionKey sess x) of
       None \<Rightarrow> memory_read sess x (bk_store st)
     | Some DeleteExecution \<Rightarrow> Inr None
     | Some (SaveExecution sn) \<Rightarrow> bind_r (to_execution sn) (\<lambda>e. Inr (Some e)))"
  using mem.read_own_writes [OF assms] unfolding memory_client_simps .

theorem memory_read_own_writes_witness:
  "\<exists>tx st1 st2. tx_begin 0 memory_backend_new = (tx, st1) \<and>
     run_writes 0 [WSave sample_session sample_execution] st1 = Inr st2 \<and>
     repo_get memory_client 0 sample_session sample_eid st2 = Inr (Some sample_execution)"
proof -
  let ?st = memory_backend_new and ?ws = "[WSave sample_session sample_execution]"
  obtain tx st1 st2 where t: "staging_inv (bk_staging ?st)" "0 < sg_contexts (bk_staging ?st)" "tx_begin 0 ?st = (tx, st1)"
    "run_writes 0 ?ws st1 = Inr st2" using sample_transaction [of ?st] by (auto simp: memory_backend_new_def)
  have "sort_execution sample_execution = sample_execution"
    by (simp add: sort_execution_def sample_execution_def sort_items_def)
  then have "repo_get memory_client 0 sample_session sample_eid st2 = Inr (Some sample_execution)"
    unfolding memory_read_own_writes [OF t] by (simp add: stageable_to_execution sample_execution_stageable)
  with t(3,4) show ?thesis by blast
qed

text \<open>
  C33: A rollback leaves no trace, on every backend: the committed state is untouched, and the stage
  that was open when the transaction began is open again with exactly what it had staged.
\<close>
theorem transaction_rollback:
  assumes "staging_inv (bk_staging st)" "c < sg_contexts (bk_staging st)" "tx_begin c st = (tx, st1)"
    and "run_writes c ws st1 = Inr st2"
  shows "\<exists>tx' st3. tx_rollback c tx st2 = (Inr (), tx', st3) \<and> bk_store st3 = bk_store st \<and>
     sg_open (bk_staging st3) c = sg_open (bk_staging st) c \<and> staged_items c st3 = staged_items c st"
  by (rule rollback_invisible [OF assms])

theorem transaction_rollback_witness:
  "\<exists>tx st1 st2 tx' st3. tx_begin 0 memory_backend_new = (tx, st1) \<and>
     run_writes 0 [WSave sample_session sample_execution] st1 = Inr st2 \<and>
     tx_rollback 0 tx st2 = (Inr (), tx', st3) \<and> bk_store st3 = memory_new"
proof -
  let ?st = memory_backend_new and ?ws = "[WSave sample_session sample_execution]"
  have new: "bk_staging ?st = staging_init" "bk_store ?st = memory_new" by (simp_all add: memory_backend_new_def)
  obtain tx st1 st2 where t: "staging_inv (bk_staging ?st)" "0 < sg_contexts (bk_staging ?st)" "tx_begin 0 ?st = (tx, st1)"
    "run_writes 0 ?ws st1 = Inr st2" using sample_transaction [OF new(1)] by auto
  from transaction_rollback [OF t] obtain tx' st3 where
    "tx_rollback 0 tx st2 = (Inr (), tx', st3)" "bk_store st3 = bk_store ?st" by blast
  with t(3,4) new(2) show ?thesis by auto
qed

end
