(* ===== verification/FileStore.thy ===== *)
theory FileStore
  imports Transactions
begin

text \<open>
  The JSON file backend (\<open>glyff_file_store\<close>: \<open>_file_client.py\<close>, \<open>_store.py\<close>, \<open>_transaction.py\<close>): one
  document for every session, read whole, changed, and replaced whole.

  The state is the directory: the bytes of the document, the temporary files in it, and how many
  attempts of a replacement the system refuses before it grants one (\<open>PermissionError\<close> on Windows); the
  loop that tries again is \<open>replace_sync\<close>. The document itself is a
  JSON value; \<open>modify\<close> is \<open>d.setdefault(k, {})\<close> followed by a change of what is there. Both
  locks make one operation atomic and are not part of the state.
\<close>

section \<open>The directory\<close>

record directory =
  fd_document :: "bytes option"
  fd_temps :: "bytes list"
  fd_denied :: nat

definition document_style :: json_style where
  "document_style = \<lparr>js_indent = Some [32, 32], js_ascii = False, js_nan = True\<rparr>"

definition read_document :: "directory \<Rightarrow> exn + json" where
  "read_document dir =
     (case fd_document dir of
        None \<Rightarrow> Inr (JObj [])
      | Some raw \<Rightarrow> bind_r (utf8_decode raw) (json_loads True))"

text \<open>
  Writing goes through a temporary: create, write, replace. \<open>os_replace n\<close> is the attempt numbered
  \<open>n\<close> of one replacement, of which the system refuses the first \<open>fd_denied\<close>; whether a later one
  would be refused again does not matter to the loop. The delays are in milliseconds.
\<close>

definition permission_retry_delays :: "nat list" where
  "permission_retry_delays = [10, 25, 50, 100, 200]"

definition os_replace :: "nat \<Rightarrow> bytes \<Rightarrow> directory \<Rightarrow> exn + directory" where
  "os_replace n source dir =
     (if n < fd_denied dir then Inl PermissionError
      else Inr (dir\<lparr>fd_document := Some source, fd_temps := remove1 source (fd_temps dir)\<rparr>))"

text \<open>
  \<open>_replace_sync\<close> over the delays still to come, with the delays slept. Running out of the list
  would leave the loop, and the method, without having replaced anything.
\<close>

fun replace_sync :: "nat option list \<Rightarrow> nat \<Rightarrow> bytes \<Rightarrow> directory \<Rightarrow> (exn + directory) \<times> nat list" where
  "replace_sync [] n source dir = (Inr dir, [])"
| "replace_sync (delay # delays) n source dir =
     (case os_replace n source dir of
        Inr dir' \<Rightarrow> (Inr dir', [])
      | Inl e \<Rightarrow>
          (case delay of
             None \<Rightarrow> (Inl e, [])
           | Some d \<Rightarrow> (case replace_sync delays (Suc n) source dir of (r, slept) \<Rightarrow> (r, d # slept))))"

text \<open>
  \<open>_write_document_sync\<close> from the encoded data on: its outcome, the directory it leaves, the delays
  slept. When the replacement fails the temporary is unlinked.
\<close>

definition write_data :: "bytes \<Rightarrow> directory \<Rightarrow> (exn + unit) \<times> directory \<times> nat list" where
  "write_data data dir =
     (let temp = dir\<lparr>fd_temps := data # fd_temps dir\<rparr> in
      case replace_sync (map Some permission_retry_delays @ [None]) 0 data temp of
        (Inr dir', slept) \<Rightarrow> (Inr (), dir', slept)
      | (Inl e, slept) \<Rightarrow> (Inl e, temp\<lparr>fd_temps := remove1 data (fd_temps temp)\<rparr>, slept))"

definition write_document :: "json \<Rightarrow> directory \<Rightarrow> exn + directory" where
  "write_document document dir =
     bind_r (bind_r (json_dumps document_style document) utf8_encode) (\<lambda>data.
       case write_data data dir of (r, dir', slept) \<Rightarrow> bind_r r (\<lambda>_. Inr dir'))"

section \<open>The document\<close>

definition k_format_version :: pystr where "k_format_version = str_of ''format_version''"
definition k_sessions :: pystr where "k_sessions = str_of ''sessions''"
definition k_domain_versions :: pystr where "k_domain_versions = str_of ''domain_versions''"
definition k_executions :: pystr where "k_executions = str_of ''executions''"

definition as_dict :: "exn \<Rightarrow> json \<Rightarrow> exn + (pystr, json) dict" where
  "as_dict e j = (case j of JObj d \<Rightarrow> Inr d | _ \<Rightarrow> Inl e)"

definition obj_get :: "pystr \<Rightarrow> json \<Rightarrow> exn + json" where
  "obj_get k j =
     bind_r (as_dict AttributeError j) (\<lambda>d. Inr (case map_of d k of None \<Rightarrow> JObj [] | Some v \<Rightarrow> v))"

definition modify :: "pystr \<Rightarrow> (json \<Rightarrow> exn + json) \<Rightarrow> json \<Rightarrow> exn + json" where
  "modify k f j =
     bind_r (as_dict AttributeError j) (\<lambda>d.
     bind_r (f (case map_of d k of None \<Rightarrow> JObj [] | Some v \<Rightarrow> v)) (\<lambda>v.
       Inr (JObj (AList.update k v d))))"

definition session_executions :: "json \<Rightarrow> pystr \<Rightarrow> exn + json" where
  "session_executions document sid =
     bind_r (obj_get k_sessions document) (\<lambda>sessions.
     bind_r (obj_get sid sessions) (\<lambda>session. obj_get k_executions session))"

definition read_committed_executions :: "pystr \<Rightarrow> directory \<Rightarrow> exn + (pystr, json) dict" where
  "read_committed_executions sid dir =
     bind_r (read_document dir) (\<lambda>document.
     bind_r (session_executions document sid) (as_dict TypeError))"

section \<open>Writes\<close>

text \<open>\<open>DocumentUpdate\<close>: the answer, the changed document, and whether it needs writing back.\<close>

text \<open>
  What a crash can leave behind while the document is written: the temporary with any part of the
  data, or the directory with the document replaced (or, all attempts refused, as it was).
\<close>

definition write_trace :: "bytes \<Rightarrow> directory \<Rightarrow> directory list" where
  "write_trace data dir =
     map (\<lambda>n. dir\<lparr>fd_temps := take n data # fd_temps dir\<rparr>) [0..<Suc (length data)] @
     [fst (snd (write_data data dir))]"

definition update_trace :: "(json \<Rightarrow> exn + 'a \<times> json \<times> bool) \<Rightarrow> directory \<Rightarrow> directory list" where
  "update_trace operation dir =
     dir # (case bind_r (read_document dir) (\<lambda>document.
              bind_r (operation document) (\<lambda>(result, document', changed).
                if changed then bind_r (bind_r (json_dumps document_style document') utf8_encode) (\<lambda>data. Inr (Some data))
                else Inr None)) of
              Inr (Some data) \<Rightarrow> write_trace data dir | _ \<Rightarrow> [])"

definition update_document ::
  "(json \<Rightarrow> exn + 'a \<times> json \<times> bool) \<Rightarrow> directory \<Rightarrow> exn + 'a \<times> directory" where
  "update_document operation dir =
     bind_r (read_document dir) (\<lambda>document.
     bind_r (operation document) (\<lambda>(result, document', changed).
       if changed then bind_r (write_document document' dir) (\<lambda>dir'. Inr (result, dir'))
       else Inr (result, dir)))"

definition stored_mutation :: "mutation \<Rightarrow> exn + json option" where
  "stored_mutation m =
     (case m of
        DeleteExecution \<Rightarrow> Inr None
      | SaveExecution sn \<Rightarrow>
          bind_r (to_execution sn) (\<lambda>e. bind_r (execution_to_dict e) (\<lambda>d. Inr (Some (JObj d)))))"

definition put_entry :: "pystr \<Rightarrow> json option \<Rightarrow> json \<Rightarrow> exn + json" where
  "put_entry p v executions =
     bind_r (as_dict TypeError executions) (\<lambda>d.
       Inr (JObj (case v of None \<Rightarrow> AList.delete p d | Some x \<Rightarrow> AList.update p x d)))"

definition file_apply_mutation :: "execution_key \<times> mutation \<Rightarrow> json \<Rightarrow> exn + json" where
  "file_apply_mutation km =
     modify k_sessions (modify (session_id_value (key_session (fst km))) (modify k_executions (\<lambda>executions.
       bind_r (execution_id_to_path (key_execution (fst km))) (\<lambda>p.
       bind_r (stored_mutation (snd km)) (\<lambda>v. put_entry p v executions)))))"

fun file_apply_all :: "batch \<Rightarrow> json \<Rightarrow> exn + json" where
  "file_apply_all [] document = Inr document"
| "file_apply_all (km # b) document = bind_r (file_apply_mutation km document) (file_apply_all b)"

definition commit_operation :: "batch \<Rightarrow> json \<Rightarrow> exn + unit \<times> json \<times> bool" where
  "commit_operation b document =
     bind_r (modify k_sessions Inr document) (\<lambda>document.
     bind_r (file_apply_all b document) (\<lambda>document. Inr ((), document, True)))"

definition file_commit_mutations :: "batch \<Rightarrow> directory \<Rightarrow> exn + directory" where
  "file_commit_mutations b dir =
     (if b = [] then Inr dir else map_sum id snd (update_document (commit_operation b) dir))"

definition file_claim ::
  "pystr \<Rightarrow> pystr \<Rightarrow> pystr \<Rightarrow> json \<Rightarrow> exn + json \<times> json \<times> bool" where
  "file_claim sid d v document =
     bind_r (obj_get k_sessions document) (\<lambda>sessions.
     bind_r (obj_get sid sessions) (\<lambda>session.
     bind_r (obj_get k_domain_versions session) (\<lambda>versions.
     bind_r (as_dict AttributeError versions) (\<lambda>recorded.
       case map_of recorded d of
         None \<Rightarrow> bind_r (modify k_sessions (modify sid (modify k_domain_versions (put_entry d (Some (JStr v))))) document)
                   (\<lambda>document. Inr (JStr v, document, True))
       | Some JNull \<Rightarrow> bind_r (modify k_sessions (modify sid (modify k_domain_versions (put_entry d (Some (JStr v))))) document)
                   (\<lambda>document. Inr (JStr v, document, True))
       | Some w \<Rightarrow> Inr (w, document, False)))))"

definition version_of_json :: "json \<Rightarrow> exn + domain_version" where
  "version_of_json j = (case j of JStr s \<Rightarrow> mk_domain_version s | _ \<Rightarrow> Inl ValueError)"

definition file_claim_domain ::
  "session_id \<Rightarrow> domain_id \<Rightarrow> domain_version \<Rightarrow> directory \<Rightarrow> exn + domain_version \<times> directory" where
  "file_claim_domain sess d v dir =
     bind_r (update_document (file_claim (session_id_value sess) (domain_id_value d) (domain_version_value v)) dir)
       (\<lambda>(w, dir'). bind_r (version_of_json w) (\<lambda>w. Inr (w, dir')))"

section \<open>Opening a store\<close>

definition file_format_version :: int where
  "file_format_version = 1"

text \<open>Python's \<open>==\<close> between a JSON value and an \<open>int\<close>.\<close>

definition json_equals_int :: "json \<Rightarrow> int \<Rightarrow> bool" where
  "json_equals_int j n =
     (case j of
        JInt i \<Rightarrow> i = n
      | JBool b \<Rightarrow> (if b then 1 else 0) = n
      | JFloat (FFin neg m e) \<Rightarrow>
          (let x = (if neg then - int m else int m)
           in if e \<ge> 0 then x * 2 ^ nat e = n else x = n * 2 ^ nat (- e))
      | _ \<Rightarrow> False)"

definition file_open :: "directory \<Rightarrow> exn + directory" where
  "file_open dir0 =
     (let dir = dir0\<lparr>fd_temps := []\<rparr>
      in bind_r (read_document dir) (\<lambda>document.
         bind_r (as_dict AttributeError document) (\<lambda>d.
           case map_of d k_format_version of
             None \<Rightarrow> write_document (JObj [(k_format_version, JInt file_format_version), (k_sessions, JObj [])]) dir
           | Some JNull \<Rightarrow> write_document (JObj [(k_format_version, JInt file_format_version), (k_sessions, JObj [])]) dir
           | Some stored \<Rightarrow>
               if json_equals_int stored file_format_version then Inr dir else Inl StoreFormatVersionError)))"

section \<open>Repository\<close>

definition file_read :: "session_id \<Rightarrow> execution_id \<Rightarrow> directory \<Rightarrow> exn + execution option" where
  "file_read sess x dir =
     bind_r (read_committed_executions (session_id_value sess) dir) (\<lambda>executions.
     bind_r (execution_id_to_path x) (\<lambda>p.
       case map_of executions p of
         None \<Rightarrow> Inr None
       | Some JNull \<Rightarrow> Inr None
       | Some stored \<Rightarrow>
           bind_r (as_dict TypeError stored) (\<lambda>d. bind_r (execution_from_dict x d) (\<lambda>e. Inr (Some e)))))"

definition file_executions ::
  "session_id \<Rightarrow> execution_status option \<Rightarrow> execution_id option \<Rightarrow> batch \<Rightarrow> directory \<Rightarrow> exn + execution list" where
  "file_executions sess status below staged dir =
     bind_r (under_prefix below) (\<lambda>prefix.
     bind_r (read_committed_executions (session_id_value sess) dir) (\<lambda>committed.
     bind_r (traverse (\<lambda>(x, m). bind_r (execution_id_to_path x) (\<lambda>p.
               bind_r (stored_mutation m) (\<lambda>v. Inr (p, v)))) (session_batch sess staged)) (\<lambda>mutations.
       list_visible (\<lambda>path stored.
           bind_r (path_to_execution_id path) (\<lambda>x.
           bind_r (as_dict TypeError stored) (execution_from_dict x)))
         prefix status (overlay id mutations committed))))"

definition file_client :: "directory client" where
  "file_client =
     \<lparr>cl_read = file_read, cl_commit = file_commit_mutations, cl_list = file_executions,
      cl_claim = file_claim_domain\<rparr>"

text \<open>The repository and the transactions of this backend, as the provider builds them.\<close>

definition file_get :: "nat \<Rightarrow> session_id \<Rightarrow> execution_id \<Rightarrow> directory backend \<Rightarrow> exn + execution option" where
  "file_get c sess x st = repo_get file_client c sess x st"

definition file_save :: "nat \<Rightarrow> session_id \<Rightarrow> execution \<Rightarrow> directory backend \<Rightarrow> exn + directory backend" where
  "file_save c sess e st = repo_save c sess e st"

definition file_delete_many :: "nat \<Rightarrow> session_id \<Rightarrow> execution_id list \<Rightarrow> directory backend \<Rightarrow> exn + directory backend" where
  "file_delete_many c sess xs st = repo_delete_many c sess xs st"

definition file_begin :: "nat \<Rightarrow> directory backend \<Rightarrow> transaction \<times> directory backend" where
  "file_begin c st = tx_begin c st"

definition file_commit ::
  "nat \<Rightarrow> transaction \<Rightarrow> directory backend \<Rightarrow> (exn + unit) \<times> transaction \<times> directory backend" where
  "file_commit c tx st = tx_commit file_client c tx st"

definition file_rollback ::
  "nat \<Rightarrow> transaction \<Rightarrow> directory backend \<Rightarrow> (exn + unit) \<times> transaction \<times> directory backend" where
  "file_rollback c tx st = tx_rollback c tx st"

section \<open>The shape of a document\<close>

definition obj_at :: "pystr \<Rightarrow> json \<Rightarrow> json option" where
  "obj_at k j = (case j of JObj d \<Rightarrow> map_of d k | _ \<Rightarrow> None)"

definition entry_ok :: "pystr \<Rightarrow> json \<Rightarrow> bool" where
  "entry_ok p v \<longleftrightarrow>
     (\<exists>e. storable_execution e \<and> storable_id (ex_id e) \<and> p = pc.path_of (ex_id e) \<and>
          sort_json v = JObj (sorted_dict e))"

definition version_entry_ok :: "pystr \<Rightarrow> json \<Rightarrow> bool" where
  "version_entry_ok d w \<longleftrightarrow> (\<exists>s. w = JStr s \<and> s \<noteq> [])"

definition object_of :: "(pystr \<Rightarrow> json \<Rightarrow> bool) \<Rightarrow> json \<Rightarrow> bool" where
  "object_of P j \<longleftrightarrow> (\<exists>d. j = JObj d \<and> (\<forall>k v. map_of d k = Some v \<longrightarrow> P k v))"

definition session_entry_ok :: "pystr \<Rightarrow> json \<Rightarrow> bool" where
  "session_entry_ok sid = object_of (\<lambda>k v.
     (k = k_executions \<longrightarrow> object_of entry_ok v) \<and>
     (k = k_domain_versions \<longrightarrow> object_of version_entry_ok v))"

definition document_ok :: "json \<Rightarrow> bool" where
  "document_ok = object_of (\<lambda>k v. k = k_sessions \<longrightarrow> object_of session_entry_ok v)"

definition writable :: "json \<Rightarrow> bool" where
  "writable j \<longleftrightarrow> json_ok True j \<and> json_scalar j"

lemma key_names_file [simp]:
  "k_executions \<noteq> k_domain_versions" "k_domain_versions \<noteq> k_executions"
  "k_format_version \<noteq> k_sessions" "k_sessions \<noteq> k_format_version"
  "scalar_str k_executions" "scalar_str k_domain_versions" "scalar_str k_sessions" "scalar_str k_format_version"
  by (simp_all add: k_executions_def k_domain_versions_def k_format_version_def k_sessions_def)

lemma ws_style_document [simp]: "ws_style document_style" "js_nan document_style"
  by (simp_all add: ws_style_def ws_indent_def document_style_def is_ws_def)

lemma writable_obj:
  "writable (JObj d) \<longleftrightarrow> distinct (map fst d) \<and> (\<forall>(k, v) \<in> set d. scalar_str k \<and> writable v)"
  by (auto simp: writable_def)

lemma writable_lookup:
  "writable (JObj d) \<longleftrightarrow>
     distinct (map fst d) \<and> (\<forall>k v. map_of d k = Some v \<longrightarrow> scalar_str k \<and> writable v)"
  unfolding writable_obj by (auto simp: map_of_eq_Some_iff)

lemma writable_sort [simp]: "writable (sort_json j) = writable j"
  by (simp add: writable_def sort_json_ok)

lemma obj_at_writable: "writable j \<Longrightarrow> obj_at k j = Some v \<Longrightarrow> writable v"
  by (cases j) (auto simp: obj_at_def writable_obj dest!: map_of_SomeD)

lemma obj_at_sort: "writable j \<Longrightarrow> obj_at k (sort_json j) = map_option sort_json (obj_at k j)"
  by (cases j) (simp_all add: obj_at_def writable_def map_of_sort_items map_of_map_prod_id)

lemma replace_sync_loop:
  "replace_sync (map Some delays @ [None]) n source dir =
     (if fd_denied dir \<le> n + length delays
      then (Inr (dir\<lparr>fd_document := Some source, fd_temps := remove1 source (fd_temps dir)\<rparr>), take (fd_denied dir - n) delays)
      else (Inl PermissionError, delays))"
proof (induction delays arbitrary: n)
  case (Cons d delays)
  show ?case
  proof (cases "n < fd_denied dir")
    case True
    then obtain m where m: "fd_denied dir = Suc (n + m)" using less_iff_Suc_add by auto
    show ?thesis by (simp add: os_replace_def Cons.IH m)
  qed (simp add: os_replace_def)
qed (auto simp: os_replace_def)

lemma write_data_eq:
  "write_data data dir =
     (if fd_denied dir \<le> length permission_retry_delays
      then (Inr (), dir\<lparr>fd_document := Some data\<rparr>, take (fd_denied dir) permission_retry_delays)
      else (Inl PermissionError, dir, permission_retry_delays))"
  by (simp add: write_data_def replace_sync_loop Let_def)

lemma write_data_result:
  "(case write_data data dir of (r, dir', slept) \<Rightarrow> bind_r r (\<lambda>_. Inr dir')) =
     (if fd_denied dir \<le> length permission_retry_delays then Inr (dir\<lparr>fd_document := Some data\<rparr>)
      else Inl PermissionError)"
  by (simp add: write_data_eq)

lemma write_then_read:
  assumes "writable j" "fd_denied dir \<le> length permission_retry_delays"
  shows "\<exists>dir'. write_document j dir = Inr dir' \<and> read_document dir' = Inr (sort_json j) \<and>
           fd_denied dir' = fd_denied dir"
proof -
  obtain t where t: "json_dumps document_style j = Inr t"
    using json_dump_total [of document_style j 0] assms(1) by (auto simp: json_dumps_def writable_def)
  have "scalar_str t"
    using json_dump_scalar [of document_style j 0 t] t assms(1) by (simp add: json_dumps_def writable_def)
  then obtain b where b: "utf8_encode t = Inr b" using utf8_encode_total by blast
  have "json_loads True t = Inr (sort_json j)"
    using json_roundtrip [of document_style j t] t assms(1) by (simp add: writable_def)
  then have "read_document (dir\<lparr>fd_document := Some b\<rparr>) = Inr (sort_json j)"
    using utf8_decode_encode [OF b] by (simp add: read_document_def)
  then show ?thesis
    using t b assms(2) by (intro exI [of _ "dir\<lparr>fd_document := Some b\<rparr>"]) (simp add: write_document_def write_data_result)
qed

subsection \<open>Sorting keeps the shape\<close>

lemma object_of_sort:
  assumes "object_of P j" "writable j" "\<And>k v. writable v \<Longrightarrow> P k v \<Longrightarrow> Q k (sort_json v)"
  shows "object_of Q (sort_json j)"
proof -
  obtain d where d: "j = JObj d" "\<And>k v. map_of d k = Some v \<Longrightarrow> P k v" using assms(1) by (auto simp: object_of_def)
  have "distinct (map fst d)" using assms(2) d(1) by (simp add: writable_def)
  then have "map_of (sort_items (map (map_prod id sort_json) d)) k = map_option sort_json (map_of d k)" for k
    by (simp add: map_of_sort_items map_of_map_prod_id)
  moreover have "Q k (sort_json v)" if "map_of d k = Some v" for k v
  proof -
    have "writable v" using assms(2) d(1) map_of_SomeD [OF that] by (auto simp: writable_obj)
    then show ?thesis using assms(3) d(2) [OF that] by blast
  qed
  ultimately show ?thesis by (auto simp: object_of_def d(1))
qed

lemma document_ok_sort: "document_ok j \<Longrightarrow> writable j \<Longrightarrow> document_ok (sort_json j)"
proof -
  have e: "entry_ok p (sort_json v)" if "entry_ok p v" for p v
    using that by (simp add: entry_ok_def)
  have w: "version_entry_ok p (sort_json v)" if "version_entry_ok p v" for p v
    using that by (auto simp: version_entry_ok_def)
  have "session_entry_ok sid (sort_json v)" if "writable v" "session_entry_ok sid v" for sid v
    using that(2,1) unfolding session_entry_ok_def
  proof (rule object_of_sort)
    fix k v assume v: "writable v" "(k = k_executions \<longrightarrow> object_of entry_ok v) \<and> (k = k_domain_versions \<longrightarrow> object_of version_entry_ok v)"
    then show "(k = k_executions \<longrightarrow> object_of entry_ok (sort_json v)) \<and>
        (k = k_domain_versions \<longrightarrow> object_of version_entry_ok (sort_json v))"
      using object_of_sort [of entry_ok v entry_ok, OF _ v(1) e] object_of_sort [of version_entry_ok v version_entry_ok, OF _ v(1) w]
      by blast
  qed
  then show "document_ok j \<Longrightarrow> writable j \<Longrightarrow> document_ok (sort_json j)"
    unfolding document_ok_def using object_of_sort [of session_entry_ok _ session_entry_ok]
    by (elim object_of_sort) blast+
qed

subsection \<open>Looking up and changing\<close>

definition execution_at :: "json \<Rightarrow> pystr \<Rightarrow> pystr \<Rightarrow> json option" where
  "execution_at j sid p =
     Option.bind (Option.bind (Option.bind (obj_at k_sessions j) (obj_at sid)) (obj_at k_executions)) (obj_at p)"

definition version_at :: "json \<Rightarrow> pystr \<Rightarrow> pystr \<Rightarrow> json option" where
  "version_at j sid d =
     Option.bind (Option.bind (Option.bind (obj_at k_sessions j) (obj_at sid)) (obj_at k_domain_versions)) (obj_at d)"

lemma bind_at_sort:
  "\<forall>v \<in> set_option m. writable v \<Longrightarrow>
     Option.bind (map_option sort_json m) (obj_at k) = map_option sort_json (Option.bind m (obj_at k)) \<and>
     (\<forall>v \<in> set_option (Option.bind m (obj_at k)). writable v)"
  by (cases m) (auto simp: obj_at_sort dest: obj_at_writable)

lemma at_sort:
  assumes "writable j"
  shows "execution_at (sort_json j) sid p = map_option sort_json (execution_at j sid p)"
    and "version_at (sort_json j) sid p = map_option sort_json (version_at j sid p)"
proof -
  have 1: "\<forall>v \<in> set_option (obj_at k_sessions j). writable v" using obj_at_writable [OF assms] by auto
  note 2 = bind_at_sort [OF 1, of sid]
  show "execution_at (sort_json j) sid p = map_option sort_json (execution_at j sid p)"
    unfolding execution_at_def obj_at_sort [OF assms]
    using 2 bind_at_sort [of _ k_executions] bind_at_sort [of _ p] by metis
  show "version_at (sort_json j) sid p = map_option sort_json (version_at j sid p)"
    unfolding version_at_def obj_at_sort [OF assms]
    using 2 bind_at_sort [of _ k_domain_versions] bind_at_sort [of _ p] by metis
qed

text \<open>
  \<open>modify k f\<close> on an object: \<open>f\<close> sees the value under \<open>k\<close> (or an empty object), everything else
  stays.
\<close>

lemma object_of_default: "object_of P j \<or> obj_at k j = None \<Longrightarrow> object_of P (JObj [])"
  by (simp add: object_of_def)

lemma modify_ok:
  assumes "object_of P j" "writable j" "scalar_str k"
    and f: "\<And>v. (obj_at k j = Some v \<or> obj_at k j = None \<and> v = JObj []) \<Longrightarrow>
        \<exists>v'. f v = Inr v' \<and> P k v' \<and> writable v' \<and> R v v'"
  shows "\<exists>j' v'. modify k f j = Inr j' \<and> object_of P j' \<and> writable j' \<and>
           R (case obj_at k j of None \<Rightarrow> JObj [] | Some v \<Rightarrow> v) v' \<and>
           (\<forall>k'. obj_at k' j' = (if k' = k then Some v' else obj_at k' j))"
proof -
  obtain d where d: "j = JObj d" "\<And>k v. map_of d k = Some v \<Longrightarrow> P k v" using assms(1) by (auto simp: object_of_def)
  let ?v = "case map_of d k of None \<Rightarrow> JObj [] | Some v \<Rightarrow> v"
  have "obj_at k j = Some ?v \<or> obj_at k j = None \<and> ?v = JObj []"
    by (cases "map_of d k") (simp_all add: obj_at_def d(1))
  then obtain v' where v': "f ?v = Inr v'" "P k v'" "writable v'" "R ?v v'"
    using f by blast
  have "writable (JObj (AList.update k v' d))"
    using assms(2,3) v'(3) by (simp add: writable_lookup d(1))
  then show ?thesis
    using v' d by (intro exI [of _ "JObj (AList.update k v' d)"] exI [of _ v'])
      (auto simp: modify_def as_dict_def object_of_def obj_at_def)
qed

abbreviation or_empty :: "json option \<Rightarrow> json" where
  "or_empty m \<equiv> (case m of None \<Rightarrow> JObj [] | Some v \<Rightarrow> v)"

lemma bind_or_empty: "Option.bind m (obj_at k) = obj_at k (or_empty m)"
  by (cases m) (simp_all add: obj_at_def)

lemma object_of_or_empty:
  "(\<forall>v \<in> set_option m. object_of P v) \<Longrightarrow> object_of P (or_empty m)"
  by (cases m) (simp_all add: object_of_def)

lemma writable_empty [simp]: "writable (JObj [])"
  by (simp add: writable_obj)

lemma put_entry_ok:
  assumes "object_of P j" "writable j" "\<forall>x \<in> set_option v. P p x \<and> writable x" "scalar_str p"
  shows "\<exists>j'. put_entry p v j = Inr j' \<and> object_of P j' \<and> writable j' \<and>
           (\<forall>p'. obj_at p' j' = (if p' = p then v else obj_at p' j))"
proof -
  obtain d where d: "j = JObj d" "\<And>k v. map_of d k = Some v \<Longrightarrow> P k v" using assms(1) by (auto simp: object_of_def)
  show ?thesis
  proof (cases v)
    case None
    then show ?thesis
      using assms(2) d by (auto simp: put_entry_def as_dict_def object_of_def obj_at_def writable_lookup)
  next
    case (Some x)
    then show ?thesis
      using assms(2,3,4) d by (auto simp: put_entry_def as_dict_def object_of_def obj_at_def writable_lookup)
  qed
qed

text \<open>A change under \<open>sessions / sid / section\<close>.\<close>

lemma modify_section:
  assumes "document_ok j" "writable j" "scalar_str sid" "section = k_executions \<and> P = entry_ok \<or> section = k_domain_versions \<and> P = version_entry_ok"
    and f: "\<And>v. object_of P v \<Longrightarrow> writable v \<Longrightarrow>
        \<exists>v'. f v = Inr v' \<and> object_of P v' \<and> writable v' \<and> (\<forall>p'. obj_at p' v' = (if p' = p then x else obj_at p' v))"
  shows "\<exists>j'. modify k_sessions (modify sid (modify section f)) j = Inr j' \<and> document_ok j' \<and> writable j' \<and>
    (\<forall>sid' p'. Option.bind (Option.bind (Option.bind (obj_at k_sessions j') (obj_at sid')) (obj_at section)) (obj_at p')
       = (if sid' = sid \<and> p' = p then x
          else Option.bind (Option.bind (Option.bind (obj_at k_sessions j) (obj_at sid')) (obj_at section)) (obj_at p'))) \<and>
    (\<forall>sid' k'. k' \<noteq> section \<longrightarrow>
       Option.bind (Option.bind (obj_at k_sessions j') (obj_at sid')) (obj_at k')
         = Option.bind (Option.bind (obj_at k_sessions j) (obj_at sid')) (obj_at k')) \<and>
    obj_at k_format_version j' = obj_at k_format_version j"
proof -
  define S where "S = (\<lambda>k v. (k = k_executions \<longrightarrow> object_of entry_ok v) \<and> (k = k_domain_versions \<longrightarrow> object_of version_entry_ok v))"
  have sec: "scalar_str section" using assms(4) by auto
  define R1 where "R1 = (\<lambda>v v'. \<forall>p'. obj_at p' v' = (if p' = p then x else obj_at p' v))"
  define R2 where "R2 = (\<lambda>v v'. (\<forall>p'. obj_at p' (or_empty (obj_at section v')) = (if p' = p then x else obj_at p' (or_empty (obj_at section v)))) \<and>
      (\<forall>k'. k' \<noteq> section \<longrightarrow> obj_at k' v' = obj_at k' v))"
  define R3 where "R3 = (\<lambda>v v'. (\<forall>sid'. sid' \<noteq> sid \<longrightarrow> obj_at sid' v' = obj_at sid' v) \<and>
      R2 (or_empty (obj_at sid v)) (or_empty (obj_at sid v')))"
  have step1: "\<exists>v'. modify section f v = Inr v' \<and> object_of S v' \<and> writable v' \<and> R2 v v'"
    if v: "object_of S v" "writable v" for v
  proof -
    have "\<exists>w'. f w = Inr w' \<and> S section w' \<and> writable w' \<and> R1 w w'"
      if w: "obj_at section v = Some w \<or> obj_at section v = None \<and> w = JObj []" for w
    proof -
      have "object_of P w"
        using w v(1) assms(4) by (auto simp: object_of_def obj_at_def S_def)
      moreover have "writable w" using w v(2) obj_at_writable by auto
      ultimately obtain w' where "f w = Inr w'" "object_of P w'" "writable w'" "R1 w w'"
        using f unfolding R1_def by blast
      then show ?thesis using assms(4) by (auto simp: S_def)
    qed
    from modify_ok [where f = f and R = R1, OF v sec this]
    obtain v' w' where "modify section f v = Inr v'" "object_of S v'" "writable v'" "R1 (or_empty (obj_at section v)) w'"
      "\<forall>k'. obj_at k' v' = (if k' = section then Some w' else obj_at k' v)" by blast
    then show ?thesis by (intro exI [of _ v']) (simp add: R2_def R1_def)
  qed
  have S: "session_entry_ok sid' = object_of S" for sid' by (simp add: session_entry_ok_def S_def)
  have step2: "\<exists>v'. modify sid (modify section f) v = Inr v' \<and> object_of session_entry_ok v' \<and> writable v' \<and> R3 v v'"
    if v: "object_of session_entry_ok v" "writable v" for v
  proof -
    have "\<exists>w'. modify section f w = Inr w' \<and> session_entry_ok sid w' \<and> writable w' \<and> R2 w w'"
      if w: "obj_at sid v = Some w \<or> obj_at sid v = None \<and> w = JObj []" for w
    proof -
      have "object_of S w" using w v(1) unfolding S by (auto simp: object_of_def obj_at_def)
      moreover have "writable w" using w v(2) obj_at_writable by auto
      ultimately show ?thesis using step1 unfolding S by blast
    qed
    from modify_ok [where f = "modify section f" and R = R2, OF v assms(3) this]
    obtain v' w' where "modify sid (modify section f) v = Inr v'" "object_of session_entry_ok v'" "writable v'"
      "R2 (or_empty (obj_at sid v)) w'" "\<forall>k'. obj_at k' v' = (if k' = sid then Some w' else obj_at k' v)" by blast
    then show ?thesis by (intro exI [of _ v']) (simp add: R3_def)
  qed
  have "\<exists>w'. modify sid (modify section f) w = Inr w' \<and> (k_sessions = k_sessions \<longrightarrow> object_of session_entry_ok w') \<and> writable w' \<and> R3 w w'"
    if w: "obj_at k_sessions j = Some w \<or> obj_at k_sessions j = None \<and> w = JObj []" for w
  proof -
    have "object_of session_entry_ok w" using w assms(1) by (auto simp: document_ok_def object_of_def obj_at_def)
    moreover have "writable w" using w assms(2) obj_at_writable by auto
    ultimately show ?thesis using step2 by blast
  qed
  from modify_ok [where f = "modify sid (modify section f)" and R = R3, OF assms(1) [unfolded document_ok_def] assms(2) key_names_file(7) this]
  obtain j' w' where j': "modify k_sessions (modify sid (modify section f)) j = Inr j'" "document_ok j'" "writable j'"
    "R3 (or_empty (obj_at k_sessions j)) w'" "\<forall>k'. obj_at k' j' = (if k' = k_sessions then Some w' else obj_at k' j)"
    unfolding document_ok_def by blast
  have w': "obj_at k_sessions j' = Some w'" using j'(5) by simp
  show ?thesis
  proof (intro exI [of _ j'] conjI allI impI j'(1,2,3))
    fix sid' p'
    show "Option.bind (Option.bind (Option.bind (obj_at k_sessions j') (obj_at sid')) (obj_at section)) (obj_at p')
       = (if sid' = sid \<and> p' = p then x
          else Option.bind (Option.bind (Option.bind (obj_at k_sessions j) (obj_at sid')) (obj_at section)) (obj_at p'))"
      unfolding bind_or_empty w' using j'(4) by (cases "sid' = sid") (simp_all add: R3_def R2_def)
  next
    fix sid' k' assume "k' \<noteq> section"
    then show "Option.bind (Option.bind (obj_at k_sessions j') (obj_at sid')) (obj_at k')
         = Option.bind (Option.bind (obj_at k_sessions j) (obj_at sid')) (obj_at k')"
      unfolding bind_or_empty w' using j'(4) by (cases "sid' = sid") (simp_all add: R3_def R2_def)
  next
    show "obj_at k_format_version j' = obj_at k_format_version j" using j'(5) by simp
  qed
qed

section \<open>Committing\<close>

lemma stored_dict_writable:
  assumes "storable_execution e"
  shows "writable (JObj (stored_dict e))"
proof -
  have j: "json_execution e" and r: "recordable (ex_arguments e)" and v: "valid_execution e"
    using assms by (simp_all add: storable_execution_def)
  obtain t where t: "utf8_encode t = Inr (ca_data (ex_arguments e))" "arguments_text e = t"
    by (rule recordable_text [OF r]) (simp add: arguments_text_def)
  have "writable (result_json e)"
    using json_executionD(1) [OF j] parsed_value_simps(2,3)
    by (cases "ex_result e") (auto simp: result_json_def writable_def)
  moreover have "writable (JObj (metadata_json e))"
    using json_executionD(2,3) [OF j] parsed_value_simps(2,3) v
    by (auto simp: metadata_json_def writable_obj writable_def valid_execution_def metadata_ok_def comp_def case_prod_unfold)
  moreover have "writable (JStr s) \<longleftrightarrow> scalar_str s" for s by (simp add: writable_def)
  moreover have "scalar_str k_arguments" "scalar_str k_status" "scalar_str k_result" "scalar_str k_metadata"
    by (simp_all add: k_arguments_def k_status_def k_result_def k_metadata_def)
  moreover have "scalar_str (status_name s)" for s by (cases s) (simp_all add: status_name_def)
  ultimately show ?thesis
    using t utf8_encode_scalar [OF t(1)] by (simp add: writable_obj stored_dict_def)
qed

definition mutation_json :: "mutation \<Rightarrow> json option" where
  "mutation_json m = (case stored_mutation m of Inr v \<Rightarrow> v | Inl _ \<Rightarrow> None)"

lemma stored_mutation_save:
  assumes "storable_execution e"
  shows "stored_mutation (SaveExecution (from_execution e)) = Inr (Some (JObj (stored_dict (sort_execution e))))"
  using assms by (simp add: stored_mutation_def to_from_execution_storable execution_to_dict_stored)

lemma stored_mutation_ok:
  assumes "case m of DeleteExecution \<Rightarrow> True
    | SaveExecution sn \<Rightarrow> \<exists>e. storable_execution e \<and> ex_id e = x \<and> sn = from_execution e" "storable_id x"
  shows "stored_mutation m = Inr (mutation_json m)"
    and "\<forall>v \<in> set_option (mutation_json m). entry_ok (pc.path_of x) v \<and> writable v"
proof -
  have "stored_mutation m = Inr (mutation_json m) \<and>
      (\<forall>v \<in> set_option (mutation_json m). entry_ok (pc.path_of x) v \<and> writable v)"
  proof (cases m)
    case (SaveExecution sn)
    then obtain e where e: "storable_execution e" "ex_id e = x" "sn = from_execution e" using assms(1) by auto
    have "entry_ok (pc.path_of x) (JObj (stored_dict (sort_execution e)))"
      using e assms(2) unfolding entry_ok_def sort_json_stored
      by (intro exI [of _ "sort_execution e"]) simp
    then show ?thesis
      using stored_mutation_save [OF e(1)] stored_dict_writable [of "sort_execution e"] e SaveExecution
      by (simp add: mutation_json_def)
  qed (simp add: mutation_json_def stored_mutation_def)
  then show "stored_mutation m = Inr (mutation_json m)"
    "\<forall>v \<in> set_option (mutation_json m). entry_ok (pc.path_of x) v \<and> writable v" by simp_all
qed

lemma scalar_path: "storable_id x \<Longrightarrow> scalar_str (pc.path_of x)"
  using path_scalar [OF pc.path_of_eq] by blast

lemma file_apply_mutation_ok:
  assumes "document_ok j" "writable j" "batch_ok storable_execution ((k, m) # b)"
  shows "\<exists>j'. file_apply_mutation (k, m) j = Inr j' \<and> document_ok j' \<and> writable j' \<and>
    (\<forall>sess x. storable_id x \<longrightarrow> execution_at j' (session_id_value sess) (pc.path_of x)
       = (if k = ExecutionKey sess x then mutation_json m
          else execution_at j (session_id_value sess) (pc.path_of x))) \<and>
    (\<forall>sid d. version_at j' sid d = version_at j sid d) \<and> obj_at k_format_version j' = obj_at k_format_version j"
proof -
  obtain ks kx where k: "k = ExecutionKey ks kx" by (cases k)
  have kx: "storable_id kx" and ks: "scalar_str (session_id_value ks)"
    and m: "case m of DeleteExecution \<Rightarrow> True
      | SaveExecution sn \<Rightarrow> \<exists>e. storable_execution e \<and> ex_id e = kx \<and> sn = from_execution e"
    using assms(3) k by (simp_all add: batch_ok_simps session_ok_def split: mutation.splits)
  let ?f = "\<lambda>executions. bind_r (execution_id_to_path kx) (\<lambda>p.
       bind_r (stored_mutation m) (\<lambda>v. put_entry p v executions))"
  have f: "?f v = put_entry (pc.path_of kx) (mutation_json m) v" for v
    by (simp add: pc.path_of_eq [OF kx] stored_mutation_ok(1) [OF m kx])
  have "\<exists>v'. ?f v = Inr v' \<and> object_of entry_ok v' \<and> writable v' \<and>
      (\<forall>p'. obj_at p' v' = (if p' = pc.path_of kx then mutation_json m else obj_at p' v))"
    if "object_of entry_ok v" "writable v" for v
    unfolding f by (rule put_entry_ok [OF that stored_mutation_ok(2) [OF m kx] scalar_path [OF kx]])
  from modify_section [OF assms(1,2) ks _ this, of k_executions]
  obtain j' where j': "modify k_sessions (modify (session_id_value ks) (modify k_executions ?f)) j = Inr j'"
    "document_ok j'" "writable j'"
    "\<forall>sid' p'. execution_at j' sid' p' = (if sid' = session_id_value ks \<and> p' = pc.path_of kx then mutation_json m else execution_at j sid' p')"
    "\<forall>sid' k'. k' \<noteq> k_executions \<longrightarrow>
       Option.bind (Option.bind (obj_at k_sessions j') (obj_at sid')) (obj_at k')
         = Option.bind (Option.bind (obj_at k_sessions j) (obj_at sid')) (obj_at k')"
    "obj_at k_format_version j' = obj_at k_format_version j"
    unfolding execution_at_def by auto
  have "file_apply_mutation (k, m) j = Inr j'"
    using j'(1) by (simp add: file_apply_mutation_def k)
  moreover have "(session_id_value sess = session_id_value ks \<and> pc.path_of x = pc.path_of kx) \<longleftrightarrow> k = ExecutionKey sess x"
    if "storable_id x" for sess x
    using pc.path_of_inj [OF that kx] by (cases sess; cases ks) (auto simp: k)
  moreover have "version_at j' sid d = version_at j sid d" for sid d
    using j'(5) by (simp add: version_at_def)
  ultimately show ?thesis using j'(2,3,4,6) by (intro exI [of _ j']) auto
qed

lemma file_apply_all_ok:
  assumes "document_ok j" "writable j" "batch_ok storable_execution b"
  shows "\<exists>j'. file_apply_all b j = Inr j' \<and> document_ok j' \<and> writable j' \<and>
    (\<forall>sess x. storable_id x \<longrightarrow> execution_at j' (session_id_value sess) (pc.path_of x)
       = (case map_of b (ExecutionKey sess x) of Some m \<Rightarrow> mutation_json m
          | None \<Rightarrow> execution_at j (session_id_value sess) (pc.path_of x))) \<and>
    (\<forall>sid d. version_at j' sid d = version_at j sid d) \<and> obj_at k_format_version j' = obj_at k_format_version j"
  using assms
proof (induction b arbitrary: j)
  case (Cons km b)
  obtain k m where km: "km = (k, m)" by fastforce
  obtain j1 where j1: "file_apply_mutation (k, m) j = Inr j1" "document_ok j1" "writable j1"
    "\<forall>sess x. storable_id x \<longrightarrow> execution_at j1 (session_id_value sess) (pc.path_of x)
       = (if k = ExecutionKey sess x then mutation_json m else execution_at j (session_id_value sess) (pc.path_of x))"
    "\<forall>sid d. version_at j1 sid d = version_at j sid d" "obj_at k_format_version j1 = obj_at k_format_version j"
    using file_apply_mutation_ok [OF Cons.prems(1,2), of k m b] Cons.prems(3) km by blast
  have b: "batch_ok storable_execution b" "map_of b k = None"
    using Cons.prems(3) km by (simp_all add: batch_ok_simps map_of_eq_None_iff)
  obtain j' where j': "file_apply_all b j1 = Inr j'" "document_ok j'" "writable j'"
    "\<forall>sess x. storable_id x \<longrightarrow> execution_at j' (session_id_value sess) (pc.path_of x)
       = (case map_of b (ExecutionKey sess x) of Some m \<Rightarrow> mutation_json m
          | None \<Rightarrow> execution_at j1 (session_id_value sess) (pc.path_of x))"
    "\<forall>sid d. version_at j' sid d = version_at j1 sid d" "obj_at k_format_version j' = obj_at k_format_version j1"
    using Cons.IH [OF j1(2,3) b(1)] by blast
  have "execution_at j' (session_id_value sess) (pc.path_of x)
       = (case map_of (km # b) (ExecutionKey sess x) of Some m \<Rightarrow> mutation_json m
          | None \<Rightarrow> execution_at j (session_id_value sess) (pc.path_of x))" if "storable_id x" for sess x
    using j'(4) j1(4) b(2) that km by (cases "k = ExecutionKey sess x") (simp_all split: option.split)
  then show ?case using j' j1 km by (intro exI [of _ j']) simp
qed simp

section \<open>The invariant of the directory\<close>

definition file_inv :: "directory \<Rightarrow> bool" where
  "file_inv dir \<longleftrightarrow> fd_denied dir \<le> length permission_retry_delays \<and>
     (\<exists>j. read_document dir = Inr j \<and> document_ok j \<and> writable j \<and> sort_json j = j \<and>
          obj_at k_format_version j = Some (JInt file_format_version))"

lemma file_invE:
  assumes "file_inv dir"
  obtains j where "read_document dir = Inr j" "document_ok j" "writable j" "sort_json j = j"
    "obj_at k_format_version j = Some (JInt file_format_version)" "fd_denied dir \<le> length permission_retry_delays"
  using assms by (auto simp: file_inv_def)

lemma obj_get_object: "object_of P j \<Longrightarrow> obj_get k j = Inr (or_empty (obj_at k j))"
  by (auto simp: object_of_def obj_get_def obj_at_def as_dict_def)

lemma document_section:
  assumes "document_ok j" "writable j" "section = k_executions \<and> P = entry_ok \<or> section = k_domain_versions \<and> P = version_entry_ok"
    and "S = or_empty (obj_at k_sessions j)" "T = or_empty (obj_at sid S)" "V = or_empty (obj_at section T)"
  shows "obj_get k_sessions j = Inr S \<and> obj_get sid S = Inr T \<and> obj_get section T = Inr V \<and>
    object_of P V \<and> writable V"
proof -
  have S: "object_of session_entry_ok S" "writable S"
    using assms(1) obj_at_writable [OF assms(2)] unfolding assms(4) document_ok_def
    by (auto simp: object_of_def obj_at_def split: option.splits)
  have T: "session_entry_ok sid T" "writable T"
    using S obj_at_writable [OF S(2)] unfolding assms(5)
    by (auto simp: object_of_def obj_at_def session_entry_ok_def split: option.splits)
  have "obj_get k_sessions j = Inr S" using assms(1) unfolding assms(4) document_ok_def by (rule obj_get_object)
  moreover have "obj_get sid S = Inr T" using S(1) unfolding assms(5) by (rule obj_get_object)
  moreover have "obj_get section T = Inr V"
    using T(1) unfolding session_entry_ok_def assms(6) by (rule obj_get_object)
  moreover have "object_of P V" "writable V"
    using T assms(3) obj_at_writable [OF T(2)] unfolding assms(6)
    by (auto simp: object_of_def obj_at_def session_entry_ok_def split: option.splits)
  ultimately show ?thesis by blast
qed

lemma read_committed_ok:
  assumes "read_document dir = Inr j" "document_ok j" "writable j"
  shows "\<exists>E. read_committed_executions sid dir = Inr E \<and> distinct (map fst E) \<and>
           (\<forall>p. map_of E p = execution_at j sid p) \<and> (\<forall>(p, v) \<in> set E. entry_ok p v)"
proof -
  let ?S = "or_empty (obj_at k_sessions j)" let ?T = "or_empty (obj_at sid ?S)" let ?V = "or_empty (obj_at k_executions ?T)"
  have d: "obj_get k_sessions j = Inr ?S \<and> obj_get sid ?S = Inr ?T \<and> obj_get k_executions ?T = Inr ?V \<and>
    object_of entry_ok ?V \<and> writable ?V"
    by (rule document_section [OF assms(2,3)]) simp_all
  then obtain E where E: "?V = JObj E"
    "\<forall>p v. map_of E p = Some v \<longrightarrow> entry_ok p v" "distinct (map fst E)"
    by (auto simp: object_of_def writable_obj)
  have "read_committed_executions sid dir = Inr E"
    using assms(1) d E(1) by (simp add: read_committed_executions_def session_executions_def as_dict_def)
  moreover have "map_of E p = execution_at j sid p" for p
    unfolding execution_at_def bind_or_empty E(1) by (simp add: obj_at_def)
  moreover have "\<forall>(p, v) \<in> set E. entry_ok p v"
    using E(2,3) map_of_is_SomeI by fastforce
  ultimately show ?thesis using E(3) by blast
qed

lemma entry_decode:
  assumes "storable_id x" "entry_ok (pc.path_of x) v"
  obtains e where "storable_execution e" "ex_id e = x" "sort_json v = JObj (sorted_dict e)"
  using assms pc.path_of_inj unfolding entry_ok_def by metis

lemma file_read_at:
  assumes "read_document dir = Inr j" "document_ok j" "writable j" "sort_json j = j" "storable_id x"
  shows "(execution_at j (session_id_value sess) (pc.path_of x) = None \<and> file_read sess x dir = Inr None) \<or>
    (\<exists>e. execution_at j (session_id_value sess) (pc.path_of x) = Some (JObj (sorted_dict e)) \<and>
         storable_execution e \<and> ex_id e = x \<and> file_read sess x dir = Inr (Some (normal_execution e)))"
proof -
  obtain E where E: "read_committed_executions (session_id_value sess) dir = Inr E"
    "\<forall>p. map_of E p = execution_at j (session_id_value sess) p" "\<forall>(p, v) \<in> set E. entry_ok p v"
    using read_committed_ok [OF assms(1-3)] by blast
  show ?thesis
  proof (cases "execution_at j (session_id_value sess) (pc.path_of x)")
    case None
    then show ?thesis using E by (simp add: file_read_def pc.path_of_eq [OF assms(5)])
  next
    case (Some v)
    then have m: "map_of E (pc.path_of x) = Some v" using E(2) by simp
    then have "entry_ok (pc.path_of x) v" using E(3) by (auto dest: map_of_SomeD)
    then obtain e where e: "storable_execution e" "ex_id e = x" "sort_json v = JObj (sorted_dict e)"
      using entry_decode [OF assms(5)] by blast
    have "sort_json v = v"
      using at_sort(1) [OF assms(3), of "session_id_value sess" "pc.path_of x"] assms(4) Some by simp
    then have "v = JObj (sorted_dict e)" using e(3) by simp
    then show ?thesis
      using e m E(1) Some execution_from_sorted_dict [OF e(1)]
      by (auto simp: file_read_def pc.path_of_eq [OF assms(5)] as_dict_def)
  qed
qed

lemma file_read_some:
  assumes "read_document dir = Inr j" "document_ok j" "writable j" "sort_json j = j" "storable_id x"
    and "execution_at j (session_id_value sess) (pc.path_of x) = Some v"
  obtains e where "v = JObj (sorted_dict e)" "storable_execution e" "ex_id e = x"
    "file_read sess x dir = Inr (Some (normal_execution e))"
  using file_read_at [OF assms(1-5), of sess] unfolding assms(6) option.inject by blast

lemma file_read_none:
  assumes "read_document dir = Inr j" "document_ok j" "writable j" "sort_json j = j" "storable_id x"
    and "execution_at j (session_id_value sess) (pc.path_of x) = None"
  shows "file_read sess x dir = Inr None"
  using file_read_at [OF assms(1-5), of sess] unfolding assms(6) by blast

lemma update_document_ok:
  assumes "file_inv dir" "read_document dir = Inr j" "operation j = Inr (r, j', True)" "document_ok j'" "writable j'"
    and "obj_at k_format_version j' = obj_at k_format_version j"
  shows "\<exists>dir'. update_document operation dir = Inr (r, dir') \<and> read_document dir' = Inr (sort_json j') \<and> file_inv dir'"
proof -
  have "fd_denied dir \<le> length permission_retry_delays" using assms(1) by (simp add: file_inv_def)
  from write_then_read [OF assms(5) this] obtain dir' where
    d: "write_document j' dir = Inr dir'" "read_document dir' = Inr (sort_json j')" "fd_denied dir' = fd_denied dir" by blast
  have "file_inv dir'"
    using d assms(1,2,6) document_ok_sort [OF assms(4,5)] assms(5) by (simp add: file_inv_def obj_at_sort)
  with d assms(2,3) show ?thesis by (simp add: update_document_def)
qed

lemma file_commit_ok:
  assumes "file_inv dir" "read_document dir = Inr j" "document_ok j" "writable j" "sort_json j = j"
    and "batch_ok storable_execution b"
  shows "\<exists>dir' j'. file_commit_mutations b dir = Inr dir' \<and> file_inv dir' \<and> read_document dir' = Inr j' \<and>
    document_ok j' \<and> writable j' \<and> sort_json j' = j' \<and>
    (\<forall>sess x. storable_id x \<longrightarrow> execution_at j' (session_id_value sess) (pc.path_of x)
       = (case map_of b (ExecutionKey sess x) of Some m \<Rightarrow> map_option sort_json (mutation_json m)
          | None \<Rightarrow> execution_at j (session_id_value sess) (pc.path_of x))) \<and>
    (\<forall>sid d. version_at j' sid d = version_at j sid d)"
proof (cases "b = []")
  case True
  then show ?thesis using assms by (simp add: file_commit_mutations_def)
next
  case False
  obtain j0 v0 where j0: "modify k_sessions Inr j = Inr j0" "document_ok j0" "writable j0" "v0 = or_empty (obj_at k_sessions j)"
    "\<forall>k'. obj_at k' j0 = (if k' = k_sessions then Some v0 else obj_at k' j)"
  proof -
    have "\<exists>v'. Inr v = (Inr v' :: exn + json) \<and> (k_sessions = k_sessions \<longrightarrow> object_of session_entry_ok v') \<and> writable v' \<and> v = v'"
      if "obj_at k_sessions j = Some v \<or> obj_at k_sessions j = None \<and> v = JObj []" for v
      using that assms(3) obj_at_writable [OF assms(4)]
      by (auto simp: document_ok_def object_of_def obj_at_def)
    from modify_ok [where f = Inr and R = "(=)", OF assms(3) [unfolded document_ok_def] assms(4) key_names_file(7) this]
    show ?thesis using that unfolding document_ok_def by metis
  qed
  have same: "execution_at j0 sid p = execution_at j sid p" "version_at j0 sid p = version_at j sid p" for sid p
    using j0(4,5) unfolding execution_at_def version_at_def bind_or_empty by simp_all
  obtain j1 where j1: "file_apply_all b j0 = Inr j1" "document_ok j1" "writable j1"
    "\<forall>sess x. storable_id x \<longrightarrow> execution_at j1 (session_id_value sess) (pc.path_of x)
       = (case map_of b (ExecutionKey sess x) of Some m \<Rightarrow> mutation_json m
          | None \<Rightarrow> execution_at j0 (session_id_value sess) (pc.path_of x))"
    "\<forall>sid d. version_at j1 sid d = version_at j0 sid d" "obj_at k_format_version j1 = obj_at k_format_version j0"
    using file_apply_all_ok [OF j0(2,3) assms(6)] by blast
  let ?op = "commit_operation b"
  have fv: "obj_at k_format_version j1 = obj_at k_format_version j" using j1(6) j0(5) by simp
  have "?op j = Inr ((), j1, True)" using j0(1) j1(1) by (simp add: commit_operation_def)
  from update_document_ok [where operation = ?op, OF assms(1,2) this j1(2,3) fv] obtain dir' where
    d: "update_document ?op dir = Inr ((), dir')" "read_document dir' = Inr (sort_json j1)" "file_inv dir'" by blast
  have sv: "map_option sort_json (version_at j sid d) = version_at j sid d"
     "map_option sort_json (execution_at j sid d) = execution_at j sid d" for sid d
    using at_sort [OF assms(4)] assms(5) by metis+
  have "execution_at (sort_json j1) (session_id_value sess) (pc.path_of x)
       = (case map_of b (ExecutionKey sess x) of Some m \<Rightarrow> map_option sort_json (mutation_json m)
          | None \<Rightarrow> execution_at j (session_id_value sess) (pc.path_of x))" if "storable_id x" for sess x
    using j1(4) that same sv by (simp add: at_sort [OF j1(3)] split: option.split)
  moreover have "version_at (sort_json j1) sid d = version_at j sid d" for sid d
    using j1(5) same sv by (simp add: at_sort [OF j1(3)])
  ultimately show ?thesis
    using d False document_ok_sort [OF j1(2,3)] j1(3)
    by (intro exI [of _ dir'] exI [of _ "sort_json j1"]) (simp add: file_commit_mutations_def)
qed

section \<open>Listing\<close>

lemma decode_entry:
  assumes "storable_execution e" "storable_id (ex_id e)" "d = stored_dict (sort_execution e) \<or> d = sorted_dict e"
  shows "bind_r (path_to_execution_id (pc.path_of (ex_id e))) (\<lambda>x.
           bind_r (as_dict TypeError (JObj d)) (execution_from_dict x)) = Inr (normal_execution e)"
proof -
  have "execution_from_dict (ex_id e) (stored_dict (sort_execution e)) = Inr (normal_execution e)"
    using execution_from_stored_dict [OF storable_sort_execution [THEN iffD2, OF assms(1)]]
    by (simp add: normal_execution_def normal_metadata_def sort_execution_def)
  then show ?thesis
    using assms(3) execution_from_sorted_dict [OF assms(1)] pc.of_to_path [OF assms(2) pc.path_of_eq [OF assms(2)]]
    by (auto simp: as_dict_def)
qed

lemma file_list_ok:
  assumes inv: "file_inv dir" and b: "batch_ok storable_execution b" and sess: "session_ok sess"
    and below: "\<forall>u \<in> set_option below. storable_id u"
  shows "\<exists>es. file_executions sess status below b dir = Inr es \<and>
     listing_spec normal_execution (\<lambda>x. visible file_client sess x b dir) status below es"
proof -
  obtain j where j: "read_document dir = Inr j" "document_ok j" "writable j" "sort_json j = j"
    using inv by (rule file_invE)
  obtain E where E: "read_committed_executions (session_id_value sess) dir = Inr E" "distinct (map fst E)"
    "\<forall>p. map_of E p = execution_at j (session_id_value sess) p" "\<forall>(p, v) \<in> set E. entry_ok p v"
    using read_committed_ok [OF j(1-3)] by blast
  let ?mut = "session_batch sess b"
  let ?com = "map (\<lambda>(x, m). (pc.path_of x, mutation_json m)) ?mut"
  have mut: "storable_id x \<and> stored_mutation m = Inr (mutation_json m)" if xm: "(x, m) \<in> set ?mut" for x m
  proof -
    obtain k where "(k, m) \<in> set b" "key_execution k = x" using xm by (auto simp: session_batch_def)
    then have "storable_id x" "case m of DeleteExecution \<Rightarrow> True
        | SaveExecution sn \<Rightarrow> \<exists>e. storable_execution e \<and> ex_id e = x \<and> sn = from_execution e"
      using batch_okD [OF b] by auto
    then show ?thesis using stored_mutation_ok(1) by blast
  qed
  have tr: "traverse (\<lambda>(x, m). bind_r (execution_id_to_path x) (\<lambda>p. bind_r (stored_mutation m) (\<lambda>v. Inr (p, v)))) ?mut
      = Inr ?com"
    by (rule traverse_Inr_map) (use mut pc.path_of_eq in \<open>auto split: prod.splits\<close>)
  have mut_ok: "\<forall>(x, v) \<in> set (map (map_prod id mutation_json) ?mut). storable_id x" using mut by auto
  have com: "?com = map (map_prod pc.path_of id) (map (map_prod id mutation_json) ?mut)" by auto
  have mut_dist: "distinct (map fst (map (map_prod id mutation_json) ?mut))"
  proof -
    have "distinct (map fst b)" using b by (simp add: batch_ok_def)
    then have "distinct (map fst ?mut)" unfolding session_batch_def by (rule distinct_session_items)
    moreover have "map fst (map (map_prod id mutation_json) ?mut) = map fst ?mut" by simp
    ultimately show ?thesis by (simp only:)
  qed
  let ?vis = "overlay id ?com E"
  have look: "map_of ?vis p = (case map_of ?com p of None \<Rightarrow> map_of E p | Some m \<Rightarrow> m)" for p
    using map_of_overlay [of ?com id E p] distinct_path_items [OF mut_dist mut_ok] unfolding com id_apply by simp
  have com_at: "map_of ?com (pc.path_of x) = map_option mutation_json (map_of b (ExecutionKey sess x))" if "storable_id x" for x
    unfolding com map_of_path_items [OF mut_ok that] map_of_map_prod_id
    by (simp add: session_batch_def map_of_session_items)
  have keys: "\<exists>x. storable_id x \<and> p = pc.path_of x" if p: "p \<in> fst ` set ?vis" for p
  proof -
    have "map_of ?vis p \<noteq> None" using p by (simp add: map_of_eq_None_iff)
    then have "p \<in> fst ` set ?com \<or> p \<in> fst ` set E"
      unfolding look by (metis (no_types, lifting) map_of_eq_None_iff option.simps(4))
    then show ?thesis using mut E(4) by (fastforce simp: entry_ok_def)
  qed
  have "shows_view normal_execution (\<lambda>path stored.
           bind_r (path_to_execution_id path) (\<lambda>x. bind_r (as_dict TypeError stored) (execution_from_dict x)))
         ?vis (\<lambda>x. visible file_client sess x b dir)"
    unfolding shows_view_def
  proof (intro conjI ballI allI impI)
    show "distinct (map fst ?vis)" using overlay_distinct [OF E(2)] .
    fix p assume "p \<in> fst ` set ?vis"
    then show "\<exists>x. storable_id x \<and> p = pc.path_of x" by (rule keys)
  next
    fix x assume x: "storable_id x"
    show "case map_of ?vis (pc.path_of x) of
           None \<Rightarrow> visible file_client sess x b dir = Inr None
         | Some v \<Rightarrow> \<exists>e f. visible file_client sess x b dir = Inr (Some e) \<and>
             bind_r (path_to_execution_id (pc.path_of x)) (\<lambda>x. bind_r (as_dict TypeError v) (execution_from_dict x)) = Inr f \<and>
             ex_id f = x \<and> ex_id e = x \<and> ex_status f = ex_status e \<and> normal_execution f = normal_execution e"
    proof (cases "map_of b (ExecutionKey sess x)")
      case None
      then have "visible file_client sess x b dir = file_read sess x dir" "map_of ?vis (pc.path_of x) = execution_at j (session_id_value sess) (pc.path_of x)"
        unfolding look com_at [OF x] using E(3) by (simp_all add: visible_def file_client_def)
      then show ?thesis
        using file_read_at [OF j x, of sess] decode_entry x normal_execution_idem by auto
    next
      case (Some m)
      show ?thesis
      proof (cases m)
        case (SaveExecution sn)
        then obtain e where e: "storable_execution e" "ex_id e = x" "sn = from_execution e"
          using batch_ok_SomeD [OF b] Some by blast
        then have "map_of ?vis (pc.path_of x) = Some (JObj (stored_dict (sort_execution e)))"
          unfolding look com_at [OF x] using Some SaveExecution stored_mutation_save by (simp add: mutation_json_def)
        then show ?thesis
          using e x Some SaveExecution decode_entry [OF e(1)] normal_execution_idem [OF e(1)]
          by (simp add: visible_def to_from_execution_storable)
      next
        case DeleteExecution
        then have "map_of ?vis (pc.path_of x) = None"
          unfolding look com_at [OF x] using Some by (simp add: mutation_json_def stored_mutation_def)
        then show ?thesis using Some DeleteExecution by (simp add: visible_def)
      qed
    qed
  qed
  note view = this
  obtain pre where pre: "under_prefix below = Inr pre" using under_prefix_total [OF below] by blast
  from listing_from_view [OF view pre below, of status] show ?thesis
    by (simp add: file_executions_def pre E(1) tr)
qed

section \<open>Claims\<close>

definition version_in :: "json \<Rightarrow> session_id \<Rightarrow> domain_id \<Rightarrow> domain_version option" where
  "version_in j sess d =
     (case version_at j (session_id_value sess) (domain_id_value d) of
        Some (JStr s) \<Rightarrow> Some (DomainVersion s) | _ \<Rightarrow> None)"

definition file_recorded :: "session_id \<Rightarrow> domain_id \<Rightarrow> directory \<Rightarrow> domain_version option" where
  "file_recorded sess d dir = (case read_document dir of Inl _ \<Rightarrow> None | Inr j \<Rightarrow> version_in j sess d)"

lemma file_claim_known:
  assumes "document_ok j" "writable j" "version_at j sid d = Some w"
  shows "\<exists>s. w = JStr s \<and> s \<noteq> [] \<and> file_claim sid d v j = Inr (w, j, False)"
proof -
  let ?S = "or_empty (obj_at k_sessions j)" let ?T = "or_empty (obj_at sid ?S)" let ?V = "or_empty (obj_at k_domain_versions ?T)"
  have sec: "obj_get k_sessions j = Inr ?S \<and> obj_get sid ?S = Inr ?T \<and> obj_get k_domain_versions ?T = Inr ?V \<and>
    object_of version_entry_ok ?V \<and> writable ?V"
    by (rule document_section [OF assms(1,2)]) simp_all
  then obtain E where E: "?V = JObj E" "\<forall>k v. map_of E k = Some v \<longrightarrow> version_entry_ok k v" by (auto simp: object_of_def)
  have "map_of E d = Some w" using assms(3) unfolding version_at_def bind_or_empty E(1) by (simp add: obj_at_def)
  with E sec show ?thesis by (fastforce simp: file_claim_def as_dict_def version_entry_ok_def)
qed

lemma file_claim_new:
  assumes "document_ok j" "writable j" "version_at j sid d = None" "scalar_str sid" "scalar_str d" "v \<noteq> []" "scalar_str v"
  shows "\<exists>j'. file_claim sid d v j = Inr (JStr v, j', True) \<and> document_ok j' \<and> writable j' \<and>
    (\<forall>sid' d'. version_at j' sid' d' = (if sid' = sid \<and> d' = d then Some (JStr v) else version_at j sid' d')) \<and>
    (\<forall>sid' p. execution_at j' sid' p = execution_at j sid' p) \<and> obj_at k_format_version j' = obj_at k_format_version j"
proof -
  let ?S = "or_empty (obj_at k_sessions j)" let ?T = "or_empty (obj_at sid ?S)" let ?V = "or_empty (obj_at k_domain_versions ?T)"
  have sec: "obj_get k_sessions j = Inr ?S \<and> obj_get sid ?S = Inr ?T \<and> obj_get k_domain_versions ?T = Inr ?V \<and>
    object_of version_entry_ok ?V \<and> writable ?V"
    by (rule document_section [OF assms(1,2)]) simp_all
  then obtain E where E: "?V = JObj E" by (auto simp: object_of_def)
  have none: "map_of E d = None" using assms(3) unfolding version_at_def bind_or_empty E by (simp add: obj_at_def)
  have "\<exists>v'. put_entry d (Some (JStr v)) w = Inr v' \<and> object_of version_entry_ok v' \<and> writable v' \<and>
      (\<forall>p'. obj_at p' v' = (if p' = d then Some (JStr v) else obj_at p' w))"
    if "object_of version_entry_ok w" "writable w" for w
    using assms(5-7) by (intro put_entry_ok [OF that]) (simp_all add: version_entry_ok_def writable_def)
  from modify_section [OF assms(1,2,4) _ this, of k_domain_versions]
  obtain j' where j': "modify k_sessions (modify sid (modify k_domain_versions (put_entry d (Some (JStr v))))) j = Inr j'"
    "document_ok j'" "writable j'"
    "\<forall>sid' d'. version_at j' sid' d' = (if sid' = sid \<and> d' = d then Some (JStr v) else version_at j sid' d')"
    "\<forall>sid' k'. k' \<noteq> k_domain_versions \<longrightarrow>
       Option.bind (Option.bind (obj_at k_sessions j') (obj_at sid')) (obj_at k')
         = Option.bind (Option.bind (obj_at k_sessions j) (obj_at sid')) (obj_at k')"
    "obj_at k_format_version j' = obj_at k_format_version j"
    unfolding version_at_def by auto
  have "execution_at j' sid' p = execution_at j sid' p" for sid' p
    using j'(5) by (simp add: execution_at_def)
  moreover have "file_claim sid d v j = Inr (JStr v, j', True)"
    using sec none j'(1) by (simp add: file_claim_def as_dict_def E)
  ultimately show ?thesis using j'(2-4,6) by blast
qed

lemma file_claim_domain_ok:
  assumes inv: "file_inv dir" and sess: "session_ok sess" and d: "valid_domain_id d" and v: "text_version_ok v"
  shows "\<exists>dir'. file_claim_domain sess d v dir
           = Inr (case file_recorded sess d dir of None \<Rightarrow> v | Some w \<Rightarrow> w, dir') \<and> file_inv dir' \<and>
    (\<forall>sess' d'. file_recorded sess' d' dir' =
       (if sess' = sess \<and> d' = d then Some (case file_recorded sess d dir of None \<Rightarrow> v | Some w \<Rightarrow> w)
        else file_recorded sess' d' dir)) \<and>
    (\<forall>sess' x. storable_id x \<longrightarrow> file_read sess' x dir' = file_read sess' x dir) \<and>
    (file_recorded sess d dir \<noteq> None \<longrightarrow> dir' = dir)"
proof -
  obtain j where j: "read_document dir = Inr j" "document_ok j" "writable j" "sort_json j = j"
    using inv by (rule file_invE)
  let ?sid = "session_id_value sess" and ?d = "domain_id_value d" and ?v = "domain_version_value v"
  have rec: "file_recorded s e dir = version_in j s e" for s e by (simp add: file_recorded_def j(1))
  show ?thesis
  proof (cases "version_at j ?sid ?d")
    case (Some w)
    obtain s where s: "w = JStr s" "s \<noteq> []" "file_claim ?sid ?d ?v j = Inr (w, j, False)"
      using file_claim_known [OF j(2,3) Some] by blast
    have r: "version_in j sess d = Some (DomainVersion s)" using Some s(1) by (simp add: version_in_def)
    have "file_claim_domain sess d v dir = Inr (DomainVersion s, dir)"
      using s by (simp add: file_claim_domain_def update_document_def j(1) version_of_json_def mk_domain_version_def)
    then show ?thesis using inv by (intro exI [of _ dir]) (simp add: rec r)
  next
    case None
    have vv: "?v \<noteq> []" "scalar_str ?v" using v by (auto simp: text_version_ok_def valid_domain_version_def)
    obtain j' where j': "file_claim ?sid ?d ?v j = Inr (JStr ?v, j', True)" "document_ok j'" "writable j'"
      "\<forall>sid' d'. version_at j' sid' d' = (if sid' = ?sid \<and> d' = ?d then Some (JStr ?v) else version_at j sid' d')"
      "\<forall>sid' p. execution_at j' sid' p = execution_at j sid' p" "obj_at k_format_version j' = obj_at k_format_version j"
      using file_claim_new [OF j(2,3) None _ domain_id_scalar [OF d] vv] sess by (auto simp: session_ok_def)
    from update_document_ok [where operation = "file_claim ?sid ?d ?v", OF inv j(1) j'(1-3,6)] obtain dir' where
      dir': "update_document (file_claim ?sid ?d ?v) dir = Inr (JStr ?v, dir')"
        "read_document dir' = Inr (sort_json j')" "file_inv dir'" by blast
    have r: "version_in j sess d = None" using None by (simp add: version_in_def)
    have sv: "map_option sort_json (version_at j s p) = version_at j s p"
       "map_option sort_json (execution_at j s p) = execution_at j s p" for s p
      using at_sort [OF j(3)] j(4) by metis+
    have "file_claim_domain sess d v dir = Inr (v, dir')"
      using dir'(1) vv by (simp add: file_claim_domain_def version_of_json_def mk_domain_version_def)
    moreover have "version_at (sort_json j') s p = (if s = ?sid \<and> p = ?d then Some (JStr ?v) else version_at j s p)" for s p
      using j'(4) sv(1) by (simp add: at_sort [OF j'(3)])
    then have "file_recorded s e dir' = (if s = sess \<and> e = d then Some v else file_recorded s e dir)" for s e
      unfolding rec by (auto simp: file_recorded_def dir'(2) version_in_def session_id.expand domain_id.expand)
    moreover have "file_read s x dir' = file_read s x dir" if x: "storable_id x" for s x
    proof -
      have j2: "document_ok (sort_json j')" "writable (sort_json j')" "sort_json (sort_json j') = sort_json j'"
        using document_ok_sort [OF j'(2,3)] j'(3) by simp_all
      have "execution_at (sort_json j') sid p = execution_at j sid p" for sid p
        using at_sort(1) [OF j'(3)] j'(5) sv(2) by simp
      then show ?thesis
        using file_read_at [OF dir'(2) j2 x, of s] file_read_at [OF j x, of s]
        by (metis (no_types, lifting) execution_from_sorted_dict json.inject(6) option.distinct(1) option.inject sum.inject(2))
    qed
    ultimately show ?thesis using dir'(3) by (intro exI [of _ dir']) (simp add: rec r)
  qed
qed

section \<open>The contracts\<close>

lemma file_client_simps [simp]:
  "cl_read file_client = file_read" "cl_commit file_client = file_commit_mutations"
  "cl_list file_client = file_executions" "cl_claim file_client = file_claim_domain"
  by (simp_all add: file_client_def)

lemma file_read_cases:
  assumes "file_inv dir" "storable_id x"
  shows "file_read sess x dir = Inr None \<or>
    (\<exists>e. storable_execution e \<and> ex_id e = x \<and> file_read sess x dir = Inr (Some (normal_execution e)))"
proof -
  obtain j where j: "read_document dir = Inr j" "document_ok j" "writable j" "sort_json j = j"
    using assms(1) by (rule file_invE)
  show ?thesis using file_read_at [OF j assms(2), of sess] by blast
qed

lemma file_read_commit:
  assumes inv: "file_inv dir" and b: "batch_ok storable_execution b" and x: "session_ok sess" "storable_id x"
    and commit: "file_commit_mutations b dir = Inr dir'"
  shows "file_read sess x dir' = map_sum id (map_option normal_execution) (visible file_client sess x b dir)"
proof -
  obtain j where j: "read_document dir = Inr j" "document_ok j" "writable j" "sort_json j = j"
    using inv by (rule file_invE)
  obtain j' where j': "read_document dir' = Inr j'" "document_ok j'" "writable j'" "sort_json j' = j'"
    "\<forall>sess x. storable_id x \<longrightarrow> execution_at j' (session_id_value sess) (pc.path_of x)
       = (case map_of b (ExecutionKey sess x) of Some m \<Rightarrow> map_option sort_json (mutation_json m)
          | None \<Rightarrow> execution_at j (session_id_value sess) (pc.path_of x))"
    using file_commit_ok [OF inv j b] commit by auto
  note none = file_read_none [OF j'(1-4) x(2)] file_read_none [OF j x(2)]
  have at: "execution_at j' (session_id_value sess) (pc.path_of x)
       = (case map_of b (ExecutionKey sess x) of Some m \<Rightarrow> map_option sort_json (mutation_json m)
          | None \<Rightarrow> execution_at j (session_id_value sess) (pc.path_of x))" using j'(5) x(2) by blast
  show ?thesis
  proof (cases "map_of b (ExecutionKey sess x)")
    case None
    have n: "normal_execution e = normal_execution e'"
      if "JObj (sorted_dict e) = JObj (sorted_dict e')" "storable_execution e" "storable_execution e'" "ex_id e = ex_id e'" for e e'
      using that execution_from_sorted_dict [OF that(2)] execution_from_sorted_dict [OF that(3)] by simp
    from None have same: "execution_at j' (session_id_value sess) (pc.path_of x) = execution_at j (session_id_value sess) (pc.path_of x)"
      and vis: "visible file_client sess x b dir = file_read sess x dir"
      using at by (simp_all add: visible_def)
    show ?thesis
    proof (cases "execution_at j (session_id_value sess) (pc.path_of x)")
      case None
      with same have "execution_at j' (session_id_value sess) (pc.path_of x) = None" by simp
      from none(1) [OF this] none(2) [OF None] show ?thesis by (simp add: vis)
    next
      case (Some v)
      obtain e where e: "v = JObj (sorted_dict e)" "storable_execution e" "ex_id e = x"
        "file_read sess x dir = Inr (Some (normal_execution e))" by (rule file_read_some [OF j x(2) Some])
      from Some same have "execution_at j' (session_id_value sess) (pc.path_of x) = Some v" by simp
      from file_read_some [OF j'(1-4) x(2) this]
      obtain e' where e': "v = JObj (sorted_dict e')" "storable_execution e'" "ex_id e' = x"
        "file_read sess x dir' = Inr (Some (normal_execution e'))" by metis
      have "normal_execution e = normal_execution e'"
        by (rule n) (use e(1-3) e'(1-3) in simp_all)
      then show ?thesis by (simp add: e(4) e'(4) vis normal_execution_idem [OF e'(2)])
    qed
  next
    case (Some m)
    show ?thesis
    proof (cases m)
      case (SaveExecution sn)
      obtain e where e: "storable_execution e" "ex_id e = x" "sn = from_execution e"
        using batch_ok_SomeD [OF b] Some SaveExecution by blast
      have "execution_at j' (session_id_value sess) (pc.path_of x) = Some (JObj (sorted_dict (sort_execution e)))"
        using at Some SaveExecution stored_mutation_save [OF e(1)] e(3) by (simp add: mutation_json_def sorted_dict_def)
      from file_read_some [OF j'(1-4) x(2) this]
      obtain e' where e': "JObj (sorted_dict (sort_execution e)) = JObj (sorted_dict e')" "storable_execution e'" "ex_id e' = x"
        "file_read sess x dir' = Inr (Some (normal_execution e'))" by metis
      have "normal_execution e = normal_execution e'"
        using e' e execution_from_sorted_dict [of "sort_execution e"] execution_from_sorted_dict [OF e'(2)] by simp
      then show ?thesis
        using e e'(4) Some SaveExecution by (simp add: visible_def to_from_execution_storable)
    next
      case DeleteExecution
      then have "execution_at j' (session_id_value sess) (pc.path_of x) = None"
        using at Some by (simp add: mutation_json_def stored_mutation_def)
      from none(1) [OF this] show ?thesis using Some DeleteExecution by (simp add: visible_def)
    qed
  qed
qed

interpretation fs: store_contract file_client file_inv storable_execution normal_execution
proof
  fix s sess x assume a: "file_inv s" "session_ok sess" "storable_id x"
  show "\<exists>r. cl_read file_client sess x s = Inr r" using file_read_cases [OF a(1,3), of sess] by auto
  fix e assume "cl_read file_client sess x s = Inr (Some e)"
  then show "ex_id e = x \<and> storable_execution e \<and> normal_execution e = e"
    using file_read_cases [OF a(1,3), of sess] by (auto simp: storable_normal normal_execution_idem)
next
  fix s b assume a: "file_inv s" "batch_ok storable_execution b"
  obtain j where "read_document s = Inr j" "document_ok j" "writable j" "sort_json j = j"
    using a(1) by (rule file_invE)
  from file_commit_ok [OF a(1) this a(2)]
  show "\<exists>s'. cl_commit file_client b s = Inr s' \<and> file_inv s'" by auto
next
  fix e assume "storable_execution e"
  then show "valid_execution e \<and> recordable (ex_arguments e)" by (simp add: storable_execution_def)
qed (simp_all add: file_read_commit storable_normal normal_execution_idem)

interpretation fs: listing_store file_client file_inv storable_execution normal_execution
  by unfold_locales (simp add: file_list_ok)

interpretation fs: claiming_store file_client file_inv storable_execution normal_execution file_recorded text_version_ok
proof
  fix s sess d v
  assume "file_inv s" "session_ok sess" "valid_domain_id d" "text_version_ok v"
  from file_claim_domain_ok [OF this]
  show "\<exists>s'. cl_claim file_client sess d v s = Inr (case file_recorded sess d s of None \<Rightarrow> v | Some w \<Rightarrow> w, s') \<and>
      file_inv s' \<and>
        (\<forall>sess' d'. session_ok sess' \<longrightarrow> valid_domain_id d' \<longrightarrow> file_recorded sess' d' s' =
           (if sess' = sess \<and> d' = d then Some (case file_recorded sess d s of None \<Rightarrow> v | Some w \<Rightarrow> w)
            else file_recorded sess' d' s)) \<and>
        (\<forall>sess' x. session_ok sess' \<longrightarrow> storable_id x \<longrightarrow> cl_read file_client sess' x s' = cl_read file_client sess' x s)"
    unfolding file_client_simps by blast
next
  fix s sess d v w
  assume "file_inv s" "session_ok sess" "valid_domain_id d" "text_version_ok v" "file_recorded sess d s = Some w"
  with file_claim_domain_ok [of s sess d v] show "cl_claim file_client sess d v s = Inr (w, s)"
    unfolding file_client_simps by auto
next
  fix s b s' sess d
  assume a: "file_inv s" "batch_ok storable_execution b" "cl_commit file_client b s = Inr s'"
  obtain j where j: "read_document s = Inr j" "document_ok j" "writable j" "sort_json j = j"
    using a(1) by (rule file_invE)
  obtain j' where "read_document s' = Inr j'" "\<forall>sid d. version_at j' sid d = version_at j sid d"
    using file_commit_ok [OF a(1) j a(2)] a(3) by auto
  then show "file_recorded sess d s' = file_recorded sess d s" by (simp add: file_recorded_def version_in_def j(1))
qed

section \<open>Opening and crashing\<close>

lemma read_document_temps [simp]: "read_document (dir\<lparr>fd_temps := ts\<rparr>) = read_document dir"
  by (simp add: read_document_def)

lemma file_inv_temps [simp]: "file_inv (dir\<lparr>fd_temps := ts\<rparr>) = file_inv dir"
  by (simp add: file_inv_def)

lemma file_read_temps [simp]: "file_read sess x (dir\<lparr>fd_temps := ts\<rparr>) = file_read sess x dir"
  by (simp add: file_read_def read_committed_executions_def)

lemma file_open_stamped: "file_inv dir \<Longrightarrow> file_open dir = Inr (dir\<lparr>fd_temps := []\<rparr>)"
  by (erule file_invE)
    (auto simp: file_open_def Let_def as_dict_def json_equals_int_def file_format_version_def obj_at_def document_ok_def
      object_of_def)

definition fresh_document :: json where
  "fresh_document = JObj [(k_format_version, JInt file_format_version), (k_sessions, JObj [])]"

lemma fresh_document_ok:
  "document_ok fresh_document" "writable fresh_document" "sort_json fresh_document = fresh_document"
  "obj_at k_format_version fresh_document = Some (JInt file_format_version)"
proof -
  show "document_ok fresh_document"
    by (auto simp: document_ok_def object_of_def fresh_document_def split: if_splits)
  show "writable fresh_document" by (simp add: fresh_document_def writable_obj writable_def)
  have "k_format_version \<le> k_sessions" unfolding k_format_version_def k_sessions_def by code_simp
  then show "sort_json fresh_document = fresh_document"
    by (simp add: fresh_document_def sort_items_def)
qed (simp add: fresh_document_def obj_at_def)

lemma file_open_unstamped:
  assumes "read_document dir = Inr (JObj d)" "map_of d k_format_version \<in> {None, Some JNull}"
    and "fd_denied dir \<le> length permission_retry_delays"
  shows "\<exists>dir'. file_open dir = Inr dir' \<and> read_document dir' = Inr fresh_document \<and> file_inv dir'"
proof -
  have "file_open dir = write_document fresh_document (dir\<lparr>fd_temps := []\<rparr>)"
    using assms(1,2) by (auto simp: file_open_def Let_def as_dict_def fresh_document_def)
  then show ?thesis
    using write_then_read [OF fresh_document_ok(2), of "dir\<lparr>fd_temps := []\<rparr>"] assms(3) fresh_document_ok
    by (auto simp: file_inv_def)
qed

text \<open>Every state of an update's trace reads as the document before or after it.\<close>

lemma update_trace_cases:
  assumes "s \<in> set (update_trace operation dir)"
  shows "(\<exists>ts. s = dir\<lparr>fd_temps := ts\<rparr>) \<or> (\<exists>r. update_document operation dir = Inr (r, s))"
proof -
  have self: "\<exists>ts. dir = dir\<lparr>fd_temps := ts\<rparr>" by (rule exI [of _ "fd_temps dir"]) simp
  show ?thesis
  proof (cases "s = dir")
    case True
    then show ?thesis using self by simp
  next
    case False
    then obtain document r document' t data where u: "read_document dir = Inr document" "operation document = Inr (r, document', True)"
      "json_dumps document_style document' = Inr t" "utf8_encode t = Inr data" "s \<in> set (write_trace data dir)"
      using assms
      by (auto simp: update_trace_def result_simps split: sum.splits option.splits if_splits prod.splits
          dest!: sym [of "Inr (Some _)"])
    from u(5) consider n where "s = dir\<lparr>fd_temps := take n data # fd_temps dir\<rparr>"
      | "s = fst (snd (write_data data dir))"
      unfolding write_trace_def by (auto simp del: upt_Suc)
    then show ?thesis
    proof cases
      case 2
      then have "fd_denied dir \<le> length permission_retry_delays" "s = dir\<lparr>fd_document := Some data\<rparr>"
        using False by (auto simp: write_data_eq split: if_splits)
      then show ?thesis using u(1-4) by (simp add: update_document_def write_document_def write_data_result)
    qed blast
  qed
qed

section \<open>Properties\<close>

definition file_backend_new :: "directory backend" where
  "file_backend_new =
     \<lparr>bk_staging = staging_init,
      bk_store = \<lparr>fd_document = None, fd_temps = [], fd_denied = 0\<rparr>\<rparr>"

text \<open>
  C34: A commit of the file store is durable and exact. In a store that keeps its invariant, a
  transaction over any writes of storable executions commits, the enclosing stage is open again,
  and afterwards every execution reads as the last write to it left it, in normal form, while an
  execution no write touched reads as before, in every session of the document.
\<close>
theorem file_commit_durable:
  assumes "staging_inv (bk_staging st)" "c < sg_contexts (bk_staging st)" "file_begin c st = (tx, st1)"
    and "run_writes c ws st1 = Inr st2" "file_inv (bk_store st)"
    and "\<forall>w \<in> set ws. write_ok storable_execution w"
  shows "\<exists>tx' st3. file_commit c tx st2 = (Inr (), tx', st3) \<and> tx_closed tx' \<and> file_inv (bk_store st3) \<and>
     sg_open (bk_staging st3) c = sg_open (bk_staging st) c \<and> staged_items c st3 = staged_items c st \<and>
     (\<forall>sess x. session_ok sess \<longrightarrow> storable_id x \<longrightarrow>
        file_read sess x (bk_store st3) =
          (case last_write ws (ExecutionKey sess x) of
             None \<Rightarrow> file_read sess x (bk_store st)
           | Some DeleteExecution \<Rightarrow> Inr None
           | Some (SaveExecution sn) \<Rightarrow> map_sum id (\<lambda>e. Some (normal_execution e)) (to_execution sn)))"
  using fs.commit_visible [OF assms(1,2) assms(3) [unfolded file_begin_def] assms(4-6)]
  unfolding file_client_simps file_commit_def .

lemma file_open_fresh:
  obtains dir where "file_open \<lparr>fd_document = None, fd_temps = [], fd_denied = 0\<rparr> = Inr dir" "file_inv dir"
    "read_document dir = Inr fresh_document"
  using file_open_unstamped [of "\<lparr>fd_document = None, fd_temps = [], fd_denied = 0\<rparr>" "[]"]
  by (auto simp: read_document_def permission_retry_delays_def)

definition sample_directory :: directory where
  "sample_directory =
     (case file_open \<lparr>fd_document = None, fd_temps = [], fd_denied = 0\<rparr> of Inr dir \<Rightarrow> dir
      | Inl _ \<Rightarrow> \<lparr>fd_document = None, fd_temps = [], fd_denied = 0\<rparr>)"

lemma sample_directory_inv: "file_inv sample_directory" "read_document sample_directory = Inr fresh_document"
proof -
  obtain dir where "file_open \<lparr>fd_document = None, fd_temps = [], fd_denied = 0\<rparr> = Inr dir" "file_inv dir"
    "read_document dir = Inr fresh_document" by (rule file_open_fresh)
  then show "file_inv sample_directory" "read_document sample_directory = Inr fresh_document"
    by (simp_all add: sample_directory_def)
qed

theorem file_commit_durable_witness:
  "\<exists>tx st1 st2 tx' st3.
     file_begin 0 \<lparr>bk_staging = staging_init, bk_store = sample_directory\<rparr> = (tx, st1) \<and>
     run_writes 0 [WSave sample_session sample_execution] st1 = Inr st2 \<and>
     file_commit 0 tx st2 = (Inr (), tx', st3) \<and>
     file_read sample_session sample_eid (bk_store st3) = Inr (Some (normal_execution sample_execution))"
proof -
  let ?st = "\<lparr>bk_staging = staging_init, bk_store = sample_directory\<rparr>"
  let ?ws = "[WSave sample_session sample_execution]"
  obtain tx st1 st2 where t: "staging_inv (bk_staging ?st)" "0 < sg_contexts (bk_staging ?st)" "tx_begin 0 ?st = (tx, st1)"
    "run_writes 0 ?ws st1 = Inr st2" using sample_transaction [of ?st] by auto
  note t = t(1,2) t(3) [folded file_begin_def] t(4)
  have w: "\<forall>w \<in> set ?ws. write_ok storable_execution w" by (simp add: sample_execution_storable)
  obtain tx' st3 where "file_commit 0 tx st2 = (Inr (), tx', st3)"
    "\<forall>sess x. session_ok sess \<longrightarrow> storable_id x \<longrightarrow>
        file_read sess x (bk_store st3) =
          (case last_write ?ws (ExecutionKey sess x) of
             None \<Rightarrow> file_read sess x (bk_store ?st)
           | Some DeleteExecution \<Rightarrow> Inr None
           | Some (SaveExecution sn) \<Rightarrow> map_sum id (\<lambda>e. Some (normal_execution e)) (to_execution sn))"
    using file_commit_durable [OF t _ w] sample_directory_inv by auto
  moreover from this(2) have "file_read sample_session sample_eid (bk_store st3) = Inr (Some (normal_execution sample_execution))"
    by (simp add: to_from_execution_storable sample_execution_storable)
  ultimately show ?thesis using t(3,4) by blast
qed

text \<open>
  The listing of the file store. A session's executions are yielded with every staged write
  overlaid on what is committed, filtered by status and strict ancestor, each exactly once and in
  path order, which lists every execution after its own ancestors.
\<close>
theorem file_listing:
  assumes "file_inv dir" "batch_ok storable_execution b" "session_ok sess" "\<forall>u \<in> set_option below. storable_id u"
  shows "\<exists>es. file_executions sess status below b dir = Inr es \<and>
     listing_spec normal_execution (\<lambda>x. visible file_client sess x b dir) status below es \<and>
     (\<forall>m n. m < length es \<longrightarrow> n < length es \<longrightarrow> ancestor_of (ex_id (es ! m)) (ex_id (es ! n)) \<longrightarrow> m < n)"
proof -
  obtain es where es: "file_executions sess status below b dir = Inr es"
    "listing_spec normal_execution (\<lambda>x. visible file_client sess x b dir) status below es"
    using file_list_ok [OF assms] by blast
  have "cl_list file_client sess status below b dir = Inr es" using es(1) by simp
  with es fs.listed_after_ancestors [OF assms this] show ?thesis by blast
qed

theorem file_listing_witness:
  "\<exists>es. file_executions sample_session (Some COMPLETED) None sample_batch sample_directory = Inr es \<and>
     normal_execution ` set es = {normal_execution sample_execution}"
proof -
  have b: "batch_ok storable_execution sample_batch" by (rule sample_batch_ok [of storable_execution, OF sample_execution_storable])
  have none: "file_read sample_session x sample_directory = Inr None" if "storable_id x" for x
  proof -
    have "read_committed_executions (session_id_value sample_session) sample_directory = Inr []"
      using sample_directory_inv(2)
      by (simp add: read_committed_executions_def session_executions_def obj_get_def as_dict_def fresh_document_def)
    then show ?thesis by (simp add: file_read_def pc.path_of_eq [OF that])
  qed
  have view: "visible file_client sample_session x sample_batch sample_directory =
      (if x = sample_eid then Inr (Some (sort_execution sample_execution)) else Inr None)" if "storable_id x" for x
    using none [OF that]
    by (simp add: visible_def sample_batch_def to_from_execution_storable sample_execution_storable)
  obtain es where "file_executions sample_session (Some COMPLETED) None sample_batch sample_directory = Inr es"
    "listing_spec normal_execution (\<lambda>x. visible file_client sample_session x sample_batch sample_directory)
       (Some COMPLETED) None es"
    using file_listing [OF sample_directory_inv(1) b sample_session_ok, of None "Some COMPLETED"] by auto
  moreover have "{normal_execution e | e. storable_id (ex_id e) \<and>
       visible file_client sample_session (ex_id e) sample_batch sample_directory = Inr (Some e) \<and>
       status_matches (Some COMPLETED) e \<and> below_matches None (ex_id e)} = {normal_execution sample_execution}"
    (is "?A = _")
  proof (intro equalityI subsetI)
    fix n assume "n \<in> ?A"
    then show "n \<in> {normal_execution sample_execution}"
      using view by (auto split: if_splits)
  next
    fix n assume "n \<in> {normal_execution sample_execution}"
    then show "n \<in> ?A"
      using view [of sample_eid]
      by (auto intro!: exI [of _ "sort_execution sample_execution"] simp: status_matches_def below_matches_def)
  qed
  ultimately show ?thesis unfolding listing_spec_def by metis
qed

text \<open>
  C35: A crash never tears the file store. Whatever state a commit is interrupted in, opening the
  directory again succeeds, removes the stranded temporaries, keeps the invariant, and every
  execution of every session reads either as before the commit or as after it, all of them alike.
\<close>
theorem file_commit_crash_safe:
  assumes "file_inv dir" "b \<noteq> []" "s \<in> set (update_trace (commit_operation b) dir)"
    and "batch_ok storable_execution b"
  shows "\<exists>dir'. file_open s = Inr dir' \<and> fd_temps dir' = [] \<and> file_inv dir' \<and>
     ((\<forall>sess x. file_read sess x dir' = file_read sess x dir) \<or>
      (\<exists>dir2. file_commit_mutations b dir = Inr dir2 \<and> (\<forall>sess x. file_read sess x dir' = file_read sess x dir2)))"
  using update_trace_cases [OF assms(3)]
proof (elim disjE exE)
  fix ts assume s: "s = dir\<lparr>fd_temps := ts\<rparr>"
  then have "file_open s = Inr (s\<lparr>fd_temps := []\<rparr>)" using assms(1) by (intro file_open_stamped) simp
  with s assms(1) show ?thesis by (intro exI [of _ "s\<lparr>fd_temps := []\<rparr>"]) simp
next
  fix r assume r: "update_document (commit_operation b) dir = Inr (r, s)"
  then have c: "file_commit_mutations b dir = Inr s" using assms(2) by (simp add: file_commit_mutations_def)
  then have inv: "file_inv s" using fs.commit_total [OF assms(1,4)] by auto
  then have "file_open s = Inr (s\<lparr>fd_temps := []\<rparr>)" by (rule file_open_stamped)
  with c inv show ?thesis by (intro exI [of _ "s\<lparr>fd_temps := []\<rparr>"]) simp
qed

theorem file_commit_crash_safe_witness:
  "\<exists>s dir'. s \<in> set (update_trace (commit_operation sample_batch) sample_directory) \<and> s \<noteq> sample_directory \<and>
     file_open s = Inr dir' \<and> fd_temps dir' = [] \<and> file_inv dir'"
proof -
  have b: "batch_ok storable_execution sample_batch" "sample_batch \<noteq> []"
    using sample_batch_ok [of storable_execution, OF sample_execution_storable] by (simp_all add: sample_batch_def)
  obtain dir2 where "file_commit_mutations sample_batch sample_directory = Inr dir2"
    using fs.commit_total [OF sample_directory_inv(1) b(1)] by auto
  then obtain u where "update_document (commit_operation sample_batch) sample_directory = Inr (u, dir2)"
    using b(2) by (auto simp: file_commit_mutations_def map_sum_def split: sum.splits)
  then obtain j' t data where u: "commit_operation sample_batch fresh_document = Inr ((), j', True)"
    "json_dumps document_style j' = Inr t" "utf8_encode t = Inr data"
    by (auto simp: update_document_def sample_directory_inv(2) commit_operation_def write_document_def result_simps)
  let ?s = "sample_directory\<lparr>fd_temps := [] # fd_temps sample_directory\<rparr>"
  have "\<exists>n \<in> {0..<Suc (length data)}. ?s = sample_directory\<lparr>fd_temps := take n data # fd_temps sample_directory\<rparr>"
    by (rule bexI [of _ 0]) simp_all
  then have "?s \<in> set (update_trace (commit_operation sample_batch) sample_directory)"
    by (auto simp: update_trace_def sample_directory_inv(2) u write_trace_def simp del: upt_Suc)
  moreover have "?s \<noteq> sample_directory"
  proof
    assume "?s = sample_directory"
    then have "fd_temps ?s = fd_temps sample_directory" by (rule arg_cong)
    then show False by simp
  qed
  ultimately show ?thesis
    using file_commit_crash_safe [OF sample_directory_inv(1) b(2) _ b(1), of ?s] by blast
qed

text \<open>
  A document without a format version is erased when it is opened: whatever sessions it held,
  afterwards no session has an execution or a recorded domain version.
\<close>
theorem unstamped_store_erased:
  assumes "read_document dir = Inr (JObj d)" "map_of d k_format_version = None" "fd_denied dir \<le> length permission_retry_delays"
  shows "\<exists>dir'. file_open dir = Inr dir' \<and> (\<forall>sid. read_committed_executions sid dir' = Inr []) \<and>
     (\<forall>sess e. file_recorded sess e dir' = None)"
proof -
  obtain dir' where dir': "file_open dir = Inr dir'" "read_document dir' = Inr fresh_document"
    using file_open_unstamped [OF assms(1) _ assms(3)] assms(2) by auto
  have "obj_get k_sessions fresh_document = Inr (JObj [])" by (simp add: obj_get_def as_dict_def fresh_document_def)
  moreover have "obj_at k_sessions fresh_document = Some (JObj [])" by (simp add: obj_at_def fresh_document_def)
  ultimately show ?thesis
    using dir' by (intro exI [of _ dir'])
      (simp add: read_committed_executions_def session_executions_def obj_get_def as_dict_def file_recorded_def
        version_in_def version_at_def obj_at_def)
qed

theorem unstamped_store_erased_witness:
  "\<exists>dir dir'. fd_document dir = Some (map of_nat (str_of ''{\"sessions\":{\"s\":{\"domain_versions\":{\"d\":\"1\"}}}}'')) \<and>
     file_recorded (SessionId (str_of ''s'')) (DomainId (str_of ''d'')) dir = Some (DomainVersion (str_of ''1'')) \<and>
     file_open dir = Inr dir' \<and>
     file_recorded (SessionId (str_of ''s'')) (DomainId (str_of ''d'')) dir' = None"
proof -
  let ?t = "str_of ''{\"sessions\":{\"s\":{\"domain_versions\":{\"d\":\"1\"}}}}''"
  let ?d = "[(k_sessions, JObj [(str_of ''s'', JObj [(k_domain_versions, JObj [(str_of ''d'', JStr (str_of ''1''))])])])]"
  let ?dir = "\<lparr>fd_document = Some (map of_nat ?t), fd_temps = [], fd_denied = 0\<rparr>"
  have "utf8_encode ?t = Inr (map of_nat ?t)" using ascii_utf8 [of ?t] by simp
  then have "utf8_decode (map of_nat ?t) = Inr ?t" by (rule utf8_decode_encode)
  moreover have "json_loads True ?t = Inr (JObj ?d)"
    unfolding k_sessions_def k_domain_versions_def by code_simp
  ultimately have read: "read_document ?dir = Inr (JObj ?d)" by (simp add: read_document_def)
  moreover have "map_of ?d k_format_version = None" by simp
  ultimately obtain dir' where "file_open ?dir = Inr dir'" "\<forall>sess e. file_recorded sess e dir' = None"
    using unstamped_store_erased [of ?dir ?d] by (auto simp: permission_retry_delays_def)
  moreover have "file_recorded (SessionId (str_of ''s'')) (DomainId (str_of ''d'')) ?dir = Some (DomainVersion (str_of ''1''))"
    unfolding file_recorded_def read by (simp add: version_in_def version_at_def obj_at_def)
  ultimately show ?thesis by (intro exI [of _ ?dir] exI [of _ dir']) simp
qed

text \<open>
  C36: The retry loop of a replacement. The write of a storable batch reaches the system with some
  data; the loop then tries at once and after 10, 25, 50, 100 and 200 ms, sleeping as many of these
  delays as attempts are refused. Up to five refusals the commit succeeds and leaves what a commit
  without refusals leaves, no temporary included; at the sixth it raises PermissionError, the document
  is as it was and the temporary is gone.
\<close>
theorem replacement_retry_bound:
  assumes "file_inv (dir\<lparr>fd_denied := 0\<rparr>)" "batch_ok storable_execution b" "b \<noteq> []"
  shows "\<exists>data.
     file_commit_mutations b (dir\<lparr>fd_denied := 0\<rparr>) = Inr (dir\<lparr>fd_document := Some data, fd_denied := 0\<rparr>) \<and>
     (if fd_denied dir \<le> 5
      then file_commit_mutations b dir = Inr (dir\<lparr>fd_document := Some data\<rparr>) \<and>
        write_data data dir = (Inr (), dir\<lparr>fd_document := Some data\<rparr>, take (fd_denied dir) [10, 25, 50, 100, 200])
      else file_commit_mutations b dir = Inl PermissionError \<and>
        write_data data dir = (Inl PermissionError, dir, [10, 25, 50, 100, 200]))"
proof -
  let ?dir = "dir\<lparr>fd_denied := 0\<rparr>"
  have read: "read_document dir = read_document ?dir" by (simp add: read_document_def)
  obtain j where j: "read_document ?dir = Inr j" using assms(1) by (auto simp: file_inv_def)
  obtain dir0 where "file_commit_mutations b ?dir = Inr dir0" using fs.commit_total [OF assms(1,2)] by auto
  then obtain u where "update_document (commit_operation b) ?dir = Inr (u, dir0)"
    using assms(3) by (auto simp: file_commit_mutations_def map_sum_def split: sum.splits)
  then obtain j' t data where u: "commit_operation b j = Inr ((), j', True)" "json_dumps document_style j' = Inr t"
    "utf8_encode t = Inr data"
    by (auto simp: update_document_def j commit_operation_def write_document_def result_simps)
  have commit: "file_commit_mutations b d = (if fd_denied d \<le> 5 then Inr (d\<lparr>fd_document := Some data\<rparr>) else Inl PermissionError)"
    if "read_document d = Inr j" for d
    using assms(3) u that by (simp add: file_commit_mutations_def update_document_def write_document_def
        write_data_result permission_retry_delays_def)
  show ?thesis
    using commit [of dir] commit [of ?dir] by (intro exI [of _ data])
      (simp add: read j write_data_eq permission_retry_delays_def)
qed

theorem replacement_retry_bound_witness:
  "(\<exists>data. file_commit_mutations sample_batch (sample_directory\<lparr>fd_denied := 2\<rparr>)
       = Inr (sample_directory\<lparr>fd_denied := 2, fd_document := Some data\<rparr>) \<and>
     snd (snd (write_data data (sample_directory\<lparr>fd_denied := 2\<rparr>))) = [10, 25]) \<and>
   file_commit_mutations sample_batch (sample_directory\<lparr>fd_denied := 6\<rparr>) = Inl PermissionError"
proof -
  have b: "batch_ok storable_execution sample_batch" "sample_batch \<noteq> []"
    using sample_batch_ok [of storable_execution, OF sample_execution_storable] by (simp_all add: sample_batch_def)
  have "file_inv (sample_directory\<lparr>fd_denied := 0\<rparr>)"
    using sample_directory_inv by (simp add: file_inv_def read_document_def permission_retry_delays_def)
  then show ?thesis
    using replacement_retry_bound [of "sample_directory\<lparr>fd_denied := 2\<rparr>" sample_batch]
      replacement_retry_bound [of "sample_directory\<lparr>fd_denied := 6\<rparr>" sample_batch] b by auto
qed

end
