(* ===== verification/SqliteStore.thy ===== *)
theory SqliteStore
  imports Transactions
begin

text \<open>
  The SQLite backend (\<open>glyff_sqlite\<close>: \<open>_sqlite_client.py\<close>, \<open>_sqlite_store.py\<close>,
  \<open>_transaction.py\<close>). The state is what the three tables hold: the executions keyed by session
  and path, the domain versions keyed by session and domain, and the single row of the meta
  table. A statement is the operation SQL gives it on these tables: primary keys are unique, TEXT
  compares by its UTF-8 bytes, and binding a string that has no UTF-8 form raises
  \<open>UnicodeEncodeError\<close>. A block inside \<open>BEGIN IMMEDIATE\<close> is one operation of type
  \<open>exn + database\<close>: what it raises leaves the state as it was.
\<close>

section \<open>Text in SQLite\<close>

text \<open>The BINARY collation compares UTF-8 bytes.\<close>

definition collation_key :: "pystr \<Rightarrow> nat list" where
  "collation_key s = concat (map utf8_cp s)"

definition text_le :: "pystr \<Rightarrow> pystr \<Rightarrow> bool" where
  "text_le s t \<longleftrightarrow> collation_key s \<le> collation_key t"

definition text_less :: "pystr \<Rightarrow> pystr \<Rightarrow> bool" where
  "text_less s t \<longleftrightarrow> collation_key s < collation_key t"

definition bind_text :: "pystr \<Rightarrow> exn + unit" where
  "bind_text s = ensure_r (scalar_str s) UnicodeEncodeError"

fun bind_texts :: "pystr list \<Rightarrow> exn + unit" where
  "bind_texts [] = Inr ()"
| "bind_texts (s # ss) = bind_r (bind_text s) (\<lambda>_. bind_texts ss)"

lemma div_mod_less: "(a :: nat) < b \<Longrightarrow> a div 64 < b div 64 \<or> a div 64 = b div 64 \<and> a mod 64 < b mod 64"
  by (metis div_le_mono div_mult_mod_eq le_neq_implies_less less_imp_le_nat nat_add_left_cancel_less)

lemma div_64_twice: "(a :: nat) div 64 div 64 = a div 4096" "(a :: nat) div 4096 div 64 = a div 262144"
  by (simp_all add: div_mult2_eq [symmetric])

lemma div_64_eq:
  "(a :: nat) div 64 = b div 64 \<Longrightarrow> a div 4096 = b div 4096"
  "(a :: nat) div 4096 = b div 4096 \<Longrightarrow> a div 262144 = b div 262144"
  by (metis div_64_twice)+

lemma base64_less:
  assumes "(a :: nat) < b"
  shows "a div 4096 < b div 4096 \<or> a div 4096 = b div 4096 \<and> (a div 64 mod 64 < b div 64 mod 64 \<or>
     a div 64 mod 64 = b div 64 mod 64 \<and> a mod 64 < b mod 64)"
  using div_mod_less [OF assms] div_mod_less [of "a div 64" "b div 64"] div_64_eq(1) [of a b]
  unfolding div_64_twice by auto

lemma base64_less4:
  assumes "(a :: nat) < b"
  shows "a div 262144 < b div 262144 \<or> a div 262144 = b div 262144 \<and> (a div 4096 mod 64 < b div 4096 mod 64 \<or>
     a div 4096 mod 64 = b div 4096 mod 64 \<and> (a div 64 mod 64 < b div 64 mod 64 \<or>
     a div 64 mod 64 = b div 64 mod 64 \<and> a mod 64 < b mod 64))"
  using base64_less [OF assms] div_mod_less [of "a div 4096" "b div 4096"] div_64_eq(2) [of a b]
  unfolding div_64_twice by auto

lemma utf8_cp_lead:
  "c < 0x80 \<Longrightarrow> utf8_cp c = [c]"
  "0x80 \<le> c \<Longrightarrow> c < 0x800 \<Longrightarrow> utf8_cp c = [0xC0 + c div 64, 0x80 + c mod 64]"
  "0x800 \<le> c \<Longrightarrow> c < 0x10000 \<Longrightarrow> utf8_cp c = [0xE0 + c div 4096, 0x80 + c div 64 mod 64, 0x80 + c mod 64]"
  "0x10000 \<le> c \<Longrightarrow>
     utf8_cp c = [0xF0 + c div 262144, 0x80 + c div 4096 mod 64, 0x80 + c div 64 mod 64, 0x80 + c mod 64]"
  by (simp_all add: utf8_cp.simps)

lemma utf8_cp_less:
  assumes "a < b"
  shows "utf8_cp a @ x < utf8_cp b @ (y :: nat list)"
proof -
  consider "b < 0x80" | "0x80 \<le> b" "b < 0x800" | "0x800 \<le> b" "b < 0x10000" | "0x10000 \<le> b" by linarith
  then show ?thesis
  proof cases
    case 1
    then show ?thesis using assms by (simp add: utf8_cp_lead)
  next
    case 2
    consider "a < 0x80" | "0x80 \<le> a" "a < 0x800" using assms 2 by linarith
    then show ?thesis
      by cases (use 2 div_mod_less [OF assms] in \<open>auto simp: utf8_cp_lead\<close>)
  next
    case 3
    have lead: "a < 0x800 \<Longrightarrow> a div 64 < 32" by linarith
    consider "a < 0x80" | "0x80 \<le> a" "a < 0x800" | "0x800 \<le> a" "a < 0x10000" using assms 3 by linarith
    then show ?thesis
      by cases (use 3 lead base64_less [OF assms] in \<open>auto simp: utf8_cp_lead\<close>)
  next
    case 4
    have lead: "a < 0x800 \<Longrightarrow> a div 64 < 32" "a < 0x10000 \<Longrightarrow> a div 4096 < 16" by linarith+
    consider "a < 0x80" | "0x80 \<le> a" "a < 0x800" | "0x800 \<le> a" "a < 0x10000" | "0x10000 \<le> a" by linarith
    then show ?thesis
      by cases (use 4 lead base64_less4 [OF assms] in \<open>auto simp: utf8_cp_lead\<close>)
  qed
qed

lemma collation_key_Cons: "collation_key (c # s) = utf8_cp c @ collation_key s"
  by (simp add: collation_key_def)

lemma append_less_iff: "xs @ ys < xs @ zs \<longleftrightarrow> ys < (zs :: nat list)"
  by (induction xs) simp_all

lemma collation_key_less: "s < t \<Longrightarrow> collation_key s < collation_key t"
proof (induction s arbitrary: t)
  case Nil
  then obtain b t' where "t = b # t'" by (cases t) auto
  moreover obtain z zs where "utf8_cp b = z # zs" using utf8_cp_nonempty [of b] by (cases "utf8_cp b") auto
  ultimately show ?case by (simp add: collation_key_def)
next
  case (Cons a s)
  then obtain b t' where t: "t = b # t'" "a < b \<or> a = b \<and> s < t'" by (cases t) auto
  then show ?case
    using Cons.IH [of t'] utf8_cp_less by (auto simp: collation_key_Cons append_less_iff)
qed

text \<open>UTF-8 keeps the order of code points, so both sides of a merge have one order.\<close>

lemma text_order: "text_less s t \<longleftrightarrow> s < t" "text_le s t \<longleftrightarrow> s \<le> t"
proof -
  have less: "collation_key s < collation_key t \<longleftrightarrow> s < t" for s t
    by (metis collation_key_less less_asym not_less_iff_gr_or_eq)
  show "text_less s t \<longleftrightarrow> s < t" unfolding text_less_def by (rule less)
  show "text_le s t \<longleftrightarrow> s \<le> t" unfolding text_le_def using less by (metis linorder_not_less)
qed

lemma bind_texts_iff: "bind_texts ss = (if \<forall>s \<in> set ss. scalar_str s then Inr () else Inl UnicodeEncodeError)"
  by (induction ss) (auto simp: bind_text_def ensure_r_def)

declare bind_texts.simps [simp del]

section \<open>Records\<close>

record sqlite_record =
  sq_arguments :: pystr
  sq_status :: pystr
  sq_result :: "pystr option"
  sq_metadata :: pystr

definition json_text :: "json \<Rightarrow> exn + pystr" where
  "json_text v = json_dumps (compact True) v"

definition str_item :: "pystr \<Rightarrow> (pystr, json) dict \<Rightarrow> exn + pystr" where
  "str_item k d = bind_r (dict_item k d) (\<lambda>v. case v of JStr s \<Rightarrow> Inr s | _ \<Rightarrow> Inl TypeError)"

definition record_from_execution :: "execution \<Rightarrow> exn + sqlite_record" where
  "record_from_execution e =
     bind_r (execution_to_dict e) (\<lambda>stored.
     bind_r (str_item k_arguments stored) (\<lambda>arguments.
     bind_r (str_item k_status stored) (\<lambda>status.
     bind_r (if ex_result e \<noteq> None
             then bind_r (bind_r (dict_item k_result stored) json_text) (\<lambda>t. Inr (Some t)) else Inr None) (\<lambda>result.
     bind_r (bind_r (dict_item k_metadata stored) json_text) (\<lambda>metadata.
       Inr \<lparr>sq_arguments = arguments, sq_status = status, sq_result = result, sq_metadata = metadata\<rparr>)))))"

definition record_to_execution :: "sqlite_record \<Rightarrow> execution_id \<Rightarrow> exn + execution" where
  "record_to_execution r x =
     bind_r (case sq_result r of None \<Rightarrow> Inr JNull | Some t \<Rightarrow> json_loads True t) (\<lambda>result.
     bind_r (json_loads True (sq_metadata r)) (\<lambda>metadata.
       execution_from_dict x
         [(k_arguments, JStr (sq_arguments r)), (k_status, JStr (sq_status r)), (k_result, result),
          (k_metadata, metadata)]))"

section \<open>The database\<close>

record database =
  db_meta :: "int option"
  db_rows :: "(pystr \<times> pystr, sqlite_record) dict"
  db_domains :: "(pystr \<times> pystr, pystr) dict"

definition sqlite_format_version :: int where
  "sqlite_format_version = 1"

text \<open>The checks of the constructor on the table prefix: \<open>$\<close> also matches before a final newline.\<close>

definition identifier_start :: "nat \<Rightarrow> bool" where
  "identifier_start c \<longleftrightarrow> (65 \<le> c \<and> c \<le> 90) \<or> (97 \<le> c \<and> c \<le> 122) \<or> c = 95"

definition identifier_match :: "pystr \<Rightarrow> bool" where
  "identifier_match s \<longleftrightarrow>
     (case s of
        [] \<Rightarrow> False
      | c # cs \<Rightarrow> identifier_start c \<and>
          list_all (\<lambda>c. identifier_start c \<or> is_digit c)
            (if cs \<noteq> [] \<and> last cs = 10 then butlast cs else cs))"

definition ascii_lower :: "pystr \<Rightarrow> pystr" where
  "ascii_lower s = map (\<lambda>c. if 65 \<le> c \<and> c \<le> 90 then c + 32 else c) s"

definition check_table_prefix :: "pystr \<Rightarrow> exn + unit" where
  "check_table_prefix s =
     (if \<not> identifier_match s then Inl ValueError
      else if ascii_lower s = str_of ''sqlite'' \<or> starts_with (str_of ''sqlite_'') (ascii_lower s) then Inl ValueError
      else Inr ())"

definition stamp_or_check_meta :: "database \<Rightarrow> exn + database" where
  "stamp_or_check_meta db =
     (case db_meta db of
        None \<Rightarrow> Inr (db\<lparr>db_meta := Some sqlite_format_version\<rparr>)
      | Some v \<Rightarrow> if v \<noteq> sqlite_format_version then Inl StoreFormatVersionError else Inr db)"

text \<open>\<open>_immediate_transaction\<close>: the block's result is committed, what it raises rolls it back.\<close>

definition run_immediate :: "(database \<Rightarrow> exn + 'a \<times> database) \<Rightarrow> database \<Rightarrow> (exn + 'a) \<times> database" where
  "run_immediate operation db =
     (case operation db of Inl x \<Rightarrow> (Inl x, db) | Inr (r, db') \<Rightarrow> (Inr r, db'))"

definition initialize_schema :: "database \<Rightarrow> (exn + unit) \<times> database" where
  "initialize_schema db = run_immediate (\<lambda>db. bind_r (stamp_or_check_meta db) (\<lambda>db'. Inr ((), db'))) db"

section \<open>Commit\<close>

definition upsert_execution :: "pystr \<Rightarrow> execution \<Rightarrow> database \<Rightarrow> exn + database" where
  "upsert_execution sid e db =
     bind_r (record_from_execution e) (\<lambda>r.
     bind_r (execution_id_to_path (ex_id e)) (\<lambda>p.
     bind_r (bind_texts ([sid, p, sq_arguments r, sq_status r] @
               (case sq_result r of None \<Rightarrow> [] | Some t \<Rightarrow> [t]) @ [sq_metadata r])) (\<lambda>_.
       Inr (db\<lparr>db_rows := AList.update (sid, p) r (db_rows db)\<rparr>))))"

definition sqlite_apply_mutation :: "execution_key \<times> mutation \<Rightarrow> database \<Rightarrow> exn + database" where
  "sqlite_apply_mutation km db =
     (case snd km of
        DeleteExecution \<Rightarrow>
          bind_r (execution_id_to_path (key_execution (fst km))) (\<lambda>p.
          bind_r (bind_texts [session_id_value (key_session (fst km)), p]) (\<lambda>_.
            Inr (db\<lparr>db_rows := AList.delete (session_id_value (key_session (fst km)), p) (db_rows db)\<rparr>)))
      | SaveExecution sn \<Rightarrow>
          bind_r (to_execution sn) (\<lambda>e. upsert_execution (session_id_value (key_session (fst km))) e db))"

fun sqlite_apply_all :: "batch \<Rightarrow> database \<Rightarrow> exn + database" where
  "sqlite_apply_all [] db = Inr db"
| "sqlite_apply_all (km # b) db = bind_r (sqlite_apply_mutation km db) (sqlite_apply_all b)"

definition sqlite_commit_mutations :: "batch \<Rightarrow> database \<Rightarrow> exn + database" where
  "sqlite_commit_mutations b db =
     (if b = [] then Inr db
      else case run_immediate (\<lambda>db. bind_r (sqlite_apply_all b db) (\<lambda>db'. Inr ((), db'))) db of
        (Inl x, _) \<Rightarrow> Inl x
      | (Inr _, db') \<Rightarrow> Inr db')"

section \<open>Reading\<close>

definition sqlite_read_committed :: "pystr \<Rightarrow> pystr \<Rightarrow> database \<Rightarrow> exn + sqlite_record option" where
  "sqlite_read_committed sid p db =
     bind_r (bind_texts [sid, p]) (\<lambda>_. Inr (map_of (db_rows db) (sid, p)))"

definition session_rows :: "pystr \<Rightarrow> database \<Rightarrow> (pystr \<times> sqlite_record) list" where
  "session_rows sid db = map (\<lambda>((s, p), r). (p, r)) (filter (\<lambda>((s, p), r). s = sid) (db_rows db))"

definition order_by_path :: "(pystr \<times> 'v) list \<Rightarrow> (pystr \<times> 'v) list" where
  "order_by_path rows = sort_key (\<lambda>(p, r). collation_key p) rows"

definition read_session_executions :: "pystr \<Rightarrow> database \<Rightarrow> exn + (pystr \<times> sqlite_record) list" where
  "read_session_executions sid db = bind_r (bind_texts [sid]) (\<lambda>_. Inr (order_by_path (session_rows sid db)))"

definition delete_session_executions :: "pystr \<Rightarrow> database \<Rightarrow> exn + database" where
  "delete_session_executions sid db =
     bind_r (bind_texts [sid]) (\<lambda>_. Inr (db\<lparr>db_rows := filter (\<lambda>((s, p), r). s \<noteq> sid) (db_rows db)\<rparr>))"

text \<open>\<open>prefix[:-1] + chr(ord(prefix[-1]) + 1)\<close>: \<open>chr\<close> takes code points only.\<close>

definition prefix_upper_bound :: "pystr \<Rightarrow> exn + pystr" where
  "prefix_upper_bound prefix =
     (if prefix = [] then Inl IndexError
      else if last prefix + 1 > 0x10FFFF then Inl ValueError
      else Inr (butlast prefix @ [last prefix + 1]))"

definition select_range :: "pystr \<Rightarrow> pystr \<Rightarrow> database \<Rightarrow> exn + (pystr \<times> sqlite_record) list" where
  "select_range sid prefix db =
     (if prefix = [] then bind_r (bind_texts [sid]) (\<lambda>_. Inr (order_by_path (session_rows sid db)))
      else bind_r (prefix_upper_bound prefix) (\<lambda>ub.
           bind_r (bind_texts [sid, prefix, ub]) (\<lambda>_.
             Inr (order_by_path (filter (\<lambda>(p, r). text_le prefix p \<and> text_less p ub) (session_rows sid db))))))"

definition read_batch_size :: nat where
  "read_batch_size = 256"

function fetch_all :: "'r list \<Rightarrow> 'r list" where
  "fetch_all cursor =
     (let rows = take read_batch_size cursor
      in if rows = [] then [] else rows @ fetch_all (drop read_batch_size cursor))"
  by auto
termination
  by (relation "measure length") (auto simp: read_batch_size_def)

declare fetch_all.simps [simp del]

definition iter_committed :: "pystr \<Rightarrow> pystr \<Rightarrow> database \<Rightarrow> exn + (pystr \<times> sqlite_record) list" where
  "iter_committed sid prefix db = bind_r (select_range sid prefix db) (\<lambda>cursor. Inr (fetch_all cursor))"

section \<open>Repository and claims\<close>

definition sqlite_read :: "session_id \<Rightarrow> execution_id \<Rightarrow> database \<Rightarrow> exn + execution option" where
  "sqlite_read sess x db =
     bind_r (execution_id_to_path x) (\<lambda>p.
     bind_r (sqlite_read_committed (session_id_value sess) p db) (\<lambda>record.
       case record of None \<Rightarrow> Inr None | Some r \<Rightarrow> bind_r (record_to_execution r x) (\<lambda>e. Inr (Some e))))"

definition staged_for :: "session_id \<Rightarrow> pystr \<Rightarrow> batch \<Rightarrow> exn + (pystr, mutation) dict" where
  "staged_for sess prefix staged =
     bind_r (paths_of_items (session_batch sess staged)) (\<lambda>items.
       Inr (dict_of (filter (\<lambda>(p, m). starts_with prefix p) items)))"

definition staged_execution :: "mutation \<Rightarrow> exn + execution option" where
  "staged_execution m =
     (case m of SaveExecution sn \<Rightarrow> bind_r (to_execution sn) (\<lambda>e. Inr (Some e)) | DeleteExecution \<Rightarrow> Inr None)"

definition emit :: "execution_status option \<Rightarrow> execution option \<Rightarrow> execution list" where
  "emit status e = (case e of None \<Rightarrow> [] | Some e \<Rightarrow> if status_matches status e then [e] else [])"

text \<open>The committed rows and the staged mutations, both in path order, merged.\<close>

fun merge_staged ::
  "execution_status option \<Rightarrow> (pystr \<times> sqlite_record) list \<Rightarrow> (pystr \<times> mutation) list \<Rightarrow> exn + execution list" where
  "merge_staged status [] [] = Inr []"
| "merge_staged status [] ((q, m) # staged) =
     bind_r (staged_execution m) (\<lambda>e. bind_r (merge_staged status [] staged) (\<lambda>es. Inr (emit status e @ es)))"
| "merge_staged status ((p, r) # rows) [] =
     bind_r (bind_r (path_to_execution_id p) (record_to_execution r)) (\<lambda>e.
     bind_r (merge_staged status rows []) (\<lambda>es. Inr (emit status (Some e) @ es)))"
| "merge_staged status ((p, r) # rows) ((q, m) # staged) =
     (if q < p then
        bind_r (staged_execution m) (\<lambda>e.
        bind_r (merge_staged status ((p, r) # rows) staged) (\<lambda>es. Inr (emit status e @ es)))
      else if q = p then
        bind_r (staged_execution m) (\<lambda>e.
        bind_r (merge_staged status rows staged) (\<lambda>es. Inr (emit status e @ es)))
      else
        bind_r (bind_r (path_to_execution_id p) (record_to_execution r)) (\<lambda>e.
        bind_r (merge_staged status rows ((q, m) # staged)) (\<lambda>es. Inr (emit status (Some e) @ es))))"

definition sqlite_executions ::
  "session_id \<Rightarrow> execution_status option \<Rightarrow> execution_id option \<Rightarrow> batch \<Rightarrow> database \<Rightarrow> exn + execution list" where
  "sqlite_executions sess status below staged db =
     bind_r (under_prefix below) (\<lambda>prefix.
     bind_r (staged_for sess prefix staged) (\<lambda>items.
     bind_r (iter_committed (session_id_value sess) prefix db) (\<lambda>rows.
       merge_staged status rows (sort_items items))))"

definition sqlite_claim :: "pystr \<Rightarrow> pystr \<Rightarrow> pystr \<Rightarrow> database \<Rightarrow> exn + pystr \<times> database" where
  "sqlite_claim sid d v db =
     bind_r (bind_texts [sid, d, v]) (\<lambda>_.
       let inserted = (if map_of (db_domains db) (sid, d) = None
                       then db\<lparr>db_domains := AList.update (sid, d) v (db_domains db)\<rparr> else db)
       in case map_of (db_domains inserted) (sid, d) of
            None \<Rightarrow> Inl AssertionError
          | Some w \<Rightarrow> Inr (w, inserted))"

definition sqlite_claim_domain ::
  "session_id \<Rightarrow> domain_id \<Rightarrow> domain_version \<Rightarrow> database \<Rightarrow> exn + domain_version \<times> database" where
  "sqlite_claim_domain sess d v db =
     (case run_immediate (sqlite_claim (session_id_value sess) (domain_id_value d) (domain_version_value v)) db of
        (Inl x, _) \<Rightarrow> Inl x
      | (Inr w, db') \<Rightarrow> bind_r (mk_domain_version w) (\<lambda>w. Inr (w, db')))"

definition sqlite_client :: "database client" where
  "sqlite_client =
     \<lparr>cl_read = sqlite_read, cl_commit = sqlite_commit_mutations, cl_list = sqlite_executions,
      cl_claim = sqlite_claim_domain\<rparr>"

text \<open>The repository and the transactions of this backend, as the provider builds them.\<close>

definition sqlite_get :: "nat \<Rightarrow> session_id \<Rightarrow> execution_id \<Rightarrow> database backend \<Rightarrow> exn + execution option" where
  "sqlite_get c sess x st = repo_get sqlite_client c sess x st"

definition sqlite_save :: "nat \<Rightarrow> session_id \<Rightarrow> execution \<Rightarrow> database backend \<Rightarrow> exn + database backend" where
  "sqlite_save c sess e st = repo_save c sess e st"

definition sqlite_delete_many :: "nat \<Rightarrow> session_id \<Rightarrow> execution_id list \<Rightarrow> database backend \<Rightarrow> exn + database backend" where
  "sqlite_delete_many c sess xs st = repo_delete_many c sess xs st"

definition sqlite_begin :: "nat \<Rightarrow> database backend \<Rightarrow> transaction \<times> database backend" where
  "sqlite_begin c st = tx_begin c st"

definition sqlite_commit ::
  "nat \<Rightarrow> transaction \<Rightarrow> database backend \<Rightarrow> (exn + unit) \<times> transaction \<times> database backend" where
  "sqlite_commit c tx st = tx_commit sqlite_client c tx st"

definition sqlite_rollback ::
  "nat \<Rightarrow> transaction \<Rightarrow> database backend \<Rightarrow> (exn + unit) \<times> transaction \<times> database backend" where
  "sqlite_rollback c tx st = tx_rollback c tx st"

section \<open>Ranges, batches and the order of rows\<close>

lemma sort_key_same_order:
  assumes "\<And>x y. f x \<le> f y \<longleftrightarrow> g x \<le> g y"
  shows "sort_key f xs = sort_key g xs"
proof -
  have "insort_key f x ys = insort_key g x ys" for x ys by (induction ys) (simp_all add: assms)
  then have "insort_key f = insort_key g" by blast
  then show ?thesis by (simp add: sort_key_def)
qed

lemma order_by_path_sort_items: "order_by_path rows = sort_items rows"
  unfolding order_by_path_def sort_items_def
  by (rule sort_key_same_order) (use text_order(2) in \<open>auto simp: text_le_def split: prod.splits\<close>)

lemma fetch_all_id: "fetch_all rows = rows"
proof (induction rows rule: fetch_all.induct)
  case (1 cursor)
  then show ?case by (subst fetch_all.simps) (cases cursor; simp add: Let_def read_batch_size_def)
qed

lemma upper_bound_range:
  "q @ [c] \<le> p \<and> p < q @ [Suc c] \<longleftrightarrow> (\<exists>r. p = q @ c # (r :: pystr))"
proof (induction q arbitrary: p)
  case Nil
  show ?case by (cases p) auto
next
  case (Cons a q)
  show ?case using Cons.IH by (cases p) auto
qed

lemma prefix_range:
  assumes "prefix_upper_bound prefix = Inr ub"
  shows "prefix \<le> p \<and> p < ub \<longleftrightarrow> starts_with prefix p"
proof -
  obtain q c where q: "prefix = q @ [c]" using assms by (cases prefix rule: rev_cases) (auto simp: prefix_upper_bound_def)
  then have "ub = q @ [Suc c]" using assms by (auto simp: prefix_upper_bound_def split: if_splits)
  then show ?thesis using upper_bound_range [of q c p] by (simp add: q starts_with_iff)
qed

lemma select_range_eq:
  assumes "scalar_str sid" "prefix = [] \<or> (\<exists>q. prefix = q @ [47] \<and> scalar_str q)"
  shows "iter_committed sid prefix db = Inr (filter (\<lambda>(p, r). starts_with prefix p) (sort_items (session_rows sid db)))"
proof (cases "prefix = []")
  case True
  then show ?thesis
    using assms by (simp add: iter_committed_def select_range_def fetch_all_id bind_texts_iff order_by_path_sort_items starts_with_def)
next
  case False
  then obtain q where q: "prefix = q @ [47]" "scalar_str q" using assms(2) by blast
  then have ub: "prefix_upper_bound prefix = Inr (q @ [48])" by (simp add: prefix_upper_bound_def)
  have "filter (\<lambda>(p, r). text_le prefix p \<and> text_less p (q @ [48])) rows = filter (\<lambda>(p, r). starts_with prefix p) rows"
    for rows :: "(pystr \<times> sqlite_record) list"
    using prefix_range [OF ub] by (intro filter_cong) (auto simp: text_order)
  moreover have "sort_items (filter P rows) = filter P (sort_items rows)" for P and rows :: "(pystr \<times> sqlite_record) list"
    by (simp add: sort_items_def filter_sort)
  ultimately show ?thesis
    using assms(1) q False ub
    by (simp add: iter_committed_def select_range_def fetch_all_id bind_texts_iff order_by_path_sort_items)
qed

section \<open>The merge\<close>

text \<open>The merge of two lists in key order, the second one winning.\<close>

fun merge_items :: "('k :: linorder \<times> 'a) list \<Rightarrow> ('k \<times> 'a) list \<Rightarrow> ('k \<times> 'a) list" where
  "merge_items [] ms = ms"
| "merge_items (x # rs) [] = x # rs"
| "merge_items ((p, a) # rs) ((q, b) # ms) =
     (if q < p then (q, b) # merge_items ((p, a) # rs) ms
      else if q = p then (q, b) # merge_items rs ms
      else (p, a) # merge_items rs ((q, b) # ms))"

lemma merge_items_Nil2 [simp]: "merge_items rs [] = rs"
  by (cases rs) simp_all

lemma merge_items_keys: "fst ` set (merge_items rs ms) = fst ` set rs \<union> fst ` set ms"
  by (induction rs ms rule: merge_items.induct) auto

lemma merge_items_sorted:
  "sorted_wrt (<) (map fst rs) \<Longrightarrow> sorted_wrt (<) (map fst ms) \<Longrightarrow> sorted_wrt (<) (map fst (merge_items rs ms))"
proof (induction rs ms rule: merge_items.induct)
  case (3 p a rs q b ms)
  consider "q < p" | "q = p" | "p < q" by fastforce
  then show ?case
  proof cases
    case 1
    then have "\<forall>k \<in> fst ` set (merge_items ((p, a) # rs) ms). q < k"
      unfolding merge_items_keys using 3 by fastforce
    then show ?thesis using 1 3 by simp
  next
    case 2
    then have "\<forall>k \<in> fst ` set (merge_items rs ms). q < k"
      unfolding merge_items_keys using 3 by fastforce
    then show ?thesis using 2 3 by simp
  next
    case c: 3
    then have "\<forall>k \<in> fst ` set (merge_items rs ((q, b) # ms)). p < k"
      unfolding merge_items_keys using 3 by fastforce
    then show ?thesis using c 3 by simp
  qed
qed simp_all

lemma map_of_sorted_None: "\<forall>y \<in> set xs. k < fst y \<Longrightarrow> map_of xs (k :: 'k :: linorder) = None"
  by (induction xs) auto

lemma map_of_merge_items:
  "sorted_wrt (<) (map fst rs) \<Longrightarrow> sorted_wrt (<) (map fst ms) \<Longrightarrow>
     map_of (merge_items rs ms) k = (case map_of ms k of None \<Rightarrow> map_of rs k | Some b \<Rightarrow> Some b)"
proof (induction rs ms rule: merge_items.induct)
  case (3 p a rs q b ms)
  consider "q < p" | "q = p" | "p < q" by fastforce
  then show ?case
  proof cases
    case c: 3
    then have "\<forall>y \<in> set ((q, b) # ms). p < fst y" using 3 by fastforce
    then have "map_of ((q, b) # ms) p = None" by (rule map_of_sorted_None)
    then show ?thesis using c 3 by (auto split: option.split)
  qed (use 3 in \<open>auto split: option.split\<close>)
qed (simp_all split: option.split)

lemma merge_staged_items:
  assumes "\<forall>(p, r) \<in> set rows. bind_r (path_to_execution_id p) (record_to_execution r) = Inr (f p r)"
    and "\<forall>(q, m) \<in> set staged. staged_execution m = Inr (g m)"
  shows "merge_staged status rows staged =
     Inr (concat (map (\<lambda>(p, e). emit status e)
       (merge_items (map (\<lambda>(p, r). (p, Some (f p r))) rows) (map (\<lambda>(q, m). (q, g m)) staged))))"
  using assms by (induction status rows staged rule: merge_staged.induct) auto

section \<open>Rows\<close>

lemma json_text_value_row:
  assumes "json_ok True j" "json_scalar j"
  shows "\<exists>t. json_text j = Inr t \<and> scalar_str t \<and> json_loads True t = Inr (sort_json j)"
proof -
  have st: "ws_style (compact True)" "js_nan (compact True)" by (simp_all add: ws_style_def ws_indent_def compact_def)
  obtain t where t: "json_dumps (compact True) j = Inr t"
    using json_dump_total [of "compact True" j 0] assms by (auto simp: json_dumps_def compact_def)
  have "scalar_str t" using json_dump_scalar [of "compact True" j 0 t] t assms st by (simp add: json_dumps_def)
  moreover have "json_loads True t = Inr (sort_json j)"
    using json_roundtrip [of "compact True" j t] t assms st by simp
  ultimately show ?thesis using t by (simp add: json_text_def)
qed

definition record_scalar :: "sqlite_record \<Rightarrow> bool" where
  "record_scalar r \<longleftrightarrow> scalar_str (sq_arguments r) \<and> scalar_str (sq_status r) \<and>
     (\<forall>t \<in> set_option (sq_result r). scalar_str t) \<and> scalar_str (sq_metadata r)"

lemma bind_record:
  "bind_texts (sid # p # sq_arguments r # sq_status r #
     (case sq_result r of None \<Rightarrow> [] | Some t \<Rightarrow> [t]) @ [sq_metadata r])
   = (if scalar_str sid \<and> scalar_str p \<and> record_scalar r then Inr () else Inl UnicodeEncodeError)"
  unfolding bind_texts_iff record_scalar_def by (cases "sq_result r") auto

lemma record_roundtrip:
  assumes "storable_execution e"
  shows "\<exists>r. record_from_execution e = Inr r \<and> record_scalar r \<and>
    record_to_execution r (ex_id e) = Inr (normal_execution e)"
proof -
  have valid: "valid_execution e" and rec: "recordable (ex_arguments e)" and j: "json_execution e"
    using assms by (simp_all add: storable_execution_def)
  have w: "json_ok True (result_json e)" "json_scalar (result_json e)"
    using json_executionD(1) [OF j] parsed_value_simps(2,3) by (cases "ex_result e"; auto simp: result_json_def)+
  obtain tr where tr: "json_text (result_json e) = Inr tr" "scalar_str tr" "json_loads True tr = Inr (sort_json (result_json e))"
    using json_text_value_row [OF w] by blast
  have wm: "json_ok True (JObj (metadata_json e))" "json_scalar (JObj (metadata_json e))"
    using json_executionD(2,3) [OF j] parsed_value_simps(2,3) valid
    by (auto simp: metadata_json_def valid_execution_def metadata_ok_def comp_def case_prod_unfold)
  obtain tm where tm: "json_text (JObj (metadata_json e)) = Inr tm" "scalar_str tm"
    "json_loads True tm = Inr (sort_json (JObj (metadata_json e)))"
    using json_text_value_row [OF wm] by blast
  obtain a where a: "utf8_encode a = Inr (ca_data (ex_arguments e))" "arguments_text e = a"
    by (rule recordable_text [OF rec]) (simp add: arguments_text_def)
  let ?r = "\<lparr>sq_arguments = a, sq_status = status_name (ex_status e),
     sq_result = (if ex_result e = None then None else Some tr), sq_metadata = tm\<rparr>"
  have "record_from_execution e = Inr ?r"
    using tr(1) tm(1) a(2)
    by (simp add: record_from_execution_def execution_to_dict_stored [OF assms] str_item_def dict_item_def)
  moreover have "record_scalar ?r"
    using utf8_encode_scalar [OF a(1)] tr(2) tm(2) by (cases "ex_status e") (simp_all add: record_scalar_def status_name_def)
  moreover have "record_to_execution ?r (ex_id e) = Inr (normal_execution e)"
  proof -
    let ?res = "if ex_result e = None then JNull else sort_json (result_json e)"
    let ?d = "[(k_arguments, JStr a), (k_status, JStr (status_name (ex_status e))), (k_result, ?res),
       (k_metadata, sort_json (JObj (metadata_json e)))]"
    have res: "?res = result_json e \<or> ?res = sort_json (result_json e)" by (simp add: result_json_def)
    have um: "unpack_metadata (sort_json (JObj (metadata_json e))) = Inr (normal_metadata (ex_metadata e))"
      unfolding sort_metadata_json normal_metadata_def
      by (rule unpack_metadata_map) (use parsed_value_simps(5) json_executionD(2) [OF j] in auto)
    have "execution_from_dict (ex_id e) ?d = Inr (normal_execution e)"
      unfolding normal_execution_def
      by (rule execution_from_dict_fields [OF assms _ _ _ res _ um]) (simp_all add: a(2))
    then show ?thesis
      using tr(3) tm(3) by (cases "ex_result e") (simp_all add: record_to_execution_def)
  qed
  ultimately show ?thesis by blast
qed

section \<open>The invariant of the database\<close>

definition row_ok :: "pystr \<Rightarrow> sqlite_record \<Rightarrow> bool" where
  "row_ok p r \<longleftrightarrow>
     (\<exists>e. storable_execution e \<and> storable_id (ex_id e) \<and> p = pc.path_of (ex_id e) \<and> record_from_execution e = Inr r)"

definition sqlite_inv :: "database \<Rightarrow> bool" where
  "sqlite_inv db \<longleftrightarrow> db_meta db = Some sqlite_format_version \<and>
     distinct (map fst (db_rows db)) \<and> (\<forall>((sid, p), r) \<in> set (db_rows db). row_ok p r) \<and>
     (\<forall>sid d v. map_of (db_domains db) (sid, d) = Some v \<longrightarrow> v \<noteq> [])"

lemma row_okE:
  assumes "row_ok p r" "storable_id x" "p = pc.path_of x"
  obtains e where "storable_execution e" "ex_id e = x" "record_from_execution e = Inr r"
    "record_to_execution r x = Inr (normal_execution e)"
proof -
  obtain e where e: "storable_execution e" "storable_id (ex_id e)" "p = pc.path_of (ex_id e)" "record_from_execution e = Inr r"
    using assms(1) [unfolded row_ok_def] by (elim exE conjE) (rule that; (intro conjI)?; assumption)
  have x: "ex_id e = x" by (rule pc.path_of_inj [OF e(2) assms(2) trans [OF sym [OF e(3)] assms(3)]])
  obtain r' where r': "record_from_execution e = Inr r'" "record_to_execution r' (ex_id e) = Inr (normal_execution e)"
    using record_roundtrip [OF e(1)] by blast
  have "r' = r" using e(4) r'(1) by simp
  with r'(2) have "record_to_execution r x = Inr (normal_execution e)" by (simp only: x)
  then show ?thesis by (rule that [OF e(1) x e(4)])
qed

lemma sqlite_inv_row: "sqlite_inv db \<Longrightarrow> map_of (db_rows db) (sid, p) = Some r \<Longrightarrow> row_ok p r"
  by (auto simp: sqlite_inv_def dest!: map_of_SomeD)

lemma sqlite_read_at:
  assumes "session_ok sess" "storable_id x"
  shows "sqlite_read sess x db =
    (case map_of (db_rows db) (session_id_value sess, pc.path_of x) of
       None \<Rightarrow> Inr None | Some r \<Rightarrow> bind_r (record_to_execution r x) (\<lambda>e. Inr (Some e)))"
  using assms path_scalar [OF pc.path_of_eq [OF assms(2)]]
  by (simp add: sqlite_read_def pc.path_of_eq sqlite_read_committed_def bind_texts_iff session_ok_def)

lemma sqlite_read_cases:
  assumes "sqlite_inv db" "session_ok sess" "storable_id x"
  shows "sqlite_read sess x db = Inr None \<or>
    (\<exists>e. storable_execution e \<and> ex_id e = x \<and> sqlite_read sess x db = Inr (Some (normal_execution e)))"
proof (cases "map_of (db_rows db) (session_id_value sess, pc.path_of x)")
  case None
  then show ?thesis by (simp add: sqlite_read_at [OF assms(2,3)])
next
  case (Some r)
  obtain e where e: "storable_execution e" "ex_id e = x" "record_to_execution r x = Inr (normal_execution e)"
    by (rule row_okE [OF sqlite_inv_row [OF assms(1) Some] assms(3) refl])
  then have "sqlite_read sess x db = Inr (Some (normal_execution e))" using Some by (simp add: sqlite_read_at [OF assms(2,3)])
  with e show ?thesis by blast
qed

text \<open>One mutation, and a batch.\<close>

definition mutation_record :: "mutation \<Rightarrow> sqlite_record option" where
  "mutation_record m =
     (case m of DeleteExecution \<Rightarrow> None
      | SaveExecution sn \<Rightarrow>
          (case bind_r (to_execution sn) record_from_execution of Inr r \<Rightarrow> Some r | Inl _ \<Rightarrow> None))"

lemma sqlite_apply_mutation_ok:
  assumes "sqlite_inv db" "batch_ok storable_execution ((k, m) # b)"
  shows "sqlite_apply_mutation (k, m) db = Inr (db\<lparr>db_rows :=
      (case mutation_record m of
         None \<Rightarrow> AList.delete (session_id_value (key_session k), pc.path_of (key_execution k)) (db_rows db)
       | Some r \<Rightarrow> AList.update (session_id_value (key_session k), pc.path_of (key_execution k)) r (db_rows db))\<rparr>) \<and>
    (m = DeleteExecution \<longleftrightarrow> mutation_record m = None) \<and>
    (\<forall>r. mutation_record m = Some r \<longrightarrow> row_ok (pc.path_of (key_execution k)) r)"
proof -
  have k: "scalar_str (session_id_value (key_session k))" "storable_id (key_execution k)"
    and m: "case m of DeleteExecution \<Rightarrow> True
      | SaveExecution sn \<Rightarrow> \<exists>e. storable_execution e \<and> ex_id e = key_execution k \<and> sn = from_execution e"
    using assms(2) by (simp_all add: batch_ok_simps session_ok_def)
  note p = pc.path_of_eq [OF k(2)] path_scalar [OF pc.path_of_eq [OF k(2)]]
  show ?thesis
  proof (cases m)
    case (SaveExecution sn)
    then obtain e where e: "storable_execution e" "ex_id e = key_execution k" "sn = from_execution e" using m by auto
    have s: "storable_execution (sort_execution e)" using e(1) by simp
    obtain r where r: "record_from_execution (sort_execution e) = Inr r" "record_scalar r" using record_roundtrip [OF s] by blast
    have "row_ok (pc.path_of (key_execution k)) r"
      unfolding row_ok_def using s r(1) k(2) e(2) by (intro exI [of _ "sort_execution e"]) simp
    then show ?thesis
      using SaveExecution e k p r
      by (simp add: sqlite_apply_mutation_def mutation_record_def to_from_execution_storable upsert_execution_def bind_record)
  qed (use k p in \<open>simp add: sqlite_apply_mutation_def mutation_record_def bind_texts_iff\<close>)
qed

lemma sqlite_inv_rows:
  assumes "sqlite_inv db" "\<forall>r. v = Some r \<longrightarrow> row_ok (snd key) r"
  shows "sqlite_inv (db\<lparr>db_rows := (case v of None \<Rightarrow> AList.delete key (db_rows db) | Some r \<Rightarrow> AList.update key r (db_rows db))\<rparr>)"
proof (cases v)
  case None
  then show ?thesis using assms(1) by (auto simp: sqlite_inv_def AList.delete_eq distinct_map_filter)
next
  case (Some r)
  have "row_ok p r'" if "((sid, p), r') \<in> set (AList.update key r (db_rows db))" for sid p r'
  proof -
    have "distinct (map fst (AList.update key r (db_rows db)))" using assms(1) by (simp add: sqlite_inv_def distinct_update)
    then have "map_of (AList.update key r (db_rows db)) (sid, p) = Some r'" using that by (rule map_of_is_SomeI)
    then have "(sid, p) = key \<and> r' = r \<or> map_of (db_rows db) (sid, p) = Some r'"
      by (simp add: AList.update_conv' split: if_splits)
    then show ?thesis using assms(2) Some sqlite_inv_row [OF assms(1)] by (auto simp del: map_of_eq_Some_iff)
  qed
  then show ?thesis using assms(1) Some by (auto simp: sqlite_inv_def distinct_update)
qed

text \<open>The row a batch leaves at a key.\<close>

lemma sqlite_apply_all_ok:
  assumes "sqlite_inv db" "batch_ok storable_execution b"
  shows "\<exists>db'. sqlite_apply_all b db = Inr db' \<and> sqlite_inv db' \<and> db_domains db' = db_domains db \<and>
    (\<forall>sess x. storable_id x \<longrightarrow> map_of (db_rows db') (session_id_value sess, pc.path_of x)
       = (case map_of b (ExecutionKey sess x) of Some m \<Rightarrow> mutation_record m
          | None \<Rightarrow> map_of (db_rows db) (session_id_value sess, pc.path_of x)))"
  using assms
proof (induction b arbitrary: db)
  case (Cons km b)
  obtain k m where km: "km = (k, m)" by fastforce
  let ?key = "(session_id_value (key_session k), pc.path_of (key_execution k))"
  let ?db = "db\<lparr>db_rows := (case mutation_record m of None \<Rightarrow> AList.delete ?key (db_rows db)
       | Some r \<Rightarrow> AList.update ?key r (db_rows db))\<rparr>"
  have b: "batch_ok storable_execution ((k, m) # b)" using Cons.prems(2) km by simp
  note step = sqlite_apply_mutation_ok [OF Cons.prems(1) b]
  have inv: "sqlite_inv ?db" by (rule sqlite_inv_rows [OF Cons.prems(1)]) (use step in simp)
  have b': "batch_ok storable_execution b" "map_of b k = None" "storable_id (key_execution k)"
    using b by (simp_all add: batch_ok_simps map_of_eq_None_iff)
  obtain db' where db': "sqlite_apply_all b ?db = Inr db'" "sqlite_inv db'" "db_domains db' = db_domains db"
    "\<forall>sess x. storable_id x \<longrightarrow> map_of (db_rows db') (session_id_value sess, pc.path_of x)
       = (case map_of b (ExecutionKey sess x) of Some m \<Rightarrow> mutation_record m
          | None \<Rightarrow> map_of (db_rows ?db) (session_id_value sess, pc.path_of x))"
    using Cons.IH [OF inv b'(1)] by auto
  have rows: "map_of (db_rows ?db) key = (if key = ?key then mutation_record m else map_of (db_rows db) key)" for key
    by (cases "mutation_record m") (simp_all add: AList.update_conv' AList.delete_conv')
  have "map_of (db_rows db') (session_id_value sess, pc.path_of x)
       = (case map_of ((k, m) # b) (ExecutionKey sess x) of Some m \<Rightarrow> mutation_record m
          | None \<Rightarrow> map_of (db_rows db) (session_id_value sess, pc.path_of x))" if x: "storable_id x" for sess x
  proof (cases "k = ExecutionKey sess x")
    case True
    then have k: "key_session k = sess" "key_execution k = x" by simp_all
    have "map_of (db_rows db') (session_id_value sess, pc.path_of x) = map_of (db_rows ?db) ?key"
      unfolding db'(4) [rule_format, OF x] True [symmetric] b'(2) option.case k ..
    also have "\<dots> = mutation_record m" by (simp only: rows if_True simp_thms)
    finally show ?thesis by (simp add: True)
  next
    case False
    have "(session_id_value sess, pc.path_of x) \<noteq> ?key"
    proof
      assume "(session_id_value sess, pc.path_of x) = ?key"
      then have "sess = key_session k" "x = key_execution k"
        using pc.path_of_inj [OF x b'(3)] by (auto intro: session_id.expand)
      with False show False by (cases k) simp
    qed
    then have "map_of (db_rows ?db) (session_id_value sess, pc.path_of x) = map_of (db_rows db) (session_id_value sess, pc.path_of x)"
      by (simp only: rows if_False simp_thms)
    with False show ?thesis
      unfolding db'(4) [rule_format, OF x] by (cases "map_of b (ExecutionKey sess x)") auto
  qed
  then show ?case using step db' km by (intro exI [of _ db']) simp
qed simp

lemma sqlite_commit_ok:
  assumes "sqlite_inv db" "batch_ok storable_execution b"
  shows "\<exists>db'. sqlite_commit_mutations b db = Inr db' \<and> sqlite_inv db' \<and> db_domains db' = db_domains db \<and>
    (\<forall>sess x. storable_id x \<longrightarrow> map_of (db_rows db') (session_id_value sess, pc.path_of x)
       = (case map_of b (ExecutionKey sess x) of Some m \<Rightarrow> mutation_record m
          | None \<Rightarrow> map_of (db_rows db) (session_id_value sess, pc.path_of x)))"
proof (cases "b = []")
  case True
  then show ?thesis using assms(1) by (simp add: sqlite_commit_mutations_def)
next
  case False
  obtain db' where db': "sqlite_apply_all b db = Inr db'" "sqlite_inv db'" "db_domains db' = db_domains db"
    "\<forall>sess x. storable_id x \<longrightarrow> map_of (db_rows db') (session_id_value sess, pc.path_of x)
       = (case map_of b (ExecutionKey sess x) of Some m \<Rightarrow> mutation_record m
          | None \<Rightarrow> map_of (db_rows db) (session_id_value sess, pc.path_of x))"
    using sqlite_apply_all_ok [OF assms] by blast
  then have "sqlite_commit_mutations b db = Inr db'" using False by (simp add: sqlite_commit_mutations_def run_immediate_def)
  with db' show ?thesis by blast
qed

lemma mutation_record_save:
  assumes "storable_execution e"
  obtains r where "mutation_record (SaveExecution (from_execution e)) = Some r"
    "record_to_execution r (ex_id e) = Inr (normal_execution e)"
proof -
  have s: "storable_execution (sort_execution e)" using assms by simp
  obtain r where "record_from_execution (sort_execution e) = Inr r"
    "record_to_execution r (ex_id (sort_execution e)) = Inr (normal_execution (sort_execution e))"
    using record_roundtrip [OF s] by blast
  then show ?thesis using that assms by (simp add: mutation_record_def to_from_execution_storable)
qed

lemma sqlite_client_simps [simp]:
  "cl_read sqlite_client = sqlite_read" "cl_commit sqlite_client = sqlite_commit_mutations"
  "cl_list sqlite_client = sqlite_executions" "cl_claim sqlite_client = sqlite_claim_domain"
  by (simp_all add: sqlite_client_def)

lemma sqlite_read_commit:
  assumes inv: "sqlite_inv db" and b: "batch_ok storable_execution b" and x: "session_ok sess" "storable_id x"
    and commit: "sqlite_commit_mutations b db = Inr db'"
  shows "sqlite_read sess x db' = map_sum id (map_option normal_execution) (visible sqlite_client sess x b db)"
proof -
  have at: "map_of (db_rows db') (session_id_value sess, pc.path_of x)
       = (case map_of b (ExecutionKey sess x) of Some m \<Rightarrow> mutation_record m
          | None \<Rightarrow> map_of (db_rows db) (session_id_value sess, pc.path_of x))"
    using sqlite_commit_ok [OF inv b] commit x(2) by auto
  show ?thesis
  proof (cases "map_of b (ExecutionKey sess x)")
    case None
    then have "sqlite_read sess x db' = sqlite_read sess x db" using at by (simp add: sqlite_read_at [OF x])
    moreover have "visible sqlite_client sess x b db = sqlite_read sess x db" using None by (simp add: visible_def)
    moreover have "map_sum id (map_option normal_execution) (sqlite_read sess x db) = sqlite_read sess x db"
      using sqlite_read_cases [OF inv x] by (auto simp: normal_execution_idem)
    ultimately show ?thesis by simp
  next
    case (Some m)
    show ?thesis
    proof (cases m)
      case (SaveExecution sn)
      obtain e where e: "storable_execution e" "ex_id e = x" "sn = from_execution e"
        using batch_ok_SomeD [OF b] Some SaveExecution by blast
      obtain r where "mutation_record m = Some r" "record_to_execution r x = Inr (normal_execution e)"
        using mutation_record_save [OF e(1)] e(2,3) SaveExecution by metis
      then show ?thesis
        using at Some SaveExecution e by (simp add: sqlite_read_at [OF x] visible_def to_from_execution_storable)
    next
      case DeleteExecution
      then show ?thesis using at Some by (simp add: sqlite_read_at [OF x] visible_def mutation_record_def)
    qed
  qed
qed

interpretation sq: store_contract sqlite_client sqlite_inv storable_execution normal_execution
proof
  fix s sess x assume a: "sqlite_inv s" "session_ok sess" "storable_id x"
  show "\<exists>r. cl_read sqlite_client sess x s = Inr r" using sqlite_read_cases [OF a] by auto
  fix e assume "cl_read sqlite_client sess x s = Inr (Some e)"
  then show "ex_id e = x \<and> storable_execution e \<and> normal_execution e = e"
    using sqlite_read_cases [OF a] by (auto simp: storable_normal normal_execution_idem)
next
  fix s b assume "sqlite_inv s" "batch_ok storable_execution b"
  from sqlite_commit_ok [OF this] show "\<exists>s'. cl_commit sqlite_client b s = Inr s' \<and> sqlite_inv s'" by auto
next
  fix e assume "storable_execution e"
  then show "valid_execution e \<and> recordable (ex_arguments e)" by (simp add: storable_execution_def)
qed (simp_all add: sqlite_read_commit storable_normal normal_execution_idem)

section \<open>Listing\<close>

lemma sorted_emit:
  assumes "sorted_wrt (<) (map fst M)" "\<forall>(p, eo) \<in> set M. \<forall>e \<in> set_option eo. P e = p"
  shows "sorted_wrt (\<lambda>e e'. P e < (P e' :: 'k :: linorder)) (concat (map (\<lambda>(p, e). emit status e) M))"
  using assms
proof (induction M)
  case (Cons x M)
  obtain p eo where x: "x = (p, eo)" by fastforce
  have "p < P e'" if e': "e' \<in> set (concat (map (\<lambda>(p, e). emit status e) M))" for e'
  proof -
    obtain p' where "(p', Some e') \<in> set M" using e' by (auto simp: emit_def split: option.splits if_splits)
    then show ?thesis using Cons.prems x by fastforce
  qed
  then show ?case using Cons x by (cases eo) (auto simp: emit_def)
qed simp

lemma set_emit: "e \<in> set (concat (map (\<lambda>(p, e). emit status e) M)) \<longleftrightarrow> status_matches status e \<and> (\<exists>p. (p, Some e) \<in> set M)"
  by (force simp: emit_def split: option.splits if_splits)

lemma session_rows_distinct:
  assumes "distinct (map fst (db_rows db))"
  shows "distinct (map fst (session_rows sid db))"
proof -
  have "inj_on snd (fst ` set (filter (\<lambda>((s, p), r). s = sid) (db_rows db)))" by (rule inj_onI) auto
  moreover have "distinct (map fst (filter (\<lambda>((s, p), r). s = sid) (db_rows db)))" using assms by (simp add: distinct_map_filter)
  ultimately have "distinct (map snd (map fst (filter (\<lambda>((s, p), r). s = sid) (db_rows db))))"
    by (subst distinct_map) simp
  then show ?thesis by (simp add: session_rows_def comp_def split_beta)
qed

lemma map_of_session_rows: "map_of (session_rows sid db) p = map_of (db_rows db) (sid, p)"
proof -
  have "map_of (map (\<lambda>((s, p), r). (p, r)) (filter (\<lambda>((s, p), r). s = sid) rows)) p = map_of rows (sid, p)" for rows
    by (induction rows) auto
  then show ?thesis by (simp add: session_rows_def)
qed

lemma sorted_filter_items:
  assumes "distinct (map fst d)"
  shows "sorted_wrt (<) (map fst (filter P (sort_items (d :: (pystr, 'v) dict))))"
proof -
  have "sorted_wrt (<) (map fst (sort_items d))" using assms by (simp add: strict_sorted_iff)
  then show ?thesis by (simp add: sorted_wrt_map sorted_wrt_filter)
qed

lemma map_of_filter_key: "map_of (filter (\<lambda>(k, v). P k) d) k = (if P k then map_of d k else None)"
  by (induction d) auto

text \<open>Both sides of the merge, as dictionaries from path to what the listing shows there.\<close>

lemma merged_view:
  assumes inv: "sqlite_inv db" and b: "batch_ok storable_execution b" and sess: "session_ok sess"
    and pre: "pre = [] \<or> (\<exists>q. pre = q @ [47] \<and> scalar_str q)"
  shows "\<exists>M items rows. staged_for sess pre b = Inr items \<and> iter_committed (session_id_value sess) pre db = Inr rows \<and>
    merge_staged status rows (sort_items items) = Inr (concat (map (\<lambda>(p, e). emit status e) M)) \<and>
    sorted_wrt (<) (map fst M) \<and>
    (\<forall>p \<in> fst ` set M. starts_with pre p \<and> (\<exists>x. storable_id x \<and> p = pc.path_of x)) \<and>
    (\<forall>x. storable_id x \<longrightarrow> starts_with pre (pc.path_of x) \<longrightarrow>
       (case map_of M (pc.path_of x) of
          Some (Some e) \<Rightarrow> visible sqlite_client sess x b db = Inr (Some e) \<and> ex_id e = x
        | _ \<Rightarrow> visible sqlite_client sess x b db = Inr None))"
proof -
  let ?sid = "session_id_value sess"
  let ?mut = "session_batch sess b"
  have db: "distinct (map fst (db_rows db))" using inv by (simp add: sqlite_inv_def)
  have mut_ok: "\<forall>(x, m) \<in> set ?mut. storable_id x" using batch_okD [OF b] by (auto simp: session_batch_def)
  have "distinct (map fst b)" using b by (simp add: batch_ok_def)
  then have mut_dist: "distinct (map fst ?mut)" unfolding session_batch_def by (rule distinct_session_items)
  let ?paths = "map (map_prod pc.path_of id) ?mut"
  let ?items = "filter (\<lambda>(p, m). starts_with pre p) ?paths"
  have pd: "distinct (map fst ?paths)" by (rule distinct_path_items [OF mut_dist mut_ok])
  then have items_dist: "distinct (map fst ?items)" by (simp add: distinct_map_filter)
  have items: "staged_for sess pre b = Inr ?items"
    by (simp only: staged_for_def paths_of_items_ok [OF mut_ok] bind_r_simps dict_of_distinct [OF items_dist])
  let ?rows = "filter (\<lambda>(p, r). starts_with pre p) (sort_items (session_rows ?sid db))"
  have rows: "iter_committed ?sid pre db = Inr ?rows"
    by (rule select_range_eq) (use sess pre in \<open>auto simp: session_ok_def\<close>)
  define f where "f = (\<lambda>p r. projr (bind_r (path_to_execution_id p) (record_to_execution r)))"
  define g where "g = (\<lambda>m. projr (staged_execution m))"
  have row: "\<exists>x e. storable_id x \<and> p = pc.path_of x \<and> ex_id e = x \<and> record_to_execution r x = Inr (normal_execution e) \<and>
      bind_r (path_to_execution_id p) (record_to_execution r) = Inr (normal_execution e)"
    if pr: "(p, r) \<in> set (session_rows ?sid db)" for p r
  proof -
    have "row_ok p r" using pr inv by (auto simp: session_rows_def sqlite_inv_def)
    then obtain x where x: "storable_id x" "p = pc.path_of x" unfolding row_ok_def by metis
    obtain e where e: "ex_id e = x" "record_to_execution r x = Inr (normal_execution e)"
      by (rule row_okE [OF \<open>row_ok p r\<close> x])
    then show ?thesis using x pc.of_to_path [OF x(1) pc.path_of_eq [OF x(1)]] by auto
  qed
  have F: "\<forall>(p, r) \<in> set ?rows. bind_r (path_to_execution_id p) (record_to_execution r) = Inr (f p r)"
    using row by (fastforce simp: f_def)
  have stg: "\<exists>eo. staged_execution m = Inr eo" if xm: "(x, m) \<in> set ?mut" for x m
  proof -
    obtain k where "(k, m) \<in> set b" using xm by (auto simp: session_batch_def)
    then show ?thesis
      using batch_okD [OF b, of k m]
      by (cases m) (auto simp: staged_execution_def to_from_execution_storable)
  qed
  have G: "\<forall>(q, m) \<in> set (sort_items ?items). staged_execution m = Inr (g m)"
    using stg by (fastforce simp: g_def)
  define M where "M = merge_items (map (\<lambda>(p, r). (p, Some (f p r))) ?rows) (map (\<lambda>(q, m). (q, g m)) (sort_items ?items))"
  have fsts: "map fst (map (\<lambda>(p, r). (p, Some (f p r))) ?rows) = map fst ?rows"
    "map fst (map (\<lambda>(q, m). (q, g m)) (sort_items ?items)) = map fst (sort_items ?items)"
    by (simp_all add: comp_def case_prod_unfold)
  have srt: "sorted_wrt (<) (map fst (map (\<lambda>(p, r). (p, Some (f p r))) ?rows))"
    "sorted_wrt (<) (map fst (map (\<lambda>(q, m). (q, g m)) (sort_items ?items)))"
    unfolding fsts using sorted_filter_items [OF session_rows_distinct [OF db]]
      sorted_filter_items [OF items_dist, of "\<lambda>_. True"] by simp_all
  have keys: "starts_with pre p \<and> (\<exists>x. storable_id x \<and> p = pc.path_of x)" if "p \<in> fst ` set M" for p
    using that row mut_ok unfolding M_def merge_items_keys by fastforce
  have at: "map_of M (pc.path_of x) = (case map_of b (ExecutionKey sess x) of
        None \<Rightarrow> map_option (\<lambda>r. Some (f (pc.path_of x) r)) (map_of (db_rows db) (?sid, pc.path_of x))
      | Some m \<Rightarrow> Some (g m))" if x: "storable_id x" "starts_with pre (pc.path_of x)" for x
  proof -
    have 1: "map_of (sort_items ?items) (pc.path_of x) = map_of b (ExecutionKey sess x)"
      unfolding map_of_sort_items [OF items_dist] map_of_filter_key map_of_path_items [OF mut_ok x(1)]
      using x(2) by (simp add: session_batch_def map_of_session_items)
    have 2: "map_of ?rows (pc.path_of x) = map_of (db_rows db) (?sid, pc.path_of x)"
      unfolding map_of_filter_key map_of_sort_items [OF session_rows_distinct [OF db]] map_of_session_rows
      using x(2) by simp
    have 3: "map_of (map (\<lambda>(q, m). (q, g m)) d) k = map_option g (map_of d k)" for d k by (induction d) auto
    have 4: "map_of (map (\<lambda>(p, r). (p, Some (f p r))) d) k = map_option (\<lambda>r. Some (f k r)) (map_of d k)" for d k
      by (induction d) auto
    show ?thesis unfolding M_def map_of_merge_items [OF srt] 3 4 1 2 by (simp split: option.split)
  qed
  have view: "case map_of M (pc.path_of x) of
          Some (Some e) \<Rightarrow> visible sqlite_client sess x b db = Inr (Some e) \<and> ex_id e = x
        | _ \<Rightarrow> visible sqlite_client sess x b db = Inr None" if x: "storable_id x" "starts_with pre (pc.path_of x)" for x
  proof (cases "map_of b (ExecutionKey sess x)")
    case None
    then have vis: "visible sqlite_client sess x b db = sqlite_read sess x db" by (simp add: visible_def)
    show ?thesis
    proof (cases "map_of (db_rows db) (?sid, pc.path_of x)")
      case none: None
      then show ?thesis using None by (simp add: at [OF x] vis sqlite_read_at [OF sess x(1)])
    next
      case (Some r)
      obtain e where e: "ex_id e = x" "record_to_execution r x = Inr (normal_execution e)"
        by (rule row_okE [OF sqlite_inv_row [OF inv Some] x(1) refl])
      then have "f (pc.path_of x) r = normal_execution e"
        using pc.of_to_path [OF x(1) pc.path_of_eq [OF x(1)]] by (simp add: f_def)
      then show ?thesis using None Some e by (simp add: at [OF x] vis sqlite_read_at [OF sess x(1)])
    qed
  next
    case (Some m)
    show ?thesis
    proof (cases m)
      case (SaveExecution sn)
      then obtain e where "storable_execution e" "ex_id e = x" "sn = from_execution e"
        using batch_ok_SomeD [OF b] Some by blast
      then show ?thesis
        using Some SaveExecution by (simp add: at [OF x] visible_def g_def staged_execution_def to_from_execution_storable)
    qed (use Some in \<open>simp add: at [OF x] visible_def g_def staged_execution_def\<close>)
  qed
  have 1: "\<forall>p \<in> fst ` set M. starts_with pre p \<and> (\<exists>x. storable_id x \<and> p = pc.path_of x)" by (rule ballI) (rule keys)
  have 2: "\<forall>x. storable_id x \<longrightarrow> starts_with pre (pc.path_of x) \<longrightarrow>
       (case map_of M (pc.path_of x) of
          Some (Some e) \<Rightarrow> visible sqlite_client sess x b db = Inr (Some e) \<and> ex_id e = x
        | _ \<Rightarrow> visible sqlite_client sess x b db = Inr None)"
    by (intro allI impI) (rule view)
  show ?thesis
    by (intro exI [of _ M] exI [of _ ?items] exI [of _ ?rows] conjI items rows 1 2
        merge_staged_items [OF F G, of status, folded M_def] merge_items_sorted [OF srt, folded M_def])
qed

lemma sqlite_list_ok:
  assumes inv: "sqlite_inv db" and b: "batch_ok storable_execution b" and sess: "session_ok sess"
    and below: "\<forall>u \<in> set_option below. storable_id u"
  shows "\<exists>es. sqlite_executions sess status below b db = Inr es \<and>
     listing_spec normal_execution (\<lambda>x. visible sqlite_client sess x b db) status below es"
proof -
  obtain pre where pre: "under_prefix below = Inr pre" using under_prefix_total [OF below] by blast
  have shape: "pre = [] \<or> (\<exists>q. pre = q @ [47] \<and> scalar_str q)"
    using pre path_scalar by (auto simp: under_prefix_def result_simps split: option.splits)
  obtain M items rows where M: "staged_for sess pre b = Inr items" "iter_committed (session_id_value sess) pre db = Inr rows"
    "merge_staged status rows (sort_items items) = Inr (concat (map (\<lambda>(p, e). emit status e) M))"
    "sorted_wrt (<) (map fst M)"
    "\<forall>p \<in> fst ` set M. starts_with pre p \<and> (\<exists>x. storable_id x \<and> p = pc.path_of x)"
    "\<forall>x. storable_id x \<longrightarrow> starts_with pre (pc.path_of x) \<longrightarrow>
       (case map_of M (pc.path_of x) of
          Some (Some e) \<Rightarrow> visible sqlite_client sess x b db = Inr (Some e) \<and> ex_id e = x
        | _ \<Rightarrow> visible sqlite_client sess x b db = Inr None)"
    using merged_view [OF inv b sess shape, of status] by blast
  let ?es = "concat (map (\<lambda>(p, e). emit status e) M)"
  have dist: "distinct (map fst M)" using M(4) by (simp add: strict_sorted_iff)
  have entry: "storable_id (ex_id e) \<and> p = pc.path_of (ex_id e) \<and> starts_with pre p \<and>
      visible sqlite_client sess (ex_id e) b db = Inr (Some e)" if pe: "(p, Some e) \<in> set M" for p e
  proof -
    obtain x where x: "storable_id x" "p = pc.path_of x" "starts_with pre p" using M(5) imageI [OF pe, of fst] by auto
    have "map_of M (pc.path_of x) = Some (Some e)" using pe dist x(2) by simp
    with M(6) x(1,2,3) have "visible sqlite_client sess x b db = Inr (Some e) \<and> ex_id e = x" by fastforce
    then show ?thesis using x by simp
  qed
  have srt: "sorted_wrt (\<lambda>e e'. pc.path_of (ex_id e) < pc.path_of (ex_id e')) ?es"
    by (rule sorted_emit [OF M(4)]) (use entry in auto)
  have "e \<in> set ?es \<longleftrightarrow> storable_id (ex_id e) \<and> visible sqlite_client sess (ex_id e) b db = Inr (Some e) \<and>
      status_matches status e \<and> below_matches below (ex_id e)" for e
  proof
    assume "e \<in> set ?es"
    then obtain p where "status_matches status e" "(p, Some e) \<in> set M" unfolding set_emit by blast
    with entry [OF this(2)] show "storable_id (ex_id e) \<and> visible sqlite_client sess (ex_id e) b db = Inr (Some e) \<and>
      status_matches status e \<and> below_matches below (ex_id e)"
      using under_prefix_matches [OF pre _ below, of "ex_id e"] by auto
  next
    assume e: "storable_id (ex_id e) \<and> visible sqlite_client sess (ex_id e) b db = Inr (Some e) \<and>
      status_matches status e \<and> below_matches below (ex_id e)"
    then have "starts_with pre (pc.path_of (ex_id e))" using under_prefix_matches [OF pre _ below, of "ex_id e"] by simp
    with e M(6) have "case map_of M (pc.path_of (ex_id e)) of
          Some (Some e') \<Rightarrow> visible sqlite_client sess (ex_id e) b db = Inr (Some e') \<and> ex_id e' = ex_id e
        | _ \<Rightarrow> visible sqlite_client sess (ex_id e) b db = Inr None" by blast
    then have "map_of M (pc.path_of (ex_id e)) = Some (Some e)"
      using conjunct1 [OF conjunct2 [OF e]] by (simp split: option.splits)
    then show "e \<in> set ?es" unfolding set_emit using e map_of_SomeD by metis
  qed
  then have "listing_spec normal_execution (\<lambda>x. visible sqlite_client sess x b db) status below ?es"
    using srt unfolding listing_spec_def by blast
  moreover have "sqlite_executions sess status below b db = Inr ?es"
    by (simp add: sqlite_executions_def pre M(1-3))
  ultimately show ?thesis by blast
qed

interpretation sq: listing_store sqlite_client sqlite_inv storable_execution normal_execution
  by unfold_locales (simp add: sqlite_list_ok)

section \<open>Claims and the schema\<close>

definition sqlite_recorded :: "session_id \<Rightarrow> domain_id \<Rightarrow> database \<Rightarrow> domain_version option" where
  "sqlite_recorded sess d db = map_option DomainVersion (map_of (db_domains db) (session_id_value sess, domain_id_value d))"

lemma sqlite_claim_domain_ok:
  assumes inv: "sqlite_inv db" and sess: "session_ok sess" and d: "valid_domain_id d" and v: "text_version_ok v"
  shows "\<exists>db'. sqlite_claim_domain sess d v db
           = Inr (case sqlite_recorded sess d db of None \<Rightarrow> v | Some w \<Rightarrow> w, db') \<and> sqlite_inv db' \<and>
    (\<forall>sess' d'. sqlite_recorded sess' d' db' =
       (if sess' = sess \<and> d' = d then Some (case sqlite_recorded sess d db of None \<Rightarrow> v | Some w \<Rightarrow> w)
        else sqlite_recorded sess' d' db)) \<and> db_rows db' = db_rows db \<and>
    (sqlite_recorded sess d db \<noteq> None \<longrightarrow> db' = db)"
proof -
  let ?k = "(session_id_value sess, domain_id_value d)"
  have bind: "bind_texts [session_id_value sess, domain_id_value d, domain_version_value v] = Inr ()"
    using sess v domain_id_scalar [OF d] by (simp add: bind_texts_iff session_ok_def text_version_ok_def)
  show ?thesis
  proof (cases "map_of (db_domains db) ?k")
    case None
    have "sqlite_claim_domain sess d v db = Inr (v, db\<lparr>db_domains := AList.update ?k (domain_version_value v) (db_domains db)\<rparr>)"
      using None v by (simp add: sqlite_claim_domain_def run_immediate_def sqlite_claim_def bind Let_def AList.update_conv'
          mk_domain_version_def text_version_ok_def valid_domain_version_def)
    moreover have "sqlite_inv (db\<lparr>db_domains := AList.update ?k (domain_version_value v) (db_domains db)\<rparr>)"
      using inv v by (auto simp: sqlite_inv_def AList.update_conv' text_version_ok_def valid_domain_version_def split: if_splits)
    ultimately show ?thesis
      using None by (auto simp: sqlite_recorded_def AList.update_conv' intro: session_id.expand domain_id.expand)
  next
    case (Some w)
    then have "w \<noteq> []" using inv by (auto simp: sqlite_inv_def)
    then have "sqlite_claim_domain sess d v db = Inr (DomainVersion w, db)"
      using Some by (simp add: sqlite_claim_domain_def run_immediate_def sqlite_claim_def bind mk_domain_version_def)
    then show ?thesis using Some inv by (auto simp: sqlite_recorded_def)
  qed
qed

interpretation sq: claiming_store sqlite_client sqlite_inv storable_execution normal_execution sqlite_recorded text_version_ok
proof
  fix s sess d v
  assume a: "sqlite_inv s" "session_ok sess" "valid_domain_id d" "text_version_ok v"
  obtain s' where s': "sqlite_claim_domain sess d v s = Inr (case sqlite_recorded sess d s of None \<Rightarrow> v | Some w \<Rightarrow> w, s')"
    "sqlite_inv s'" "db_rows s' = db_rows s"
    "\<forall>sess' d'. sqlite_recorded sess' d' s' =
       (if sess' = sess \<and> d' = d then Some (case sqlite_recorded sess d s of None \<Rightarrow> v | Some w \<Rightarrow> w)
        else sqlite_recorded sess' d' s)" using sqlite_claim_domain_ok [OF a] by blast
  have "sqlite_read sess' x s' = sqlite_read sess' x s" if "session_ok sess'" "storable_id x" for sess' x
    by (simp only: sqlite_read_at [OF that] s'(3))
  with s' show "\<exists>s'. cl_claim sqlite_client sess d v s = Inr (case sqlite_recorded sess d s of None \<Rightarrow> v | Some w \<Rightarrow> w, s') \<and>
      sqlite_inv s' \<and>
        (\<forall>sess' d'. session_ok sess' \<longrightarrow> valid_domain_id d' \<longrightarrow> sqlite_recorded sess' d' s' =
           (if sess' = sess \<and> d' = d then Some (case sqlite_recorded sess d s of None \<Rightarrow> v | Some w \<Rightarrow> w)
            else sqlite_recorded sess' d' s)) \<and>
        (\<forall>sess' x. session_ok sess' \<longrightarrow> storable_id x \<longrightarrow> cl_read sqlite_client sess' x s' = cl_read sqlite_client sess' x s)"
    unfolding sqlite_client_simps by blast
next
  fix s sess d v w
  assume "sqlite_inv s" "session_ok sess" "valid_domain_id d" "text_version_ok v" "sqlite_recorded sess d s = Some w"
  with sqlite_claim_domain_ok [of s sess d v] show "cl_claim sqlite_client sess d v s = Inr (w, s)"
    unfolding sqlite_client_simps by auto
next
  fix s b s' sess d
  assume "sqlite_inv s" "batch_ok storable_execution b" "cl_commit sqlite_client b s = Inr s'"
  then have "db_domains s' = db_domains s" using sqlite_commit_ok by fastforce
  then show "sqlite_recorded sess d s' = sqlite_recorded sess d s" by (simp add: sqlite_recorded_def)
qed

definition sample_database :: database where
  "sample_database = snd (initialize_schema \<lparr>db_meta = None, db_rows = [], db_domains = []\<rparr>)"

lemma sample_database_inv: "sqlite_inv sample_database" "db_rows sample_database = []" "db_domains sample_database = []"
  by (simp_all add: sample_database_def initialize_schema_def run_immediate_def stamp_or_check_meta_def sqlite_inv_def)

section \<open>Properties\<close>

text \<open>
  C37: A commit of the SQLite backend is durable and exact: a transaction over any writes of
  storable executions commits, the enclosing stage is open again, and afterwards every execution of
  every session reads as its last write left it, in normal form, or, untouched, as before.
\<close>
theorem sqlite_commit_durable:
  assumes "staging_inv (bk_staging st)" "c < sg_contexts (bk_staging st)" "sqlite_begin c st = (tx, st1)"
    and "run_writes c ws st1 = Inr st2" "sqlite_inv (bk_store st)"
    and "\<forall>w \<in> set ws. write_ok storable_execution w"
  shows "\<exists>tx' st3. sqlite_commit c tx st2 = (Inr (), tx', st3) \<and> tx_closed tx' \<and> sqlite_inv (bk_store st3) \<and>
     sg_open (bk_staging st3) c = sg_open (bk_staging st) c \<and> staged_items c st3 = staged_items c st \<and>
     (\<forall>sess x. session_ok sess \<longrightarrow> storable_id x \<longrightarrow>
        sqlite_read sess x (bk_store st3) =
          (case last_write ws (ExecutionKey sess x) of
             None \<Rightarrow> sqlite_read sess x (bk_store st)
           | Some DeleteExecution \<Rightarrow> Inr None
           | Some (SaveExecution sn) \<Rightarrow> map_sum id (\<lambda>e. Some (normal_execution e)) (to_execution sn)))"
  using sq.commit_visible [OF assms(1,2) assms(3) [unfolded sqlite_begin_def] assms(4-6)]
  unfolding sqlite_client_simps sqlite_commit_def .

theorem sqlite_commit_durable_witness:
  "\<exists>tx st1 st2 tx' st3.
     sqlite_begin 0 \<lparr>bk_staging = staging_init, bk_store = sample_database\<rparr> = (tx, st1) \<and>
     run_writes 0 [WSave sample_session sample_execution] st1 = Inr st2 \<and>
     sqlite_commit 0 tx st2 = (Inr (), tx', st3) \<and>
     sqlite_read sample_session sample_eid (bk_store st3) = Inr (Some (normal_execution sample_execution))"
proof -
  let ?st = "\<lparr>bk_staging = staging_init, bk_store = sample_database\<rparr>"
  let ?ws = "[WSave sample_session sample_execution]"
  obtain tx st1 st2 where t: "staging_inv (bk_staging ?st)" "0 < sg_contexts (bk_staging ?st)" "tx_begin 0 ?st = (tx, st1)"
    "run_writes 0 ?ws st1 = Inr st2" using sample_transaction [of ?st] by auto
  note t = t(1,2) t(3) [folded sqlite_begin_def] t(4)
  have w: "\<forall>w \<in> set ?ws. write_ok storable_execution w" by (simp add: sample_execution_storable)
  obtain tx' st3 where "sqlite_commit 0 tx st2 = (Inr (), tx', st3)"
    "\<forall>sess x. session_ok sess \<longrightarrow> storable_id x \<longrightarrow>
        sqlite_read sess x (bk_store st3) =
          (case last_write ?ws (ExecutionKey sess x) of
             None \<Rightarrow> sqlite_read sess x (bk_store ?st)
           | Some DeleteExecution \<Rightarrow> Inr None
           | Some (SaveExecution sn) \<Rightarrow> map_sum id (\<lambda>e. Some (normal_execution e)) (to_execution sn))"
    using sqlite_commit_durable [OF t _ w] sample_database_inv by auto
  moreover from this(2) have "sqlite_read sample_session sample_eid (bk_store st3) = Inr (Some (normal_execution sample_execution))"
    by (simp add: to_from_execution_storable sample_execution_storable)
  ultimately show ?thesis using t(3,4) by blast
qed

text \<open>
  C38: The listing of the SQLite backend. Merging the committed rows of a range, read in batches,
  with the staged writes in path order yields what a reader sees under those writes: filtered by
  status and strict ancestor, each execution once, in path order and so after its own ancestors.
\<close>
theorem sqlite_listing:
  assumes "sqlite_inv db" "batch_ok storable_execution b" "session_ok sess" "\<forall>u \<in> set_option below. storable_id u"
  shows "\<exists>es. sqlite_executions sess status below b db = Inr es \<and>
     listing_spec normal_execution (\<lambda>x. visible sqlite_client sess x b db) status below es \<and>
     (\<forall>m n. m < length es \<longrightarrow> n < length es \<longrightarrow> ancestor_of (ex_id (es ! m)) (ex_id (es ! n)) \<longrightarrow> m < n)"
proof -
  obtain es where es: "sqlite_executions sess status below b db = Inr es"
    "listing_spec normal_execution (\<lambda>x. visible sqlite_client sess x b db) status below es"
    using sqlite_list_ok [OF assms] by blast
  have "cl_list sqlite_client sess status below b db = Inr es" using es(1) by simp
  with es sq.listed_after_ancestors [OF assms this] show ?thesis by blast
qed

theorem sqlite_listing_witness:
  "\<exists>es. sqlite_executions sample_session (Some STARTED) None sample_batch sample_database = Inr es \<and> es = []"
proof -
  have b: "batch_ok storable_execution sample_batch" by (rule sample_batch_ok [of storable_execution, OF sample_execution_storable])
  obtain es where es: "sqlite_executions sample_session (Some STARTED) None sample_batch sample_database = Inr es"
    "listing_spec normal_execution (\<lambda>x. visible sqlite_client sample_session x sample_batch sample_database)
       (Some STARTED) None es"
    using sqlite_listing [OF sample_database_inv(1) b sample_session_ok, of None "Some STARTED"] by auto
  have "visible sqlite_client sample_session x sample_batch sample_database =
      (if x = sample_eid then Inr (Some (sort_execution sample_execution)) else Inr None)" if "storable_id x" for x
    by (simp add: visible_def sample_batch_def to_from_execution_storable sample_execution_storable
        sqlite_read_at [OF sample_session_ok that] sample_database_inv)
  then have "normal_execution ` set es = {}"
    using es(2) unfolding listing_spec_def by (auto simp: status_matches_def split: if_splits)
  with es(1) show ?thesis by simp
qed

text \<open>
  The order SQLite gives TEXT, by UTF-8 bytes, is Python's order of strings, by code points:
  the two sides of the merge and the bounds of the range agree.
\<close>
theorem collation_agrees: "(text_less s t \<longleftrightarrow> s < t) \<and> (text_le s t \<longleftrightarrow> s \<le> t)"
  by (simp add: text_order)

text \<open>
  The range of a prefix. The upper bound of a prefix is the least string above every string
  that starts with it, so the half-open range selects exactly those strings.
\<close>
theorem prefix_upper_bound_least:
  assumes "prefix_upper_bound prefix = Inr ub"
  shows "(\<forall>p. text_le prefix p \<and> text_less p ub \<longleftrightarrow> starts_with prefix p) \<and>
     (\<forall>t. (\<forall>p. starts_with prefix p \<longrightarrow> p < t) \<longrightarrow> ub \<le> t)"
proof -
  have "ub \<le> t" if t: "\<forall>p. starts_with prefix p \<longrightarrow> p < t" for t
  proof (rule ccontr)
    assume "\<not> ub \<le> t"
    moreover have "prefix < t" using t by (simp add: starts_with_def)
    ultimately have "starts_with prefix t" using prefix_range [OF assms, of t] by (metis less_imp_le not_le)
    with t show False by blast
  qed
  then show ?thesis using prefix_range [OF assms] by (simp add: text_order)
qed

theorem prefix_upper_bound_least_witness:
  "prefix_upper_bound (str_of ''a/'') = Inr (str_of ''a0'') \<and>
   text_less (str_of ''a/z'') (str_of ''a0'') \<and> \<not> text_less (str_of ''a0'') (str_of ''a0'')"
proof -
  have ub: "prefix_upper_bound (str_of ''a/'') = Inr (str_of ''a0'')" by (simp add: prefix_upper_bound_def)
  have "starts_with (str_of ''a/'') (str_of ''a/z'')" "\<not> starts_with (str_of ''a/'') (str_of ''a0'')"
    by (simp_all add: starts_with_def)
  with prefix_upper_bound_least [OF ub] ub show ?thesis by (auto simp: text_order)
qed

text \<open>
  The first claim of a domain wins. The version a claim returns is what every later claim for
  the same session and domain returns, whatever version it asks for and whatever is committed in
  between.
\<close>
theorem sqlite_first_claim_wins:
  assumes "sqlite_inv db" "session_ok sess" "valid_domain_id d" "text_version_ok v" "text_version_ok w"
    and "sqlite_claim_domain sess d v db = Inr (v', db')" "batch_ok storable_execution b"
    and "sqlite_commit_mutations b db' = Inr db''"
  shows "\<exists>db3. sqlite_claim_domain sess d w db'' = Inr (v', db3)"
  using sq.first_claim_wins [OF assms(1-5), unfolded sqlite_client_simps, OF assms(6-8)] .

theorem sqlite_first_claim_wins_witness:
  "\<exists>db' db''. sqlite_claim_domain sample_session (DomainId [100]) (DomainVersion [49]) sample_database = Inr (DomainVersion [49], db') \<and>
     sqlite_claim_domain sample_session (DomainId [100]) (DomainVersion [50]) db' = Inr (DomainVersion [49], db'')"
proof -
  have v: "text_version_ok (DomainVersion [49])" "text_version_ok (DomainVersion [50])"
    by (simp_all add: text_version_ok_def valid_domain_version_def is_scalar_def is_surrogate_def)
  have d: "valid_domain_id (DomainId [100])"
    by (simp add: valid_domain_id_def domain_id_fullmatch_def domain_segment_def domain_start_def)
  obtain db' where c: "sqlite_claim_domain sample_session (DomainId [100]) (DomainVersion [49]) sample_database
      = Inr (DomainVersion [49], db')"
    using sqlite_claim_domain_ok [OF sample_database_inv(1) sample_session_ok d v(1)]
    by (auto simp: sqlite_recorded_def sample_database_inv)
  have "\<exists>db3. sqlite_claim_domain sample_session (DomainId [100]) (DomainVersion [50]) db' = Inr (DomainVersion [49], db3)"
    by (rule sqlite_first_claim_wins [OF sample_database_inv(1) sample_session_ok d v c, of "[]"])
      (simp_all add: batch_ok_simps sqlite_commit_mutations_def)
  with c show ?thesis by blast
qed

text \<open>
  A table prefix that ends in a newline passes the identifier check, although a newline is
  neither a letter, a digit nor an underscore; the same prefix with a newline anywhere else does not.
\<close>
theorem newline_prefix_accepted:
  "check_table_prefix (str_of ''glyff'' @ [10]) = Inr () \<and> check_table_prefix (10 # str_of ''glyff'') = Inl ValueError \<and>
   check_table_prefix (str_of ''SQLite_x'') = Inl ValueError"
  by (simp add: check_table_prefix_def identifier_match_def identifier_start_def is_digit_def ascii_lower_def starts_with_def)

end
