(* ===== verification/Resumption.thy ===== *)
theory Resumption
  imports Executor Memory FileStore SqliteStore
begin

text \<open>
  What durable execution promises. \<open>pure_call\<close> is the reference: the call evaluated with no store at
  all, every engraved function simply running. On any store whose completed executions hold what the
  functions return, a call of the modelled executor has exactly the outcome of the reference, leaves
  only such stores behind at every commit, and writes nothing but its own execution and its strict
  descendants. So a session interrupted anywhere resumes, from whatever store it left, to the outcome
  of an uninterrupted run.

  The hypotheses on the environment state what the library asks of the application: values a
  serializer writes can be kept and read back as they were, functions are deterministic in their
  canonical arguments and one name belongs to one function of a domain, handlers raise exceptions
  only, and the domains a session records agree with the code.
\<close>

section \<open>The reference\<close>

primrec pure_prog ::
  "('s, 'v, 't) env \<Rightarrow> (nat \<Rightarrow> 'v list \<Rightarrow> (pystr, 'v) dict \<Rightarrow> (exn + 'v) option) \<Rightarrow> ('v, 't) prog
     \<Rightarrow> (pystr \<Rightarrow> bytes option) option \<Rightarrow> (exn + 'v) option" where
  "pure_prog E call (PReturn v) md = Some (Inr v)"
| "pure_prog E call (PRaise e) md = Some (Inl e)"
| "pure_prog E call (PCall i args kwargs k) md =
     (case call i args kwargs of None \<Rightarrow> None | Some r \<Rightarrow> pure_prog E call (k r) md)"
| "pure_prog E call (PSetMetadata key v value_type k) md =
     (case md of
        None \<Rightarrow> pure_prog E call (k (Inl NoCurrentExecutionError)) md
      | Some m \<Rightarrow>
          (case en_serialize E v (case value_type of None \<Rightarrow> en_type_of E v | Some t \<Rightarrow> t) of
             Inl e \<Rightarrow> pure_prog E call (k (Inl e)) md
           | Inr b \<Rightarrow> pure_prog E call (k (Inr ())) (Some (m(key \<mapsto> b)))))"
| "pure_prog E call (PGetMetadata key t target k) md =
     (case md of
        None \<Rightarrow> pure_prog E call (k (Inl NoCurrentExecutionError)) md
      | Some m \<Rightarrow>
          (case m key of
             None \<Rightarrow> pure_prog E call (k (Inr None)) md
           | Some b \<Rightarrow> pure_prog E call (k (map_sum id Some (en_deserialize E b t))) md))"

primrec pure_call ::
  "('s, 'v, 't) env \<Rightarrow> nat \<Rightarrow> nat \<Rightarrow> 'v list \<Rightarrow> (pystr, 'v) dict \<Rightarrow> (exn + 'v) option" where
  "pure_call E 0 = (\<lambda>i args kwargs. None)"
| "pure_call E (Suc n) = (\<lambda>i args kwargs.
     let f = en_functions E i in
     case bind_arguments (fd_signature (ef_definition f)) args kwargs of
       Inl e \<Rightarrow> Some (Inl e)
     | Inr arguments \<Rightarrow>
         (case en_canonicalize E arguments of
            Inl e \<Rightarrow> Some (Inl e)
          | Inr ca \<Rightarrow>
              (case pure_prog E (pure_call E n) (ef_body f arguments) (Some (\<lambda>_. None)) of
                 None \<Rightarrow> None
               | Some (Inl e) \<Rightarrow> Some (Inl e)
               | Some (Inr v) \<Rightarrow>
                   Some (bind_r (en_serialize E v (fd_return (ef_definition f))) (\<lambda>_. Inr v)))))"

text \<open>Bodies that read no other execution's metadata and use metadata keys of characters only.\<close>

primrec own_metadata :: "('v, 't) prog \<Rightarrow> bool" where
  "own_metadata (PReturn v) = True"
| "own_metadata (PRaise e) = True"
| "own_metadata (PCall i args kwargs k) = (\<forall>r. own_metadata (k r))"
| "own_metadata (PSetMetadata key v t k) = (scalar_str key \<and> (\<forall>r. own_metadata (k r)))"
| "own_metadata (PGetMetadata key t target k) = (target = None \<and> (\<forall>r. own_metadata (k r)))"

section \<open>What is asked of the application\<close>

definition serializer_ok :: "(execution \<Rightarrow> bool) \<Rightarrow> (execution \<Rightarrow> execution) \<Rightarrow> ('s, 'v, 't) env \<Rightarrow> bool" where
  "serializer_ok ok norm E \<longleftrightarrow> (\<forall>v t b e. en_serialize E v t = Inr b \<longrightarrow> ok e \<longrightarrow>
     (\<forall>e'. execution_complete (SerializedValue b) e = Inr e' \<longrightarrow>
        ok e' \<and> (\<exists>r. ex_result (norm e') = Some r \<and> en_deserialize E (sv_data r) t = Inr v)) \<and>
     (\<forall>k. scalar_str k \<longrightarrow> ok (set_metadata k (SerializedValue b) e)))"

definition functions_ok :: "(domain_version \<Rightarrow> bool) \<Rightarrow> ('s, 'v, 't) env \<Rightarrow> bool" where
  "functions_ok version_ok E \<longleftrightarrow>
     (\<forall>i. let f = en_functions E i in
        valid_domain_id (ef_domain f) \<and> version_ok (ef_version f) \<and>
        valid_execution_name (fd_name (ef_definition f)) \<and> scalar_str (execution_name_value (fd_name (ef_definition f))) \<and>
        (\<forall>arguments. own_metadata (ef_body f arguments)) \<and>
        (\<forall>j. ef_domain (en_functions E j) = ef_domain f \<longrightarrow> ef_version (en_functions E j) = ef_version f))"

definition environment_ok ::
  "(execution \<Rightarrow> bool) \<Rightarrow> (execution \<Rightarrow> execution) \<Rightarrow> (domain_version \<Rightarrow> bool) \<Rightarrow> ('s, 'v, 't) env \<Rightarrow> bool" where
  "environment_ok ok norm version_ok E \<longleftrightarrow>
     session_ok (en_session E) \<and> serializer_ok ok norm E \<and> functions_ok version_ok E \<and>
     (\<forall>h ev e. en_handle E h ev = Inl e \<longrightarrow> is_instance e C_Exception) \<and>
     (\<forall>arguments ca x e. en_canonicalize E arguments = Inr ca \<longrightarrow> execution_start x ca = Inr e \<longrightarrow> ok e)"

text \<open>What identifies a call besides its parent and its ordinal.\<close>

definition call_key ::
  "('s, 'v, 't) env \<Rightarrow> nat \<Rightarrow> 'v list \<Rightarrow> (pystr, 'v) dict \<Rightarrow> (domain_id \<times> execution_name \<times> arguments_digest) option" where
  "call_key E i args kwargs =
     (let f = en_functions E i in
      case bind_r (bind_arguments (fd_signature (ef_definition f)) args kwargs) (en_canonicalize E) of
        Inl _ \<Rightarrow> None
      | Inr ca \<Rightarrow> Some (ef_domain f, fd_name (ef_definition f), ca_digest ca))"

definition deterministic :: "('s, 'v, 't) env \<Rightarrow> bool" where
  "deterministic E \<longleftrightarrow> (\<forall>i args kwargs j args' kwargs' n m r r'.
     call_key E i args kwargs = call_key E j args' kwargs' \<longrightarrow> call_key E i args kwargs \<noteq> None \<longrightarrow>
     pure_call E n i args kwargs = Some r \<longrightarrow> pure_call E m j args' kwargs' = Some r' \<longrightarrow>
     r = r' \<and> fd_return (ef_definition (en_functions E i)) = fd_return (ef_definition (en_functions E j)))"

section \<open>Sound stores\<close>

text \<open>A started execution has written nothing yet; a completed one holds what its call returns.\<close>

definition execution_sound :: "('s, 'v, 't) env \<Rightarrow> execution \<Rightarrow> bool" where
  "execution_sound E e \<longleftrightarrow>
     (ex_status e = STARTED \<longrightarrow> ex_metadata e = []) \<and>
     (ex_status e = COMPLETED \<longrightarrow> (\<forall>n i args kwargs r.
        call_key E i args kwargs = Some (eid_domain (ex_id e), eid_name (ex_id e), eid_digest (ex_id e)) \<longrightarrow>
        pure_call E n i args kwargs = Some r \<longrightarrow>
        (\<exists>v b. r = Inr v \<and> ex_result e = Some b \<and>
           en_deserialize E (sv_data b) (fd_return (ef_definition (en_functions E i))) = Inr v)))"

definition store_sound :: "('s, 'v, 't) env \<Rightarrow> 's \<Rightarrow> bool" where
  "store_sound E s \<longleftrightarrow> (\<forall>x e. storable_id x \<longrightarrow>
     cl_read (en_client E) (en_session E) x s = Inr (Some e) \<longrightarrow> execution_sound E e)"

text \<open>The versions the session recorded and observed are those of the code.\<close>

definition versions_agree ::
  "(session_id \<Rightarrow> domain_id \<Rightarrow> 's \<Rightarrow> domain_version option) \<Rightarrow> ('s, 'v, 't) env \<Rightarrow> 's \<Rightarrow> bool" where
  "versions_agree recorded E s \<longleftrightarrow> (\<forall>i. let f = en_functions E i in
     recorded (en_session E) (ef_domain f) s \<in> {None, Some (ef_version f)})"

definition observed_agree :: "('s, 'v, 't) env \<Rightarrow> observed \<Rightarrow> bool" where
  "observed_agree E obs \<longleftrightarrow> (\<forall>i. let f = en_functions E i in
     map_of obs (ef_domain f) \<in> {None, Some (ef_version f)})"

abbreviation store_of :: "'s runtime \<Rightarrow> 's" where
  "store_of rt \<equiv> bk_store (rt_backend rt)"

text \<open>What a call under \<open>p\<close> may write: its strict descendants, and anything at the top.\<close>

definition below :: "execution_id option \<Rightarrow> execution_id \<Rightarrow> bool" where
  "below p y \<longleftrightarrow> (case p of None \<Rightarrow> True | Some u \<Rightarrow> ancestor_of u y)"

lemma below_child: "eid_parent x = p \<Longrightarrow> below p x"
  by (cases p) (auto simp: below_def ancestor_of_parent)

lemma ancestor_of_trans: "ancestor_of u x \<Longrightarrow> ancestor_of x y \<Longrightarrow> ancestor_of u y"
  by (fastforce simp: ancestor_of_iff)

lemma below_deeper: "below p x \<Longrightarrow> below (Some x) y \<Longrightarrow> below p y"
  by (cases p) (auto simp: below_def intro: ancestor_of_trans)

lemma not_below_self: "\<not> below (Some x) x"
  by (auto simp: below_def ancestor_of_iff)

definition sound_state ::
  "('s \<Rightarrow> bool) \<Rightarrow> (session_id \<Rightarrow> domain_id \<Rightarrow> 's \<Rightarrow> domain_version option) \<Rightarrow> ('s, 'v, 't) env \<Rightarrow> 's \<Rightarrow> bool" where
  "sound_state sinv recorded E s \<longleftrightarrow> sinv s \<and> store_sound E s \<and> versions_agree recorded E s"

definition ready ::
  "('s \<Rightarrow> bool) \<Rightarrow> (session_id \<Rightarrow> domain_id \<Rightarrow> 's \<Rightarrow> domain_version option) \<Rightarrow> ('s, 'v, 't) env \<Rightarrow> 's runtime \<Rightarrow> bool" where
  "ready sinv recorded E rt \<longleftrightarrow>
     disciplined (en_task E) rt \<and> sound_state sinv recorded E (store_of rt) \<and> observed_agree E (rt_observed rt) \<and>
     (\<forall>x \<in> set (rt_stack rt). storable_id x) \<and>
     (\<forall>y. below (tracer_current (rt_stack rt)) y \<longrightarrow>
        map_of (staged_items (en_task E) (rt_backend rt)) (ExecutionKey (en_session E) y) = None)"

definition advanced ::
  "('s \<Rightarrow> bool) \<Rightarrow> (session_id \<Rightarrow> domain_id \<Rightarrow> 's \<Rightarrow> domain_version option) \<Rightarrow> ('s, 'v, 't) env
     \<Rightarrow> execution_id option \<Rightarrow> 's runtime \<Rightarrow> 's runtime \<Rightarrow> bool" where
  "advanced sinv recorded E p rt rt' \<longleftrightarrow>
     sound_state sinv recorded E (store_of rt') \<and> observed_agree E (rt_observed rt') \<and>
     (\<exists>h. rt_commits rt' = rt_commits rt @ h \<and> (\<forall>s \<in> set h. sound_state sinv recorded E s)) \<and>
     (\<forall>sess y. session_ok sess \<longrightarrow> storable_id y \<longrightarrow>
        cl_read (en_client E) sess y (store_of rt') = cl_read (en_client E) sess y (store_of rt) \<or>
        sess = en_session E \<and> below p y)"

lemma advanced_refl:
  "sound_state sinv recorded E (store_of rt) \<Longrightarrow> observed_agree E (rt_observed rt) \<Longrightarrow>
     advanced sinv recorded E p rt rt"
  by (simp add: advanced_def)

lemma advanced_trans:
  assumes "advanced sinv recorded E p a b" "advanced sinv recorded E p b d"
  shows "advanced sinv recorded E p a d"
proof -
  obtain h where h: "rt_commits b = rt_commits a @ h" "\<forall>s \<in> set h. sound_state sinv recorded E s"
    using assms(1) by (auto simp: advanced_def)
  obtain k where k: "rt_commits d = rt_commits b @ k" "\<forall>s \<in> set k. sound_state sinv recorded E s"
    using assms(2) by (auto simp: advanced_def)
  have "\<exists>l. rt_commits d = rt_commits a @ l \<and> (\<forall>s \<in> set l. sound_state sinv recorded E s)"
    using h k by (intro exI [of _ "h @ k"]) auto
  moreover have "cl_read (en_client E) sess y (store_of d) = cl_read (en_client E) sess y (store_of a) \<or>
      sess = en_session E \<and> below p y" if "session_ok sess" "storable_id y" for sess y
    using assms that by (simp add: advanced_def) metis
  ultimately show ?thesis using assms(2) by (simp add: advanced_def)
qed

lemma advanced_deeper: "advanced sinv recorded E (Some x) a b \<Longrightarrow> below p x \<Longrightarrow> advanced sinv recorded E p a b"
  unfolding advanced_def using below_deeper by blast

text \<open>What a computation that gives back its stages leaves staged.\<close>

lemma kept_items:
  assumes "disciplined c rt" "kept c {} rt rt'"
  shows "staged_items c (rt_backend rt') = staged_items c (rt_backend rt)"
  using assms
  by (auto simp: staged_items_def staging_current_def registry_open_def stage_snapshot_def kept_def staging_kept_def
      disciplined_def staging_inv_def split: option.split)

lemma advanced_ready:
  assumes "ready sinv recorded E rt" "kept (en_task E) {} rt rt'" "advanced sinv recorded E p rt rt'"
  shows "ready sinv recorded E rt'"
proof -
  have d: "disciplined (en_task E) rt" using assms(1) by (simp add: ready_def)
  have "rt_stack rt' = rt_stack rt" using assms(2) by (simp add: kept_def)
  then show ?thesis
    using assms kept_disciplined [OF d assms(2)] kept_items [OF d assms(2)] by (simp add: ready_def advanced_def)
qed

section \<open>Running inside a transaction scope\<close>

text \<open>
  A scope opens a stage \<open>i\<close> with nothing in it; whatever keeps the stages around it, leaving the
  scope commits the batch of that stage or, on an exception, drops it.
\<close>

definition scope_commit_result :: "('s, 'v, 't) env \<Rightarrow> nat \<Rightarrow> 's runtime \<Rightarrow> exn + 's" where
  "scope_commit_result E i rt =
     cl_commit (en_client E) (stage_snapshot i (bk_staging (rt_backend rt))) (store_of rt)"

definition scope_store :: "('s, 'v, 't) env \<Rightarrow> nat \<Rightarrow> exn + 'a \<Rightarrow> 's runtime \<Rightarrow> 's" where
  "scope_store E i r rt =
     (case r of Inl _ \<Rightarrow> store_of rt
      | Inr _ \<Rightarrow> case scope_commit_result E i rt of Inl _ \<Rightarrow> store_of rt | Inr s \<Rightarrow> s)"

definition scope_outcome :: "('s, 'v, 't) env \<Rightarrow> nat \<Rightarrow> exn + 'a \<Rightarrow> 's runtime \<Rightarrow> exn + 'a" where
  "scope_outcome E i r rt =
     (case r of Inl e \<Rightarrow> Inl e | Inr v \<Rightarrow> map_sum id (\<lambda>_. v) (scope_commit_result E i rt))"

lemmas scope_defs = scope_commit_result_def scope_store_def scope_outcome_def

definition scope_opened :: "nat \<Rightarrow> 's runtime \<Rightarrow> nat \<Rightarrow> 's backend \<Rightarrow> bool" where
  "scope_opened c rt i bk \<longleftrightarrow>
     tx_begin c (rt_backend rt) = (tx_new\<lparr>tx_stage := Some i\<rparr>, bk) \<and> disciplined c rt \<and>
     disciplined c (rt\<lparr>rt_backend := bk\<rparr>) \<and> stage_is_open c i bk \<and> stage_snapshot i (bk_staging bk) = [] \<and>
     bk_store bk = store_of rt \<and> open_stages c (bk_staging bk) = {i}"

lemma scope_begin:
  assumes "disciplined c rt"
  obtains i bk where "scope_opened c rt i bk"
proof -
  have st: "staging_inv (bk_staging (rt_backend rt))" "c < sg_contexts (bk_staging (rt_backend rt))"
    using assms by (simp_all add: disciplined_def)
  obtain tx bk where b: "tx_begin c (rt_backend rt) = (tx, bk)" by fastforce
  obtain i where i: "tx = tx_new\<lparr>tx_stage := Some i\<rparr>" "staging_inv (bk_staging bk)"
    "sg_contexts (bk_staging bk) = sg_contexts (bk_staging (rt_backend rt))"
    "sg_open (bk_staging bk) c = Some i" "stage_is_open c i bk" "stage_snapshot i (bk_staging bk) = []"
    "bk_store bk = store_of rt"
    using begin_kept [OF st b] by metis
  then have "scope_opened c rt i bk"
    using b assms by (simp add: scope_opened_def disciplined_def open_stages_def)
  then show ?thesis by (rule that)
qed

lemma scope_end:
  assumes o: "scope_opened c rt i bk" and E: "en_task E = c"
    and m: "m (l, rt\<lparr>rt_backend := bk\<rparr>) = Some (r, (l', rt2))" and k: "kept c {i} (rt\<lparr>rt_backend := bk\<rparr>) rt2"
  obtains bk3 where "bk_store bk3 = scope_store E i r rt2"
    "with_scope E m (l, rt) = Some (scope_outcome E i r rt2,
       (l', rt2\<lparr>rt_backend := bk3, rt_commits := rt_commits rt2 @ [bk_store bk3]\<rparr>))"
proof -
  let ?st = "rt_backend rt"
  have st: "staging_inv (bk_staging ?st)" "c < sg_contexts (bk_staging ?st)"
    and b: "tx_begin c ?st = (tx_new\<lparr>tx_stage := Some i\<rparr>, bk)"
    using o by (simp_all add: disciplined_def scope_opened_def)
  obtain j where j: "tx_new\<lparr>tx_stage := Some i\<rparr> = tx_new\<lparr>tx_stage := Some j\<rparr>" "j = length (sg_stages (bk_staging ?st))"
    "staging_inv (bk_staging bk)" "sg_contexts (bk_staging bk) = sg_contexts (bk_staging ?st)"
    "sg_open (bk_staging bk) c = Some j" "stage_is_open c j bk"
    "map_of (sg_tokens (bk_staging bk)) j = Some (c, sg_open (bk_staging ?st) c)"
    "\<forall>k < j. sg_stages (bk_staging bk) ! k = sg_stages (bk_staging ?st) ! k \<and>
       map_of (sg_tokens (bk_staging bk)) k = map_of (sg_tokens (bk_staging ?st)) k"
    using begin_kept [OF st b] by metis
  have ij: "j = i" using j(1) by (simp add: tx_new_def)
  note i = j(2-8) [unfolded ij]
  have len: "i < length (sg_stages (bk_staging bk))" using i(5) by (simp add: stage_is_open_def)
  have k3: "staging_kept c {i} (bk_staging bk) (bk_staging (rt_backend rt2))" using k by (simp add: kept_def)
  note c = closed_stage_kept [OF st i(2,3,1,4,6,7) len k3]
  let ?s = "closed_stage c i (sg_open (bk_staging ?st) c) (bk_staging (rt_backend rt2))"
  let ?bk = "(rt_backend rt2)\<lparr>bk_staging := ?s\<rparr>"
  have get: "stage_get_batch i ?s = Inr (stage_snapshot i (bk_staging (rt_backend rt2)))" using c(3) by simp
  note w = with_scope_def scope_enter_new [OF b] scope_exit_open tx_commit_close [OF c(2)]
      tx_rollback_close [OF c(2)] m E get scope_defs
  show ?thesis
  proof (cases r)
    case (Inl e)
    then show ?thesis by (intro that [of ?bk]) (simp_all add: w)
  next
    case (Inr v)
    show ?thesis
    proof (cases "cl_commit (en_client E) (stage_snapshot i (bk_staging (rt_backend rt2))) (store_of rt2)")
      case (Inl x)
      then show ?thesis using Inr by (intro that [of ?bk]) (simp_all add: w)
    next
      case (Inr store)
      then show ?thesis using \<open>r = Inr v\<close> by (intro that [of "?bk\<lparr>bk_store := store\<rparr>"]) (simp_all add: w)
    qed
  qed
qed

section \<open>The steps of a call\<close>

lemma encodable_child:
  assumes "valid_domain_id d" "valid_execution_name n" "scalar_str (execution_name_value n)" "0 \<le> k"
    and "\<forall>u. p = Some u \<longrightarrow> storable_id u"
  shows "storable_id (ExecutionId p d n k (ca_digest ca))"
proof -
  have "valid_frame (ExecutionId p d n k (ca_digest ca))" "encodable_frame (ExecutionId p d n k (ca_digest ca))"
    using assms(1-4) sha256_hexdigest_scalar domain_id_scalar [OF assms(1)]
    by (simp_all add: valid_frame_def encodable_frame_def ca_digest_def valid_arguments_digest_def)
  then show ?thesis
    using assms(5) by (cases p) (simp_all add: valid_execution_id_def encodable_id_def)
qed

lemma canonicalization_error: "is_instance e C_ArgumentCanonicalizationError \<longleftrightarrow> e = ArgumentCanonicalizationError"
  by (cases e) (simp_all add: is_instance_def)

lemma except_canonicalization [simp]:
  "except_r m C_ArgumentCanonicalizationError ArgumentCanonicalizationError = m"
  by (cases m) (simp_all add: canonicalization_error)

lemma resolve_ready:
  assumes "functions_ok version_ok E" "\<forall>x \<in> set (rt_stack rt). storable_id x" "sequencer_inv (rt_sequencer rt)"
    and "bind_arguments (fd_signature (ef_definition (en_functions E i))) args kwargs = Inr arguments"
    and "en_canonicalize E arguments = Inr ca"
  obtains x sq where "resolve_call_identity E (en_functions E i) args kwargs rt = Some (Inr (x, ca), rt\<lparr>rt_sequencer := sq\<rparr>)"
    "eid_parent x = tracer_current (rt_stack rt)" "storable_id x" "eid_digest x = ca_digest ca"
    "call_key E i args kwargs = Some (eid_domain x, eid_name x, eid_digest x)" "sequencer_inv sq"
proof -
  let ?f = "en_functions E i"
  let ?k = "\<lparr>scope_parent = tracer_current (rt_stack rt), scope_domain = ef_domain ?f,
     scope_name = fd_name (ef_definition ?f), scope_digest = ca_digest ca\<rparr>"
  obtain seq sq where n: "sequencer_next ?k (rt_sequencer rt) = (seq, sq)" by fastforce
  have seq: "0 \<le> seq" "sequencer_inv sq"
    using n counter_nonneg [OF assms(3), of ?k] sequencer_next_inv [OF assms(3), of ?k]
    by (auto simp: sequencer_next_def Let_def)
  let ?x = "ExecutionId (tracer_current (rt_stack rt)) (ef_domain ?f) (fd_name (ef_definition ?f)) seq (ca_digest ca)"
  have "resolve_call_identity E ?f args kwargs rt = Some (Inr (?x, ca), rt\<lparr>rt_sequencer := sq\<rparr>)"
    using assms(4,5) n seq(1)
    by (simp add: resolve_call_identity_def ask_c_def bind_c_def lift_r_def next_ordinal_def return_c_def Let_def)
  moreover have "storable_id ?x"
  proof -
    have "\<forall>u. tracer_current (rt_stack rt) = Some u \<longrightarrow> storable_id u"
      using assms(2) by (auto simp: tracer_current_def)
    then show ?thesis
      using encodable_child [OF _ _ _ seq(1)] assms(1) unfolding functions_ok_def Let_def by blast
  qed
  moreover have "call_key E i args kwargs = Some (eid_domain ?x, eid_name ?x, eid_digest ?x)"
    using assms(4,5) by (simp add: call_key_def Let_def)
  ultimately show ?thesis using that [of ?x sq] seq(2) by simp
qed

lemma emit_ready:
  assumes "\<forall>h ev e. en_handle E h ev = Inl e \<longrightarrow> is_instance e C_Exception"
  obtains log where "emit_to_handlers E ev rt = Some (Inr (), rt\<lparr>rt_log := log\<rparr>)"
proof -
  have "snd (run_handlers (\<lambda>h. en_handle E h ev) hs) = Inr ()" for hs
    using assms by (induction hs) (auto split: sum.split prod.split)
  then have "snd (emit_event (en_handlers E) (\<lambda>h. en_handle E h ev) (event_mro ev)) = Inr ()"
    by (simp add: emit_event_def)
  then obtain called where "emit_event (en_handlers E) (\<lambda>h. en_handle E h ev) (event_mro ev) = (called, Inr ())"
    by (metis prod.collapse)
  then show ?thesis by (intro that) (simp add: emit_to_handlers_def)
qed

lemma repo_save_open:
  assumes "stage_is_open c i st"
  shows "repo_save c sess e st = Inr (put_stage i
     (AList.update (ExecutionKey sess (ex_id e)) (SaveExecution (from_execution e)) (stage_snapshot i (bk_staging st))) st)"
proof -
  have "staging_require_current c (bk_staging st) = Inr i"
    using assms by (simp add: stage_is_open_def staging_require_current_def staging_current_def)
  then show ?thesis
    using assms by (simp add: repo_save_def stage_save_def stage_put_open lift_staging_def put_stage_staging)
qed

lemma put_stage_same: "put_stage i (stage_snapshot i (bk_staging st)) st = st"
  by (simp add: put_stage_def update_stage_def stage_snapshot_def)

lemma repo_get_open:
  "stage_is_open c i st \<Longrightarrow> repo_get C c sess x st = visible C sess x (stage_snapshot i (bk_staging st)) (bk_store st)"
  by (simp add: repo_get_visible staged_items_open)

context claiming_store
begin

text \<open>Committing a batch that holds at most one execution of the session.\<close>

lemma commit_step:
  assumes "en_client E = C" "environment_ok ok norm version_ok E" "sound_state inv recorded E s"
    and "batch_ok ok b" "fst ` set b \<subseteq> {ExecutionKey (en_session E) x}"
    and "\<And>e. visible C (en_session E) x b s = Inr (Some e) \<Longrightarrow> execution_sound E (norm e)"
  obtains s' where "cl_commit C b s = Inr s'" "sound_state inv recorded E s'"
    "\<And>sess y. session_ok sess \<Longrightarrow> storable_id y \<Longrightarrow> cl_read C sess y s' =
       (if sess = en_session E \<and> y = x then map_sum id (map_option norm) (visible C sess y b s) else cl_read C sess y s)"
proof -
  have s: "inv s" "store_sound E s" "versions_agree recorded E s" using assms(3) by (simp_all add: sound_state_def)
  have sess: "session_ok (en_session E)" and fs: "functions_ok version_ok E"
    using assms(2) by (simp_all add: environment_ok_def)
  obtain s' where s': "cl_commit C b s = Inr s'" "inv s'" using commit_total [OF s(1) assms(4)] by blast
  have read: "cl_read C sess y s' =
      (if sess = en_session E \<and> y = x then map_sum id (map_option norm) (visible C sess y b s) else cl_read C sess y s)"
    if y: "session_ok sess" "storable_id y" for sess y
  proof (cases "sess = en_session E \<and> y = x")
    case True
    then show ?thesis using read_commit [OF s(1) assms(4) s'(1) y] by simp
  next
    case False
    have "map_of b (ExecutionKey sess y) = None"
      using assms(5) False by (auto simp: map_of_eq_None_iff)
    moreover obtain r where r: "cl_read C sess y s = Inr r" using read_total [OF s(1) y] by blast
    moreover have "map_option norm r = r" using read_ok [OF s(1) y] r by (cases r) auto
    ultimately show ?thesis using read_commit [OF s(1) assms(4) s'(1) y] False by (auto simp: visible_def)
  qed
  have "store_sound E s'"
    unfolding store_sound_def
  proof (intro allI impI)
    fix y e assume y: "storable_id y" and e: "cl_read (en_client E) (en_session E) y s' = Inr (Some e)"
    show "execution_sound E e"
    proof (cases "y = x")
      case True
      then have "map_sum id (map_option norm) (visible C (en_session E) x b s) = Inr (Some e)"
        using e read [OF sess y] assms(1) by simp
      then obtain e0 where "visible C (en_session E) x b s = Inr (Some e0)" "e = norm e0"
        by (cases "visible C (en_session E) x b s") auto
      then show ?thesis using assms(6) by blast
    next
      case False
      then show ?thesis using e read [OF sess y] assms(1) s(2) y by (simp add: store_sound_def)
    qed
  qed
  moreover have "versions_agree recorded E s'"
  proof -
    have "recorded (en_session E) (ef_domain (en_functions E i)) s' = recorded (en_session E) (ef_domain (en_functions E i)) s"
      for i
    proof -
      have "valid_domain_id (ef_domain (en_functions E i))" using fs unfolding functions_ok_def Let_def by blast
      then show ?thesis by (rule commit_recorded [OF s(1) assms(4) s'(1) sess])
    qed
    then show ?thesis using s(3) unfolding versions_agree_def Let_def by simp
  qed
  ultimately have "sound_state inv recorded E s'" using s'(2) by (simp add: sound_state_def)
  with that s'(1) read show ?thesis by blast
qed

lemma start_ready:
  fixes E :: "('s, 'v, 't) env" and l :: "exn option"
  assumes "en_client E = C" "environment_ok ok norm version_ok E" "ready inv recorded E rt"
    and "storable_id x" "eid_parent x = tracer_current (rt_stack rt)" "eid_digest x = ca_digest ca"
    and "en_canonicalize E arguments = Inr ca"
    and "cl_read C (en_session E) x (store_of rt) = Inr cached" "\<forall>e. cached = Some e \<longrightarrow> ex_status e = STARTED"
  obtains rt' e where "start_execution E x ca (l, rt) = Some (Inr (), (l, rt'))"
    "kept (en_task E) {} rt rt'" "advanced inv recorded E (tracer_current (rt_stack rt)) rt rt'"
    "cl_read C (en_session E) x (store_of rt') = Inr (Some e)"
    "ex_status e = STARTED" "ex_metadata e = []" "ok e" "ex_id e = x"
proof -
  let ?c = "en_task E" and ?sess = "en_session E" and ?s = "store_of rt"
  have d: "disciplined ?c rt" and sound: "sound_state inv recorded E ?s" and obs: "observed_agree E (rt_observed rt)"
    using assms(3) by (simp_all add: ready_def)
  have s: "inv ?s" "store_sound E ?s" using sound by (simp_all add: sound_state_def)
  have sess: "session_ok ?sess" using assms(2) by (simp add: environment_ok_def)
  obtain i bk where op: "scope_opened ?c rt i bk" by (rule scope_begin [OF d])
  then have o: "disciplined ?c (rt\<lparr>rt_backend := bk\<rparr>)" "stage_is_open ?c i bk"
    "stage_snapshot i (bk_staging bk) = []" "bk_store bk = ?s" "open_stages ?c (bk_staging bk) = {i}"
    by (simp_all add: scope_opened_def)
  let ?m = "bind_c (shared (reset_children x)) (\<lambda>_.
        bind_c (shared (get_execution E x)) (\<lambda>found.
          if found = None
          then bind_c (lift_r (execution_start x ca)) (\<lambda>e. shared (save_execution E e))
          else return_c ()))"
  let ?rt1 = "rt\<lparr>rt_backend := bk\<rparr>"
  obtain sq where sq: "reset_for_call x (rt_sequencer rt) = (Inr (), sq)"
    using reset_for_call_ok [of "rt_sequencer rt" x] d by (auto simp: disciplined_def)
  have get: "repo_get C ?c ?sess x bk = Inr cached"
    using assms(8) by (simp add: repo_get_open [OF o(2)] o(3,4) visible_def)
  define b where "b = (case cached of None \<Rightarrow>
      [(ExecutionKey ?sess x, SaveExecution (from_execution
         \<lparr>ex_id = x, ex_status = STARTED, ex_arguments = ca, ex_result = None, ex_metadata = []\<rparr>))] | Some _ \<Rightarrow> [])"
  let ?e0 = "\<lparr>ex_id = x, ex_status = STARTED, ex_arguments = ca, ex_result = None, ex_metadata = []\<rparr>"
  have st: "execution_start x ca = Inr ?e0" using assms(6) by (simp add: execution_start_iff)
  then have ok0: "ok ?e0" using assms(2,7) by (simp add: environment_ok_def)
  let ?rt2 = "?rt1\<lparr>rt_sequencer := sq, rt_backend := put_stage i b bk\<rparr>"
  have m: "?m (l, ?rt1) = Some (Inr (), (l, ?rt2))"
  proof (cases cached)
    case None
    then show ?thesis
      using get sq st assms(1)
      by (simp add: bind_c_def shared_def reset_children_def get_execution_def save_execution_def lift_r_def b_def
          repo_save_open [OF o(2)] o(3))
  next
    case (Some e)
    have "put_stage i [] bk = bk" using put_stage_same [of i bk] o(3) by simp
    with Some show ?thesis
      using get sq assms(1)
      by (simp add: bind_c_def shared_def reset_children_def get_execution_def return_c_def b_def)
  qed
  have "keeps ?c True snd ?m" by (auto intro!: keeps_rules keeps_save)
  from keepsD [OF this _ m] have k: "kept ?c {i} ?rt1 ?rt2" using o(1,5) by simp
  have len: "i < length (sg_stages (bk_staging bk))" using o(2) by (simp add: stage_is_open_def)
  have snap: "stage_snapshot i (bk_staging (put_stage i b bk)) = b" "bk_store (put_stage i b bk) = ?s"
    using len o(4) by simp_all
  have bok: "batch_ok ok b" using ok0 sess assms(4) by (auto simp: b_def batch_ok_simps split: option.split)
  have vis: "\<exists>e. visible C ?sess x b ?s = Inr (Some e) \<and> ex_status e = STARTED \<and> ex_metadata e = [] \<and> ok e \<and> ex_id e = x \<and>
      norm e = norm e"
  proof (cases cached)
    case None
    then have "visible C ?sess x b ?s = Inr (Some (sort_execution ?e0))"
      using ok_stageable [OF ok0] by (simp add: visible_def b_def to_from_execution)
    moreover have "sort_execution ?e0 = ?e0" by (simp add: sort_execution_def)
    ultimately show ?thesis using ok0 by simp
  next
    case (Some e)
    have "cl_read C ?sess x ?s = Inr (Some e)" using assms(8) Some by simp
    then have "execution_sound E e" "ex_id e = x" "ok e"
      using s(2) assms(1,4) read_ok [OF s(1) sess assms(4)] by (auto simp: store_sound_def)
    then show ?thesis using Some assms(8,9) by (auto simp: visible_def b_def execution_sound_def)
  qed
  then obtain e where e: "visible C ?sess x b ?s = Inr (Some e)" "ex_status e = STARTED" "ex_metadata e = []" "ok e" "ex_id e = x"
    by blast
  have n: "ex_status (norm e) = STARTED" "ex_metadata (norm e) = []" "ok (norm e)" "ex_id (norm e) = x"
    using norm_simps [OF e(4)] e by simp_all
  obtain s' where s': "cl_commit C b ?s = Inr s'" "sound_state inv recorded E s'"
    "\<And>sess y. session_ok sess \<Longrightarrow> storable_id y \<Longrightarrow> cl_read C sess y s' =
       (if sess = ?sess \<and> y = x then map_sum id (map_option norm) (visible C sess y b ?s) else cl_read C sess y ?s)"
  proof (rule commit_step [OF assms(1,2) sound bok])
    show "fst ` set b \<subseteq> {ExecutionKey ?sess x}" by (auto simp: b_def split: option.split)
    show "execution_sound E (norm e')" if "visible C ?sess x b ?s = Inr (Some e')" for e'
      using that e(1) n by (simp add: execution_sound_def)
  qed (use that in blast)
  have res: "scope_commit_result E i ?rt2 = Inr s'" using s'(1) assms(1) snap by (simp add: scope_commit_result_def)
  obtain bk3 where bk3: "bk_store bk3 = s'"
    "with_scope E ?m (l, rt) = Some (Inr (), (l, ?rt2\<lparr>rt_backend := bk3, rt_commits := rt_commits rt @ [s']\<rparr>))"
    using scope_end [where m = ?m, OF op refl m k] res by (auto simp: scope_store_def scope_outcome_def)
  let ?rt3 = "?rt2\<lparr>rt_backend := bk3, rt_commits := rt_commits rt @ [s']\<rparr>"
  have start: "start_execution E x ca (l, rt) = Some (Inr (), (l, ?rt3))"
    using bk3(2) by (simp add: start_execution_def)
  have "kept ?c {} rt ?rt3"
    using keepsD [OF keeps_start_execution [OF refl, of E False] _ start] d by simp
  moreover have "advanced inv recorded E (tracer_current (rt_stack rt)) rt ?rt3"
    using s'(2,3) obs bk3(1) assms(1) below_child [OF assms(5)] by (auto simp: advanced_def)
  moreover have "cl_read C ?sess x (store_of ?rt3) = Inr (Some (norm e))"
    using s'(3) [OF sess assms(4)] e(1) bk3(1) by simp
  ultimately show ?thesis using that [OF start] n by blast
qed

end

context claiming_store
begin

lemma ensure_ready:
  assumes "en_client E = C" "environment_ok ok norm version_ok E" "ready inv recorded E rt"
  obtains rt' where
    "ensure_domain E (ef_domain (en_functions E i)) (ef_version (en_functions E i)) rt = Some (Inr (), rt')"
    "advanced inv recorded E p rt rt'"
proof -
  let ?d = "ef_domain (en_functions E i)" and ?v = "ef_version (en_functions E i)" and ?s = "store_of rt"
  have s: "inv ?s" "store_sound E ?s" "versions_agree recorded E ?s" "observed_agree E (rt_observed rt)"
    using assms(3) by (simp_all add: ready_def sound_state_def)
  have sess: "session_ok (en_session E)" and fs: "functions_ok version_ok E"
    using assms(2) by (simp_all add: environment_ok_def)
  have f: "valid_domain_id ?d" "version_ok ?v" "\<And>j. ef_domain (en_functions E j) = ?d \<Longrightarrow> ef_version (en_functions E j) = ?v"
    "\<And>j. valid_domain_id (ef_domain (en_functions E j))"
    using fs unfolding functions_ok_def Let_def by blast+
  show ?thesis
  proof (cases "map_of (rt_observed rt) ?d")
    case (Some w)
    then have "w = ?v" using s(4) by (auto simp: observed_agree_def Let_def dest!: spec [of _ i])
    with Some have "ensure_domain E ?d ?v rt = Some (Inr (), rt\<lparr>rt_commits := rt_commits rt @ [?s]\<rparr>)"
      by (simp add: ensure_domain_def claims_ensure_def claims_require_def ensure_r_def)
    moreover have "advanced inv recorded E p rt (rt\<lparr>rt_commits := rt_commits rt @ [?s]\<rparr>)"
      using s by (simp add: advanced_def sound_state_def)
    ultimately show ?thesis using that by blast
  next
    case None
    obtain s' where s': "cl_claim C (en_session E) ?d ?v ?s =
          Inr ((case recorded (en_session E) ?d ?s of None \<Rightarrow> ?v | Some w \<Rightarrow> w), s')" "inv s'"
      "\<And>sess' d'. session_ok sess' \<Longrightarrow> valid_domain_id d' \<Longrightarrow> recorded sess' d' s' =
           (if sess' = en_session E \<and> d' = ?d then Some (case recorded (en_session E) ?d ?s of None \<Rightarrow> ?v | Some w \<Rightarrow> w)
            else recorded sess' d' ?s)"
      "\<And>sess' x. session_ok sess' \<Longrightarrow> storable_id x \<Longrightarrow> cl_read C sess' x s' = cl_read C sess' x ?s"
      using claim_ok [OF s(1) sess f(1,2)] by auto
    have w: "(case recorded (en_session E) ?d ?s of None \<Rightarrow> ?v | Some w \<Rightarrow> w) = ?v"
      using s(3) unfolding versions_agree_def Let_def by (elim allE [of _ i]) (auto split: option.split)
    have "store_sound E s'" using s(2) s'(4) sess assms(1) by (simp add: store_sound_def)
    moreover have "versions_agree recorded E s'"
      unfolding versions_agree_def Let_def
    proof
      fix j
      let ?e = "ef_domain (en_functions E j)"
      have r: "recorded (en_session E) ?e s' = (if ?e = ?d then Some ?v else recorded (en_session E) ?e ?s)"
        using s'(3) [OF sess f(4) [of j]] w by (cases "?e = ?d") simp_all
      have "recorded (en_session E) ?e ?s \<in> {None, Some (ef_version (en_functions E j))}"
        using s(3) unfolding versions_agree_def Let_def by blast
      then show "recorded (en_session E) ?e s' \<in> {None, Some (ef_version (en_functions E j))}"
        unfolding r using f(3) [of j] by (cases "?e = ?d") simp_all
    qed
    ultimately have sound: "sound_state inv recorded E s'" using s'(2) by (simp add: sound_state_def)
    have obs: "observed_agree E (AList.update ?d ?v (rt_observed rt))"
      unfolding observed_agree_def Let_def
    proof
      fix j
      have "map_of (rt_observed rt) (ef_domain (en_functions E j)) \<in> {None, Some (ef_version (en_functions E j))}"
        using s(4) unfolding observed_agree_def Let_def by blast
      then show "map_of (AList.update ?d ?v (rt_observed rt)) (ef_domain (en_functions E j))
          \<in> {None, Some (ef_version (en_functions E j))}"
        using f(3) [of j] by (cases "ef_domain (en_functions E j) = ?d") simp_all
    qed
    let ?rt = "rt\<lparr>rt_observed := AList.update ?d ?v (rt_observed rt),
        rt_backend := (rt_backend rt)\<lparr>bk_store := s'\<rparr>, rt_commits := rt_commits rt @ [s']\<rparr>"
    have "ensure_domain E ?d ?v rt = Some (Inr (), ?rt)"
      using None s'(1) w assms(1)
      by (simp add: ensure_domain_def claims_ensure_def claims_observe_def claims_require_def ensure_r_def)
    moreover have "advanced inv recorded E p rt ?rt"
      using sound obs s'(4) assms(1) by (simp add: advanced_def)
    ultimately show ?thesis using that by blast
  qed
qed

end

section \<open>Inside a body\<close>

text \<open>
  The execution \<open>x\<close> is running in the stage \<open>i\<close>, started and with the metadata \<open>md\<close> so far, which
  the stage holds and the store does not.
\<close>

definition working ::
  "('s \<Rightarrow> bool) \<Rightarrow> (session_id \<Rightarrow> domain_id \<Rightarrow> 's \<Rightarrow> domain_version option) \<Rightarrow> (execution \<Rightarrow> bool) \<Rightarrow>
   ('s, 'v, 't) env \<Rightarrow> execution_id \<Rightarrow> nat \<Rightarrow> (pystr \<Rightarrow> bytes option) \<Rightarrow> 's runtime \<Rightarrow> bool" where
  "working sinv recorded ok E x i md rt \<longleftrightarrow>
     disciplined (en_task E) rt \<and> sound_state sinv recorded E (store_of rt) \<and> observed_agree E (rt_observed rt) \<and>
     (\<forall>y \<in> set (rt_stack rt). storable_id y) \<and> tracer_current (rt_stack rt) = Some x \<and>
     stage_is_open (en_task E) i (rt_backend rt) \<and>
     (let b = stage_snapshot i (bk_staging (rt_backend rt)) in
        batch_ok ok b \<and> fst ` set b \<subseteq> {ExecutionKey (en_session E) x} \<and>
        (\<exists>e. visible (en_client E) (en_session E) x b (store_of rt) = Inr (Some e) \<and> ex_status e = STARTED \<and>
           ok e \<and> ex_id e = x \<and> (\<forall>k. map_option (\<lambda>m. sv_data (md_value m)) (get_metadata k e) = md k)))"

lemma workingD:
  assumes "working sinv recorded ok E x i md rt"
  shows "disciplined (en_task E) rt" "sound_state sinv recorded E (store_of rt)" "observed_agree E (rt_observed rt)"
    "\<forall>y \<in> set (rt_stack rt). storable_id y" "tracer_current (rt_stack rt) = Some x" "storable_id x"
    "stage_is_open (en_task E) i (rt_backend rt)" "batch_ok ok (stage_snapshot i (bk_staging (rt_backend rt)))"
    "fst ` set (stage_snapshot i (bk_staging (rt_backend rt))) \<subseteq> {ExecutionKey (en_session E) x}"
  using assms by (auto simp: working_def Let_def tracer_current_def split: if_splits)

lemma working_ready:
  assumes "working sinv recorded ok E x i md rt"
  shows "ready sinv recorded E rt"
proof -
  note w = workingD [OF assms]
  have "map_of (stage_snapshot i (bk_staging (rt_backend rt))) (ExecutionKey (en_session E) y) = None"
    if "below (Some x) y" for y
    using that w(9) not_below_self by (auto simp: map_of_eq_None_iff)
  then show ?thesis using w by (simp add: ready_def staged_items_open)
qed

lemma kept_stage_open:
  "kept c {} rt rt' \<Longrightarrow> stage_is_open c i (rt_backend rt) \<Longrightarrow>
     stage_is_open c i (rt_backend rt') \<and>
     stage_snapshot i (bk_staging (rt_backend rt')) = stage_snapshot i (bk_staging (rt_backend rt))"
  by (auto simp: kept_def staging_kept_def stage_is_open_def staging_current_def registry_open_def stage_snapshot_def
      split: option.splits if_splits)

lemma working_advance:
  assumes "working sinv recorded ok E x i md rt" "kept (en_task E) {} rt rt'" "session_ok (en_session E)"
    and "advanced sinv recorded E (Some x) rt rt'"
  shows "working sinv recorded ok E x i md rt'"
proof -
  note w = workingD [OF assms(1)]
  have k: "rt_stack rt' = rt_stack rt" "stage_is_open (en_task E) i (rt_backend rt')"
    "stage_snapshot i (bk_staging (rt_backend rt')) = stage_snapshot i (bk_staging (rt_backend rt))"
    using assms(2) kept_stage_open [OF assms(2) w(7)] by (simp_all add: kept_def)
  have "cl_read (en_client E) (en_session E) x (store_of rt') = cl_read (en_client E) (en_session E) x (store_of rt)"
    using assms(3,4) w(6) not_below_self by (auto simp: advanced_def)
  then have v: "visible (en_client E) (en_session E) x b (store_of rt') = visible (en_client E) (en_session E) x b (store_of rt)" for b
    by (simp add: visible_def split: option.split)
  show ?thesis
    using assms(1,4) kept_disciplined [OF w(1) assms(2)] k
    unfolding working_def advanced_def Let_def k v by simp
qed

context claiming_store
begin

lemma metadata_set_working:
  assumes "en_client E = C" "environment_ok ok norm version_ok E" "working inv recorded ok E x i md rt" "scalar_str key"
    and "en_serialize E v (case value_type of None \<Rightarrow> en_type_of E v | Some t \<Rightarrow> t) = Inr b"
  obtains rt' where "metadata_set E key v value_type rt = Some (Inr (), rt')"
    "working inv recorded ok E x i (md(key \<mapsto> b)) rt'" "advanced inv recorded E p rt rt'" "rt_stack rt' = rt_stack rt"
proof -
  note w = workingD [OF assms(3)]
  let ?bk = "rt_backend rt" and ?sess = "en_session E"
  let ?b = "stage_snapshot i (bk_staging ?bk)"
  obtain e where e: "visible C ?sess x ?b (store_of rt) = Inr (Some e)" "ex_status e = STARTED" "ok e" "ex_id e = x"
    "\<forall>k. map_option (\<lambda>m. sv_data (md_value m)) (get_metadata k e) = md k"
    using assms(1,3) by (auto simp: working_def Let_def)
  let ?e = "set_metadata key (SerializedValue b) e"
  let ?b' = "AList.update (ExecutionKey ?sess x) (SaveExecution (from_execution ?e)) ?b"
  let ?rt = "rt\<lparr>rt_backend := put_stage i ?b' ?bk\<rparr>"
  have ok': "ok ?e" using assms(2,4,5) e(3) unfolding environment_ok_def serializer_ok_def by blast
  have id: "ex_id ?e = x" "ex_status ?e = STARTED" using e(2,4) by (simp_all add: set_metadata_def)
  have run: "metadata_set E key v value_type rt = Some (Inr (), ?rt)"
    using w(5) e(1) assms(1,5) id
    by (simp add: metadata_set_def ask_c_def bind_c_def get_execution_def repo_get_open [OF w(7)] lift_r_def
        save_execution_def repo_save_open [OF w(7)])
  have len: "i < length (sg_stages (bk_staging ?bk))" using w(7) by (simp add: stage_is_open_def)
  have "disciplined (en_task E) ?rt"
    by (rule kept_disciplined [OF w(1) keepsD [OF keeps_metadata_set [OF refl] w(1) run]])
  moreover have "batch_ok ok ?b'"
  proof (rule batch_ok_update [OF w(8)])
    have "session_ok ?sess" using assms(2) by (simp add: environment_ok_def)
    with w(6) ok' id(1) show "batch_ok ok [(ExecutionKey ?sess x, SaveExecution (from_execution ?e))]"
      unfolding batch_ok_simps by (auto simp: batch_ok_simps(1))
  qed
  moreover have "fst ` set ?b' \<subseteq> {ExecutionKey ?sess x}" using w(9) by (auto simp: AList.update_keys dom_update)
  moreover have "\<exists>e'. visible C ?sess x ?b' (store_of rt) = Inr (Some e') \<and> ex_status e' = STARTED \<and> ok e' \<and> ex_id e' = x \<and>
      (\<forall>k. map_option (\<lambda>m. sv_data (md_value m)) (get_metadata k e') = (md(key \<mapsto> b)) k)"
  proof (intro exI [of _ "sort_execution ?e"] conjI allI)
    show "visible C ?sess x ?b' (store_of rt) = Inr (Some (sort_execution ?e))"
      using ok_stageable [OF ok'] by (simp add: visible_def to_from_execution)
    show "map_option (\<lambda>m. sv_data (md_value m)) (get_metadata k (sort_execution ?e)) = (md(key \<mapsto> b)) k" for k
      using ok_stageable [OF ok'] e(5) by (simp add: get_metadata_sort get_set_metadata)
  qed (use norm_simps [OF ok'] id in simp_all)
  ultimately have "working inv recorded ok E x i (md(key \<mapsto> b)) ?rt"
    using w len assms(1) by (simp add: working_def)
  moreover have "advanced inv recorded E p rt ?rt" using w(2,3) by (simp add: advanced_def)
  ultimately show ?thesis using that [OF run] by simp
qed

lemma metadata_get_working:
  assumes "en_client E = C" "working inv recorded ok E x i md rt"
  shows "metadata_get E key t None rt =
    Some ((case md key of None \<Rightarrow> Inr None | Some b \<Rightarrow> map_sum id Some (en_deserialize E b t)), rt)"
proof -
  note w = workingD [OF assms(2)]
  obtain e where e: "visible C (en_session E) x (stage_snapshot i (bk_staging (rt_backend rt))) (store_of rt) = Inr (Some e)"
    "\<forall>k. map_option (\<lambda>m. sv_data (md_value m)) (get_metadata k e) = md k"
    using assms by (auto simp: working_def Let_def)
  have "md key = map_option (\<lambda>m. sv_data (md_value m)) (get_metadata key e)" using e(2) by simp
  then show ?thesis
    using w(5) e(1) assms(1)
    by (simp add: metadata_get_def ask_c_def bind_c_def get_execution_def repo_get_open [OF w(7)] return_c_def lift_r_def
        split: option.split)
qed

lemma body_refines:
  assumes "en_client E = C" "environment_ok ok norm version_ok E"
    and keeps: "\<And>j args kwargs. keeps (en_task E) False (\<lambda>rt. rt) (call j args kwargs)"
    and calls: "\<And>j args kwargs rt r. ready inv recorded E rt \<Longrightarrow> pure j args kwargs = Some r \<Longrightarrow>
      \<exists>rt'. call j args kwargs rt = Some (r, rt') \<and> advanced inv recorded E (tracer_current (rt_stack rt)) rt rt'"
  shows "working inv recorded ok E x i md rt \<Longrightarrow> own_metadata prog \<Longrightarrow> pure_prog E pure prog (Some md) = Some r \<Longrightarrow>
    \<exists>md' rt'. run_prog E call prog rt = Some (r, rt') \<and> working inv recorded ok E x i md' rt' \<and>
      advanced inv recorded E (Some x) rt rt'"
proof (induction prog arbitrary: md rt)
  case (PReturn v)
  then show ?case using workingD [OF PReturn.prems(1)] by (auto simp: return_c_def intro: advanced_refl)
next
  case (PRaise e)
  then show ?case using workingD [OF PRaise.prems(1)] by (auto simp: raise_c_def lift_r_def intro: advanced_refl)
next
  case (PCall j args kwargs k)
  note w = workingD [OF PCall.prems(1)]
  obtain q where q: "pure j args kwargs = Some q" "pure_prog E pure (k q) (Some md) = Some r"
    using PCall.prems(3) by (auto split: option.splits)
  obtain rt1 where rt1: "call j args kwargs rt = Some (q, rt1)" "advanced inv recorded E (Some x) rt rt1"
    using calls [OF working_ready [OF PCall.prems(1)] q(1)] w(5) by auto
  have "kept (en_task E) {} rt rt1" using keepsD [OF keeps w(1) rt1(1)] by simp
  then have "working inv recorded ok E x i md rt1"
    using working_advance [OF PCall.prems(1) _ _ rt1(2)] assms(2) by (simp add: environment_ok_def)
  from PCall.IH [OF rangeI this _ q(2)] PCall.prems(2) obtain md' rt' where
    "run_prog E call (k q) rt1 = Some (r, rt')" "working inv recorded ok E x i md' rt'" "advanced inv recorded E (Some x) rt1 rt'"
    by auto
  then show ?case using rt1 advanced_trans by (auto simp: settle_c_def)
next
  case (PSetMetadata key v value_type k)
  have key: "scalar_str key" "\<And>q. own_metadata (k q)" using PSetMetadata.prems(2) by auto
  let ?ser = "en_serialize E v (case value_type of None \<Rightarrow> en_type_of E v | Some t \<Rightarrow> t)"
  show ?case
  proof (cases ?ser)
    case (Inl e)
    note w = workingD [OF PSetMetadata.prems(1)]
    obtain e0 where "visible C (en_session E) x (stage_snapshot i (bk_staging (rt_backend rt))) (store_of rt) = Inr (Some e0)"
      using assms(1) PSetMetadata.prems(1) by (auto simp: working_def Let_def)
    then have "metadata_set E key v value_type rt = Some (Inl e, rt)"
      using w(5) Inl assms(1)
      by (simp add: metadata_set_def ask_c_def bind_c_def get_execution_def repo_get_open [OF w(7)] lift_r_def)
    then show ?thesis
      using PSetMetadata.IH [OF rangeI PSetMetadata.prems(1) key(2), of "Inl e"] PSetMetadata.prems(3) Inl
      by (simp add: settle_c_def)
  next
    case (Inr b)
    obtain rt1 where rt1: "metadata_set E key v value_type rt = Some (Inr (), rt1)"
      "working inv recorded ok E x i (md(key \<mapsto> b)) rt1" "advanced inv recorded E (Some x) rt rt1"
      using metadata_set_working [OF assms(1,2) PSetMetadata.prems(1) key(1) Inr] by metis
    have "pure_prog E pure (k (Inr ())) (Some (md(key \<mapsto> b))) = Some r" using PSetMetadata.prems(3) Inr by simp
    from PSetMetadata.IH [OF rangeI rt1(2) key(2) this] rt1(1,3) show ?thesis
      using advanced_trans by (fastforce simp: settle_c_def)
  qed
next
  case (PGetMetadata key t target k)
  have key: "target = None" "\<And>q. own_metadata (k q)" using PGetMetadata.prems(2) by auto
  let ?q = "case md key of None \<Rightarrow> Inr None | Some b \<Rightarrow> map_sum id Some (en_deserialize E b t)"
  have "pure_prog E pure (k ?q) (Some md) = Some r" using PGetMetadata.prems(3) by (auto split: option.splits)
  from PGetMetadata.IH [OF rangeI PGetMetadata.prems(1) key(2) this]
  show ?case using metadata_get_working [OF assms(1) PGetMetadata.prems(1), of key t] key(1) by (auto simp: settle_c_def)
qed

end

section \<open>A whole call\<close>

text \<open>What a running body has to do, and what the call returns when the body ends with \<open>rb\<close>.\<close>

definition call_outcome :: "('s, 'v, 't) env \<Rightarrow> 't \<Rightarrow> exn + 'v \<Rightarrow> exn + 'v" where
  "call_outcome E t rb = bind_r rb (\<lambda>v. bind_r (en_serialize E v t) (\<lambda>_. Inr v))"

lemma advanced_commit:
  assumes "advanced sinv recorded E p a b" "store_of d = store_of b" "rt_observed d = rt_observed b"
    and "rt_commits d = rt_commits b @ [store_of b]"
  shows "advanced sinv recorded E p a d"
  using assms by (auto simp: advanced_def)

context claiming_store
begin

text \<open>The body transaction when the body, or serializing its result, fails: nothing is written.\<close>

lemma failed_scope:
  assumes "en_client E = C" "scope_opened (en_task E) rt i bk" "keeps (en_task E) True snd m"
    and "m (None, rt\<lparr>rt_backend := bk\<rparr>) = Some (Inl ex, (l, rt2))"
    and "advanced inv recorded E p (rt\<lparr>rt_backend := bk\<rparr>) rt2"
  obtains rt3 where "with_scope E m (None, rt) = Some (Inl ex, (l, rt3))" "advanced inv recorded E p rt rt3"
proof -
  have o: "disciplined (en_task E) (rt\<lparr>rt_backend := bk\<rparr>)" "open_stages (en_task E) (bk_staging bk) = {i}"
    "bk_store bk = store_of rt"
    using assms(2) by (simp_all add: scope_opened_def)
  have k: "kept (en_task E) {i} (rt\<lparr>rt_backend := bk\<rparr>) rt2"
    using keepsD [OF assms(3) _ assms(4)] o(1,2) by simp
  obtain bk3 where bk3: "bk_store bk3 = store_of rt2"
    "with_scope E m (None, rt) = Some (Inl ex, (l, rt2\<lparr>rt_backend := bk3, rt_commits := rt_commits rt2 @ [bk_store bk3]\<rparr>))"
    using scope_end [where m = m, OF assms(2) refl assms(4) k] by (auto simp: scope_store_def scope_outcome_def)
  have "advanced inv recorded E p rt rt2" using assms(5) o(3) by (simp add: advanced_def)
  from that [OF bk3(2) advanced_commit [OF this]] bk3(1) show ?thesis by simp
qed

text \<open>The body transaction when all goes well: the completed execution is committed.\<close>

lemma completed_scope:
  fixes rt :: "'s runtime" and x :: execution_id
  assumes "en_client E = C" "environment_ok ok norm version_ok E" "scope_opened (en_task E) rt i bk"
    and "keeps (en_task E) True snd m" "below p x"
    and "m (None, rt\<lparr>rt_backend := bk\<rparr>) = Some (Inr v, (l, rt2))"
    and "advanced inv recorded E p (rt\<lparr>rt_backend := bk\<rparr>) rt2"
    and "batch_ok ok (stage_snapshot i (bk_staging (rt_backend rt2)))"
    and "fst ` set (stage_snapshot i (bk_staging (rt_backend rt2))) \<subseteq> {ExecutionKey (en_session E) x}"
    and "\<And>e. visible C (en_session E) x (stage_snapshot i (bk_staging (rt_backend rt2))) (store_of rt2) = Inr (Some e) \<Longrightarrow>
      execution_sound E (norm e)"
  obtains rt3 where "with_scope E m (None, rt) = Some (Inr v, (l, rt3))" "advanced inv recorded E p rt rt3"
proof -
  have o: "disciplined (en_task E) (rt\<lparr>rt_backend := bk\<rparr>)" "open_stages (en_task E) (bk_staging bk) = {i}"
    "bk_store bk = store_of rt"
    using assms(3) by (simp_all add: scope_opened_def)
  have k: "kept (en_task E) {i} (rt\<lparr>rt_backend := bk\<rparr>) rt2"
    using keepsD [OF assms(4) _ assms(6)] o(1,2) by simp
  have adv: "advanced inv recorded E p rt rt2" using assms(7) o(3) by (simp add: advanced_def)
  have sound: "sound_state inv recorded E (store_of rt2)" using adv by (simp add: advanced_def)
  obtain s' where s': "cl_commit C (stage_snapshot i (bk_staging (rt_backend rt2))) (store_of rt2) = Inr s'"
    "sound_state inv recorded E s'"
    "\<And>sess y. session_ok sess \<Longrightarrow> storable_id y \<Longrightarrow> cl_read C sess y s' =
       (if sess = en_session E \<and> y = x
        then map_sum id (map_option norm) (visible C sess y (stage_snapshot i (bk_staging (rt_backend rt2))) (store_of rt2))
        else cl_read C sess y (store_of rt2))"
  proof (rule commit_step [OF assms(1,2) sound assms(8,9)])
    show "execution_sound E (norm e)"
      if "visible C (en_session E) x (stage_snapshot i (bk_staging (rt_backend rt2))) (store_of rt2) = Inr (Some e)" for e
      using assms(10) that .
  qed (use that in blast)
  have res: "scope_commit_result E i rt2 = Inr s'" using s'(1) assms(1) by (simp add: scope_commit_result_def)
  obtain bk3 where bk3: "bk_store bk3 = s'"
    "with_scope E m (None, rt) = Some (Inr v, (l, rt2\<lparr>rt_backend := bk3, rt_commits := rt_commits rt2 @ [bk_store bk3]\<rparr>))"
    using scope_end [where m = m, OF assms(3) refl assms(6) k] res by (auto simp: scope_store_def scope_outcome_def)
  let ?rt3 = "rt2\<lparr>rt_backend := bk3, rt_commits := rt_commits rt2 @ [bk_store bk3]\<rparr>"
  have "advanced inv recorded E p rt2 ?rt3"
    using s'(2,3) bk3(1) adv assms(1,5) by (auto simp: advanced_def)
  from advanced_trans [OF adv this] show ?thesis by (rule that [OF bk3(2)])
qed

lemma execute_body_refines:
  assumes "en_client E = C" "environment_ok ok norm version_ok E" "below p x"
    and keeps: "keeps (en_task E) True (\<lambda>rt. rt) func"
    and op: "scope_opened (en_task E) rt i bk"
    and func: "func (rt\<lparr>rt_backend := bk\<rparr>) = Some (rb, rt2)" "working inv recorded ok E x i md rt2"
      "advanced inv recorded E p (rt\<lparr>rt_backend := bk\<rparr>) rt2"
    and sound: "\<And>v e. call_outcome E t rb = Inr v \<Longrightarrow> ex_status e = COMPLETED \<Longrightarrow> ex_id e = x \<Longrightarrow>
      \<exists>b. ex_result e = Some b \<and> en_deserialize E (sv_data b) t = Inr v \<Longrightarrow> execution_sound E e"
  shows "\<exists>l rt'. catch_c (execute_body E x func t) (report_failure E x) (None, rt) = Some (call_outcome E t rb, (l, rt')) \<and>
    advanced inv recorded E p rt rt'"
proof -
  note w = workingD [OF func(2)]
  let ?bk2 = "rt_backend rt2" and ?sess = "en_session E"
  let ?b = "stage_snapshot i (bk_staging ?bk2)"
  obtain e where e: "visible C ?sess x ?b (store_of rt2) = Inr (Some e)" "ex_status e = STARTED" "ok e" "ex_id e = x"
    using assms(1) func(2) by (auto simp: working_def Let_def)
  let ?m = "bind_c (catch_c (shared func)
                     (\<lambda>e (func_exception, rt).
                        Some (Inl e, (if is_instance e C_Exception then Some e else func_exception, rt)))) (\<lambda>result.
           bind_c (shared (get_execution E x)) (\<lambda>execution.
             case execution of
               None \<Rightarrow> raise_c LookupError
             | Some e \<Rightarrow>
                 bind_c (lift_r (en_serialize E result t)) (\<lambda>serialized.
                 bind_c (lift_r (execution_complete (SerializedValue serialized) e)) (\<lambda>completed.
                 bind_c (shared (save_execution E completed)) (\<lambda>_. return_c result)))))"
  have km: "keeps (en_task E) True snd ?m" using keeps by (auto intro!: keeps_rules keeps_save split: option.split)
  note steps = bind_c_def catch_c_def shared_def get_execution_def repo_get_open [OF w(7)] lift_r_def save_execution_def
    raise_c_def return_c_def
  have handlers: "\<forall>h ev e. en_handle E h ev = Inl e \<longrightarrow> is_instance e C_Exception"
    using assms(2) by (simp add: environment_ok_def)
  have failed: ?thesis if m: "?m (None, rt\<lparr>rt_backend := bk\<rparr>) = Some (Inl ex, (l, rt2))" and rb: "call_outcome E t rb = Inl ex" for ex l
  proof -
    obtain rt3 where rt3: "with_scope E ?m (None, rt) = Some (Inl ex, (l, rt3))" "advanced inv recorded E p rt rt3"
      by (rule failed_scope [OF assms(1) op km m func(3)])
    obtain log where "\<And>f. l = Some f \<Longrightarrow> emit_to_handlers E (ExecutionFailed x f) rt3 = Some (Inr (), rt3\<lparr>rt_log := log\<rparr>)"
      using emit_ready [OF handlers, of "ExecutionFailed x (the l)" rt3] by (metis option.sel)
    then have "\<exists>rt'. catch_c (execute_body E x func t) (report_failure E x) (None, rt) = Some (Inl ex, (l, rt')) \<and>
        (rt' = rt3 \<or> rt' = rt3\<lparr>rt_log := log\<rparr>)"
      using rt3(1)
      by (cases l) (auto simp: execute_body_def report_failure_def ask_c_def steps)
    moreover have "advanced inv recorded E p rt (rt3\<lparr>rt_log := log\<rparr>)" using rt3(2) by (simp add: advanced_def)
    ultimately show ?thesis using rt3(2) rb by auto
  qed
  show ?thesis
  proof (cases rb)
    case (Inl ex)
    then have "\<exists>l. ?m (None, rt\<lparr>rt_backend := bk\<rparr>) = Some (Inl ex, (l, rt2))"
      using func(1) by (auto simp: steps)
    with failed Inl show ?thesis by (auto simp: call_outcome_def)
  next
    case (Inr v)
    show ?thesis
    proof (cases "en_serialize E v t")
      case (Inl ex)
      then have "?m (None, rt\<lparr>rt_backend := bk\<rparr>) = Some (Inl ex, (None, rt2))"
        using func(1) Inr e(1) assms(1) by (simp add: steps)
      with failed Inl Inr show ?thesis by (auto simp: call_outcome_def)
    next
      case (Inr b)
      let ?e = "e\<lparr>ex_status := COMPLETED, ex_result := Some (SerializedValue b)\<rparr>"
      let ?b' = "AList.update (ExecutionKey ?sess x) (SaveExecution (from_execution ?e)) ?b"
      let ?rt3 = "rt2\<lparr>rt_backend := put_stage i ?b' ?bk2\<rparr>"
      have complete: "execution_complete (SerializedValue b) e = Inr ?e" using e(2) by (simp add: execution_complete_def)
      have ok': "ok ?e" "\<exists>r. ex_result (norm ?e) = Some r \<and> en_deserialize E (sv_data r) t = Inr v"
        using assms(2) Inr e(3) complete unfolding environment_ok_def serializer_ok_def by blast+
      have m: "?m (None, rt\<lparr>rt_backend := bk\<rparr>) = Some (Inr v, (None, ?rt3))"
        using func(1) \<open>rb = Inr v\<close> Inr e(1,4) assms(1) complete by (simp add: steps repo_save_open [OF w(7)])
      have len: "i < length (sg_stages (bk_staging ?bk2))" using w(7) by (simp add: stage_is_open_def)
      have snap: "stage_snapshot i (bk_staging (rt_backend ?rt3)) = ?b'" "store_of ?rt3 = store_of rt2" using len by simp_all
      have b': "batch_ok ok ?b'"
      proof (rule batch_ok_update [OF w(8)])
        have "session_ok ?sess" using assms(2) by (simp add: environment_ok_def)
        with w(6) ok'(1) e(4) show "batch_ok ok [(ExecutionKey ?sess x, SaveExecution (from_execution ?e))]"
          unfolding batch_ok_simps by (auto simp: batch_ok_simps(1))
      qed
      have keys: "fst ` set ?b' \<subseteq> {ExecutionKey ?sess x}" using w(9) by (auto simp: AList.update_keys dom_update)
      have out: "call_outcome E t rb = Inr v" using \<open>rb = Inr v\<close> Inr by (simp add: call_outcome_def)
      have vis: "execution_sound E (norm e')" if "visible C ?sess x ?b' (store_of rt2) = Inr (Some e')" for e'
      proof -
        have "e' = sort_execution ?e" using that ok_stageable [OF ok'(1)] by (simp add: visible_def to_from_execution)
        then have "norm e' = norm ?e" using norm_simps [OF ok'(1)] by simp
        moreover have "ex_status (norm ?e) = COMPLETED" "ex_id (norm ?e) = x" using norm_simps [OF ok'(1)] e(4) by simp_all
        ultimately show ?thesis using sound [OF out _ _ ok'(2)] by simp
      qed
      have adv: "advanced inv recorded E p (rt\<lparr>rt_backend := bk\<rparr>) ?rt3" using func(3) by (simp add: advanced_def)
      obtain rt4 where rt4: "with_scope E ?m (None, rt) = Some (Inr v, (None, rt4))" "advanced inv recorded E p rt rt4"
        by (rule completed_scope [OF assms(1,2) op km assms(3) m adv]) (simp_all only: snap b' keys vis)
      obtain log where log: "emit_to_handlers E (ExecutionCompleted x) rt4 = Some (Inr (), rt4\<lparr>rt_log := log\<rparr>)"
        using emit_ready [OF handlers] by blast
      have "catch_c (execute_body E x func t) (report_failure E x) (None, rt) = Some (Inr v, (None, rt4\<lparr>rt_log := log\<rparr>))"
        using rt4(1) log by (simp add: execute_body_def steps)
      moreover have "advanced inv recorded E p rt (rt4\<lparr>rt_log := log\<rparr>)" using rt4(2) by (simp add: advanced_def)
      ultimately show ?thesis using out by auto
    qed
  qed
qed

end

text \<open>The state a body starts in: its identity pushed, its stage just opened.\<close>

lemma working_start:
  assumes "ready sinv recorded E rt" "storable_id x" "scope_opened (en_task E) (rt\<lparr>rt_stack := tracer_start x (rt_stack rt)\<rparr>) i bk"
    and "cl_read (en_client E) (en_session E) x (store_of rt) = Inr (Some e)"
    and "ex_status e = STARTED" "ex_metadata e = []" "ok e" "ex_id e = x"
  shows "working sinv recorded ok E x i (\<lambda>_. None) (rt\<lparr>rt_stack := tracer_start x (rt_stack rt), rt_backend := bk\<rparr>)"
proof -
  have "disciplined (en_task E) (rt\<lparr>rt_stack := tracer_start x (rt_stack rt), rt_backend := bk\<rparr>)"
    "stage_is_open (en_task E) i bk" "stage_snapshot i (bk_staging bk) = []" "bk_store bk = store_of rt"
    using assms(3) by (simp_all add: scope_opened_def)
  then show ?thesis
    using assms(1,2,4-8) by (simp add: working_def ready_def batch_ok_simps visible_def get_metadata_def)
qed

context claiming_store
begin

lemma execute_refines:
  assumes "en_client E = C" "environment_ok ok norm version_ok E" "deterministic E" "ready inv recorded E rt"
    and x: "storable_id x" "eid_parent x = tracer_current (rt_stack rt)" "eid_digest x = ca_digest ca"
      "en_canonicalize E arguments = Inr ca"
    and key: "call_key E j args kwargs = Some (eid_domain x, eid_name x, eid_digest x)"
    and pure: "pure_call E n j args kwargs = Some r" "r = call_outcome E t rb"
    and t: "t = fd_return (ef_definition (en_functions E j))"
    and keeps: "keeps (en_task E) True (\<lambda>rt. rt) func"
    and func: "\<And>i rt1. working inv recorded ok E x i (\<lambda>_. None) rt1 \<Longrightarrow>
      \<exists>md rt2. func rt1 = Some (rb, rt2) \<and> working inv recorded ok E x i md rt2 \<and> advanced inv recorded E (Some x) rt1 rt2"
  shows "\<exists>l rt'. execute E x ca func t (None, rt) = Some (r, (l, rt')) \<and>
    advanced inv recorded E (tracer_current (rt_stack rt)) rt rt'"
proof -
  let ?sess = "en_session E" and ?p = "tracer_current (rt_stack rt)"
  have px: "below ?p x" using x(2) by (rule below_child)
  have sess: "session_ok ?sess" using assms(2) by (simp add: environment_ok_def)
  have s: "inv (store_of rt)" "store_sound E (store_of rt)" "disciplined (en_task E) rt"
    "sound_state inv recorded E (store_of rt)" "observed_agree E (rt_observed rt)"
    using assms(4) by (simp_all add: ready_def sound_state_def)
  obtain cached where cached: "cl_read C ?sess x (store_of rt) = Inr cached" using read_total [OF s(1) sess x(1)] by blast
  have get: "get_execution E x rt = Some (Inr cached, rt)"
    using assms(1,4) px cached by (simp add: get_execution_def repo_get_visible visible_def ready_def)
  show ?thesis
  proof (cases "\<exists>e. cached = Some e \<and> ex_status e = COMPLETED")
    case True
    then obtain e where e: "cached = Some e" "ex_status e = COMPLETED" by blast
    have "execution_sound E e" "ex_id e = x"
      using s(2) cached e(1) x(1) assms(1) read_ok [OF s(1) sess x(1)] by (auto simp: store_sound_def)
    then obtain v b where "r = Inr v" "ex_result e = Some b" "en_deserialize E (sv_data b) t = Inr v"
      using e(2) key pure(1) t unfolding execution_sound_def by blast
    then have "execute E x ca func t (None, rt) = Some (r, (None, rt))"
      using get e by (simp add: execute_def bind_c_def shared_def lift_r_def)
    then show ?thesis using s(4,5) by (auto intro: advanced_refl)
  next
    case False
    then have started: "\<forall>e. cached = Some e \<longrightarrow> ex_status e = STARTED" using execution_status.exhaust by blast
    obtain rt1 e where rt1: "start_execution E x ca (None, rt) = Some (Inr (), (None, rt1))"
      "kept (en_task E) {} rt rt1" "advanced inv recorded E ?p rt rt1"
      "cl_read C ?sess x (store_of rt1) = Inr (Some e)"
      "ex_status e = STARTED" "ex_metadata e = []" "ok e" "ex_id e = x"
      using start_ready [OF assms(1,2,4) x cached started, of None] by blast
    let ?rt2 = "rt1\<lparr>rt_stack := tracer_start x (rt_stack rt1)\<rparr>"
    have r1: "ready inv recorded E rt1" by (rule advanced_ready [OF assms(4) rt1(2,3)])
    then have d2: "disciplined (en_task E) ?rt2" by (simp add: ready_def disciplined_def)
    obtain i bk where op: "scope_opened (en_task E) ?rt2 i bk" by (rule scope_begin [OF d2])
    have "working inv recorded ok E x i (\<lambda>_. None) (?rt2\<lparr>rt_backend := bk\<rparr>)"
      using working_start [where rt = rt1 and ok = ok and e = e, OF r1 x(1) op _ rt1(5-8)] rt1(4) assms(1) by simp
    from func [OF this] obtain md rt3 where rt3: "func (?rt2\<lparr>rt_backend := bk\<rparr>) = Some (rb, rt3)"
      "working inv recorded ok E x i md rt3" "advanced inv recorded E (Some x) (?rt2\<lparr>rt_backend := bk\<rparr>) rt3" by blast
    have sound: "execution_sound E e'"
      if "call_outcome E t rb = Inr v" "ex_status e' = COMPLETED" "ex_id e' = x"
        "\<exists>b. ex_result e' = Some b \<and> en_deserialize E (sv_data b) t = Inr v" for v e'
      unfolding execution_sound_def
    proof (intro conjI impI allI)
      fix m k args' kwargs' r'
      assume key': "call_key E k args' kwargs' = Some (eid_domain (ex_id e'), eid_name (ex_id e'), eid_digest (ex_id e'))"
        and pure': "pure_call E m k args' kwargs' = Some r'"
      have eq: "call_key E k args' kwargs' = call_key E j args kwargs" "call_key E k args' kwargs' \<noteq> None"
        using key' key that(3) by simp_all
      have "r' = r" "fd_return (ef_definition (en_functions E k)) = t"
        using assms(3) eq pure' pure(1) t unfolding deterministic_def by metis+
      then show "\<exists>v b. r' = Inr v \<and> ex_result e' = Some b \<and>
          en_deserialize E (sv_data b) (fd_return (ef_definition (en_functions E k))) = Inr v"
        using that(1,4) pure(2) by auto
    qed (use that in simp)
    obtain l rt4 where rt4: "catch_c (execute_body E x func t) (report_failure E x) (None, ?rt2) = Some (r, (l, rt4))"
      "advanced inv recorded E ?p ?rt2 rt4"
    proof -
      have "\<exists>l rt'. catch_c (execute_body E x func t) (report_failure E x) (None, ?rt2) = Some (call_outcome E t rb, (l, rt')) \<and>
          advanced inv recorded E ?p ?rt2 rt'"
        by (rule execute_body_refines [OF assms(1,2) px keeps op rt3(1,2) advanced_deeper [OF rt3(3) px]])
           (rule sound)
      with that pure(2) show ?thesis by blast
    qed
    have "execute E x ca func t (None, rt) = Some (r, (l, rt4\<lparr>rt_stack := tracer_end (rt_stack rt4)\<rparr>))"
      using get rt1(1) rt4(1) started
      by (auto simp: execute_def bind_c_def shared_def within_call_def finally_c_def split: option.split)
    moreover have "advanced inv recorded E ?p rt (rt4\<lparr>rt_stack := tracer_end (rt_stack rt4)\<rparr>)"
      using advanced_trans [OF rt1(3), of rt4] rt4(2) by (simp add: advanced_def)
    ultimately show ?thesis by blast
  qed
qed

lemma call_refines:
  assumes "en_client E = C" "environment_ok ok norm version_ok E" "deterministic E"
  shows "ready inv recorded E rt \<Longrightarrow> pure_call E n j args kwargs = Some r \<Longrightarrow>
    \<exists>rt'. call_n E n j args kwargs rt = Some (r, rt') \<and> advanced inv recorded E (tracer_current (rt_stack rt)) rt rt'"
proof (induction n arbitrary: rt j args kwargs r)
  case (Suc n)
  let ?f = "en_functions E j" and ?p = "tracer_current (rt_stack rt)"
  have fs: "functions_ok version_ok E" using assms(2) by (simp add: environment_ok_def)
  obtain rt1 where rt1: "ensure_domain E (ef_domain ?f) (ef_version ?f) rt = Some (Inr (), rt1)" "advanced inv recorded E ?p rt rt1"
    using ensure_ready [OF assms(1,2) Suc.prems(1)] by blast
  have d: "disciplined (en_task E) rt" using Suc.prems(1) by (simp add: ready_def)
  have k1: "kept (en_task E) {} rt rt1" using keepsD [OF keeps_ensure d rt1(1), of False] by simp
  have r1: "ready inv recorded E rt1" by (rule advanced_ready [OF Suc.prems(1) k1 rt1(2)])
  have stack: "rt_stack rt1 = rt_stack rt" using k1 by (simp add: kept_def)
  show ?case
  proof (cases "bind_arguments (fd_signature (ef_definition ?f)) args kwargs")
    case (Inl e)
    then show ?thesis
      using Suc.prems(2) rt1
      by (auto simp: engraved_call_def resolve_call_identity_def ask_c_def bind_c_def lift_r_def Let_def)
  next
    case bound: (Inr arguments)
    show ?thesis
    proof (cases "en_canonicalize E arguments")
      case (Inl e)
      then show ?thesis
        using Suc.prems(2) rt1 bound
        by (auto simp: engraved_call_def resolve_call_identity_def ask_c_def bind_c_def lift_r_def Let_def)
    next
      case ca: (Inr ca)
      obtain rb where rb: "pure_prog E (pure_call E n) (ef_body ?f arguments) (Some (\<lambda>_. None)) = Some rb"
        "r = call_outcome E (fd_return (ef_definition ?f)) rb"
        using Suc.prems(2) bound ca by (auto simp: Let_def call_outcome_def split: option.splits sum.splits)
      obtain x sq where x: "resolve_call_identity E ?f args kwargs rt1 = Some (Inr (x, ca), rt1\<lparr>rt_sequencer := sq\<rparr>)"
        "eid_parent x = tracer_current (rt_stack rt1)" "storable_id x" "eid_digest x = ca_digest ca"
        "call_key E j args kwargs = Some (eid_domain x, eid_name x, eid_digest x)" "sequencer_inv sq"
        using resolve_ready [OF fs _ _ bound ca, of rt1] r1 by (auto simp: ready_def disciplined_def)
      let ?rt2 = "rt1\<lparr>rt_sequencer := sq\<rparr>"
      have r2: "ready inv recorded E ?rt2" using r1 x(6) by (simp add: ready_def disciplined_def)
      let ?func = "bind_c (lift_r (bind_arguments (fd_signature (ef_definition ?f)) args kwargs)) (\<lambda>arguments.
                run_prog E (call_n E n) (ef_body ?f arguments))"
      have func_eq: "?func = run_prog E (call_n E n) (ef_body ?f arguments)"
        using bound by (simp add: bind_c_def lift_r_def)
      have keeps: "keeps (en_task E) True (\<lambda>rt. rt) ?func"
        unfolding func_eq by (intro keeps_run_prog keeps_call_n refl)
      have own: "own_metadata (ef_body ?f arguments)" using fs unfolding functions_ok_def Let_def by blast
      have func: "\<exists>md rt2. ?func rt1 = Some (rb, rt2) \<and> working inv recorded ok E x i md rt2 \<and>
          advanced inv recorded E (Some x) rt1 rt2" if "working inv recorded ok E x i (\<lambda>_. None) rt1" for i rt1
        unfolding func_eq
        by (rule body_refines [OF assms(1,2) keeps_call_n [OF refl] Suc.IH that own rb(1)])
      obtain l rt3 where rt3: "execute E x ca ?func (fd_return (ef_definition ?f)) (None, ?rt2) = Some (r, (l, rt3))"
        "advanced inv recorded E (tracer_current (rt_stack ?rt2)) ?rt2 rt3"
        using execute_refines [OF assms r2 x(3) _ x(4) ca x(5) Suc.prems(2) rb(2) refl keeps func] x(2) by auto
      have "call_n E (Suc n) j args kwargs rt = Some (r, rt3)"
        using rt1(1) x(1) rt3(1) by (simp add: engraved_call_def bind_c_def Let_def)
      moreover have "advanced inv recorded E ?p rt rt3"
        using advanced_trans [OF rt1(2), of ?rt2] advanced_trans [of inv recorded E ?p rt ?rt2 rt3] rt1(2) rt3(2) stack
        by (simp add: advanced_def)
      ultimately show ?thesis by blast
    qed
  qed
qed simp

end

section \<open>Whole sessions\<close>

text \<open>A fresh process opens a session on a store.\<close>

definition open_session :: "'s \<Rightarrow> 's runtime" where
  "open_session s = session_start \<lparr>bk_staging = staging_init, bk_store = s\<rparr>"

lemma open_session_simps [simp]:
  "store_of (open_session s) = s" "rt_stack (open_session s) = []" "rt_commits (open_session s) = []"
  "rt_observed (open_session s) = []" "rt_log (open_session s) = []" "disciplined 0 (open_session s)" "staged_items 0 (rt_backend (open_session s)) = []"
  by (simp_all add: open_session_def session_start_def disciplined_def staging_inv_init staged_items_def
      staging_current_def registry_open_def) (simp_all add: staging_init_def)

lemma open_session_ready:
  "sound_state sinv recorded E s \<Longrightarrow> en_task E = 0 \<Longrightarrow> ready sinv recorded E (open_session s)"
  by (simp add: ready_def observed_agree_def)

context claiming_store
begin

lemma session_refines:
  assumes "en_client E = C" "environment_ok ok norm version_ok E" "deterministic E"
  shows "ready inv recorded E rt \<Longrightarrow> rt_stack rt = [] \<Longrightarrow> own_metadata prog \<Longrightarrow>
    pure_prog E (pure_call E n) prog None = Some r \<Longrightarrow>
    \<exists>rt'. run_prog E (call_n E n) prog rt = Some (r, rt') \<and> advanced inv recorded E None rt rt'"
proof (induction prog arbitrary: rt)
  case (PReturn v)
  then show ?case by (auto simp: return_c_def ready_def intro: advanced_refl)
next
  case (PRaise e)
  then show ?case by (auto simp: raise_c_def lift_r_def ready_def intro: advanced_refl)
next
  case (PCall j args kwargs k)
  obtain q where q: "pure_call E n j args kwargs = Some q" "pure_prog E (pure_call E n) (k q) None = Some r"
    using PCall.prems(4) by (auto split: option.splits)
  obtain rt1 where rt1: "call_n E n j args kwargs rt = Some (q, rt1)" "advanced inv recorded E None rt rt1"
    using call_refines [OF assms PCall.prems(1) q(1)] PCall.prems(2) by auto
  have "disciplined (en_task E) rt" using PCall.prems(1) by (simp add: ready_def)
  then have k: "kept (en_task E) {} rt rt1" using keepsD [OF keeps_call_n [OF refl] _ rt1(1)] by simp
  have "ready inv recorded E rt1" "rt_stack rt1 = []"
    using advanced_ready [OF PCall.prems(1) k rt1(2)] k PCall.prems(2) by (simp_all add: kept_def)
  from PCall.IH [OF rangeI this _ q(2)] PCall.prems(3) obtain rt' where
    "run_prog E (call_n E n) (k q) rt1 = Some (r, rt')" "advanced inv recorded E None rt1 rt'" by auto
  then show ?case using rt1 advanced_trans by (auto simp: settle_c_def)
next
  case (PSetMetadata key v value_type k)
  have "metadata_set E key v value_type rt = Some (Inl NoCurrentExecutionError, rt)"
    using PSetMetadata.prems(2) by (simp add: metadata_set_def ask_c_def raise_c_def lift_r_def)
  then show ?case
    using PSetMetadata.IH [OF rangeI PSetMetadata.prems(1,2), of "Inl NoCurrentExecutionError"] PSetMetadata.prems(3,4)
    by (simp add: settle_c_def)
next
  case (PGetMetadata key t target k)
  have "metadata_get E key t target rt = Some (Inl NoCurrentExecutionError, rt)"
    using PGetMetadata.prems(2,3) by (simp add: metadata_get_def ask_c_def raise_c_def lift_r_def)
  then show ?case
    using PGetMetadata.IH [OF rangeI PGetMetadata.prems(1,2), of "Inl NoCurrentExecutionError"] PGetMetadata.prems(3,4)
    by (simp add: settle_c_def)
qed

lemma session_resumes:
  assumes "en_client E = C" "environment_ok ok norm version_ok E" "deterministic E" "en_task E = 0"
    and "sound_state inv recorded E s" "own_metadata prog" "pure_prog E (pure_call E n) prog None = Some r"
  shows "\<exists>rt. run_prog E (call_n E n) prog (open_session s) = Some (r, rt) \<and>
    (\<forall>s' \<in> set (rt_commits rt). sound_state inv recorded E s' \<and>
       (\<exists>rt'. run_prog E (call_n E n) prog (open_session s') = Some (r, rt')))"
proof -
  have run: "\<exists>rt. run_prog E (call_n E n) prog (open_session s') = Some (r, rt) \<and> advanced inv recorded E None (open_session s') rt"
    if "sound_state inv recorded E s'" for s'
    using session_refines [OF assms(1-3) open_session_ready [OF that assms(4)] _ assms(6,7)] by simp
  obtain rt where rt: "run_prog E (call_n E n) prog (open_session s) = Some (r, rt)"
    "advanced inv recorded E None (open_session s) rt" using run [OF assms(5)] by blast
  have "\<forall>s' \<in> set (rt_commits rt). sound_state inv recorded E s'" using rt(2) by (auto simp: advanced_def)
  with run rt(1) show ?thesis by blast
qed

text \<open>A call that fails is at no moment recorded as completed.\<close>

lemma failure_retryable:
  assumes "en_client E = C" "environment_ok ok norm version_ok E" "deterministic E" "ready inv recorded E rt"
    and "pure_call E n j args kwargs = Some (Inl e)"
  shows "\<exists>rt'. call_n E n j args kwargs rt = Some (Inl e, rt') \<and>
    (\<exists>h. rt_commits rt' = rt_commits rt @ h \<and>
      (\<forall>s \<in> insert (store_of rt') (set h). \<forall>x f. storable_id x \<longrightarrow> cl_read C (en_session E) x s = Inr (Some f) \<longrightarrow>
         call_key E j args kwargs = Some (eid_domain x, eid_name x, eid_digest x) \<longrightarrow>
         ex_status f = STARTED \<and> ex_result f = None \<and> ex_metadata f = []))"
proof -
  obtain rt' h where rt': "call_n E n j args kwargs rt = Some (Inl e, rt')"
    "sound_state inv recorded E (store_of rt')" "rt_commits rt' = rt_commits rt @ h" "\<forall>s \<in> set h. sound_state inv recorded E s"
    using call_refines [OF assms(1-5)] by (auto simp: advanced_def)
  have "ex_status f = STARTED \<and> ex_result f = None \<and> ex_metadata f = []"
    if s: "sound_state inv recorded E s" and x: "storable_id x" "cl_read C (en_session E) x s = Inr (Some f)"
      "call_key E j args kwargs = Some (eid_domain x, eid_name x, eid_digest x)" for s x f
  proof -
    have "session_ok (en_session E)" using assms(2) by (simp add: environment_ok_def)
    then have f: "ex_id f = x" "ok f" using read_ok [OF _ _ x(1,2)] s by (auto simp: sound_state_def)
    have snd: "execution_sound E f" using s x(1,2) assms(1) by (simp add: sound_state_def store_sound_def)
    have "ex_status f \<noteq> COMPLETED"
    proof
      assume "ex_status f = COMPLETED"
      then have "\<exists>v. Inl e = (Inr v :: exn + _)"
        using snd x(3) assms(5) f(1) unfolding execution_sound_def by blast
      then show False by simp
    qed
    then have "ex_status f = STARTED" using execution_status.exhaust by blast
    then show ?thesis using snd ok_stageable [OF f(2)] by (auto simp: execution_sound_def valid_execution_def)
  qed
  then show ?thesis using rt' by (intro exI [of _ rt'] conjI exI [of _ h]) auto
qed

lemma call_writes_below:
  assumes "en_client E = C" "environment_ok ok norm version_ok E" "deterministic E" "ready inv recorded E rt"
    and "pure_call E n j args kwargs = Some r" "session_ok sess" "storable_id y"
    and "sess \<noteq> en_session E \<or> \<not> below (tracer_current (rt_stack rt)) y"
  shows "\<exists>rt'. call_n E n j args kwargs rt = Some (r, rt') \<and> cl_read C sess y (store_of rt') = cl_read C sess y (store_of rt)"
  using call_refines [OF assms(1-5)] assms(1,6-8) unfolding advanced_def by blast

end

end
