(* ===== verification/Sessions.thy ===== *)
theory Sessions
  imports Resumption
begin

text \<open>
  The properties of sessions on the three backends, from the contracts of \<open>Resumption\<close>, and the
  application the witnesses run: a leaf that keeps metadata, a function that calls it twice and
  survives a failing one, and the failing one, with a serializer of JSON values.
\<close>

section \<open>A sample application\<close>

definition sample_serialize :: "json \<Rightarrow> unit \<Rightarrow> exn + bytes" where
  "sample_serialize v t =
     (if json_ok True v \<and> json_scalar v \<and> sort_json v = v then json_bytes v else Inl SerializationError)"

definition sample_deserialize :: "bytes \<Rightarrow> unit \<Rightarrow> exn + json" where
  "sample_deserialize b t = validate_json_text_value (SerializedValue b)"

definition sample_function :: "nat \<Rightarrow> (json, unit) prog \<Rightarrow> (json, unit) engraved" where
  "sample_function c body =
     \<lparr>ef_domain = DomainId [100], ef_version = DomainVersion [49],
      ef_definition = \<lparr>fd_name = ExecutionName [c], fd_return = (), fd_signature = []\<rparr>, ef_body = (\<lambda>_. body)\<rparr>"

definition sample_functions :: "nat \<Rightarrow> (json, unit) engraved" where
  "sample_functions i =
     (if i = 0 then sample_function 97 (PSetMetadata [107] (JInt 1) None (\<lambda>_.
          PGetMetadata [107] () None (\<lambda>r. case r of Inr (Some v) \<Rightarrow> PReturn v | _ \<Rightarrow> PRaise RuntimeError)))
      else if i = 1 then sample_function 98 (PCall 0 [] [] (\<lambda>a. PCall 2 [] [] (\<lambda>_. PCall 0 [] [] (\<lambda>b.
          case (a, b) of (Inr v, Inr w) \<Rightarrow> PReturn (JList [v, w]) | _ \<Rightarrow> PRaise RuntimeError))))
      else sample_function 99 (PRaise (AppError 0)))"

definition sample_env :: "'s client \<Rightarrow> ('s, json, unit) env" where
  "sample_env C =
     \<lparr>en_client = C, en_session = sample_session, en_task = 0, en_serialize = sample_serialize,
      en_deserialize = sample_deserialize, en_type_of = (\<lambda>_. ()),
      en_canonicalize = (\<lambda>arguments. if arguments = [] then Inr sample_ca else Inl ArgumentCanonicalizationError),
      en_handlers = [(E_Event, [0])], en_handle = (\<lambda>h ev. Inl (AppError h)), en_functions = sample_functions\<rparr>"

lemma sample_env_simps [simp]:
  "en_client (sample_env C) = C" "en_session (sample_env C) = sample_session" "en_task (sample_env C) = 0"
  "en_serialize (sample_env C) = sample_serialize" "en_deserialize (sample_env C) = sample_deserialize"
  "en_type_of (sample_env C) = (\<lambda>_. ())" "en_functions (sample_env C) = sample_functions"
  "en_canonicalize (sample_env C) = (\<lambda>arguments. if arguments = [] then Inr sample_ca else Inl ArgumentCanonicalizationError)"
  "en_handle (sample_env C) = (\<lambda>h ev. Inl (AppError h))"
  by (simp_all add: sample_env_def)

lemma sample_serialize_back:
  assumes "sample_serialize v t = Inr b"
  shows "sample_deserialize b t = Inr v" "json_text_value (SerializedValue b)" "normal_value (SerializedValue b) = SerializedValue b"
proof -
  have v: "json_ok True v" "json_scalar v" "sort_json v = v" "json_bytes v = Inr b"
    using assms by (auto simp: sample_serialize_def split: if_splits)
  have valid: "validate_json_text_value (SerializedValue b) = Inr v" using json_bytes_valid [OF v(4,1)] v(3) by simp
  then show "sample_deserialize b t = Inr v" by (simp add: sample_deserialize_def)
  show "json_text_value (SerializedValue b)" using valid v by (simp add: json_text_value_def)
  show "normal_value (SerializedValue b) = SerializedValue b" using valid v(4) by (simp add: normal_value_def unpack_value_def)
qed

lemma sample_functions_simps:
  "ef_domain (sample_functions i) = DomainId [100]" "ef_version (sample_functions i) = DomainVersion [49]"
  "fd_signature (ef_definition (sample_functions i)) = []"
  "fd_name (ef_definition (sample_functions i)) = ExecutionName [if i = 0 then 97 else if i = 1 then 98 else 99]"
  by (simp_all add: sample_functions_def sample_function_def)

lemma sample_own_metadata: "own_metadata (ef_body (sample_functions i) arguments)"
  by (auto simp: sample_functions_def sample_function_def is_scalar_def is_surrogate_def split: sum.split option.split)

lemma sample_functions_ok: "version_ok (DomainVersion [49]) \<Longrightarrow> functions_ok version_ok (sample_env C)"
  unfolding functions_ok_def Let_def
  by (simp add: sample_functions_simps sample_own_metadata valid_domain_id_def domain_id_fullmatch_def
      domain_segment_def domain_start_def valid_execution_name_def is_scalar_def is_surrogate_def)

lemma recordable_sample: "recordable sample_ca"
  using sample_execution_stageable by (simp add: stageable_def sample_execution_def)

lemma update_items: "kv \<in> set (AList.update k v d) \<Longrightarrow> kv = (k, v) \<or> kv \<in> set d"
  by (induction d) (auto split: if_splits)

lemma storable_set_metadata:
  assumes "storable_execution e" "scalar_str k" "json_text_value v"
  shows "storable_execution (set_metadata k v e)"
proof -
  have e: "valid_execution e" "recordable (ex_arguments e)" "json_execution e"
    using assms(1) by (simp_all add: storable_execution_def)
  have "json_execution (set_metadata k v e)"
    using e(3) assms(2,3) by (auto simp: json_execution_def set_metadata_def dest!: update_items)
  then show ?thesis
    using e set_metadata_valid [OF e(1)] by (simp add: storable_execution_def set_metadata_def)
qed

lemma sample_text_env_ok: "environment_ok storable_execution normal_execution text_version_ok (sample_env C)"
  unfolding environment_ok_def
proof (intro conjI allI impI)
  show "serializer_ok storable_execution normal_execution (sample_env C)"
    unfolding serializer_ok_def sample_env_simps
  proof (intro allI impI conjI)
    fix v t b e assume b: "sample_serialize v t = Inr b" and e: "storable_execution e"
    note rb = sample_serialize_back [OF b]
    show "storable_execution (set_metadata k (SerializedValue b) e)" if "scalar_str k" for k
      by (rule storable_set_metadata [OF e that rb(2)])
    fix e' assume c: "execution_complete (SerializedValue b) e = Inr e'"
    then have e': "e' = e\<lparr>ex_status := COMPLETED, ex_result := Some (SerializedValue b)\<rparr>"
      by (auto simp: execution_complete_def split: if_splits)
    show "storable_execution e'"
      using e rb(2) execution_complete_valid [OF c] by (auto simp: storable_execution_def json_execution_def e')
    show "\<exists>r. ex_result (normal_execution e') = Some r \<and> sample_deserialize (sv_data r) t = Inr v"
      using rb by (simp add: e')
  qed
  show "functions_ok text_version_ok (sample_env C)"
    by (rule sample_functions_ok) (simp add: text_version_ok_def valid_domain_version_def is_scalar_def is_surrogate_def)
  fix arguments ca x e
  assume "en_canonicalize (sample_env C) arguments = Inr ca" "execution_start x ca = Inr e"
  then show "storable_execution e"
    using recordable_sample execution_start_valid [of x ca e]
    by (auto simp: storable_execution_def json_execution_def execution_start_iff split: if_splits)
qed (auto simp: is_instance_def)

text \<open>The reference is monotone in the depth, so its result does not depend on it.\<close>

lemma pure_prog_mono:
  "(\<And>i args kwargs r. call i args kwargs = Some r \<Longrightarrow> call' i args kwargs = Some r) \<Longrightarrow>
     pure_prog E call prog md = Some r \<Longrightarrow> pure_prog E call' prog md = Some r"
proof (induction prog arbitrary: md)
  case (PCall i args kwargs k)
  then show ?case by (fastforce split: option.splits)
qed (auto split: option.splits sum.splits)

lemma pure_call_body:
  assumes "bind_arguments (fd_signature (ef_definition (en_functions E i))) args kwargs = Inr arguments"
    and "en_canonicalize E arguments = Inr ca"
  shows "pure_call E (Suc n) i args kwargs =
    map_option (call_outcome E (fd_return (ef_definition (en_functions E i))))
      (pure_prog E (pure_call E n) (ef_body (en_functions E i) arguments) (Some (\<lambda>_. None)))"
  using assms by (auto simp: Let_def call_outcome_def split: option.split sum.split)

lemma pure_call_Suc: "pure_call E n i args kwargs = Some r \<Longrightarrow> pure_call E (Suc n) i args kwargs = Some r"
proof (induction n arbitrary: i args kwargs r)
  case (Suc n)
  have mono: "pure_prog E (pure_call E n) prog md = Some q \<Longrightarrow> pure_prog E (pure_call E (Suc n)) prog md = Some q"
    for prog md q by (rule pure_prog_mono [OF Suc.IH])
  show ?case
  proof (cases "bind_arguments (fd_signature (ef_definition (en_functions E i))) args kwargs")
    case (Inl e)
    then show ?thesis using Suc.prems by simp
  next
    case bound: (Inr arguments)
    show ?thesis
    proof (cases "en_canonicalize E arguments")
      case (Inl e)
      then show ?thesis using Suc.prems bound by (simp add: Let_def)
    next
      case (Inr ca)
      show ?thesis
        using Suc.prems mono unfolding pure_call_body [OF bound Inr] by (auto simp del: pure_call.simps)
    qed
  qed
qed simp

lemma pure_call_depth: "n \<le> m \<Longrightarrow> pure_call E n i args kwargs = Some r \<Longrightarrow> pure_call E m i args kwargs = Some r"
  by (induction rule: dec_induct) (auto simp del: pure_call.simps intro: pure_call_Suc)

lemma sample_deterministic: "deterministic (sample_env C)"
  unfolding deterministic_def
proof (intro allI impI)
  fix i args kwargs j args' kwargs' n m r r'
  assume k: "call_key (sample_env C) i args kwargs = call_key (sample_env C) j args' kwargs'"
    "call_key (sample_env C) i args kwargs \<noteq> None"
    and p: "pure_call (sample_env C) n i args kwargs = Some r" "pure_call (sample_env C) m j args' kwargs' = Some r'"
  have empty: "args = []" "kwargs = []" "args' = []" "kwargs' = []"
    using k by (auto simp: call_key_def Let_def sample_functions_simps split: if_splits)
  have "(if i = 0 then 97 else if i = 1 then 98 else 99 :: nat) = (if j = 0 then 97 else if j = 1 then 98 else 99)"
    using k(1) by (simp add: call_key_def Let_def sample_functions_simps empty)
  then have "sample_functions i = sample_functions j"
    by (simp add: sample_functions_def split: if_splits)
  then have "pure_call (sample_env C) l i [] [] = pure_call (sample_env C) l j [] []" for l
    by (cases l) simp_all
  then have "pure_call (sample_env C) (max n m) i [] [] = Some r" "pure_call (sample_env C) (max n m) i [] [] = Some r'"
    using pure_call_depth [of n "max n m"] pure_call_depth [of m "max n m"] p empty by simp_all
  then show "r = r' \<and> fd_return (ef_definition (en_functions (sample_env C) i)) = fd_return (ef_definition (en_functions (sample_env C) j))"
    by simp
qed

section \<open>The guard on domain versions\<close>

context claiming_store
begin

lemma ensure_guard:
  assumes "inv s" "session_ok sess" "valid_domain_id d" "version_ok v"
    and "\<forall>w. map_of obs d = Some w \<longrightarrow> recorded sess d s = Some w"
  shows "\<exists>obs' s'. claims_ensure C sess d v obs s =
      ((case recorded sess d s of
          None \<Rightarrow> Inr ()
        | Some w \<Rightarrow> if w = v then Inr ()
            else Inl (DomainVersionMismatchError (domain_id_value d) (domain_version_value w) (domain_version_value v))),
       obs', s') \<and>
    inv s' \<and> recorded sess d s' = Some (case recorded sess d s of None \<Rightarrow> v | Some w \<Rightarrow> w) \<and>
    (\<forall>w. map_of obs' d = Some w \<longrightarrow> recorded sess d s' = Some w) \<and>
    (\<forall>d'. d' \<noteq> d \<longrightarrow> map_of obs' d' = map_of obs d') \<and>
    (recorded sess d s \<noteq> None \<longrightarrow> s' = s) \<and>
    (\<forall>sess' d'. session_ok sess' \<longrightarrow> valid_domain_id d' \<longrightarrow> (sess', d') \<noteq> (sess, d) \<longrightarrow>
       recorded sess' d' s' = recorded sess' d' s) \<and>
    (\<forall>sess' x. session_ok sess' \<longrightarrow> storable_id x \<longrightarrow> cl_read C sess' x s' = cl_read C sess' x s)"
proof (cases "map_of obs d")
  case (Some w)
  then have "recorded sess d s = Some w" using assms(5) by simp
  with Some assms(1,5) show ?thesis
    by (auto simp: claims_ensure_def claims_require_def ensure_r_def)
next
  case None
  let ?w = "case recorded sess d s of None \<Rightarrow> v | Some w \<Rightarrow> w"
  obtain s' where s': "cl_claim C sess d v s = Inr (?w, s')" "inv s'" "recorded sess d s' = Some ?w"
    "\<forall>sess' d'. session_ok sess' \<longrightarrow> valid_domain_id d' \<longrightarrow> (sess', d') \<noteq> (sess, d) \<longrightarrow>
       recorded sess' d' s' = recorded sess' d' s"
    "\<forall>sess' x. session_ok sess' \<longrightarrow> storable_id x \<longrightarrow> cl_read C sess' x s' = cl_read C sess' x s"
    using claim_ok [OF assms(1-4)] assms(2,3) by fastforce
  have same: "recorded sess d s \<noteq> None \<longrightarrow> s' = s"
    using s'(1) claim_repeat [OF assms(1-4)] by auto
  have "claims_ensure C sess d v obs s = (claims_require d v ?w, AList.update d ?w obs, s')"
    using None s'(1) by (simp add: claims_ensure_def claims_observe_def)
  moreover have "claims_require d v ?w = (case recorded sess d s of
          None \<Rightarrow> Inr ()
        | Some w \<Rightarrow> if w = v then Inr ()
            else Inl (DomainVersionMismatchError (domain_id_value d) (domain_version_value w) (domain_version_value v)))"
    by (simp add: claims_require_def ensure_r_def split: option.split)
  ultimately show ?thesis
    using s'(2-5) same by (intro exI [of _ "AList.update d ?w obs"] exI [of _ s']) (simp add: update_conv')
qed

end

section \<open>What the sample computes\<close>

definition sample_prog :: "(json, unit) prog" where
  "sample_prog = PCall 1 [] [] (\<lambda>r. case r of Inr v \<Rightarrow> PReturn v | Inl e \<Rightarrow> PRaise e)"

lemma sample_serialize_value: "\<exists>b. sample_serialize (JInt 1) () = Inr b" "\<exists>b. sample_serialize (JList [JInt 1, JInt 1]) () = Inr b"
proof -
  have total: "\<exists>b. sample_serialize v () = Inr b" if v: "json_ok True v" "json_scalar v" "sort_json v = v" for v
  proof -
    obtain t where t: "json_dumps (compact True) v = Inr t"
      using json_dump_total [of "compact True" v 0] v by (auto simp: json_dumps_def)
    have "scalar_str t" using json_dump_scalar [of "compact True" v 0 t] v t by (simp add: json_dumps_def)
    then obtain b where "utf8_encode t = Inr b" using utf8_encode_total by blast
    with t v show ?thesis by (simp add: sample_serialize_def json_bytes_def)
  qed
  show "\<exists>b. sample_serialize (JInt 1) () = Inr b" by (rule total) simp_all
  show "\<exists>b. sample_serialize (JList [JInt 1, JInt 1]) () = Inr b" by (rule total) simp_all
qed

lemma sample_pure_call: "pure_call (sample_env C) 2 1 [] [] = Some (Inr (JList [JInt 1, JInt 1]))"
proof -
  obtain b where b: "sample_serialize (JInt 1) () = Inr b" using sample_serialize_value by blast
  obtain d where d: "sample_serialize (JList [JInt 1, JInt 1]) () = Inr d" using sample_serialize_value by blast
  have "pure_call (sample_env C) 1 0 [] [] = Some (Inr (JInt 1))"
    using b sample_serialize_back(1) [OF b] by (simp add: One_nat_def sample_functions_def sample_function_def Let_def)
  moreover have "pure_call (sample_env C) 1 2 [] [] = Some (Inl (AppError 0))"
    by (simp add: One_nat_def sample_functions_def sample_function_def Let_def)
  ultimately show ?thesis
    using d by (simp add: numeral_2_eq_2 sample_functions_def sample_function_def Let_def)
qed

lemma sample_pure_prog: "pure_prog (sample_env C) (pure_call (sample_env C) 2) sample_prog None = Some (Inr (JList [JInt 1, JInt 1]))"
  by (simp add: sample_prog_def sample_pure_call [unfolded One_nat_def] del: pure_call.simps)

lemma sample_prog_own: "own_metadata sample_prog"
  by (simp add: sample_prog_def split: sum.split)

lemma sample_sqlite_sound: "sound_state sqlite_inv sqlite_recorded (sample_env sqlite_client) sample_database"
  by (simp add: sound_state_def sample_database_inv store_sound_def sqlite_read_at versions_agree_def sqlite_recorded_def Let_def)

lemma sample_memory_sound: "sound_state memory_inv memory_recorded (sample_env memory_client) memory_new"
  unfolding sound_state_def using memory_inv_new
  by (simp add: store_sound_def memory_read_def read_committed_def versions_agree_def memory_recorded_def Let_def)
     (simp add: memory_new_def)

lemma sample_file_sound: "sound_state file_inv file_recorded (sample_env file_client) sample_directory"
proof -
  have "read_committed_executions sid sample_directory = Inr []" for sid
    by (simp add: read_committed_executions_def sample_directory_inv session_executions_def obj_get_def as_dict_def fresh_document_def)
  then have "file_read sess x sample_directory = Inr None" if "storable_id x" for sess x
    using that by (simp add: file_read_def pc.path_of_eq)
  moreover have "file_recorded sess d sample_directory = None" for sess d
    by (simp add: file_recorded_def sample_directory_inv version_in_def version_at_def obj_at_def fresh_document_def)
  ultimately show ?thesis
    by (simp add: sound_state_def sample_directory_inv store_sound_def versions_agree_def Let_def)
qed

lemma sample_memory_env_ok: "environment_ok stageable sort_execution (\<lambda>_. True) (sample_env C)"
  unfolding environment_ok_def
proof (intro conjI allI impI)
  show "serializer_ok stageable sort_execution (sample_env C)"
    unfolding serializer_ok_def sample_env_simps
  proof (intro allI impI conjI)
    fix v t b e assume b: "sample_serialize v t = Inr b" and e: "stageable e"
    show "stageable (set_metadata k (SerializedValue b) e)" if "scalar_str k" for k
      using e set_metadata_valid [of e k "SerializedValue b"] by (simp add: stageable_def set_metadata_def)
    fix e' assume c: "execution_complete (SerializedValue b) e = Inr e'"
    then have e': "e' = e\<lparr>ex_status := COMPLETED, ex_result := Some (SerializedValue b)\<rparr>"
      by (auto simp: execution_complete_def split: if_splits)
    show "stageable e'" using e execution_complete_valid [OF c] by (auto simp: stageable_def e')
    show "\<exists>r. ex_result (sort_execution e') = Some r \<and> sample_deserialize (sv_data r) t = Inr v"
      using sample_serialize_back [OF b] by (simp add: e')
  qed
  show "functions_ok (\<lambda>_. True) (sample_env C)" by (rule sample_functions_ok) simp
  fix arguments ca x e
  assume "en_canonicalize (sample_env C) arguments = Inr ca" "execution_start x ca = Inr e"
  then show "stageable e"
    using recordable_sample execution_start_valid [of x ca e]
    by (auto simp: stageable_def execution_start_iff split: if_splits)
qed (auto simp: is_instance_def)

section \<open>Properties\<close>

text \<open>
  C6: Calls give back what they were given. However deep a call goes and whatever fails in it, the
  function, the serializer, a handler or a commit, the call stack and the open transaction of the
  caller are afterwards what they were, and no stage that existed has changed.
\<close>
theorem calls_give_back:
  assumes "disciplined (en_task E) rt" "call_n E n i args kwargs rt = Some (r, rt')"
  shows "rt_stack rt' = rt_stack rt \<and> disciplined (en_task E) rt' \<and>
    staging_current (en_task E) (bk_staging (rt_backend rt')) = staging_current (en_task E) (bk_staging (rt_backend rt)) \<and>
    (\<forall>j < length (sg_stages (bk_staging (rt_backend rt))).
       sg_stages (bk_staging (rt_backend rt')) ! j = sg_stages (bk_staging (rt_backend rt)) ! j)"
proof -
  have k: "kept (en_task E) {} rt rt'" using keepsD [OF keeps_call_n [OF refl] assms] by simp
  moreover have "staging_current (en_task E) (bk_staging (rt_backend rt')) = staging_current (en_task E) (bk_staging (rt_backend rt))"
    using k assms(1) by (auto simp: kept_def staging_kept_def staging_current_def registry_open_def disciplined_def
        staging_inv_def split: option.split)
  ultimately show ?thesis
    using kept_disciplined [OF assms(1) k] by (simp add: kept_def staging_kept_def)
qed

theorem calls_give_back_witness:
  "\<exists>rt'. call_n (sample_env sqlite_client) 2 1 [] [] (open_session sample_database)
       = Some (Inr (JList [JInt 1, JInt 1]), rt') \<and> rt_stack rt' = []"
proof -
  obtain rt' where rt': "call_n (sample_env sqlite_client) 2 1 [] [] (open_session sample_database)
       = Some (Inr (JList [JInt 1, JInt 1]), rt')"
    using sq.call_refines [OF _ sample_text_env_ok sample_deterministic
        open_session_ready [OF sample_sqlite_sound] sample_pure_call] by auto
  from calls_give_back [OF _ rt'] rt' show ?thesis by simp
qed

text \<open>
  C8: A completed execution is replayed. When the session reads an execution as completed, executing
  it again returns what its recorded result deserializes to, runs nothing of the function, opens no
  transaction, emits no event and leaves every part of the session as it was.
\<close>
theorem completed_replays:
  assumes "repo_get (en_client E) (en_task E) (en_session E) x (rt_backend rt) = Inr (Some e)"
    and "ex_status e = COMPLETED" "valid_execution e"
  shows "\<exists>v. ex_result e = Some v \<and>
    (\<forall>ca func t l. execute E x ca func t (l, rt) = Some (en_deserialize E (sv_data v) t, (l, rt)))"
  using assms by (auto simp: execute_def bind_c_def shared_def get_execution_def lift_r_def valid_execution_def)

theorem completed_replays_witness:
  "\<exists>rt. execute (sample_env sqlite_client) sample_eid sample_ca (\<lambda>_. None) () (None, rt) \<noteq> None"
proof -
  let ?st = "\<lparr>bk_staging = staging_init, bk_store = sample_database\<rparr>"
  obtain tx st1 where b: "tx_begin 0 ?st = (tx, st1)" by fastforce
  have "staging_inv (bk_staging ?st)" "0 < sg_contexts (bk_staging ?st)"
    by (simp_all add: staging_inv_init) (simp add: staging_init_def)
  then obtain i where i: "stage_is_open 0 i st1" using begin_open [OF _ _ b] by blast
  have s: "stageable sample_execution" by (rule sample_execution_stageable)
  let ?st2 = "put_stage i [(ExecutionKey sample_session sample_eid, SaveExecution (from_execution sample_execution))] st1"
  have "stage_is_open 0 i ?st2" using i by simp
  moreover have "i < length (sg_stages (bk_staging st1))" using i by (simp add: stage_is_open_def)
  ultimately have "repo_get sqlite_client 0 sample_session sample_eid ?st2 = Inr (Some (sort_execution sample_execution))"
    using stageable_to_execution [OF s] by (simp add: repo_get_open visible_def)
  then obtain v where "execute (sample_env sqlite_client) sample_eid sample_ca (\<lambda>_. None) ()
      (None, (open_session sample_database)\<lparr>rt_backend := ?st2\<rparr>)
    = Some (sample_deserialize (sv_data v) (), (None, (open_session sample_database)\<lparr>rt_backend := ?st2\<rparr>))"
    using completed_replays [of "sample_env sqlite_client" sample_eid "(open_session sample_database)\<lparr>rt_backend := ?st2\<rparr>"
        "sort_execution sample_execution"] s
    by (auto simp: stageable_def)
  then show ?thesis by (metis option.distinct(1))
qed

text \<open>
  C9: Failure. When the body of a running execution raises, the exception comes out of the call, the
  transaction that held the body's metadata is dropped, so the store is what the body's own calls
  committed, and the failure is announced to the handlers, unless the exception was the
  cancellation of the task, which is announced to nobody.
\<close>
theorem failure_reported:
  assumes "disciplined (en_task E) rt" "\<forall>h ev e. en_handle E h ev = Inl e \<longrightarrow> is_instance e C_Exception"
    and "run_prog E (call_n E n) prog (rt\<lparr>rt_backend := snd (tx_begin (en_task E) (rt_backend rt))\<rparr>) = Some (Inl e, rt2)"
  shows "\<exists>l rt3. catch_c (execute_body E x (run_prog E (call_n E n) prog) t) (report_failure E x) (None, rt)
      = Some (Inl e, (l, rt3)) \<and> store_of rt3 = store_of rt2 \<and>
    map fst (rt_log rt3) = map fst (rt_log rt2) @ (if e = CancelledError then [] else [ExecutionFailed x e])"
proof -
  let ?func = "run_prog E (call_n E n) prog"
  obtain i bk where op: "scope_opened (en_task E) rt i bk" by (rule scope_begin [OF assms(1)])
  then have o: "disciplined (en_task E) (rt\<lparr>rt_backend := bk\<rparr>)" "open_stages (en_task E) (bk_staging bk) = {i}"
    and func: "?func (rt\<lparr>rt_backend := bk\<rparr>) = Some (Inl e, rt2)"
    using assms(3) by (simp_all add: scope_opened_def)
  let ?m = "bind_c (catch_c (shared ?func)
                     (\<lambda>e (func_exception, rt).
                        Some (Inl e, (if is_instance e C_Exception then Some e else func_exception, rt)))) (\<lambda>result.
           bind_c (shared (get_execution E x)) (\<lambda>execution.
             case execution of
               None \<Rightarrow> raise_c LookupError
             | Some e \<Rightarrow>
                 bind_c (lift_r (en_serialize E result t)) (\<lambda>serialized.
                 bind_c (lift_r (execution_complete (SerializedValue serialized) e)) (\<lambda>completed.
                 bind_c (shared (save_execution E completed)) (\<lambda>_. return_c result)))))"
  let ?l = "if is_instance e C_Exception then Some e else None"
  note steps = bind_c_def catch_c_def shared_def lift_r_def raise_c_def return_c_def
  have m: "?m (None, rt\<lparr>rt_backend := bk\<rparr>) = Some (Inl e, (?l, rt2))" using func by (simp add: steps)
  have "kept (en_task E) {i} (rt\<lparr>rt_backend := bk\<rparr>) rt2"
    using keepsD [OF keeps_run_prog [OF refl keeps_call_n [OF refl]] o(1) func] o(2) by simp
  then obtain bk3 where bk3: "bk_store bk3 = store_of rt2"
    "with_scope E ?m (None, rt) = Some (Inl e, (?l, rt2\<lparr>rt_backend := bk3, rt_commits := rt_commits rt2 @ [bk_store bk3]\<rparr>))"
    using scope_end [where m = ?m, OF op refl m] by (auto simp: scope_store_def scope_outcome_def)
  let ?rt3 = "rt2\<lparr>rt_backend := bk3, rt_commits := rt_commits rt2 @ [bk_store bk3]\<rparr>"
  obtain called where called: "emit_event (en_handlers E) (\<lambda>h. en_handle E h (ExecutionFailed x e)) (event_mro (ExecutionFailed x e))
      = (called, Inr ())"
  proof -
    obtain log where "emit_to_handlers E (ExecutionFailed x e) ?rt3 = Some (Inr (), ?rt3\<lparr>rt_log := log\<rparr>)"
      using emit_ready [OF assms(2)] by blast
    then show ?thesis using that by (auto simp: emit_to_handlers_def split: prod.splits)
  qed
  show ?thesis
  proof (cases "e = CancelledError")
    case True
    then have "catch_c (execute_body E x ?func t) (report_failure E x) (None, rt) = Some (Inl e, (None, ?rt3))"
      using bk3(2) by (simp add: execute_body_def report_failure_def ask_c_def steps is_instance_Exception)
    then show ?thesis using True bk3(1) by auto
  next
    case False
    then have "catch_c (execute_body E x ?func t) (report_failure E x) (None, rt)
        = Some (Inl e, (Some e, ?rt3\<lparr>rt_log := rt_log ?rt3 @ [(ExecutionFailed x e, called)]\<rparr>))"
      using bk3(2) called
      by (simp add: execute_body_def report_failure_def ask_c_def steps is_instance_Exception emit_to_handlers_def)
    then show ?thesis using False bk3(1) by auto
  qed
qed

theorem failure_reported_witness:
  "\<exists>l rt3. catch_c (execute_body (sample_env memory_client) sample_eid (run_prog (sample_env memory_client) (call_n (sample_env memory_client) 1)
        (PRaise (AppError 7))) ()) (report_failure (sample_env memory_client) sample_eid) (None, open_session memory_new)
      = Some (Inl (AppError 7), (l, rt3)) \<and> map fst (rt_log rt3) = [ExecutionFailed sample_eid (AppError 7)]"
proof -
  let ?E = "sample_env memory_client" and ?rt = "open_session memory_new"
  let ?rt1 = "?rt\<lparr>rt_backend := snd (tx_begin (en_task ?E) (rt_backend ?rt))\<rparr>"
  have "run_prog ?E (call_n ?E 1) (PRaise (AppError 7)) ?rt1 = Some (Inl (AppError 7), ?rt1)"
    by (simp add: raise_c_def lift_r_def)
  from failure_reported [OF _ _ this, of sample_eid "()"] show ?thesis
    by (auto simp: is_instance_Exception)
qed

text \<open>
  C1: Crash and resume on SQLite. A program run in a fresh session on a sound database returns exactly
  what it returns with no store at all, every database it leaves at any commit is sound, and running
  the same program in a fresh process from any of them returns the same: whatever the crash, the
  program resumes to the outcome of an uninterrupted run.
\<close>
theorem sqlite_session_resumes:
  assumes "en_client E = sqlite_client" "en_task E = 0" "deterministic E"
    and "environment_ok storable_execution normal_execution text_version_ok E"
    and "sound_state sqlite_inv sqlite_recorded E s"
    and "own_metadata prog" "pure_prog E (pure_call E n) prog None = Some r"
  shows "\<exists>rt. run_prog E (call_n E n) prog (open_session s) = Some (r, rt) \<and>
    (\<forall>s' \<in> set (rt_commits rt). sound_state sqlite_inv sqlite_recorded E s' \<and>
       (\<exists>rt'. run_prog E (call_n E n) prog (open_session s') = Some (r, rt')))"
  by (rule sq.session_resumes [OF assms(1,4,3,2,5-7)])

theorem sqlite_session_resumes_witness:
  "\<exists>rt. run_prog (sample_env sqlite_client) (call_n (sample_env sqlite_client) 2) sample_prog (open_session sample_database)
      = Some (Inr (JList [JInt 1, JInt 1]), rt)"
  using sqlite_session_resumes [OF _ _ sample_deterministic sample_text_env_ok sample_sqlite_sound sample_prog_own
      sample_pure_prog] by auto

text \<open>
  C2: Crash and resume on the file backend, as for SQLite; with \<open>file_commit_crash_safe\<close> a crash
  inside a commit leaves one of the documents this speaks of.
\<close>
theorem file_session_resumes:
  assumes "en_client E = file_client" "en_task E = 0" "deterministic E"
    and "environment_ok storable_execution normal_execution text_version_ok E"
    and "sound_state file_inv file_recorded E s"
    and "own_metadata prog" "pure_prog E (pure_call E n) prog None = Some r"
  shows "\<exists>rt. run_prog E (call_n E n) prog (open_session s) = Some (r, rt) \<and>
    (\<forall>s' \<in> set (rt_commits rt). sound_state file_inv file_recorded E s' \<and>
       (\<exists>rt'. run_prog E (call_n E n) prog (open_session s') = Some (r, rt')))"
  by (rule fs.session_resumes [OF assms(1,4,3,2,5-7)])

theorem file_session_resumes_witness:
  "\<exists>rt. run_prog (sample_env file_client) (call_n (sample_env file_client) 2) sample_prog (open_session sample_directory)
      = Some (Inr (JList [JInt 1, JInt 1]), rt)"
  using file_session_resumes [OF _ _ sample_deterministic sample_text_env_ok sample_file_sound sample_prog_own
      sample_pure_prog] by auto

text \<open>
  C3: Calls are the reference in memory. In any ready session, also inside a running call, a call whose
  reference outcome is defined returns that outcome, and no execution of another session and none
  outside the strict descendants of the caller changes.
\<close>
theorem memory_call_refines:
  assumes "en_client E = memory_client" "deterministic E"
    and "environment_ok stageable sort_execution (\<lambda>_. True) E" "ready memory_inv memory_recorded E rt"
    and "pure_call E n i args kwargs = Some r" "session_ok sess" "storable_id y"
    and "sess \<noteq> en_session E \<or> \<not> below (tracer_current (rt_stack rt)) y"
  shows "\<exists>rt'. call_n E n i args kwargs rt = Some (r, rt') \<and>
    memory_read sess y (store_of rt') = memory_read sess y (store_of rt)"
  using mem.call_writes_below [OF assms(1,3,2,4-8)] by simp

theorem memory_call_refines_witness:
  "\<exists>rt'. call_n (sample_env memory_client) 2 1 [] [] (open_session memory_new) = Some (Inr (JList [JInt 1, JInt 1]), rt') \<and>
     memory_read (SessionId [116]) sample_eid (store_of rt') = Inr None"
  using memory_call_refines [OF _ sample_deterministic sample_memory_env_ok open_session_ready [OF sample_memory_sound]
      sample_pure_call, of "SessionId [116]" sample_eid]
  by (simp add: session_ok_def is_scalar_def is_surrogate_def sample_session_def memory_read_def read_committed_def memory_new_def)

text \<open>
  C5: Failures stay retryable. When a call fails, at every commit it made and in the database it leaves,
  no execution of that call reads as completed: it is absent, or started without result and metadata.
\<close>
theorem sqlite_failure_retryable:
  assumes "en_client E = sqlite_client" "deterministic E"
    and "environment_ok storable_execution normal_execution text_version_ok E" "ready sqlite_inv sqlite_recorded E rt"
    and "pure_call E n i args kwargs = Some (Inl e)"
  shows "\<exists>rt'. call_n E n i args kwargs rt = Some (Inl e, rt') \<and>
    (\<exists>h. rt_commits rt' = rt_commits rt @ h \<and>
      (\<forall>s \<in> insert (store_of rt') (set h). \<forall>x f. storable_id x \<longrightarrow> sqlite_read (en_session E) x s = Inr (Some f) \<longrightarrow>
         call_key E i args kwargs = Some (eid_domain x, eid_name x, eid_digest x) \<longrightarrow>
         ex_status f = STARTED \<and> ex_result f = None \<and> ex_metadata f = []))"
  using sq.failure_retryable [OF assms(1,3,2,4,5)] by simp

theorem sqlite_failure_retryable_witness:
  "\<exists>rt'. call_n (sample_env sqlite_client) 1 2 [] [] (open_session sample_database) = Some (Inl (AppError 0), rt')"
proof -
  have "pure_call (sample_env sqlite_client) 1 2 [] [] = Some (Inl (AppError 0))"
    by (simp add: One_nat_def sample_functions_def sample_function_def Let_def)
  from sqlite_failure_retryable [OF _ sample_deterministic sample_text_env_ok open_session_ready [OF sample_sqlite_sound] this]
  show ?thesis by auto
qed

text \<open>
  C10: The guard on domain versions. Entering a function's domain succeeds exactly when the session
  records no version of it, which is then claimed, or the same one; otherwise it raises an error that
  carries both versions. A session that already records the domain, a mismatch included, leaves the
  whole store as it was; a first claim records this version for this pair alone, no other session or
  domain getting another version and no execution being touched. What is remembered as observed of
  the domain is what is recorded, and of other domains what it was.
\<close>
theorem sqlite_domain_guard:
  assumes "sqlite_inv s" "session_ok sess" "valid_domain_id d" "text_version_ok v"
    and "\<forall>w. map_of obs d = Some w \<longrightarrow> sqlite_recorded sess d s = Some w"
  shows "\<exists>obs' s'. claims_ensure sqlite_client sess d v obs s =
      ((case sqlite_recorded sess d s of
          None \<Rightarrow> Inr ()
        | Some w \<Rightarrow> if w = v then Inr ()
            else Inl (DomainVersionMismatchError (domain_id_value d) (domain_version_value w) (domain_version_value v))),
       obs', s') \<and>
    sqlite_inv s' \<and> sqlite_recorded sess d s' = Some (case sqlite_recorded sess d s of None \<Rightarrow> v | Some w \<Rightarrow> w) \<and>
    (\<forall>w. map_of obs' d = Some w \<longrightarrow> sqlite_recorded sess d s' = Some w) \<and>
    (\<forall>d'. d' \<noteq> d \<longrightarrow> map_of obs' d' = map_of obs d') \<and>
    (sqlite_recorded sess d s \<noteq> None \<longrightarrow> s' = s) \<and>
    (\<forall>sess' d'. session_ok sess' \<longrightarrow> valid_domain_id d' \<longrightarrow> (sess', d') \<noteq> (sess, d) \<longrightarrow>
       sqlite_recorded sess' d' s' = sqlite_recorded sess' d' s) \<and>
    (\<forall>sess' x. session_ok sess' \<longrightarrow> storable_id x \<longrightarrow> sqlite_read sess' x s' = sqlite_read sess' x s)"
  using sq.ensure_guard [OF assms] by simp

theorem sqlite_domain_guard_witness:
  "\<exists>obs s obs' s'. claims_ensure sqlite_client sample_session (DomainId [100]) (DomainVersion [49]) [] sample_database
       = (Inr (), obs, s) \<and>
     claims_ensure sqlite_client sample_session (DomainId [100]) (DomainVersion [50]) obs s
       = (Inl (DomainVersionMismatchError [100] [49] [50]), obs', s')"
proof -
  have d: "valid_domain_id (DomainId [100])"
    by (simp add: valid_domain_id_def domain_id_fullmatch_def domain_segment_def domain_start_def)
  have v: "text_version_ok (DomainVersion [49])" "text_version_ok (DomainVersion [50])"
    by (simp_all add: text_version_ok_def valid_domain_version_def is_scalar_def is_surrogate_def)
  have none: "sqlite_recorded sample_session (DomainId [100]) sample_database = None"
    by (simp add: sqlite_recorded_def sample_database_inv)
  obtain obs s where 1: "claims_ensure sqlite_client sample_session (DomainId [100]) (DomainVersion [49]) [] sample_database
       = (Inr (), obs, s)" "sqlite_inv s" "sqlite_recorded sample_session (DomainId [100]) s = Some (DomainVersion [49])"
    "\<forall>w. map_of obs (DomainId [100]) = Some w \<longrightarrow> sqlite_recorded sample_session (DomainId [100]) s = Some w"
    using sqlite_domain_guard [OF sample_database_inv(1) sample_session_ok d v(1), of "[]"] none by auto
  from sqlite_domain_guard [OF 1(2) sample_session_ok d v(2) 1(4)] 1(1,3) show ?thesis by auto
qed

end
