(* ===== verification/Migration.thy ===== *)
theory Migration
  imports Codec
begin

text \<open>
  Carrying a recorded session across a change of domain version (\<open>migration/_models.py\<close>,
  \<open>migration/_migrator.py\<close>): execution shapes, the rules of one transition, the transitions of a
  domain, and the walk that rebuilds the records of a session under new keys.

  A conversion of arguments is a function of the application, \<open>(arg_key \<times> cav) list \<Rightarrow> exn +
  (arg_key \<times> 'v) list\<close> with \<open>'v\<close> the Python values it returns; the canonicalizer is a parameter too.
  The walk is the loop of \<open>_rebuild\<close> over its explicit stack, its fuel one more than the number of
  records, which \<open>walk_returns\<close> shows to be enough. Its reference is \<open>moved_execution\<close>, which
  translates a record from its own identity chain alone.
\<close>

section \<open>Sessions\<close>

record stored_session =
  ss_versions :: domain_version_map
  ss_executions :: "execution list"

fun domains_in :: "execution_id \<Rightarrow> domain_id set" where
  "domains_in (ExecutionId p d n i a) = insert d (case p of None \<Rightarrow> {} | Some q \<Rightarrow> domains_in q)"

fun require_unique :: "execution_id set \<Rightarrow> execution list \<Rightarrow> exn + unit" where
  "require_unique seen [] = Inr ()"
| "require_unique seen (e # es) =
     (if ex_id e \<in> seen then Inl MigrationCollisionError
      else require_unique (insert (ex_id e) seen) es)"

definition mk_stored_session :: "domain_version_map \<Rightarrow> execution list \<Rightarrow> exn + stored_session" where
  "mk_stored_session versions es =
     bind_r (require_unique {} es) (\<lambda>_.
       if \<Union> (set (map (\<lambda>e. domains_in (ex_id e)) es)) - set (map fst (dvm_versions versions)) \<noteq> {}
       then Inl MigrationError
       else Inr \<lparr>ss_versions = versions, ss_executions = es\<rparr>)"

record migration_report =
  source_domain_versions :: domain_version_map
  target_domain_versions :: domain_version_map

definition report_between :: "stored_session \<Rightarrow> stored_session \<Rightarrow> migration_report" where
  "report_between source replacement =
     \<lparr>source_domain_versions = ss_versions source, target_domain_versions = ss_versions replacement\<rparr>"

lemma require_unique_iff:
  "require_unique seen es =
     (if distinct (map ex_id es) \<and> seen \<inter> ex_id ` set es = {} then Inr () else Inl MigrationCollisionError)"
  by (induction es arbitrary: seen) auto

lemma domains_in_ancestry: "domains_in x = eid_domain ` set (ancestry x)"
  by (induction x rule: ancestry.induct) (auto split: option.splits)

section \<open>Shapes and rules\<close>

record execution_shape =
  shape_name :: execution_name
  shape_arguments :: "pystr set"

text \<open>An argument name as handed to the constructor: \<open>AlienKey\<close> stands for what is not a string.\<close>

definition mk_execution_shape :: "execution_name given \<Rightarrow> arg_key list \<Rightarrow> exn + execution_shape" where
  "mk_execution_shape name names =
     (if \<not> list_all (\<lambda>k. case k of Name _ \<Rightarrow> True | AlienKey _ \<Rightarrow> False) names then Inl TypeError
      else if card (set names) \<noteq> length names then Inl ValueError
      else bind_r (case name of Given n \<Rightarrow> Inr n | GivenStr s \<Rightarrow> mk_execution_name s | GivenOther \<Rightarrow> Inl TypeError)
        (\<lambda>n. Inr \<lparr>shape_name = n, shape_arguments = set (map key_name names)\<rparr>))"

datatype 'v rule =
    Remap (rule_source: execution_shape) (rule_target: execution_shape)
      (convert_arguments: "((arg_key \<times> cav) list \<Rightarrow> exn + (arg_key \<times> 'v) list) option")
  | Drop (rule_source: execution_shape)

record 'v transition =
  tr_domain :: domain_id
  tr_source :: domain_version
  tr_target :: domain_version
  tr_rules :: "(execution_name, 'v rule) dict"

definition transition_register ::
    "execution_name \<Rightarrow> 'v rule \<Rightarrow> 'v transition \<Rightarrow> exn + 'v transition" where
  "transition_register key rule t =
     (if map_of (tr_rules t) key \<noteq> None then Inl MigrationError
      else Inr (t\<lparr>tr_rules := AList.update key rule (tr_rules t)\<rparr>))"

definition transition_remap ::
    "execution_shape \<Rightarrow> execution_shape \<Rightarrow> ((arg_key \<times> cav) list \<Rightarrow> exn + (arg_key \<times> 'v) list) option
       \<Rightarrow> 'v transition \<Rightarrow> exn + 'v transition" where
  "transition_remap source target convert t =
     (if convert = None \<and> shape_arguments source \<noteq> shape_arguments target then Inl MigrationError
      else transition_register (shape_name source) (Remap source target convert) t)"

definition transition_drop :: "execution_shape \<Rightarrow> 'v transition \<Rightarrow> exn + 'v transition" where
  "transition_drop source t = transition_register (shape_name source) (Drop source) t"

text \<open>A plan is a copy of a transition's fields.\<close>

definition rule_for :: "'v transition \<Rightarrow> domain_id \<Rightarrow> execution_name \<Rightarrow> 'v rule option" where
  "rule_for plan d n = (if d \<noteq> tr_domain plan then None else map_of (tr_rules plan) n)"

section \<open>The arguments of one record\<close>

definition recorded_arguments ::
    "execution \<Rightarrow> execution_shape \<Rightarrow> exn + (arg_key \<times> cav) list" where
  "recorded_arguments e source =
     bind_r (except_r (ca_decode (ex_arguments e)) C_InvalidExecutionError MigrationError) (\<lambda>stored.
       if fst ` set stored \<noteq> Name ` shape_arguments source then Inl MigrationError else Inr stored)"

definition migrated_arguments ::
    "((arg_key \<times> 'v) list \<Rightarrow> exn + canonical_arguments) \<Rightarrow> execution \<Rightarrow> 'v rule option
       \<Rightarrow> exn + canonical_arguments" where
  "migrated_arguments canonicalize e remap =
     (case remap of
        Some (Remap source target None) \<Rightarrow>
          bind_r (recorded_arguments e source) (\<lambda>_. Inr (ex_arguments e))
      | Some (Remap source target (Some convert)) \<Rightarrow>
          bind_r (recorded_arguments e source) (\<lambda>recorded.
          bind_r (except_r (convert recorded) C_Exception MigrationError) (\<lambda>converted.
            if fst ` set converted \<noteq> Name ` shape_arguments target then Inl MigrationError
            else canonicalize converted))
      | _ \<Rightarrow> Inr (ex_arguments e))"

definition target_name :: "'v rule option \<Rightarrow> execution_name \<Rightarrow> execution_name" where
  "target_name r n = (case r of Some (Remap source target convert) \<Rightarrow> shape_name target | _ \<Rightarrow> n)"

section \<open>The walk\<close>

type_synonym family = "(execution_id option, execution list) dict"

fun group_children :: "execution_id set \<Rightarrow> family \<Rightarrow> execution list \<Rightarrow> exn + family" where
  "group_children known children [] = Inr children"
| "group_children known children (e # es) =
     (let parent = eid_parent (ex_id e)
      in if (case parent of None \<Rightarrow> False | Some p \<Rightarrow> p \<notin> known) then Inl MigrationError
         else let (siblings, children) = dict_setdefault parent [] children
              in group_children known (AList.update parent (siblings @ [e]) children) es)"

definition children_by_parent :: "execution list \<Rightarrow> exn + family" where
  "children_by_parent es = group_children (ex_id ` set es) [] es"

definition require_one_source_scope ::
    "(sequence_scope, sequence_scope set) dict \<Rightarrow> sequence_scope \<Rightarrow> sequence_scope
       \<Rightarrow> exn + (sequence_scope, sequence_scope set) dict" where
  "require_one_source_scope scopes target source =
     (let (seen, scopes) = dict_setdefault target {} scopes; seen = insert source seen
      in if card seen > 1 then Inl MigrationOrdinalAmbiguityError
         else Inr (AList.update target seen scopes))"

record walk =
  wk_migrated :: "execution list"
  wk_arguments :: "(sequence_scope, canonical_arguments) dict"
  wk_scopes :: "(sequence_scope, sequence_scope set) dict"
  wk_stack :: "(execution_id option \<times> execution_id option) list"

text \<open>The arguments of a record's scope, converted once and then taken from the memo.\<close>

definition scope_arguments ::
    "((arg_key \<times> 'v) list \<Rightarrow> exn + canonical_arguments) \<Rightarrow> execution \<Rightarrow> 'v rule option \<Rightarrow> walk
       \<Rightarrow> exn + canonical_arguments \<times> walk" where
  "scope_arguments canonicalize e rule w =
     (case map_of (wk_arguments w) (scope_of (ex_id e)) of
        Some arguments \<Rightarrow> Inr (arguments, w)
      | None \<Rightarrow> bind_r (migrated_arguments canonicalize e rule) (\<lambda>arguments.
          Inr (arguments, w\<lparr>wk_arguments := AList.update (scope_of (ex_id e)) arguments (wk_arguments w)\<rparr>)))"

definition rebuild_one ::
    "((arg_key \<times> 'v) list \<Rightarrow> exn + canonical_arguments) \<Rightarrow> 'v transition \<Rightarrow> execution_id option
       \<Rightarrow> execution \<Rightarrow> walk \<Rightarrow> exn + walk" where
  "rebuild_one canonicalize plan new_parent e w =
     (case rule_for plan (eid_domain (ex_id e)) (eid_name (ex_id e)) of
        Some (Drop source) \<Rightarrow> bind_r (recorded_arguments e source) (\<lambda>_. Inr w)
      | rule \<Rightarrow>
          bind_r (scope_arguments canonicalize e rule w) (\<lambda>(arguments, w).
          let scope = \<lparr>scope_parent = new_parent, scope_domain = eid_domain (ex_id e),
                       scope_name = target_name rule (eid_name (ex_id e)),
                       scope_digest = ca_digest arguments\<rparr>
          in bind_r (require_one_source_scope (wk_scopes w) scope (scope_of (ex_id e))) (\<lambda>scopes.
             bind_r (mk_execution_id (scope_parent scope) (scope_domain scope) (scope_name scope)
                       (SeqInt (eid_sequence (ex_id e))) (scope_digest scope)) (\<lambda>new_id.
             bind_r (execution_post_init (e\<lparr>ex_id := new_id, ex_arguments := arguments\<rparr>)) (\<lambda>moved.
               Inr (w\<lparr>wk_scopes := scopes, wk_migrated := wk_migrated w @ [moved],
                      wk_stack := (Some (ex_id e), Some new_id) # wk_stack w\<rparr>))))))"

fun rebuild_children ::
    "((arg_key \<times> 'v) list \<Rightarrow> exn + canonical_arguments) \<Rightarrow> 'v transition \<Rightarrow> execution_id option
       \<Rightarrow> execution list \<Rightarrow> walk \<Rightarrow> exn + walk" where
  "rebuild_children canonicalize plan new_parent [] w = Inr w"
| "rebuild_children canonicalize plan new_parent (e # es) w =
     bind_r (rebuild_one canonicalize plan new_parent e w) (rebuild_children canonicalize plan new_parent es)"

definition children_of :: "family \<Rightarrow> execution_id option \<Rightarrow> execution list" where
  "children_of children parent =
     sort_key (\<lambda>e. eid_sequence (ex_id e)) (case map_of children parent of None \<Rightarrow> [] | Some es \<Rightarrow> es)"

text \<open>\<open>while stack\<close>: the head of the list is the top of the stack.\<close>

fun rebuild_walk ::
    "nat \<Rightarrow> ((arg_key \<times> 'v) list \<Rightarrow> exn + canonical_arguments) \<Rightarrow> 'v transition \<Rightarrow> family
       \<Rightarrow> walk \<Rightarrow> (exn + walk) option" where
  "rebuild_walk fuel canonicalize plan children w =
     (case wk_stack w of
        [] \<Rightarrow> Some (Inr w)
      | (old_parent, new_parent) # stack \<Rightarrow>
          (case fuel of
             0 \<Rightarrow> None
           | Suc fuel \<Rightarrow>
               (case rebuild_children canonicalize plan new_parent (children_of children old_parent)
                       (w\<lparr>wk_stack := stack\<rparr>) of
                  Inl x \<Rightarrow> Some (Inl x)
                | Inr w \<Rightarrow> rebuild_walk fuel canonicalize plan children w)))"

definition walk_start :: walk where
  "walk_start = \<lparr>wk_migrated = [], wk_arguments = [], wk_scopes = [], wk_stack = [(None, None)]\<rparr>"

definition rebuild ::
    "((arg_key \<times> 'v) list \<Rightarrow> exn + canonical_arguments) \<Rightarrow> 'v transition \<Rightarrow> stored_session
       \<Rightarrow> exn + execution list" where
  "rebuild canonicalize plan source =
     bind_r (children_by_parent (ss_executions source)) (\<lambda>children.
       case rebuild_walk (Suc (length (ss_executions source))) canonicalize plan children walk_start of
         Some r \<Rightarrow> bind_r r (\<lambda>w. Inr (wk_migrated w))
       | None \<Rightarrow> Inl RuntimeError)"

section \<open>One transition\<close>

definition require_source_versions :: "'v transition \<Rightarrow> domain_version_map \<Rightarrow> exn + unit" where
  "require_source_versions plan recorded =
     (case dvm_lookup recorded (tr_domain plan) of
        None \<Rightarrow> Inl MigrationError
      | Some v \<Rightarrow> if v \<noteq> tr_source plan then Inl MigrationError else Inr ())"

definition runner_migrate ::
    "((arg_key \<times> 'v) list \<Rightarrow> exn + canonical_arguments) \<Rightarrow> 'v transition \<Rightarrow> stored_session
       \<Rightarrow> exn + stored_session" where
  "runner_migrate canonicalize plan source =
     bind_r (require_source_versions plan (ss_versions source)) (\<lambda>_.
     bind_r (dvm_replacing (ss_versions source) [(tr_domain plan, tr_target plan)]) (\<lambda>versions.
     bind_r (rebuild canonicalize plan source) (\<lambda>executions.
       mk_stored_session versions executions)))"

section \<open>A domain's migration\<close>

record 'v domain_migration =
  dm_domain :: domain_id
  dm_target :: domain_version
  dm_canonicalizer :: "(arg_key \<times> 'v) list \<Rightarrow> exn + canonical_arguments"
  dm_transitions :: "(domain_version, 'v transition) dict"

definition mk_domain_migration ::
    "domain_id \<Rightarrow> domain_version \<Rightarrow> ((arg_key \<times> 'v) list \<Rightarrow> exn + canonical_arguments)
       \<Rightarrow> 'v domain_migration" where
  "mk_domain_migration d v canonicalize =
     \<lparr>dm_domain = d, dm_target = v, dm_canonicalizer = canonicalize, dm_transitions = []\<rparr>"

partial_function (option) require_acyclic ::
    "(domain_version, 'v transition) dict \<Rightarrow> domain_version \<Rightarrow> domain_version \<Rightarrow> (exn + unit) option" where
  "require_acyclic transitions source version =
     (if version = source then Some (Inl MigrationError)
      else case map_of transitions version of
             None \<Rightarrow> Some (Inr ())
           | Some t \<Rightarrow> require_acyclic transitions source (tr_target t))"

text \<open>
  \<open>transition\<close> takes a version or its text, and answers the object it registers; a later call on
  that object changes the entry, which is \<open>on_transition\<close>. \<open>None\<close> stands for a search that does
  not end.
\<close>

definition version_of :: "domain_version + pystr \<Rightarrow> exn + domain_version" where
  "version_of v = (case v of Inl version \<Rightarrow> Inr version | Inr s \<Rightarrow> mk_domain_version s)"

definition dm_transition ::
    "domain_version + pystr \<Rightarrow> domain_version + pystr \<Rightarrow> 'v domain_migration
       \<Rightarrow> (exn + 'v transition \<times> 'v domain_migration) option" where
  "dm_transition source target m =
     (case (version_of source, version_of target) of
        (Inl x, _) \<Rightarrow> Some (Inl x)
      | (Inr _, Inl x) \<Rightarrow> Some (Inl x)
      | (Inr source_version, Inr target_version) \<Rightarrow>
          if source_version = target_version then Some (Inl MigrationError)
          else if map_of (dm_transitions m) source_version \<noteq> None then Some (Inl MigrationError)
          else (case require_acyclic (dm_transitions m) source_version target_version of
                  None \<Rightarrow> None
                | Some (Inl x) \<Rightarrow> Some (Inl x)
                | Some (Inr _) \<Rightarrow>
                    let t = \<lparr>tr_domain = dm_domain m, tr_source = source_version,
                             tr_target = target_version, tr_rules = []\<rparr>
                    in Some (Inr (t, m\<lparr>dm_transitions := AList.update source_version t (dm_transitions m)\<rparr>))))"

definition on_transition ::
    "domain_version \<Rightarrow> ('v transition \<Rightarrow> exn + 'v transition) \<Rightarrow> 'v domain_migration
       \<Rightarrow> exn + 'v domain_migration" where
  "on_transition version f m =
     (case map_of (dm_transitions m) version of
        None \<Rightarrow> Inr m
      | Some t \<Rightarrow> bind_r (f t) (\<lambda>t. Inr (m\<lparr>dm_transitions := AList.update version t (dm_transitions m)\<rparr>)))"

function migrate_loop ::
    "'v domain_migration \<Rightarrow> domain_version set \<Rightarrow> domain_version \<Rightarrow> stored_session \<Rightarrow> exn + stored_session" where
  "migrate_loop m visited version migrated =
     (if version = dm_target m then Inr migrated
      else if version \<in> visited then Inl MigrationError
      else case map_of (dm_transitions m) version of
             None \<Rightarrow> Inl MigrationError
           | Some plan \<Rightarrow>
               bind_r (runner_migrate (dm_canonicalizer m) plan migrated)
                 (migrate_loop m (insert version visited) (tr_target plan)))"
  by pat_completeness auto
termination
proof (relation "measure (\<lambda>(m, visited, version, migrated). card (fst ` set (dm_transitions m) - visited))")
  fix m :: "'v domain_migration" and visited version migrated plan x
  assume "version \<notin> visited" "map_of (dm_transitions m) version = Some plan"
  then have "version \<in> fst ` set (dm_transitions m) - visited" by (force dest: map_of_SomeD)
  then have "fst ` set (dm_transitions m) - insert version visited \<subset> fst ` set (dm_transitions m) - visited" by blast
  then show "((m, insert version visited, tr_target plan, x), m, visited, version, migrated)
      \<in> measure (\<lambda>(m, visited, version, migrated). card (fst ` set (dm_transitions m) - visited))"
    by (simp add: psubset_card_mono)
qed simp

declare rebuild_walk.simps [simp del] migrate_loop.simps [simp del]

definition domain_migrate :: "'v domain_migration \<Rightarrow> stored_session \<Rightarrow> exn + stored_session" where
  "domain_migrate m source =
     (case dvm_lookup (ss_versions source) (dm_domain m) of
        None \<Rightarrow> Inl MigrationError
      | Some version \<Rightarrow> migrate_loop m {} version source)"

section \<open>Children and arguments\<close>

abbreviation (input) no_orphan :: "execution_id set \<Rightarrow> execution \<Rightarrow> bool" where
  "no_orphan known e \<equiv> set_option (eid_parent (ex_id e)) \<subseteq> known"

definition siblings :: "family \<Rightarrow> execution_id option \<Rightarrow> execution list" where
  "siblings children p = (case map_of children p of None \<Rightarrow> [] | Some fs \<Rightarrow> fs)"

lemma group_children_Cons:
  "group_children known children (e # es) =
     (if no_orphan known e
      then group_children known
             (AList.update (eid_parent (ex_id e)) (siblings children (eid_parent (ex_id e)) @ [e])
               (snd (dict_setdefault (eid_parent (ex_id e)) [] children))) es
      else Inl MigrationError)"
  by (cases "map_of children (eid_parent (ex_id e))"; cases "eid_parent (ex_id e)")
     (simp_all add: Let_def siblings_def dict_setdefault_def)

lemma siblings_update:
  "siblings (AList.update q fs (snd (dict_setdefault q [] children))) p =
     (if p = q then fs else siblings children p)"
  by (simp add: siblings_def dict_setdefault_def split: option.split)

lemma group_children_run:
  "case group_children known children es of
     Inl x \<Rightarrow> x = MigrationError \<and> (\<exists>e \<in> set es. \<not> no_orphan known e)
   | Inr children' \<Rightarrow> (\<forall>e \<in> set es. no_orphan known e) \<and>
       siblings children' p = siblings children p @ filter (\<lambda>e. eid_parent (ex_id e) = p) es"
proof (induction es arbitrary: children)
  case (Cons e es)
  show ?case
    using Cons.IH [of "AList.update (eid_parent (ex_id e)) (siblings children (eid_parent (ex_id e)) @ [e])
               (snd (dict_setdefault (eid_parent (ex_id e)) [] children))"]
    unfolding group_children_Cons siblings_update by (auto split: sum.splits if_splits)
qed simp

lemma children_by_parent_lookup:
  assumes "children_by_parent es = Inr children"
  shows "children_of children p = sort_key (\<lambda>e. eid_sequence (ex_id e)) (filter (\<lambda>e. eid_parent (ex_id e) = p) es)"
    and "e \<in> set es \<Longrightarrow> eid_parent (ex_id e) = Some q \<Longrightarrow> q \<in> ex_id ` set es"
  using group_children_run [where known = "ex_id ` set es" and children = "[]" and es = es and p = p] assms
  by (auto simp: children_of_def children_by_parent_def siblings_def)

lemma children_by_parent_orphan:
  "e \<in> set es \<Longrightarrow> eid_parent (ex_id e) = Some q \<Longrightarrow> q \<notin> ex_id ` set es \<Longrightarrow>
     children_by_parent es = Inl MigrationError"
  using group_children_run [where known = "ex_id ` set es" and children = "[]" and es = es and p = None]
  by (fastforce simp: children_by_parent_def split: sum.splits)

definition dropped :: "'v transition \<Rightarrow> execution_id \<Rightarrow> bool" where
  "dropped plan x \<longleftrightarrow> (case rule_for plan (eid_domain x) (eid_name x) of Some (Drop _) \<Rightarrow> True | _ \<Rightarrow> False)"

definition record_arguments ::
    "((arg_key \<times> 'v) list \<Rightarrow> exn + canonical_arguments) \<Rightarrow> 'v transition \<Rightarrow> execution
       \<Rightarrow> exn + canonical_arguments" where
  "record_arguments canonicalize plan e =
     migrated_arguments canonicalize e (rule_for plan (eid_domain (ex_id e)) (eid_name (ex_id e)))"

text \<open>
  Where a record goes once its parent's new identity is known.
\<close>

definition place ::
    "((arg_key \<times> 'v) list \<Rightarrow> exn + canonical_arguments) \<Rightarrow> 'v transition \<Rightarrow> execution_id option
       \<Rightarrow> execution \<Rightarrow> execution option" where
  "place canonicalize plan new_parent e =
     (if dropped plan (ex_id e) then None
      else case record_arguments canonicalize plan e of
             Inl _ \<Rightarrow> None
           | Inr arguments \<Rightarrow>
               Some (e\<lparr>ex_id := ExecutionId new_parent (eid_domain (ex_id e))
                        (target_name (rule_for plan (eid_domain (ex_id e)) (eid_name (ex_id e))) (eid_name (ex_id e)))
                        (eid_sequence (ex_id e)) (ca_digest arguments),
                      ex_arguments := arguments\<rparr>))"

text \<open>A session whose digests tell its recorded arguments apart, each under its own digest.\<close>

definition digests_faithful :: "execution list \<Rightarrow> bool" where
  "digests_faithful es \<longleftrightarrow>
     inj_on ca_digest (ex_arguments ` set es) \<and>
     (\<forall>e \<in> set es. eid_digest (ex_id e) = ca_digest (ex_arguments e))"

lemma record_arguments_scope:
  assumes "digests_faithful es" "e \<in> set es" "f \<in> set es" "scope_of (ex_id e) = scope_of (ex_id f)"
  shows "record_arguments canonicalize plan e = record_arguments canonicalize plan f"
proof -
  have "ca_digest (ex_arguments e) = ca_digest (ex_arguments f)"
    using assms by (auto simp: digests_faithful_def scope_of_def)
  then have "ex_arguments e = ex_arguments f"
    using assms by (auto simp: digests_faithful_def dest: inj_onD)
  then have "migrated_arguments canonicalize e rule = migrated_arguments canonicalize f rule" for rule
    by (simp add: migrated_arguments_def recorded_arguments_def cong: option.case_cong rule.case_cong)
  then show ?thesis using assms(4) by (simp add: record_arguments_def scope_of_def)
qed

section \<open>One family\<close>

definition memo_ok ::
    "((arg_key \<times> 'v) list \<Rightarrow> exn + canonical_arguments) \<Rightarrow> 'v transition \<Rightarrow> execution list \<Rightarrow> walk \<Rightarrow> bool" where
  "memo_ok canonicalize plan es w \<longleftrightarrow>
     (\<forall>s a. map_of (wk_arguments w) s = Some a \<longrightarrow>
        (\<exists>e \<in> set es. scope_of (ex_id e) = s \<and> record_arguments canonicalize plan e = Inr a))"

definition scopes_ok :: "walk \<Rightarrow> bool" where
  "scopes_ok w \<longleftrightarrow> (\<forall>t ss. map_of (wk_scopes w) t = Some ss \<longrightarrow> (\<exists>s. ss = {s}))"

lemma scope_arguments_run:
  assumes "digests_faithful es" "memo_ok canonicalize plan es w" "e \<in> set es"
    and "scope_arguments canonicalize e (rule_for plan (eid_domain (ex_id e)) (eid_name (ex_id e))) w = Inr (a, w')"
  shows "record_arguments canonicalize plan e = Inr a \<and> memo_ok canonicalize plan es w' \<and>
     (\<exists>m. w' = w\<lparr>wk_arguments := m\<rparr>)"
proof (cases "map_of (wk_arguments w) (scope_of (ex_id e))")
  case None
  then have "record_arguments canonicalize plan e = Inr a"
    "w' = w\<lparr>wk_arguments := AList.update (scope_of (ex_id e)) a (wk_arguments w)\<rparr>"
    using assms(4) by (auto simp: scope_arguments_def record_arguments_def result_simps)
  then show ?thesis using assms(2,3) by (auto simp: memo_ok_def)
next
  case (Some b)
  then have "w' = w" "b = a" using assms(4) by (auto simp: scope_arguments_def)
  moreover obtain f where "f \<in> set es" "scope_of (ex_id f) = scope_of (ex_id e)" "record_arguments canonicalize plan f = Inr b"
    using assms(2) Some by (auto simp: memo_ok_def)
  moreover have "w = w\<lparr>wk_arguments := wk_arguments w\<rparr>" by simp
  ultimately show ?thesis
    using record_arguments_scope [OF assms(1,3)] assms(2) by metis
qed

lemma require_one_source_scope_run:
  assumes "\<forall>t ss. map_of scopes t = Some ss \<longrightarrow> (\<exists>s. ss = {s})"
    and "require_one_source_scope scopes t s = Inr scopes'"
  shows "map_of scopes' = (map_of scopes)(t \<mapsto> {s}) \<and> (map_of scopes t = None \<or> map_of scopes t = Some {s})"
proof (cases "map_of scopes t")
  case None
  then show ?thesis
    using assms(2) by (auto simp: require_one_source_scope_def dict_setdefault_def Let_def)
next
  case (Some ss)
  then obtain r where r: "ss = {r}" using assms(1) by auto
  then have "r = s" using assms(2) Some
    by (auto simp: require_one_source_scope_def dict_setdefault_def Let_def card_insert_if split: if_splits)
  then show ?thesis using assms(2) Some r
    by (auto simp: require_one_source_scope_def dict_setdefault_def Let_def)
qed

lemma rebuild_one_run:
  assumes "digests_faithful es" "memo_ok canonicalize plan es w" "scopes_ok w" "e \<in> set es"
    and "rebuild_one canonicalize plan np e w = Inr w'"
  shows "case place canonicalize plan np e of
      None \<Rightarrow> dropped plan (ex_id e) \<and> w' = w
    | Some f \<Rightarrow> \<not> dropped plan (ex_id e) \<and> memo_ok canonicalize plan es w' \<and> scopes_ok w' \<and>
        wk_migrated w' = wk_migrated w @ [f] \<and>
        wk_stack w' = (Some (ex_id e), Some (ex_id f)) # wk_stack w \<and>
        (map_of (wk_scopes w) (scope_of (ex_id f)) \<in> {None, Some {scope_of (ex_id e)}}) \<and>
        map_of (wk_scopes w') = (map_of (wk_scopes w))(scope_of (ex_id f) \<mapsto> {scope_of (ex_id e)})"
proof (cases "dropped plan (ex_id e)")
  case True
  then show ?thesis
    using assms(5) by (auto simp: place_def dropped_def rebuild_one_def result_simps split: option.splits rule.splits)
next
  case False
  let ?rule = "rule_for plan (eid_domain (ex_id e)) (eid_name (ex_id e))"
  let ?scope = "\<lambda>a. \<lparr>scope_parent = np, scope_domain = eid_domain (ex_id e),
     scope_name = target_name ?rule (eid_name (ex_id e)), scope_digest = ca_digest a\<rparr>"
  let ?id = "\<lambda>a. ExecutionId np (eid_domain (ex_id e)) (target_name ?rule (eid_name (ex_id e)))
     (eid_sequence (ex_id e)) (ca_digest a)"
  obtain a w1 scopes where run: "scope_arguments canonicalize e ?rule w = Inr (a, w1)"
      "require_one_source_scope (wk_scopes w1) (?scope a) (scope_of (ex_id e)) = Inr scopes"
      "w' = w1\<lparr>wk_scopes := scopes, wk_migrated := wk_migrated w1 @ [e\<lparr>ex_id := ?id a, ex_arguments := a\<rparr>],
               wk_stack := (Some (ex_id e), Some (?id a)) # wk_stack w1\<rparr>"
    using assms(5) False
    by (auto simp: rebuild_one_def dropped_def result_simps Let_def split: option.splits rule.splits if_splits)
  obtain m where m: "record_arguments canonicalize plan e = Inr a" "memo_ok canonicalize plan es w1" "w1 = w\<lparr>wk_arguments := m\<rparr>"
    using scope_arguments_run [OF assms(1,2,4) run(1)] by blast
  have s: "map_of scopes = (map_of (wk_scopes w))(?scope a \<mapsto> {scope_of (ex_id e)})"
      "map_of (wk_scopes w) (?scope a) = None \<or> map_of (wk_scopes w) (?scope a) = Some {scope_of (ex_id e)}"
    using require_one_source_scope_run [OF _ run(2)] assms(3) m(3) by (simp_all add: scopes_ok_def)
  show ?thesis
    using False m run(3) s assms(3)
    by (auto simp: place_def memo_ok_def scopes_ok_def scope_of_def)
qed

definition pushed :: "execution_id \<times> execution \<Rightarrow> execution_id option \<times> execution_id option" where
  "pushed ef = (Some (fst ef), Some (ex_id (snd ef)))"

text \<open>The records of one family that are kept, each with its old identity.\<close>

definition placed ::
    "((arg_key \<times> 'v) list \<Rightarrow> exn + canonical_arguments) \<Rightarrow> 'v transition \<Rightarrow> execution_id option
       \<Rightarrow> execution list \<Rightarrow> (execution_id \<times> execution) list" where
  "placed canonicalize plan np es =
     List.map_filter (\<lambda>e. map_option (Pair (ex_id e)) (place canonicalize plan np e)) es"

lemma placed_simps [simp]:
  "placed c plan np [] = []"
  "placed c plan np (e # es) = (case place c plan np e of None \<Rightarrow> [] | Some f \<Rightarrow> [(ex_id e, f)]) @ placed c plan np es"
  by (auto simp: placed_def List.map_filter_def split: option.splits)

definition recorded_scopes :: "walk \<Rightarrow> walk \<Rightarrow> (execution_id \<times> execution) list \<Rightarrow> bool" where
  "recorded_scopes w w' efs \<longleftrightarrow>
     (\<forall>t ss. map_of (wk_scopes w) t = Some ss \<longrightarrow> map_of (wk_scopes w') t = Some ss) \<and>
     (\<forall>(x, f) \<in> set efs. map_of (wk_scopes w') (scope_of (ex_id f)) = Some {scope_of x})"

lemma rebuild_children_run:
  assumes "digests_faithful es" "memo_ok c plan es w" "scopes_ok w" "set kids \<subseteq> set es"
    and "rebuild_children c plan np kids w = Inr w'"
  shows "memo_ok c plan es w' \<and> scopes_ok w' \<and>
    wk_migrated w' = wk_migrated w @ map snd (placed c plan np kids) \<and>
    wk_stack w' = rev (map pushed (placed c plan np kids)) @ wk_stack w \<and>
    recorded_scopes w w' (placed c plan np kids) \<and>
    (\<forall>e \<in> set kids. place c plan np e = None \<longrightarrow> dropped plan (ex_id e))"
  using assms
proof (induction kids arbitrary: w)
  case (Cons e kids)
  obtain w1 where w1: "rebuild_one c plan np e w = Inr w1" "rebuild_children c plan np kids w1 = Inr w'"
    using Cons.prems(5) by (auto simp: result_simps)
  have e: "e \<in> set es" "set kids \<subseteq> set es" using Cons.prems(4) by auto
  note one = rebuild_one_run [OF Cons.prems(1-3) e(1) w1(1)]
  show ?case
  proof (cases "place c plan np e")
    case None
    then show ?thesis using one Cons.IH [OF Cons.prems(1-3) e(2)] w1(2) by auto
  next
    case (Some f)
    then have m: "memo_ok c plan es w1" "scopes_ok w1" using one by auto
    have "recorded_scopes w w1 [(ex_id e, f)]"
      using one Some by (auto simp: recorded_scopes_def)
    moreover have "recorded_scopes w1 w' (placed c plan np kids)"
      using Cons.IH [OF Cons.prems(1) m e(2) w1(2)] by blast
    ultimately have "recorded_scopes w w' ((ex_id e, f) # placed c plan np kids)"
      unfolding recorded_scopes_def by auto
    then show ?thesis
      using one Cons.IH [OF Cons.prems(1) m e(2) w1(2)] Some by (auto simp: pushed_def)
  qed
qed (simp add: recorded_scopes_def)

text \<open>What a family pushes, whatever the memo holds.\<close>

lemma rebuild_one_stack:
  "rebuild_one c plan np e w = Inr w' \<Longrightarrow>
     map fst (wk_stack w') = (if dropped plan (ex_id e) then [] else [Some (ex_id e)]) @ map fst (wk_stack w)"
  by (auto simp: rebuild_one_def dropped_def scope_arguments_def result_simps Let_def
      split: option.splits rule.splits if_splits)

lemma rebuild_children_stack:
  "rebuild_children c plan np kids w = Inr w' \<Longrightarrow>
     map fst (wk_stack w') =
       rev (map (\<lambda>e. Some (ex_id e)) (filter (\<lambda>e. \<not> dropped plan (ex_id e)) kids)) @ map fst (wk_stack w)"
  by (induction kids arbitrary: w) (auto simp: result_simps rebuild_one_stack)

section \<open>The walk visits every family once\<close>

text \<open>\<open>D\<close>: the parents whose families have been rebuilt.\<close>

definition frontier :: "execution list \<Rightarrow> execution_id option list \<Rightarrow> walk \<Rightarrow> bool" where
  "frontier es D w \<longleftrightarrow>
     distinct (D @ map fst (wk_stack w)) \<and>
     (\<forall>q \<in> set (D @ map fst (wk_stack w)).
        q = None \<or> (\<exists>e \<in> set es. q = Some (ex_id e) \<and> eid_parent (ex_id e) \<in> set D))"

lemma frontier_bound:
  assumes "frontier es D w"
  shows "length D + length (wk_stack w) \<le> Suc (length es)"
proof -
  let ?q = "D @ map fst (wk_stack w)"
  have "set ?q \<subseteq> insert None (Some ` ex_id ` set es)" using assms by (auto simp: frontier_def)
  then have "card (set ?q) \<le> card (insert None (Some ` ex_id ` set es))" by (intro card_mono) auto
  also have "\<dots> \<le> Suc (card (Some ` ex_id ` set es))" by (simp add: card_insert_if)
  also have "\<dots> \<le> Suc (card (set es))" by (simp add: card_image_le image_image)
  also have "\<dots> \<le> Suc (length es)" by (simp add: card_length)
  finally have "card (set ?q) \<le> Suc (length es)" .
  moreover have "card (set ?q) = length ?q"
    using assms by (simp add: frontier_def distinct_card del: set_append distinct_append)
  ultimately show ?thesis by simp
qed

lemma distinct_frontier:
  "distinct ks \<Longrightarrow> set ks \<inter> set (D @ p # st) = {} \<Longrightarrow> distinct (D @ p # st) \<Longrightarrow> distinct ((p # D) @ rev ks @ st)"
  by auto

lemma frontier_step:
  assumes "frontier es D w" "wk_stack w = (p, np) # stack"
    and "distinct (map ex_id es)"
    and "set kids = {e \<in> set es. eid_parent (ex_id e) = p}" "distinct kids"
    and "rebuild_children c plan np kids (w\<lparr>wk_stack := stack\<rparr>) = Inr w'"
  shows "frontier es (p # D) w'"
proof -
  let ?kept = "map (\<lambda>e. Some (ex_id e)) (filter (\<lambda>e. \<not> dropped plan (ex_id e)) kids)"
  have stack: "map fst (wk_stack w') = rev ?kept @ map fst stack"
    using rebuild_children_stack [OF assms(6)] by simp
  have old: "distinct (D @ p # map fst stack)"
      "\<And>q. q \<in> set (D @ p # map fst stack) \<Longrightarrow>
         q = None \<or> (\<exists>e \<in> set es. q = Some (ex_id e) \<and> eid_parent (ex_id e) \<in> set D)"
    using assms(1,2) by (auto simp: frontier_def)
  have inj: "inj_on ex_id (set es)" using assms(3) by (simp add: distinct_map)
  have new: "q \<notin> set (D @ p # map fst stack)" if q: "q \<in> set ?kept" for q
  proof
    assume in_old: "q \<in> set (D @ p # map fst stack)"
    obtain e where e: "e \<in> set es" "eid_parent (ex_id e) = p" "q = Some (ex_id e)"
    proof -
      from q obtain e where "e \<in> set kids" "q = Some (ex_id e)" by auto
      then show thesis using that [of e] assms(4) by simp
    qed
    obtain e' where "e' \<in> set es" "ex_id e' = ex_id e" "eid_parent (ex_id e') \<in> set D"
      using old(2) [OF in_old] e(3) by auto
    then show False using e old(1) by auto
  qed
  have "distinct ?kept"
  proof -
    have "inj_on ex_id (set kids)" using inj assms(4) by (auto intro: inj_on_subset)
    then show ?thesis using assms(5) by (auto simp: distinct_map distinct_filter inj_on_def)
  qed
  moreover have "set ?kept \<inter> set (D @ p # map fst stack) = {}" using new by blast
  ultimately have "distinct ((p # D) @ map fst (wk_stack w'))"
    unfolding stack by (rule distinct_frontier [OF _ _ old(1)])
  moreover have "q = None \<or> (\<exists>e \<in> set es. q = Some (ex_id e) \<and> eid_parent (ex_id e) \<in> set (p # D))"
    if "q \<in> set ((p # D) @ map fst (wk_stack w'))" for q
  proof (cases "q \<in> set ?kept")
    case True
    then show ?thesis using assms(4) by auto
  next
    case False
    then have "q \<in> set (D @ p # map fst stack)" using that unfolding stack by auto
    then show ?thesis using old(2) [of q] by auto
  qed
  ultimately show ?thesis by (simp add: frontier_def)
qed

lemma rebuild_walk_run:
  assumes dist: "distinct (map ex_id es)" and children: "children_by_parent es = Inr children"
    and step: "\<And>D w p np stack w'. frontier es D w \<Longrightarrow> Q D w \<Longrightarrow> wk_stack w = (p, np) # stack \<Longrightarrow>
      rebuild_children c plan np (children_of children p) (w\<lparr>wk_stack := stack\<rparr>) = Inr w' \<Longrightarrow> Q (p # D) w'"
  shows "frontier es D w \<Longrightarrow> Q D w \<Longrightarrow> Suc (length es) \<le> fuel + length D \<Longrightarrow>
    \<exists>r. rebuild_walk fuel c plan children w = Some r \<and>
      (\<forall>w'. r = Inr w' \<longrightarrow> (\<exists>D'. frontier es D' w' \<and> Q D' w' \<and> wk_stack w' = []))"
proof (induction fuel arbitrary: D w)
  case 0
  then have "length (wk_stack w) = 0" using frontier_bound [OF 0(1)] by linarith
  then have "wk_stack w = []" by simp
  then show ?case using 0(1,2) by (subst rebuild_walk.simps) auto
next
  case (Suc fuel)
  show ?case
  proof (cases "wk_stack w")
    case Nil
    then show ?thesis using Suc.prems(1,2) by (subst rebuild_walk.simps) auto
  next
    case (Cons x stack)
    obtain p np where x: "x = (p, np)" by fastforce
    note w = Cons [unfolded x]
    let ?run = "rebuild_children c plan np (children_of children p) (w\<lparr>wk_stack := stack\<rparr>)"
    show ?thesis
    proof (cases ?run)
      case (Inl x)
      then show ?thesis using w by (subst rebuild_walk.simps) simp
    next
      case (Inr w1)
      have kids: "set (children_of children p) = {e \<in> set es. eid_parent (ex_id e) = p}" "distinct (children_of children p)"
        using dist unfolding children_by_parent_lookup(1) [OF children] by (auto simp: distinct_map)
      have "frontier es (p # D) w1" by (rule frontier_step [OF Suc.prems(1) w dist kids Inr])
      moreover have "Q (p # D) w1" by (rule step [OF Suc.prems(1,2) w Inr])
      ultimately show ?thesis
        using Suc.IH [of "p # D" w1] Suc.prems(3) w Inr by (subst rebuild_walk.simps) simp
    qed
  qed
qed

lemma frontier_start: "frontier es [] walk_start"
  by (simp add: frontier_def walk_start_def)

lemma walk_returns:
  assumes "distinct (map ex_id es)" "children_by_parent es = Inr children"
  shows "\<exists>r. rebuild_walk (Suc (length es)) c plan children walk_start = Some r"
  using rebuild_walk_run [OF assms, of "\<lambda>_ _. True" c plan "[]" walk_start "Suc (length es)"] frontier_start
  by auto

section \<open>The reference\<close>

text \<open>
  What becomes of a record, from its own identity chain: every frame is renamed under its rule and
  keyed by its converted arguments, and a dropped frame takes everything below it.
\<close>

definition converted ::
    "((arg_key \<times> 'v) list \<Rightarrow> exn + canonical_arguments) \<Rightarrow> 'v transition \<Rightarrow> execution list
       \<Rightarrow> execution_id \<Rightarrow> canonical_arguments option" where
  "converted canonicalize plan es x =
     (case map_of (map (\<lambda>e. (ex_id e, e)) es) x of
        None \<Rightarrow> None
      | Some e \<Rightarrow> (case record_arguments canonicalize plan e of Inl _ \<Rightarrow> None | Inr a \<Rightarrow> Some a))"

fun moved_id :: "(execution_id \<Rightarrow> canonical_arguments option) \<Rightarrow> 'v transition \<Rightarrow> execution_id \<Rightarrow> execution_id option" where
  "moved_id args plan (ExecutionId p d n i a) =
     (if dropped plan (ExecutionId p d n i a) then None
      else case args (ExecutionId p d n i a) of
             None \<Rightarrow> None
           | Some arguments \<Rightarrow>
               (case p of
                  None \<Rightarrow> Some (ExecutionId None d (target_name (rule_for plan d n) n) i (ca_digest arguments))
                | Some q \<Rightarrow> map_option (\<lambda>q'.
                    ExecutionId (Some q') d (target_name (rule_for plan d n) n) i (ca_digest arguments))
                    (moved_id args plan q)))"

definition moved_execution ::
    "((arg_key \<times> 'v) list \<Rightarrow> exn + canonical_arguments) \<Rightarrow> 'v transition \<Rightarrow> execution list
       \<Rightarrow> execution \<Rightarrow> execution option" where
  "moved_execution canonicalize plan es e =
     (case (moved_id (converted canonicalize plan es) plan (ex_id e), converted canonicalize plan es (ex_id e)) of
        (Some i, Some arguments) \<Rightarrow> Some (e\<lparr>ex_id := i, ex_arguments := arguments\<rparr>)
      | _ \<Rightarrow> None)"

lemma converted_record:
  assumes "distinct (map ex_id es)" "e \<in> set es"
  shows "converted c plan es (ex_id e) =
    (case record_arguments c plan e of Inl _ \<Rightarrow> None | Inr a \<Rightarrow> Some a)"
proof -
  have "map_of (map (\<lambda>e. (ex_id e, e)) es) (ex_id e) = Some e"
    using assms by (intro map_of_is_SomeI) (auto simp: comp_def)
  then show ?thesis by (simp add: converted_def)
qed

lemma moved_id_unfold:
  "moved_id args plan x =
     (if dropped plan x then None
      else case args x of
             None \<Rightarrow> None
           | Some arguments \<Rightarrow>
               (case eid_parent x of
                  None \<Rightarrow> Some (ExecutionId None (eid_domain x)
                    (target_name (rule_for plan (eid_domain x) (eid_name x)) (eid_name x)) (eid_sequence x) (ca_digest arguments))
                | Some q \<Rightarrow> map_option (\<lambda>q'. ExecutionId (Some q') (eid_domain x)
                    (target_name (rule_for plan (eid_domain x) (eid_name x)) (eid_name x)) (eid_sequence x) (ca_digest arguments))
                    (moved_id args plan q)))"
  by (cases x) (simp cong: option.case_cong)

lemma moved_execution_step:
  assumes "distinct (map ex_id es)" "e \<in> set es"
  shows "moved_execution c plan es e =
      (case eid_parent (ex_id e) of
         None \<Rightarrow> place c plan None e
       | Some p \<Rightarrow> (case moved_id (converted c plan es) plan p of None \<Rightarrow> None | Some q \<Rightarrow> place c plan (Some q) e))"
    and "moved_id (converted c plan es) plan (ex_id e) = map_option ex_id (moved_execution c plan es e)"
  using converted_record [OF assms, of c plan]
  by (auto simp: moved_execution_def moved_id_unfold [of _ _ "ex_id e"] place_def split: option.splits sum.splits)

lemma place_simps:
  assumes "place c plan np e = Some f"
  shows "eid_parent (ex_id f) = np" "eid_domain (ex_id f) = eid_domain (ex_id e)"
    "eid_sequence (ex_id f) = eid_sequence (ex_id e)"
    "eid_digest (ex_id f) = ca_digest (ex_arguments f)"
    "ex_status f = ex_status e" "ex_result f = ex_result e" "ex_metadata f = ex_metadata e"
  using assms by (auto simp: place_def split: if_splits sum.splits)

section \<open>What the walk has rebuilt\<close>

definition ancestors_first :: "execution list \<Rightarrow> bool" where
  "ancestors_first es \<longleftrightarrow>
     (\<forall>xs f ys q. es = xs @ f # ys \<longrightarrow> eid_parent (ex_id f) = Some q \<longrightarrow> q \<in> ex_id ` set xs)"

lemma ancestors_first_append:
  assumes "ancestors_first es" "\<forall>f \<in> set fs. set_option (eid_parent (ex_id f)) \<subseteq> ex_id ` set es"
  shows "ancestors_first (es @ fs)"
  unfolding ancestors_first_def
proof (intro allI impI)
  fix xs f ys q
  assume split: "es @ fs = xs @ f # ys" and q: "eid_parent (ex_id f) = Some q"
  from split obtain us where "es = xs @ us \<and> us @ fs = f # ys \<or> xs = es @ us \<and> fs = us @ f # ys"
    by (auto simp: append_eq_append_conv2)
  then consider zs where "es = xs @ f # zs" | zs where "xs = es @ zs" "f \<in> set fs"
    by (cases us) auto
  then show "q \<in> ex_id ` set xs"
  proof cases
    case 1
    then show ?thesis using assms(1) q by (auto simp: ancestors_first_def)
  next
    case 2
    then show ?thesis using assms(2) q by fastforce
  qed
qed

lemma map_filter_cong:
  "xs = ys \<Longrightarrow> (\<And>x. x \<in> set ys \<Longrightarrow> f x = g x) \<Longrightarrow> List.map_filter f xs = List.map_filter g ys"
  by (induction ys arbitrary: xs) (auto simp: List.map_filter_simps split: option.splits)

lemma mset_map_filter: "mset (List.map_filter f xs) = image_mset (the \<circ> f) {#x \<in># mset xs. f x \<noteq> None#}"
  by (simp add: List.map_filter_def)

lemma placed_snd: "map snd (placed c plan np es) = List.map_filter (place c plan np) es"
  by (induction es) (auto simp: List.map_filter_def split: option.splits)

lemma placed_set: "(x, f) \<in> set (placed c plan np es) \<longleftrightarrow> (\<exists>e \<in> set es. x = ex_id e \<and> place c plan np e = Some f)"
  by (induction es) (auto split: option.splits)

text \<open>The old and the new parent of a family that is on the stack.\<close>

definition moved_parent ::
    "((arg_key \<times> 'v) list \<Rightarrow> exn + canonical_arguments) \<Rightarrow> 'v transition \<Rightarrow> execution list
       \<Rightarrow> execution list \<Rightarrow> execution_id option \<times> execution_id option \<Rightarrow> bool" where
  "moved_parent c plan es migrated qn \<longleftrightarrow> qn = (None, None) \<or>
     (\<exists>x n. qn = (Some x, Some n) \<and> moved_id (converted c plan es) plan x = Some n \<and> n \<in> ex_id ` set migrated)"

definition visited_record ::
    "((arg_key \<times> 'v) list \<Rightarrow> exn + canonical_arguments) \<Rightarrow> 'v transition \<Rightarrow> execution list
       \<Rightarrow> execution_id option set \<Rightarrow> walk \<Rightarrow> execution \<Rightarrow> bool" where
  "visited_record c plan es known w e \<longleftrightarrow>
     (case moved_execution c plan es e of
        None \<Rightarrow> dropped plan (ex_id e)
      | Some f \<Rightarrow> Some (ex_id e) \<in> known \<and> map_of (wk_scopes w) (scope_of (ex_id f)) = Some {scope_of (ex_id e)})"

definition rebuilt ::
    "((arg_key \<times> 'v) list \<Rightarrow> exn + canonical_arguments) \<Rightarrow> 'v transition \<Rightarrow> execution list
       \<Rightarrow> execution_id option list \<Rightarrow> walk \<Rightarrow> bool" where
  "rebuilt c plan es D w \<longleftrightarrow>
     memo_ok c plan es w \<and> scopes_ok w \<and>
     None \<in> set (D @ map fst (wk_stack w)) \<and>
     (\<forall>qn \<in> set (wk_stack w). moved_parent c plan es (wk_migrated w) qn) \<and>
     mset (wk_migrated w) =
       mset (List.map_filter (moved_execution c plan es) (filter (\<lambda>e. eid_parent (ex_id e) \<in> set D) es)) \<and>
     (\<forall>e \<in> set es. eid_parent (ex_id e) \<in> set D \<longrightarrow>
        visited_record c plan es (set (D @ map fst (wk_stack w))) w e) \<and>
     ancestors_first (wk_migrated w)"

text \<open>What rebuilding the family of \<open>p\<close> under \<open>np\<close> does to the walk.\<close>

definition family_step ::
    "((arg_key \<times> 'v) list \<Rightarrow> exn + canonical_arguments) \<Rightarrow> 'v transition \<Rightarrow> execution list
       \<Rightarrow> execution_id option \<Rightarrow> execution_id option \<Rightarrow> execution list \<Rightarrow> walk \<Rightarrow> walk \<Rightarrow> bool" where
  "family_step c plan es p np kids w w' \<longleftrightarrow>
     set kids = {e \<in> set es. eid_parent (ex_id e) = p} \<and>
     mset kids = mset (filter (\<lambda>e. eid_parent (ex_id e) = p) es) \<and>
     (\<forall>e \<in> set kids. moved_execution c plan es e = place c plan np e) \<and>
     wk_migrated w' = wk_migrated w @ map snd (placed c plan np kids) \<and>
     (\<exists>stack. wk_stack w = (p, np) # stack \<and> wk_stack w' = rev (map pushed (placed c plan np kids)) @ stack) \<and>
     recorded_scopes w w' (placed c plan np kids) \<and>
     (\<forall>e \<in> set kids. place c plan np e = None \<longrightarrow> dropped plan (ex_id e))"

lemma family_step_run:
  assumes src: "digests_faithful es" "distinct (map ex_id es)" and children: "children_by_parent es = Inr children"
    and rb: "rebuilt c plan es D w" and w: "wk_stack w = (p, np) # stack"
    and run: "rebuild_children c plan np (children_of children p) (w\<lparr>wk_stack := stack\<rparr>) = Inr w'"
  shows "memo_ok c plan es w' \<and> scopes_ok w' \<and> family_step c plan es p np (children_of children p) w w'"
proof -
  let ?kids = "children_of children p"
  have kids: "set ?kids = {e \<in> set es. eid_parent (ex_id e) = p}" "mset ?kids = mset (filter (\<lambda>e. eid_parent (ex_id e) = p) es)"
    unfolding children_by_parent_lookup(1) [OF children] by auto
  have pre: "memo_ok c plan es (w\<lparr>wk_stack := stack\<rparr>)" "scopes_ok (w\<lparr>wk_stack := stack\<rparr>)"
    using rb by (simp_all add: rebuilt_def memo_ok_def scopes_ok_def)
  have sub: "set ?kids \<subseteq> set es" using kids(1) by blast
  have top: "moved_parent c plan es (wk_migrated w) (p, np)" using rb w by (simp add: rebuilt_def)
  have "\<forall>e \<in> set ?kids. moved_execution c plan es e = place c plan np e"
    using moved_execution_step(1) [OF src(2), of _ c plan] top kids(1) by (auto simp: moved_parent_def)
  then show ?thesis
    using rebuild_children_run [OF src(1) pre sub run] kids w by (auto simp: family_step_def recorded_scopes_def)
qed

lemma family_step_reach:
  "family_step c plan es p np kids w w' \<Longrightarrow>
     set (D @ map fst (wk_stack w)) \<subseteq> set ((p # D) @ map fst (wk_stack w'))"
  unfolding family_step_def by (elim conjE exE) auto

lemma moved_parent_mono:
  "moved_parent c plan es ms qn \<Longrightarrow> set ms \<subseteq> set ms' \<Longrightarrow> moved_parent c plan es ms' qn"
  unfolding moved_parent_def by blast

lemma family_step_stack:
  assumes dist: "distinct (map ex_id es)" and step: "family_step c plan es p np kids w w'"
    and stack: "\<forall>qn \<in> set (wk_stack w). moved_parent c plan es (wk_migrated w) qn"
  shows "\<forall>qn \<in> set (wk_stack w'). moved_parent c plan es (wk_migrated w') qn"
proof
  fix qn assume qn: "qn \<in> set (wk_stack w')"
  have migrated: "wk_migrated w' = wk_migrated w @ map snd (placed c plan np kids)" using step by (simp add: family_step_def)
  obtain st where st: "wk_stack w = (p, np) # st" "wk_stack w' = rev (map pushed (placed c plan np kids)) @ st"
    using step unfolding family_step_def by blast
  consider x f where "(x, f) \<in> set (placed c plan np kids)" "qn = pushed (x, f)" | "qn \<in> set (wk_stack w)"
    using qn unfolding st by auto
  then show "moved_parent c plan es (wk_migrated w') qn"
  proof cases
    case 1
    then obtain e where e: "e \<in> set es" "e \<in> set kids" "x = ex_id e" "place c plan np e = Some f"
      using step unfolding placed_set family_step_def by blast
    have "moved_execution c plan es e = Some f" using e(2,4) step by (simp add: family_step_def)
    then have "moved_id (converted c plan es) plan x = Some (ex_id f)"
      using moved_execution_step(2) [OF dist e(1), of c plan] e(3) by simp
    moreover have "f \<in> set (wk_migrated w')" unfolding migrated using 1(1) by force
    ultimately show ?thesis using 1(2) by (simp add: moved_parent_def pushed_def)
  next
    case 2
    then show ?thesis using stack migrated by (auto intro: moved_parent_mono)
  qed
qed

lemma family_step_records:
  assumes step: "family_step c plan es p np kids w w'" and e: "e \<in> set es" "eid_parent (ex_id e) \<in> set (p # D)"
    and old: "eid_parent (ex_id e) \<in> set D \<Longrightarrow> visited_record c plan es (set (D @ map fst (wk_stack w))) w e"
  shows "visited_record c plan es (set ((p # D) @ map fst (wk_stack w'))) w' e"
proof (cases "eid_parent (ex_id e) = p")
  case True
  then have k: "e \<in> set kids" using e step by (simp add: family_step_def)
  then have m: "moved_execution c plan es e = place c plan np e" using step by (simp add: family_step_def)
  show ?thesis
  proof (cases "place c plan np e")
    case None
    then show ?thesis using m k step by (simp add: visited_record_def family_step_def)
  next
    case (Some f)
    then have "(ex_id e, f) \<in> set (placed c plan np kids)" using k unfolding placed_set by blast
    moreover obtain st where "wk_stack w' = rev (map pushed (placed c plan np kids)) @ st"
      using step unfolding family_step_def by blast
    moreover have "recorded_scopes w w' (placed c plan np kids)" using step by (simp add: family_step_def)
    ultimately have "(Some (ex_id e), Some (ex_id f)) \<in> set (wk_stack w')"
        "map_of (wk_scopes w') (scope_of (ex_id f)) = Some {scope_of (ex_id e)}"
      by (force simp: pushed_def, auto simp: recorded_scopes_def)
    then show ?thesis using Some m by (force simp: visited_record_def)
  qed
next
  case False
  then have "visited_record c plan es (set (D @ map fst (wk_stack w))) w e" using old e(2) by simp
  moreover have "recorded_scopes w w' (placed c plan np kids)" using step by (simp add: family_step_def)
  ultimately show ?thesis
    using family_step_reach [OF step, of D]
    by (auto simp: visited_record_def recorded_scopes_def split: option.splits)
qed

lemma family_step_migrated:
  assumes step: "family_step c plan es p np kids w w'" and p: "p \<notin> set D"
    and old: "mset (wk_migrated w) =
      mset (List.map_filter (moved_execution c plan es) (filter (\<lambda>e. eid_parent (ex_id e) \<in> set D) es))"
  shows "mset (wk_migrated w') =
      mset (List.map_filter (moved_execution c plan es) (filter (\<lambda>e. eid_parent (ex_id e) \<in> set (p # D)) es))"
proof -
  have "{#e \<in># mset es. eid_parent (ex_id e) \<in> set (p # D)#} =
      {#e \<in># mset es. eid_parent (ex_id e) \<in> set D#} + {#e \<in># mset es. eid_parent (ex_id e) = p#}"
    using p by (induction es) auto
  moreover have "List.map_filter (place c plan np) kids = List.map_filter (moved_execution c plan es) kids"
  proof (rule map_filter_cong [OF refl])
    fix e assume "e \<in> set kids"
    then show "place c plan np e = moved_execution c plan es e" using step by (simp add: family_step_def)
  qed
  moreover have "wk_migrated w' = wk_migrated w @ List.map_filter (place c plan np) kids"
      "mset kids = {#e \<in># mset es. eid_parent (ex_id e) = p#}"
    using step by (simp_all add: family_step_def placed_snd)
  ultimately show ?thesis using old by (simp add: mset_map_filter)
qed

lemma family_step_order:
  assumes step: "family_step c plan es p np kids w w'" and top: "moved_parent c plan es (wk_migrated w) (p, np)"
    and old: "ancestors_first (wk_migrated w)"
  shows "ancestors_first (wk_migrated w')"
proof -
  have "set_option np \<subseteq> ex_id ` set (wk_migrated w)" using top by (auto simp: moved_parent_def)
  moreover have "eid_parent (ex_id f) = np" if f: "f \<in> set (map snd (placed c plan np kids))" for f
  proof -
    from f obtain x where "(x, f) \<in> set (placed c plan np kids)" by auto
    then show ?thesis using place_simps(1) unfolding placed_set by blast
  qed
  ultimately have "ancestors_first (wk_migrated w @ map snd (placed c plan np kids))"
    by (intro ancestors_first_append [OF old]) simp
  then show ?thesis using step by (simp add: family_step_def)
qed

lemma rebuilt_step:
  assumes src: "digests_faithful es" "distinct (map ex_id es)" and children: "children_by_parent es = Inr children"
    and fr: "frontier es D w" and rb: "rebuilt c plan es D w" and w: "wk_stack w = (p, np) # stack"
    and run: "rebuild_children c plan np (children_of children p) (w\<lparr>wk_stack := stack\<rparr>) = Inr w'"
  shows "rebuilt c plan es (p # D) w'"
proof -
  have ok: "memo_ok c plan es w'" "scopes_ok w'"
    and step: "family_step c plan es p np (children_of children p) w w'"
    using family_step_run [OF src children rb w run] by blast+
  have p: "p \<notin> set D" using fr w by (auto simp: frontier_def)
  have old: "None \<in> set (D @ map fst (wk_stack w))"
      "\<forall>qn \<in> set (wk_stack w). moved_parent c plan es (wk_migrated w) qn"
      "mset (wk_migrated w) =
         mset (List.map_filter (moved_execution c plan es) (filter (\<lambda>e. eid_parent (ex_id e) \<in> set D) es))"
      "\<And>e. e \<in> set es \<Longrightarrow> eid_parent (ex_id e) \<in> set D \<Longrightarrow> visited_record c plan es (set (D @ map fst (wk_stack w))) w e"
      "ancestors_first (wk_migrated w)"
    using rb by (simp_all add: rebuilt_def)
  have top: "moved_parent c plan es (wk_migrated w) (p, np)" using old(2) w by simp
  have "None \<in> set ((p # D) @ map fst (wk_stack w'))" using family_step_reach [OF step] old(1) by blast
  then show ?thesis
    unfolding rebuilt_def
    using ok family_step_stack [OF src(2) step old(2)] family_step_migrated [OF step p old(3)]
      family_step_records [OF step _ _ old(4)] family_step_order [OF step top old(5)] by blast
qed

lemma rebuilt_start: "rebuilt c plan es [] walk_start"
  by (simp add: rebuilt_def walk_start_def moved_parent_def memo_ok_def scopes_ok_def ancestors_first_def List.map_filter_def)

section \<open>The whole session\<close>

lemma rebuilt_closed:
  assumes dist: "distinct (map ex_id es)" and children: "children_by_parent es = Inr children"
    and rb: "rebuilt c plan es D w" and empty: "wk_stack w = []"
  shows "x \<in> ex_id ` set es \<Longrightarrow> moved_id (converted c plan es) plan x \<noteq> None \<Longrightarrow> eid_parent x \<in> set D \<and> Some x \<in> set D"
proof (induction x rule: ancestry_induct)
  case (root x)
  then obtain e where e: "e \<in> set es" "x = ex_id e" by blast
  then have "eid_parent (ex_id e) \<in> set D" using root.hyps rb empty by (simp add: rebuilt_def)
  moreover then have "visited_record c plan es (set D) w e" using rb empty e(1) by (simp add: rebuilt_def)
  ultimately show ?case
    using root.prems(2) moved_execution_step(2) [OF dist e(1), of c plan] e(2)
    by (auto simp: visited_record_def)
next
  case (child x q)
  then obtain e where e: "e \<in> set es" "x = ex_id e" by blast
  have "q \<in> ex_id ` set es" using children_by_parent_lookup(2) [OF children e(1)] child.hyps e(2) by simp
  moreover have "moved_id (converted c plan es) plan q \<noteq> None"
    using child.prems(2) child.hyps moved_execution_step [OF dist e(1), of c plan] e(2) by (auto split: option.splits)
  ultimately have "eid_parent (ex_id e) \<in> set D" using child.IH child.hyps e(2) by simp
  moreover then have "visited_record c plan es (set D) w e" using rb empty e(1) by (simp add: rebuilt_def)
  ultimately show ?case
    using child.prems(2) moved_execution_step(2) [OF dist e(1), of c plan] e(2)
    by (auto simp: visited_record_def)
qed

lemma rebuild_run:
  assumes src: "digests_faithful (ss_executions s)" "distinct (map ex_id (ss_executions s))"
    and run: "rebuild c plan s = Inr out"
  obtains children D w where "children_by_parent (ss_executions s) = Inr children"
    "rebuilt c plan (ss_executions s) D w" "wk_stack w = []" "out = wk_migrated w"
proof -
  let ?es = "ss_executions s"
  obtain children where children: "children_by_parent ?es = Inr children"
    using run by (auto simp: rebuild_def result_simps)
  obtain w where w: "rebuild_walk (Suc (length ?es)) c plan children walk_start = Some (Inr w)" "out = wk_migrated w"
    using run children by (auto simp: rebuild_def result_simps split: option.splits)
  have "\<exists>r. rebuild_walk (Suc (length ?es)) c plan children walk_start = Some r \<and>
      (\<forall>w'. r = Inr w' \<longrightarrow> (\<exists>D'. frontier ?es D' w' \<and> rebuilt c plan ?es D' w' \<and> wk_stack w' = []))"
    by (rule rebuild_walk_run [where Q = "rebuilt c plan ?es", OF src(2) children rebuilt_step [OF src children] frontier_start rebuilt_start]) simp_all
  then show thesis using w children that by auto
qed

lemma moved_execution_outcome:
  assumes src: "distinct (map ex_id es)" and children: "children_by_parent es = Inr children"
    and rb: "rebuilt c plan es D w" and empty: "wk_stack w = []" and e: "e \<in> set es"
  shows "case moved_execution c plan es e of
      None \<Rightarrow> \<exists>x \<in> set (ancestry (ex_id e)). dropped plan x
    | Some f \<Rightarrow> (\<forall>x \<in> set (ancestry (ex_id e)). \<not> dropped plan x) \<and> eid_parent (ex_id e) \<in> set D"
proof -
  have "x \<in> ex_id ` set es \<Longrightarrow>
      moved_id (converted c plan es) plan x = None \<longleftrightarrow> (\<exists>y \<in> set (ancestry x). dropped plan y)" for x
  proof (induction x rule: ancestry_induct)
    case (root x)
    then obtain e where e: "e \<in> set es" "x = ex_id e" by blast
    have "visited_record c plan es (set D) w e" using root.hyps e rb empty by (simp add: rebuilt_def)
    then show ?case
      using root.hyps e moved_execution_step(2) [OF src e(1), of c plan] moved_id_unfold [of "converted c plan es" plan x]
      by (auto simp: ancestry_root visited_record_def split: option.splits if_splits)
  next
    case (child x q)
    then obtain e where e: "e \<in> set es" "x = ex_id e" by blast
    have q: "q \<in> ex_id ` set es" using children_by_parent_lookup(2) [OF children e(1)] child.hyps e(2) by simp
    show ?case
    proof (cases "moved_id (converted c plan es) plan q")
      case None
      then show ?thesis
        using child.IH [OF q] child.hyps moved_id_unfold [of "converted c plan es" plan x]
        by (auto simp: ancestry_parent split: option.splits)
    next
      case (Some n)
      then have "Some q \<in> set D" using rebuilt_closed [OF src children rb empty q] by simp
      then have "visited_record c plan es (set D) w e" using child.hyps e rb empty by (simp add: rebuilt_def)
      then show ?thesis
        using child.IH [OF q] child.hyps e Some moved_execution_step(2) [OF src e(1), of c plan]
          moved_id_unfold [of "converted c plan es" plan x]
        by (auto simp: ancestry_parent visited_record_def split: option.splits if_splits)
    qed
  qed
  then have "moved_id (converted c plan es) plan (ex_id e) = None \<longleftrightarrow> (\<exists>y \<in> set (ancestry (ex_id e)). dropped plan y)"
    using e by blast
  then show ?thesis
    using e moved_execution_step(2) [OF src e, of c plan] rebuilt_closed [OF src children rb empty, of "ex_id e"]
    by (auto split: option.splits)
qed

lemma moved_distinct:
  assumes src: "distinct (map ex_id es)" and children: "children_by_parent es = Inr children"
    and rb: "rebuilt c plan es D w" and empty: "wk_stack w = []"
  shows "distinct (map ex_id (List.map_filter (moved_execution c plan es) es))"
proof -
  have scope: "map_of (wk_scopes w) (scope_of (ex_id f)) = Some {scope_of (ex_id e)}"
    if "e \<in> set es" "moved_execution c plan es e = Some f" for e f
    using moved_execution_outcome [OF src children rb empty that(1)] that rb empty
    by (auto simp: rebuilt_def visited_record_def)
  have seq: "eid_sequence (ex_id f) = eid_sequence (ex_id e)"
    if e: "e \<in> set es" "moved_execution c plan es e = Some f" for e f
  proof -
    obtain np where "place c plan np e = Some f"
      using moved_execution_step(1) [OF src e(1), of c plan] e(2) by (auto split: option.splits)
    then show ?thesis by (rule place_simps(3))
  qed
  have "ex_id e = ex_id e'"
    if "e \<in> set es" "moved_execution c plan es e = Some f" "e' \<in> set es" "moved_execution c plan es e' = Some f'"
      "ex_id f = ex_id f'" for e f e' f'
    using scope [OF that(1,2)] scope [OF that(3,4)] seq [OF that(1,2)] seq [OF that(3,4)] that(5)
    by (intro scope_sequence_determine) auto
  then have same: "ex_id e = ex_id e'"
    if "e \<in> set es" "moved_execution c plan es e \<noteq> None" "e' \<in> set es" "moved_execution c plan es e' \<noteq> None"
      "ex_id (the (moved_execution c plan es e)) = ex_id (the (moved_execution c plan es e'))" for e e'
    using that by (metis option.collapse)
  let ?kept = "filter (\<lambda>e. moved_execution c plan es e \<noteq> None) es"
  have "inj_on ex_id (set es)" "distinct es" using src by (simp_all add: distinct_map)
  then have "inj_on (\<lambda>e. ex_id (the (moved_execution c plan es e))) (set ?kept)"
    using same by (intro inj_onI) (metis (mono_tags, lifting) inj_onD mem_Collect_eq set_filter)
  then have "distinct (map (\<lambda>e. ex_id (the (moved_execution c plan es e))) ?kept)"
    using \<open>distinct es\<close> by (simp add: distinct_map)
  then show ?thesis by (simp add: List.map_filter_def comp_def)
qed

lemma walk_total:
  assumes "distinct (map ex_id es)"
  shows "(case children_by_parent es of Inl x \<Rightarrow> x = MigrationError
     | Inr children \<Rightarrow> rebuild_walk (Suc (length es)) c plan children walk_start \<noteq> None)"
  using walk_returns [OF assms] group_children_run [where known = "ex_id ` set es" and children = "[]" and es = es and p = None]
  by (auto simp: children_by_parent_def split: sum.splits)

lemma moved_domains: "moved_id args plan x = Some n \<Longrightarrow> domains_in n = domains_in x"
  by (induction args plan x arbitrary: n rule: moved_id.induct)
     (auto split: if_splits option.splits)

lemma moved_execution_id:
  "moved_execution c plan es e = Some f \<Longrightarrow> moved_id (converted c plan es) plan (ex_id e) = Some (ex_id f)"
  by (auto simp: moved_execution_def split: option.splits)

lemma mk_stored_session_iff:
  "mk_stored_session v es = Inr s \<longleftrightarrow>
     s = \<lparr>ss_versions = v, ss_executions = es\<rparr> \<and> distinct (map ex_id es) \<and>
     (\<forall>e \<in> set es. domains_in (ex_id e) \<subseteq> fst ` set (dvm_versions v))"
  by (auto simp: mk_stored_session_def require_unique_iff)

lemma rebuild_result:
  assumes "digests_faithful (ss_executions s)" "distinct (map ex_id (ss_executions s))"
    and "rebuild canonicalize plan s = Inr out"
  shows "mset out = mset (List.map_filter (moved_execution canonicalize plan (ss_executions s)) (ss_executions s)) \<and>
    (\<forall>e \<in> set (ss_executions s). moved_execution canonicalize plan (ss_executions s) e = None \<longleftrightarrow>
       (\<exists>x \<in> set (ancestry (ex_id e)). dropped plan x)) \<and>
    distinct (map ex_id out) \<and> ancestors_first out"
proof -
  let ?es = "ss_executions s"
  let ?m = "moved_execution canonicalize plan ?es"
  obtain children D w where children: "children_by_parent ?es = Inr children"
    and w: "rebuilt canonicalize plan ?es D w" "wk_stack w = []" "out = wk_migrated w"
    using rebuild_run [OF assms] by blast
  note outcome = moved_execution_outcome [OF assms(2) children w(1,2)]
  have "List.map_filter ?m (filter (\<lambda>e. eid_parent (ex_id e) \<in> set D) ?es) = List.map_filter ?m ?es"
  proof -
    have "filter (\<lambda>e. ?m e \<noteq> None) (filter (\<lambda>e. eid_parent (ex_id e) \<in> set D) ?es) = filter (\<lambda>e. ?m e \<noteq> None) ?es"
      using outcome by (fastforce simp: filter_filter intro: filter_cong split: option.splits)
    then show ?thesis by (simp add: List.map_filter_def)
  qed
  then have out: "mset out = mset (List.map_filter ?m ?es)" using w by (simp add: rebuilt_def)
  have "mset (map ex_id out) = mset (map ex_id (List.map_filter ?m ?es))" using out by simp
  then have "distinct (map ex_id out)"
    using moved_distinct [OF assms(2) children w(1,2)] mset_eq_imp_distinct_iff by blast
  moreover have "?m e = None \<longleftrightarrow> (\<exists>x \<in> set (ancestry (ex_id e)). dropped plan x)" if "e \<in> set ?es" for e
    using outcome [OF that] by (auto split: option.splits)
  ultimately show ?thesis using out w by (simp add: rebuilt_def)
qed

lemma rebuild_covered:
  assumes "digests_faithful (ss_executions s)" "distinct (map ex_id (ss_executions s))"
    and "rebuild canonicalize plan s = Inr out" and "f \<in> set out"
  shows "\<exists>e \<in> set (ss_executions s). moved_execution canonicalize plan (ss_executions s) e = Some f \<and>
    domains_in (ex_id f) = domains_in (ex_id e)"
proof -
  have "set out = set (List.map_filter (moved_execution canonicalize plan (ss_executions s)) (ss_executions s))"
    using rebuild_result [OF assms(1-3)] by (metis set_mset_mset)
  then obtain e where "e \<in> set (ss_executions s)" "moved_execution canonicalize plan (ss_executions s) e = Some f"
    using assms(4) by (auto simp: List.map_filter_def)
  then show ?thesis using moved_domains [OF moved_execution_id] by blast
qed

end
