(* ===== verification/Transitions.thy ===== *)
theory Transitions
  imports Migration
begin

text \<open>
  How the pieces of \<open>migration/_migrator.py\<close> fit: one runner's session always passes the checks of
  \<open>StoredSession\<close>, the versions a migration declares form no cycle, so the search of \<open>transition\<close>
  ends and \<open>migrate\<close> follows the declared path, and a record no rule names is left as it is.
\<close>

section \<open>One runner\<close>

definition sound_session :: "stored_session \<Rightarrow> bool" where
  "sound_session s \<longleftrightarrow> valid_dvm (ss_versions s) \<and>
     mk_stored_session (ss_versions s) (ss_executions s) = Inr s"

lemma sound_session_distinct: "sound_session s \<Longrightarrow> distinct (map ex_id (ss_executions s))"
  by (simp add: sound_session_def mk_stored_session_iff)

definition replaced_versions :: "'v transition \<Rightarrow> domain_version_map \<Rightarrow> domain_version_map" where
  "replaced_versions plan m = DomainVersionMap (AList.update (tr_domain plan) (tr_target plan) (dvm_versions m))"

lemma runner_run:
  assumes "sound_session s" "digests_faithful (ss_executions s)"
  shows "runner_migrate c plan s =
    (if dvm_lookup (ss_versions s) (tr_domain plan) \<noteq> Some (tr_source plan) then Inl MigrationError
     else bind_r (rebuild c plan s) (\<lambda>es.
       Inr \<lparr>ss_versions = replaced_versions plan (ss_versions s), ss_executions = es\<rparr>))"
proof (cases "dvm_lookup (ss_versions s) (tr_domain plan) = Some (tr_source plan)")
  case True
  have "dvm_replacing (ss_versions s) [(tr_domain plan, tr_target plan)] = Inr (replaced_versions plan (ss_versions s))"
    using assms(1) by (simp add: dvm_replacing_total sound_session_def replaced_versions_def)
  moreover have "mk_stored_session (replaced_versions plan (ss_versions s)) es =
      Inr \<lparr>ss_versions = replaced_versions plan (ss_versions s), ss_executions = es\<rparr>"
    if r: "rebuild c plan s = Inr es" for es
  proof -
    note dist = sound_session_distinct [OF assms(1)]
    have "domains_in (ex_id f) \<subseteq> fst ` set (dvm_versions (replaced_versions plan (ss_versions s)))"
      if f: "f \<in> set es" for f
    proof -
      obtain e where "e \<in> set (ss_executions s)" "domains_in (ex_id f) = domains_in (ex_id e)"
        using rebuild_covered [OF assms(2) dist r f] by blast
      then show ?thesis
        using assms(1) by (auto simp: sound_session_def mk_stored_session_iff replaced_versions_def AList.dom_update)
    qed
    then show ?thesis using rebuild_result [OF assms(2) dist r] by (simp add: mk_stored_session_iff)
  qed
  ultimately show ?thesis
    using True by (cases "rebuild c plan s") (simp_all add: runner_migrate_def require_source_versions_def)
next
  case False
  then show ?thesis
    by (auto simp: runner_migrate_def require_source_versions_def split: option.splits)
qed

lemma runner_sound:
  assumes "sound_session s" "runner_migrate c plan s = Inr s'"
  shows "sound_session s'" "tr_source plan = the (dvm_lookup (ss_versions s) (tr_domain plan))"
    "dvm_lookup (ss_versions s') = (dvm_lookup (ss_versions s))(tr_domain plan \<mapsto> tr_target plan)"
proof -
  have v: "dvm_replacing (ss_versions s) [(tr_domain plan, tr_target plan)] = Inr (replaced_versions plan (ss_versions s))"
    using assms(1) by (simp add: dvm_replacing_total sound_session_def replaced_versions_def)
  then have r: "mk_stored_session (replaced_versions plan (ss_versions s)) (ss_executions s') = Inr s'"
    "dvm_lookup (ss_versions s) (tr_domain plan) = Some (tr_source plan)"
    using assms(2)
    by (auto simp: runner_migrate_def require_source_versions_def result_simps mk_stored_session_iff split: option.splits if_splits)
  moreover have "valid_dvm (replaced_versions plan (ss_versions s))"
    using assms(1) by (simp add: sound_session_def valid_dvm_def replaced_versions_def)
  moreover have "s' = \<lparr>ss_versions = replaced_versions plan (ss_versions s), ss_executions = ss_executions s'\<rparr>"
    using r(1) unfolding mk_stored_session_iff by blast
  then have versions: "ss_versions s' = replaced_versions plan (ss_versions s)" by (cases s') simp
  ultimately show "sound_session s'" using r(1) by (simp add: sound_session_def)
  show "tr_source plan = the (dvm_lookup (ss_versions s) (tr_domain plan))" using r(2) by simp
  show "dvm_lookup (ss_versions s') = (dvm_lookup (ss_versions s))(tr_domain plan \<mapsto> tr_target plan)"
    by (simp add: versions replaced_versions_def dvm_lookup_def fun_eq_iff)
qed

section \<open>Declaring transitions\<close>

text \<open>The migrations a program can declare: every call that does not raise.\<close>

inductive declared :: "'v domain_migration \<Rightarrow> bool" where
  start: "declared (mk_domain_migration d v c)"
| transition: "declared m \<Longrightarrow> dm_transition source target m = Some (Inr (t, m')) \<Longrightarrow> declared m'"
| remap: "declared m \<Longrightarrow> on_transition v (transition_remap a b f) m = Inr m' \<Longrightarrow> declared m'"
| drop_shape: "declared m \<Longrightarrow> on_transition v (transition_drop a) m = Inr m' \<Longrightarrow> declared m'"

definition version_edges :: "(domain_version, 'v transition) dict \<Rightarrow> (domain_version \<times> domain_version) set" where
  "version_edges ts = {(v, tr_target t) | v t. map_of ts v = Some t}"

lemma finite_version_edges: "finite (version_edges ts)"
proof -
  have "version_edges ts \<subseteq> (\<lambda>(v, t). (v, tr_target t)) ` set ts"
    by (auto simp: version_edges_def dest!: map_of_SomeD)
  then show ?thesis by (rule finite_subset) simp
qed

lemma require_acyclic_run:
  assumes "acyclic (version_edges ts)"
  shows "require_acyclic ts source version =
    Some (if (version, source) \<in> (version_edges ts)\<^sup>* then Inl MigrationError else Inr ())"
proof -
  have "wf ((version_edges ts)\<inverse>)" using finite_version_edges assms by (rule finite_acyclic_wf_converse)
  then show ?thesis
  proof (induction version rule: wf_induct_rule)
    case (less version)
    show ?case
    proof (cases "map_of ts version")
      case None
      then have "(version, source) \<in> (version_edges ts)\<^sup>* \<longleftrightarrow> version = source"
        by (auto simp: version_edges_def elim: converse_rtranclE)
      then show ?thesis using None by (subst require_acyclic.simps) simp
    next
      case (Some t)
      then have edge: "(version, v) \<in> version_edges ts \<longleftrightarrow> v = tr_target t" for v
        by (auto simp: version_edges_def)
      then have "(version, source) \<in> (version_edges ts)\<^sup>* \<longleftrightarrow>
          version = source \<or> (tr_target t, source) \<in> (version_edges ts)\<^sup>*"
        by (metis converse_rtranclE converse_rtrancl_into_rtrancl rtrancl.rtrancl_refl)
      then show ?thesis using Some less [of "tr_target t"] edge by (subst require_acyclic.simps) auto
    qed
  qed
qed

lemma version_edges_new:
  "map_of ts v = None \<Longrightarrow> version_edges (AList.update v t ts) = insert (v, tr_target t) (version_edges ts)"
  by (auto simp: version_edges_def)

lemma version_edges_same:
  "map_of ts v = Some t \<Longrightarrow> tr_target t' = tr_target t \<Longrightarrow> version_edges (AList.update v t' ts) = version_edges ts"
  by (auto simp: version_edges_def)

text \<open>Every transition is filed under the version it leaves, and belongs to the domain.\<close>

definition labelled :: "'v domain_migration \<Rightarrow> bool" where
  "labelled m \<longleftrightarrow>
     (\<forall>u t. map_of (dm_transitions m) u = Some t \<longrightarrow> tr_source t = u \<and> tr_domain t = dm_domain m)"

lemma on_transition_edges:
  assumes "on_transition v f m = Inr m'" "\<And>t t'. f t = Inr t' \<Longrightarrow>
     tr_target t' = tr_target t \<and> tr_source t' = tr_source t \<and> tr_domain t' = tr_domain t"
  shows "version_edges (dm_transitions m') = version_edges (dm_transitions m) \<and>
    (labelled m \<longrightarrow> labelled m')"
proof (cases "map_of (dm_transitions m) v")
  case None
  then show ?thesis using assms(1) by (simp add: on_transition_def)
next
  case (Some t)
  then obtain t' where t': "f t = Inr t'" "m' = m\<lparr>dm_transitions := AList.update v t' (dm_transitions m)\<rparr>"
    using assms(1) by (auto simp: on_transition_def result_simps)
  then show ?thesis using assms(2) [OF t'(1)] Some version_edges_same [OF Some, of t']
    by (auto simp: labelled_def)
qed

lemma transition_rule_fields:
  "transition_remap a b f t = Inr t' \<Longrightarrow> tr_target t' = tr_target t \<and> tr_source t' = tr_source t \<and> tr_domain t' = tr_domain t"
  "transition_drop a t = Inr t' \<Longrightarrow> tr_target t' = tr_target t \<and> tr_source t' = tr_source t \<and> tr_domain t' = tr_domain t"
  by (auto simp: transition_remap_def transition_drop_def transition_register_def split: if_splits)

lemma declared_sound:
  "declared m \<Longrightarrow> acyclic (version_edges (dm_transitions m)) \<and> labelled m"
proof (induction rule: declared.induct)
  case (start d v c)
  then show ?case by (simp add: mk_domain_migration_def version_edges_def acyclic_def labelled_def)
next
  case (transition m source target t m')
  then obtain s v where sv: "version_of source = Inr s" "version_of target = Inr v" "s \<noteq> v"
      "map_of (dm_transitions m) s = None" "require_acyclic (dm_transitions m) s v = Some (Inr ())"
      "t = \<lparr>tr_domain = dm_domain m, tr_source = s, tr_target = v, tr_rules = []\<rparr>"
      "m' = m\<lparr>dm_transitions := AList.update s t (dm_transitions m)\<rparr>"
    by (auto simp: dm_transition_def Let_def split: sum.splits if_splits option.splits)
  have "(v, s) \<notin> (version_edges (dm_transitions m))\<^sup>*"
    using sv(5) transition.IH by (auto simp: require_acyclic_run split: if_splits)
  then show ?case
    using transition.IH sv(4,6,7) version_edges_new [OF sv(4), of t] by (simp add: acyclic_insert labelled_def)
next
  case (remap m v a b f m')
  then show ?case using on_transition_edges [OF remap.hyps(2) transition_rule_fields(1)] by simp
next
  case (drop_shape m v a m')
  then show ?case using on_transition_edges [OF drop_shape.hyps(2) transition_rule_fields(2)] by simp
qed

section \<open>The path\<close>

inductive version_path ::
    "(domain_version, 'v transition) dict \<Rightarrow> domain_version \<Rightarrow> domain_version \<Rightarrow> 'v transition list \<Rightarrow> bool" where
  arrived: "version_path ts v v []"
| step: "u \<noteq> v \<Longrightarrow> map_of ts u = Some t \<Longrightarrow> version_path ts v (tr_target t) ps \<Longrightarrow> version_path ts v u (t # ps)"

fun run_plans ::
    "((arg_key \<times> 'v) list \<Rightarrow> exn + canonical_arguments) \<Rightarrow> 'v transition list \<Rightarrow> stored_session
       \<Rightarrow> exn + stored_session" where
  "run_plans c [] s = Inr s"
| "run_plans c (p # ps) s = bind_r (runner_migrate c p s) (run_plans c ps)"

lemma migrate_loop_path:
  assumes "acyclic (version_edges (dm_transitions m))"
  shows "version_path (dm_transitions m) (dm_target m) version ps \<Longrightarrow>
    \<forall>u \<in> visited. (u, version) \<in> (version_edges (dm_transitions m))\<^sup>+ \<Longrightarrow>
    migrate_loop m visited version s = run_plans (dm_canonicalizer m) ps s"
proof (induction ps arbitrary: version visited s)
  case Nil
  then show ?case by (auto simp: migrate_loop.simps elim: version_path.cases)
next
  case (Cons t ps)
  have p: "version \<noteq> dm_target m" "map_of (dm_transitions m) version = Some t"
      "version_path (dm_transitions m) (dm_target m) (tr_target t) ps"
    using Cons.prems(1) by (auto elim: version_path.cases)
  have fresh: "version \<notin> visited" using Cons.prems(2) assms by (auto simp: acyclic_def)
  have edge: "(version, tr_target t) \<in> version_edges (dm_transitions m)" using p(2) by (auto simp: version_edges_def)
  then have "\<forall>u \<in> insert version visited. (u, tr_target t) \<in> (version_edges (dm_transitions m))\<^sup>+"
    using Cons.prems(2) by (auto intro: trancl_into_trancl)
  then have "migrate_loop m (insert version visited) (tr_target t) = run_plans (dm_canonicalizer m) ps"
    using Cons.IH [OF p(3)] by blast
  then show ?case using p fresh by (subst migrate_loop.simps) simp
qed

lemma version_path_domains:
  "version_path ts v u ps \<Longrightarrow> p \<in> set ps \<Longrightarrow> \<exists>w. map_of ts w = Some p"
  by (induction rule: version_path.induct) auto

lemma run_plans_sound:
  "run_plans c ps s = Inr s' \<Longrightarrow> sound_session s \<Longrightarrow> \<forall>p \<in> set ps. tr_domain p = d \<Longrightarrow>
     sound_session s' \<and> (\<forall>d'. d' \<noteq> d \<longrightarrow> dvm_lookup (ss_versions s') d' = dvm_lookup (ss_versions s) d')"
proof (induction ps arbitrary: s)
  case (Cons p ps)
  then obtain s1 where s1: "runner_migrate c p s = Inr s1" "run_plans c ps s1 = Inr s'" by (auto simp: result_simps)
  then show ?case using Cons.IH [OF s1(2) runner_sound(1) [OF Cons.prems(2) s1(1)]] Cons.prems runner_sound(3) [OF Cons.prems(2) s1(1)]
    by simp
qed simp

lemma run_plans_arrives:
  "version_path ts v u ps \<Longrightarrow> run_plans c ps s = Inr s' \<Longrightarrow> sound_session s \<Longrightarrow>
     \<forall>w t. map_of ts w = Some t \<longrightarrow> tr_domain t = d \<Longrightarrow>
     dvm_lookup (ss_versions s) d = Some u \<Longrightarrow> dvm_lookup (ss_versions s') d = Some v"
proof (induction arbitrary: s rule: version_path.induct)
  case (step u v ts t ps)
  then obtain s1 where s1: "runner_migrate c t s = Inr s1" "run_plans c ps s1 = Inr s'" by (auto simp: result_simps)
  have "tr_domain t = d" using step.hyps(2) step.prems(3) by blast
  then show ?case
    using step.IH [OF s1(2) runner_sound(1) [OF step.prems(2) s1(1)] step.prems(3)] runner_sound(3) [OF step.prems(2) s1(1)]
    by simp
qed simp

lemma migrate_loop_success:
  "migrate_loop m visited version s = Inr s' \<Longrightarrow>
     \<exists>ps. version_path (dm_transitions m) (dm_target m) version ps \<and> run_plans (dm_canonicalizer m) ps s = Inr s'"
proof (induction m visited version s rule: migrate_loop.induct)
  case (1 m visited version s)
  show ?case
  proof (cases "version = dm_target m")
    case True
    then have "s' = s" using "1.prems" by (subst (asm) migrate_loop.simps) simp
    then show ?thesis using True by (intro exI [of _ "[]"]) (simp add: version_path.arrived)
  next
    case False
    then obtain t s1 where t: "version \<notin> visited" "map_of (dm_transitions m) version = Some t"
        "runner_migrate (dm_canonicalizer m) t s = Inr s1"
        "migrate_loop m (insert version visited) (tr_target t) s1 = Inr s'"
      using "1.prems" by (subst (asm) migrate_loop.simps) (auto simp: result_simps split: if_splits option.splits)
    then obtain ps where "version_path (dm_transitions m) (dm_target m) (tr_target t) ps"
        "run_plans (dm_canonicalizer m) ps s1 = Inr s'"
      using "1.IH" [OF False t] by blast
    then show ?thesis using False t by (intro exI [of _ "t # ps"]) (simp add: version_path.step)
  qed
qed

lemma domain_migrate_arrives:
  assumes "declared m" "sound_session s" "domain_migrate m s = Inr s'"
  shows "sound_session s' \<and> dvm_lookup (ss_versions s') (dm_domain m) = Some (dm_target m)"
proof -
  obtain u where u: "dvm_lookup (ss_versions s) (dm_domain m) = Some u" "migrate_loop m {} u s = Inr s'"
    using assms(3) by (auto simp: domain_migrate_def split: option.splits)
  obtain ps where ps: "version_path (dm_transitions m) (dm_target m) u ps" "run_plans (dm_canonicalizer m) ps s = Inr s'"
    using migrate_loop_success [OF u(2)] by blast
  have ok: "labelled m" using declared_sound [OF assms(1)] by auto
  have doms: "\<forall>p \<in> set ps. tr_domain p = dm_domain m"
    using version_path_domains [OF ps(1)] ok by (auto simp: labelled_def)
  show ?thesis
    using run_plans_sound [OF ps(2) assms(2) doms] run_plans_arrives [OF ps assms(2) _ u(1)] ok
    by (auto simp: labelled_def)
qed

lemma domain_migrate_done:
  "dvm_lookup (ss_versions s) (dm_domain m) = Some (dm_target m) \<Longrightarrow> domain_migrate m s = Inr s"
  by (simp add: domain_migrate_def migrate_loop.simps)

section \<open>Records no rule names\<close>

lemma unruled_kept:
  assumes "digests_faithful es" "distinct (map ex_id es)" "children_by_parent es = Inr children"
  shows "x \<in> ex_id ` set es \<Longrightarrow> \<forall>y \<in> set (ancestry x). rule_for plan (eid_domain y) (eid_name y) = None \<Longrightarrow>
    moved_id (converted c plan es) plan x = Some x"
proof (induction x rule: ancestry_induct)
  case (root x)
  then obtain e where e: "e \<in> set es" "x = ex_id e" by blast
  have r: "rule_for plan (eid_domain x) (eid_name x) = None" using root.prems(2) by (simp add: ancestry_root root.hyps)
  have "converted c plan es x = Some (ex_arguments e)"
    using converted_record [OF assms(2) e(1), of c plan] r e(2) by (simp add: record_arguments_def migrated_arguments_def)
  moreover have "ca_digest (ex_arguments e) = eid_digest x" using assms(1) e by (auto simp: digests_faithful_def)
  ultimately show ?case
    using r root.hyps by (cases x) (simp add: dropped_def target_name_def)
next
  case (child x q)
  then obtain e where e: "e \<in> set es" "x = ex_id e" by blast
  have r: "rule_for plan (eid_domain x) (eid_name x) = None" using child.prems(2) by simp
  have "converted c plan es x = Some (ex_arguments e)"
    using converted_record [OF assms(2) e(1), of c plan] r e(2) by (simp add: record_arguments_def migrated_arguments_def)
  moreover have "ca_digest (ex_arguments e) = eid_digest x" using assms(1) e by (auto simp: digests_faithful_def)
  moreover have "moved_id (converted c plan es) plan q = Some q"
    using child children_by_parent_lookup(2) [OF assms(3) e(1)] e(2) by (simp add: ancestry_parent)
  ultimately show ?case
    using r child.hyps by (cases x) (simp add: dropped_def target_name_def)
qed

lemma unruled_execution_kept:
  assumes "digests_faithful es" "distinct (map ex_id es)" "children_by_parent es = Inr children" "e \<in> set es"
    and "\<forall>x \<in> set (ancestry (ex_id e)). rule_for plan (eid_domain x) (eid_name x) = None"
  shows "moved_execution c plan es e = Some e"
proof -
  have "moved_id (converted c plan es) plan (ex_id e) = Some (ex_id e)"
    using unruled_kept [OF assms(1-3) _ assms(5)] assms(4) by simp
  moreover have "rule_for plan (eid_domain (ex_id e)) (eid_name (ex_id e)) = None" using assms(5) by simp
  then have "converted c plan es (ex_id e) = Some (ex_arguments e)"
    using converted_record [OF assms(2,4), of c plan] by (simp add: record_arguments_def migrated_arguments_def)
  ultimately show ?thesis by (simp add: moved_execution_def)
qed

section \<open>Properties\<close>

text \<open>
  A session to migrate: a completed root \<open>f\<close> and below it a started \<open>g\<close>, and a root \<open>h\<close>. The
  transition renames \<open>f\<close> to \<open>k\<close> and drops \<open>h\<close>.
\<close>

definition sample_under :: execution where
  "sample_under = \<lparr>ex_id = ExecutionId (Some sample_eid) (DomainId [100]) (ExecutionName [103]) 0 (ca_digest sample_ca),
     ex_status = STARTED, ex_arguments = sample_ca, ex_result = None, ex_metadata = []\<rparr>"

definition sample_gone :: execution where
  "sample_gone = \<lparr>ex_id = ExecutionId None (DomainId [100]) (ExecutionName [104]) 0 (ca_digest sample_ca),
     ex_status = STARTED, ex_arguments = sample_ca, ex_result = None, ex_metadata = []\<rparr>"

definition sample_versions :: domain_version_map where
  "sample_versions = DomainVersionMap [(DomainId [100], DomainVersion [49]), (DomainId [101], DomainVersion [57])]"

definition sample_stored :: stored_session where
  "sample_stored = \<lparr>ss_versions = sample_versions, ss_executions = [sample_execution, sample_under, sample_gone]\<rparr>"

definition sample_shape :: "nat \<Rightarrow> execution_shape" where
  "sample_shape n = \<lparr>shape_name = ExecutionName [n], shape_arguments = {}\<rparr>"

definition sample_transition :: "unit transition" where
  "sample_transition = \<lparr>tr_domain = DomainId [100], tr_source = DomainVersion [49], tr_target = DomainVersion [50],
     tr_rules = [(ExecutionName [102], Remap (sample_shape 102) (sample_shape 107) None),
                 (ExecutionName [104], Drop (sample_shape 104))]\<rparr>"

definition sample_refuse :: "(arg_key \<times> unit) list \<Rightarrow> exn + canonical_arguments" where
  "sample_refuse d = Inl ArgumentCanonicalizationError"

definition sample_renamed :: "execution list" where
  "sample_renamed =
     (let r = ExecutionId None (DomainId [100]) (ExecutionName [107]) 0 (ca_digest sample_ca)
      in [sample_execution\<lparr>ex_id := r\<rparr>,
          sample_under\<lparr>ex_id := ExecutionId (Some r) (DomainId [100]) (ExecutionName [103]) 0 (ca_digest sample_ca)\<rparr>])"

lemma sample_decode: "ca_decode sample_ca = Inr []"
  unfolding sample_ca_def by code_simp

lemma sample_stored_sound:
  "sound_session sample_stored" "digests_faithful (ss_executions sample_stored)"
  by (auto simp: sound_session_def mk_stored_session_iff sample_stored_def sample_versions_def valid_dvm_def
      sample_execution_def sample_under_def sample_gone_def sample_eid_def digests_faithful_def)

lemma sample_rebuild: "rebuild sample_refuse sample_transition sample_stored = Inr sample_renamed"
  by (simp add: rebuild_def children_by_parent_def sample_stored_def sample_execution_def sample_under_def
      sample_gone_def sample_eid_def sample_transition_def walk_start_def rebuild_walk.simps rebuild_one_def
      rule_for_def scope_arguments_def migrated_arguments_def recorded_arguments_def sample_decode sample_shape_def
      children_of_def dict_setdefault_def require_one_source_scope_def scope_of_def target_name_def
      execution_post_init_def sample_renamed_def Let_def)

text \<open>
  C11: Rebuilding is exact. A successful walk over a session answers, in some order, precisely what
  translating each record from its own identity chain answers: every frame renamed by its rule and
  keyed by its converted arguments, status, ordinal, result and metadata as they were. A record is
  missing exactly when its own boundary or one of its ancestors' is dropped. No two rebuilt records
  share an identity, and each comes after its parent.
\<close>
theorem rebuild_exact:
  assumes "digests_faithful (ss_executions s)" "distinct (map ex_id (ss_executions s))"
    and "rebuild canonicalize plan s = Inr out"
  shows "mset out = mset (List.map_filter (moved_execution canonicalize plan (ss_executions s)) (ss_executions s)) \<and>
    (\<forall>e \<in> set (ss_executions s). moved_execution canonicalize plan (ss_executions s) e = None \<longleftrightarrow>
       (\<exists>x \<in> set (ancestry (ex_id e)). dropped plan x)) \<and>
    distinct (map ex_id out) \<and> ancestors_first out"
  using assms by (rule rebuild_result)

theorem rebuild_exact_witness:
  "mset sample_renamed = mset (List.map_filter (moved_execution sample_refuse sample_transition (ss_executions sample_stored))
     (ss_executions sample_stored)) \<and>
   moved_execution sample_refuse sample_transition (ss_executions sample_stored) sample_gone = None"
proof -
  have gone: "sample_gone \<in> set (ss_executions sample_stored)" "dropped sample_transition (ex_id sample_gone)"
    by (simp_all add: sample_stored_def dropped_def rule_for_def sample_transition_def sample_gone_def)
  show ?thesis
    using rebuild_exact [OF sample_stored_sound(2) sound_session_distinct [OF sample_stored_sound(1)] sample_rebuild]
      gone ancestry_self by blast
qed

text \<open>
  The walk ends. The loop over the explicit stack empties it within one round for every record
  and one more, whatever the rules, the conversions and the canonicalizer do; so \<open>rebuild\<close> never
  answers for want of fuel.
\<close>
theorem rebuild_walk_ends:
  assumes "distinct (map ex_id es)" "children_by_parent es = Inr children"
  shows "\<exists>r. rebuild_walk (Suc (length es)) canonicalize plan children walk_start = Some r"
  using assms by (rule walk_returns)

theorem rebuild_walk_ends_witness:
  "\<exists>children r. children_by_parent [sample_execution, sample_under] = Inr children \<and>
     rebuild_walk 3 sample_refuse sample_transition children walk_start = Some r"
proof -
  have d: "distinct (map ex_id [sample_execution, sample_under])"
    by (simp add: sample_execution_def sample_under_def sample_eid_def)
  have "\<exists>children. children_by_parent [sample_execution, sample_under] = Inr children"
    by (simp add: children_by_parent_def sample_execution_def sample_under_def sample_eid_def dict_setdefault_def Let_def)
  then show ?thesis using rebuild_walk_ends [OF d, of _ sample_refuse sample_transition] by (auto simp: numeral_3_eq_3)
qed

text \<open>
  A runner either refuses or keeps a session whole. On a session whose digests tell its
  arguments apart, a version other than the one the transition reads is refused; otherwise the answer
  is the rebuilt records under the new version of the one domain, and the checks of \<open>StoredSession\<close>
  (identities unique, a version for every domain of every chain) always pass.
\<close>
theorem runner_outcome:
  assumes "sound_session s" "digests_faithful (ss_executions s)"
  shows "runner_migrate canonicalize plan s =
    (if dvm_lookup (ss_versions s) (tr_domain plan) \<noteq> Some (tr_source plan) then Inl MigrationError
     else bind_r (rebuild canonicalize plan s) (\<lambda>es.
       Inr \<lparr>ss_versions = replaced_versions plan (ss_versions s), ss_executions = es\<rparr>))"
  using assms by (rule runner_run)

theorem runner_outcome_witness:
  "runner_migrate sample_refuse sample_transition sample_stored =
     Inr \<lparr>ss_versions = DomainVersionMap [(DomainId [100], DomainVersion [50]), (DomainId [101], DomainVersion [57])],
          ss_executions = sample_renamed\<rparr>"
  unfolding runner_outcome [OF sample_stored_sound] sample_rebuild
  by (simp add: sample_stored_def sample_versions_def sample_transition_def dvm_lookup_def replaced_versions_def)

text \<open>
  C17: Declaring ends, and exactly the cycles are refused. However a migration was declared, the
  search of \<open>transition\<close> for a cycle ends; for two versions it can read, the first of them with no
  transition yet, it refuses the new one exactly when the declared ones already lead back.
\<close>
theorem transition_search_ends:
  assumes "declared m"
  shows "\<exists>r. dm_transition source target m = Some r \<and>
    (\<forall>u v. version_of source = Inr u \<longrightarrow> version_of target = Inr v \<longrightarrow> map_of (dm_transitions m) u = None \<longrightarrow>
       (r = Inl MigrationError \<longleftrightarrow> (v, u) \<in> (version_edges (dm_transitions m))\<^sup>*))"
proof -
  have "acyclic (version_edges (dm_transitions m))" using declared_sound [OF assms] ..
  note run = require_acyclic_run [OF this]
  show ?thesis
  proof (cases "version_of source"; cases "version_of target")
    fix u v assume "version_of source = Inr u" "version_of target = Inr v"
    then show ?thesis
      by (auto simp: dm_transition_def run Let_def split: if_splits)
  qed (auto simp: dm_transition_def)
qed

definition sample_declared :: "unit domain_migration" where
  "sample_declared = \<lparr>dm_domain = DomainId [100], dm_target = DomainVersion [50], dm_canonicalizer = sample_refuse,
     dm_transitions = [(DomainVersion [49], sample_transition)]\<rparr>"

lemma sample_declared: "declared sample_declared"
proof -
  let ?m0 = "mk_domain_migration (DomainId [100]) (DomainVersion [50]) sample_refuse"
  let ?t0 = "sample_transition\<lparr>tr_rules := []\<rparr>"
  let ?t1 = "sample_transition\<lparr>tr_rules := [(ExecutionName [102], Remap (sample_shape 102) (sample_shape 107) None)]\<rparr>"
  let ?m1 = "sample_declared\<lparr>dm_transitions := [(DomainVersion [49], ?t0)]\<rparr>"
  let ?m2 = "sample_declared\<lparr>dm_transitions := [(DomainVersion [49], ?t1)]\<rparr>"
  have "dm_transition (Inr [49]) (Inr [50]) ?m0 = Some (Inr (?t0, ?m1))"
    by (simp add: dm_transition_def version_of_def mk_domain_version_def mk_domain_migration_def
        require_acyclic.simps sample_declared_def sample_transition_def Let_def)
  then have "declared ?m1" by (rule declared.transition [OF declared.start])
  moreover have "on_transition (DomainVersion [49]) (transition_remap (sample_shape 102) (sample_shape 107) None) ?m1 = Inr ?m2"
    by (simp add: on_transition_def transition_remap_def transition_register_def sample_declared_def
        sample_transition_def sample_shape_def)
  ultimately have "declared ?m2" by (rule declared.remap)
  moreover have "on_transition (DomainVersion [49]) (transition_drop (sample_shape 104)) ?m2 = Inr sample_declared"
    by (simp add: on_transition_def transition_drop_def transition_register_def sample_declared_def
        sample_transition_def sample_shape_def)
  ultimately show ?thesis by (rule declared.drop_shape)
qed

theorem transition_search_ends_witness:
  "\<exists>r. dm_transition (Inr [50]) (Inr [49]) sample_declared = Some r \<and> r = Inl MigrationError"
proof -
  have "(DomainVersion [49], DomainVersion [50]) \<in> version_edges (dm_transitions sample_declared)"
    by (simp add: version_edges_def sample_declared_def sample_transition_def)
  then have "(DomainVersion [49], DomainVersion [50]) \<in> (version_edges (dm_transitions sample_declared))\<^sup>*" by blast
  moreover have "version_of (Inr [50]) = Inr (DomainVersion [50])" "version_of (Inr [49]) = Inr (DomainVersion [49])"
    "map_of (dm_transitions sample_declared) (DomainVersion [50]) = None"
    by (simp_all add: version_of_def mk_domain_version_def sample_declared_def)
  ultimately show ?thesis
    using transition_search_ends [OF sample_declared, of "Inr [50]" "Inr [49]"] by blast
qed

text \<open>
  C14: A session follows the declared path. From the version it records, \<open>migrate\<close> is one runner per
  transition of the path to the domain's own version, in order, and never reports a cycle; when all
  succeed the domain is recorded at that version and every other domain as before.
\<close>
theorem migrate_follows_path:
  assumes "declared m" "sound_session s" "dvm_lookup (ss_versions s) (dm_domain m) = Some u"
    and "version_path (dm_transitions m) (dm_target m) u plans"
  shows "domain_migrate m s = run_plans (dm_canonicalizer m) plans s \<and>
    (\<forall>s'. domain_migrate m s = Inr s' \<longrightarrow>
       sound_session s' \<and> dvm_lookup (ss_versions s') (dm_domain m) = Some (dm_target m) \<and>
       (\<forall>d. d \<noteq> dm_domain m \<longrightarrow> dvm_lookup (ss_versions s') d = dvm_lookup (ss_versions s) d))"
proof -
  have ok: "acyclic (version_edges (dm_transitions m))" "labelled m" using declared_sound [OF assms(1)] by auto
  have run: "domain_migrate m s = run_plans (dm_canonicalizer m) plans s"
    using migrate_loop_path [OF ok(1) assms(4), of "{}" s] assms(3) by (simp add: domain_migrate_def)
  have doms: "\<forall>p \<in> set plans. tr_domain p = dm_domain m"
    using version_path_domains [OF assms(4)] ok(2) by (auto simp: labelled_def)
  show ?thesis
    using run run_plans_sound [OF _ assms(2) doms] run_plans_arrives [OF assms(4) _ assms(2) _ assms(3)] ok(2)
    by (auto simp: labelled_def)
qed

theorem migrate_follows_path_witness:
  "domain_migrate sample_declared sample_stored =
     Inr \<lparr>ss_versions = replaced_versions sample_transition sample_versions, ss_executions = sample_renamed\<rparr>"
proof -
  have u: "dvm_lookup (ss_versions sample_stored) (dm_domain sample_declared) = Some (DomainVersion [49])"
    by (simp add: sample_stored_def sample_versions_def sample_declared_def dvm_lookup_def)
  have "version_path (dm_transitions sample_declared) (dm_target sample_declared) (DomainVersion [49]) [sample_transition]"
    by (auto simp: sample_declared_def sample_transition_def intro!: version_path.intros)
  then have "domain_migrate sample_declared sample_stored = run_plans sample_refuse [sample_transition] sample_stored"
    using migrate_follows_path [OF sample_declared sample_stored_sound(1) u] by (simp add: sample_declared_def)
  then show ?thesis
    unfolding run_plans.simps runner_run [OF sample_stored_sound] sample_rebuild
    by (simp add: sample_stored_def sample_versions_def sample_transition_def dvm_lookup_def)
qed

text \<open>
  What no rule names is left alone. A record in whose chain no frame has a rule is among the
  rebuilt records exactly as it was.
\<close>
theorem unruled_records_kept:
  assumes "digests_faithful (ss_executions s)" "distinct (map ex_id (ss_executions s))"
    and "rebuild canonicalize plan s = Inr out" and "e \<in> set (ss_executions s)"
    and "\<forall>x \<in> set (ancestry (ex_id e)). rule_for plan (eid_domain x) (eid_name x) = None"
  shows "e \<in> set out"
proof -
  obtain children where "children_by_parent (ss_executions s) = Inr children"
    using assms(3) by (auto simp: rebuild_def result_simps)
  from unruled_execution_kept [OF assms(1,2) this assms(4,5)]
  have "e \<in> set (List.map_filter (moved_execution canonicalize plan (ss_executions s)) (ss_executions s))"
    using assms(4) by (force simp: List.map_filter_def)
  then show ?thesis using rebuild_result [OF assms(1-3)] by (metis set_mset_mset)
qed

theorem unruled_records_kept_witness:
  "\<exists>out. rebuild sample_refuse (sample_transition\<lparr>tr_domain := DomainId [101]\<rparr>) sample_stored = Inr out \<and>
     sample_under \<in> set out"
proof -
  let ?plan = "sample_transition\<lparr>tr_domain := DomainId [101]\<rparr>"
  have "rebuild sample_refuse ?plan sample_stored = Inr [sample_execution, sample_gone, sample_under]"
    by (simp add: rebuild_def children_by_parent_def sample_stored_def sample_execution_def sample_under_def
      sample_gone_def sample_eid_def sample_transition_def walk_start_def rebuild_walk.simps rebuild_one_def
      rule_for_def scope_arguments_def migrated_arguments_def
      children_of_def dict_setdefault_def require_one_source_scope_def scope_of_def target_name_def
      execution_post_init_def Let_def)
  moreover have "sample_under \<in> set (ss_executions sample_stored)"
    "\<forall>x \<in> set (ancestry (ex_id sample_under)). rule_for ?plan (eid_domain x) (eid_name x) = None"
    by (simp_all add: sample_stored_def sample_under_def sample_eid_def rule_for_def)
  ultimately show ?thesis
    using unruled_records_kept [OF sample_stored_sound(2) sound_session_distinct [OF sample_stored_sound(1)]] by blast
qed

end
