(* ===== verification/StoreMigration.thy ===== *)
theory StoreMigration
  imports Transitions Transactions
begin

text \<open>
  What a backend's \<open>SessionMigration\<close> promises (\<open>migration/_interfaces.py\<close>), as the locale
  \<open>migrating_store\<close>: it reads a session whole, hands it to the migrator, and makes the answer the
  session's only content or changes nothing. What follows for a declared migration is proved here
  once; the SQLite and the file backend interpret the locale.
\<close>

section \<open>Sessions a text backend can hold\<close>

definition storable_session ::
    "(execution \<Rightarrow> bool) \<Rightarrow> (domain_version \<Rightarrow> bool) \<Rightarrow> stored_session \<Rightarrow> bool" where
  "storable_session ok version_ok s \<longleftrightarrow>
     sound_session s \<and> dvm_versions (ss_versions s) \<noteq> [] \<and>
     (\<forall>e \<in> set (ss_executions s). ok e \<and> storable_id (ex_id e)) \<and>
     (\<forall>(d, v) \<in> set (dvm_versions (ss_versions s)). valid_domain_id d \<and> version_ok v)"

definition by_path :: "execution list \<Rightarrow> execution list" where
  "by_path es = sort_key (\<lambda>e. pc.path_of (ex_id e)) es"

text \<open>The same versions, and the records in path order with their values in normal form.\<close>

definition stored_as :: "(execution \<Rightarrow> execution) \<Rightarrow> stored_session \<Rightarrow> stored_session \<Rightarrow> bool" where
  "stored_as norm s t \<longleftrightarrow>
     dvm_lookup (ss_versions t) = dvm_lookup (ss_versions s) \<and>
     ss_executions t = map norm (by_path (ss_executions s))"

lemma set_by_path [simp]: "set (by_path es) = set es"
  by (simp add: by_path_def)

lemma by_path_idem:
  assumes "\<And>e. e \<in> set es \<Longrightarrow> ex_id (norm e) = ex_id e"
  shows "by_path (map norm (by_path es)) = map norm (by_path es)"
proof -
  have "map (\<lambda>e. pc.path_of (ex_id e)) (map norm (by_path es)) = map (\<lambda>e. pc.path_of (ex_id e)) (by_path es)"
    using assms by simp
  moreover have "sorted (map (\<lambda>e. pc.path_of (ex_id e)) (by_path es))" by (simp add: by_path_def)
  ultimately have "sorted (map (\<lambda>e. pc.path_of (ex_id e)) (map norm (by_path es)))" by metis
  then show ?thesis unfolding by_path_def [of "map norm (by_path es)"] by (rule sort_key_id_if_sorted)
qed

lemma find_by_id:
  assumes "distinct (map ex_id es)" "e \<in> set es"
  shows "find (\<lambda>e'. ex_id e' = ex_id e) es = Some e"
  using assms by (induction es) auto

section \<open>The contract\<close>

locale migrating_store = claiming_store +
  fixes mig_read :: "session_id \<Rightarrow> 'a \<Rightarrow> exn + stored_session"
    and mig_run :: "session_id \<Rightarrow> (stored_session \<Rightarrow> exn + stored_session) \<Rightarrow> 'a \<Rightarrow> (exn + migration_report) \<times> 'a"
  assumes run_keeps: "mig_run sess migrator s = (Inl x, s') \<Longrightarrow> s' = s"
    and run_unread: "mig_read sess s = Inl x \<Longrightarrow> mig_run sess migrator s = (Inl x, s)"
    and run_refused: "mig_read sess s = Inr source \<Longrightarrow> migrator source = Inl x \<Longrightarrow> mig_run sess migrator s = (Inl x, s)"
    and run_report: "mig_run sess migrator s = (Inr report, s') \<Longrightarrow> \<exists>source result.
      mig_read sess s = Inr source \<and> migrator source = Inr result \<and> report = report_between source result"
    and read_sound: "inv s \<Longrightarrow> session_ok sess \<Longrightarrow> mig_read sess s = Inr source \<Longrightarrow>
      sound_session source \<and> dvm_versions (ss_versions source) \<noteq> [] \<and>
      (\<forall>e \<in> set (ss_executions source). ok e \<and> storable_id (ex_id e) \<and> norm e = e)"
    and run_replaces: "inv s \<Longrightarrow> session_ok sess \<Longrightarrow> mig_read sess s = Inr source \<Longrightarrow> migrator source = Inr result \<Longrightarrow>
      storable_session ok version_ok result \<Longrightarrow>
      \<exists>s' got. mig_run sess migrator s = (Inr (report_between source result), s') \<and> inv s' \<and>
        mig_read sess s' = Inr got \<and> stored_as norm result got \<and>
        (\<forall>x. storable_id x \<longrightarrow>
           cl_read C sess x s' = Inr (map_option norm (find (\<lambda>e. ex_id e = x) (ss_executions result)))) \<and>
        (\<forall>d. valid_domain_id d \<longrightarrow> recorded sess d s' = dvm_lookup (ss_versions result) d) \<and>
        (\<forall>sess'. session_ok sess' \<longrightarrow> sess' \<noteq> sess \<longrightarrow> mig_read sess' s' = mig_read sess' s \<and>
           (\<forall>x. storable_id x \<longrightarrow> cl_read C sess' x s' = cl_read C sess' x s) \<and>
           (\<forall>d. valid_domain_id d \<longrightarrow> recorded sess' d s' = recorded sess' d s))"
begin

text \<open>
  What the store reads back of a migrated session, a second run of the same migration leaves alone.
\<close>

lemma stored_as_storable:
  assumes "inv s" "session_ok sess" "mig_read sess s = Inr got" "stored_as norm result got" "storable_session ok version_ok result"
  shows "storable_session ok version_ok got"
proof -
  have got: "sound_session got" "dvm_versions (ss_versions got) \<noteq> []"
      "\<forall>e \<in> set (ss_executions got). ok e \<and> storable_id (ex_id e) \<and> norm e = e"
    using read_sound [OF assms(1-3)] by auto
  have "valid_domain_id d \<and> version_ok v" if dv: "(d, v) \<in> set (dvm_versions (ss_versions got))" for d v
  proof -
    have "dvm_lookup (ss_versions got) d = Some v"
      using dv got(1) by (auto simp: sound_session_def valid_dvm_def dvm_lookup_def intro: map_of_is_SomeI)
    then have "dvm_lookup (ss_versions result) d = Some v" using assms(4) by (simp add: stored_as_def)
    then have "(d, v) \<in> set (dvm_versions (ss_versions result))" by (auto simp: dvm_lookup_def dest: map_of_SomeD)
    then show ?thesis using assms(5) by (auto simp: storable_session_def)
  qed
  with got show ?thesis by (auto simp: storable_session_def)
qed

lemma migration_outcome:
  assumes s: "inv s" "session_ok sess"
  shows "case mig_run sess migrator s of
      (Inl x, s') \<Rightarrow> s' = s \<and>
        (\<forall>source result. mig_read sess s = Inr source \<longrightarrow> migrator source = Inr result \<longrightarrow>
           \<not> storable_session ok version_ok result)
    | (Inr report, s') \<Rightarrow> \<exists>source result.
        mig_read sess s = Inr source \<and> migrator source = Inr result \<and> report = report_between source result \<and>
        (storable_session ok version_ok result \<longrightarrow>
           inv s' \<and> (\<exists>got. mig_read sess s' = Inr got \<and> stored_as norm result got) \<and>
           (\<forall>x. storable_id x \<longrightarrow>
              cl_read C sess x s' = Inr (map_option norm (find (\<lambda>e. ex_id e = x) (ss_executions result)))) \<and>
           (\<forall>d. valid_domain_id d \<longrightarrow> recorded sess d s' = dvm_lookup (ss_versions result) d) \<and>
           (\<forall>sess' x. session_ok sess' \<longrightarrow> sess' \<noteq> sess \<longrightarrow> storable_id x \<longrightarrow>
              cl_read C sess' x s' = cl_read C sess' x s \<and> mig_read sess' s' = mig_read sess' s))"
proof -
  obtain r s' where run: "mig_run sess migrator s = (r, s')" by fastforce
  show ?thesis
  proof (cases r)
    case (Inl x)
    have "\<not> storable_session ok version_ok result" if "mig_read sess s = Inr source" "migrator source = Inr result" for source result
      using run_replaces [where migrator = migrator, OF s that] run Inl by auto
    then show ?thesis using run_keeps run Inl by simp
  next
    case (Inr report)
    obtain source result where r: "mig_read sess s = Inr source" "migrator source = Inr result" "report = report_between source result"
      using run_report run Inr by blast
    then show ?thesis
      using run_replaces [where migrator = migrator, OF s r(1,2)] run Inr by fastforce
  qed
qed

lemma migrated_settled:
  assumes s: "inv s" "session_ok sess" and m: "declared m" "mig_read sess s = Inr source" "domain_migrate m source = Inr result"
    and ok: "storable_session ok version_ok result" "valid_domain_id (dm_domain m)"
  shows "\<exists>s1 got. mig_run sess (domain_migrate m) s = (Inr (report_between source result), s1) \<and> inv s1 \<and>
    (\<forall>e \<in> set (ss_executions result). cl_read C sess (ex_id e) s1 = Inr (Some (norm e))) \<and>
    recorded sess (dm_domain m) s1 = Some (dm_target m) \<and>
    mig_read sess s1 = Inr got \<and> ss_executions got = map norm (by_path (ss_executions result)) \<and>
    (\<exists>s2 got2. mig_run sess (domain_migrate m) s1 = (Inr (report_between got got), s2) \<and> inv s2 \<and>
       mig_read sess s2 = Inr got2 \<and> ss_executions got2 = ss_executions got \<and>
       dvm_lookup (ss_versions got2) = dvm_lookup (ss_versions got))"
proof -
  obtain s1 got where s1: "mig_run sess (domain_migrate m) s = (Inr (report_between source result), s1)" "inv s1"
      "mig_read sess s1 = Inr got" "stored_as norm result got"
      "\<And>x. storable_id x \<Longrightarrow> cl_read C sess x s1 = Inr (map_option norm (find (\<lambda>e. ex_id e = x) (ss_executions result)))"
      "\<And>d. valid_domain_id d \<Longrightarrow> recorded sess d s1 = dvm_lookup (ss_versions result) d"
    using run_replaces [where migrator = "domain_migrate m" and result = result, OF s m(2,3) ok(1)] by blast
  have result: "sound_session result" "dvm_lookup (ss_versions result) (dm_domain m) = Some (dm_target m)"
    using domain_migrate_arrives [OF m(1) _ m(3)] read_sound [OF s m(2)] by auto
  have "dvm_lookup (ss_versions got) (dm_domain m) = Some (dm_target m)" using s1(4) result(2) by (simp add: stored_as_def)
  then have again: "domain_migrate m got = Inr got" by (rule domain_migrate_done)
  obtain s2 got2 where s2: "mig_run sess (domain_migrate m) s1 = (Inr (report_between got got), s2)" "inv s2"
      "mig_read sess s2 = Inr got2" "stored_as norm got got2"
    using run_replaces [where migrator = "domain_migrate m" and result = got, OF s1(2) s(2) s1(3) again stored_as_storable [OF s1(2) s(2) s1(3,4) ok(1)]] by blast
  have "ss_executions got2 = ss_executions got"
  proof -
    have "\<And>e. e \<in> set (ss_executions result) \<Longrightarrow> ok e" using ok(1) by (simp add: storable_session_def)
    then have "by_path (map norm (by_path (ss_executions result))) = map norm (by_path (ss_executions result))"
        "map norm (map norm (by_path (ss_executions result))) = map norm (by_path (ss_executions result))"
      using norm_simps by (intro by_path_idem, simp_all)
    then show ?thesis using s1(4) s2(4) by (simp add: stored_as_def)
  qed
  moreover have "cl_read C sess (ex_id e) s1 = Inr (Some (norm e))" if e: "e \<in> set (ss_executions result)" for e
    using s1(5) [of "ex_id e"] find_by_id [OF sound_session_distinct [OF result(1)] e] ok(1) e
    by (simp add: storable_session_def)
  ultimately show ?thesis using s1 s2 result(2) ok(2) by (simp add: stored_as_def)
qed

end

section \<open>A session to migrate\<close>

definition sample_claimed :: stored_session where
  "sample_claimed = \<lparr>ss_versions = DomainVersionMap [(DomainId [100], DomainVersion [49])], ss_executions = [sample_execution]\<rparr>"

definition sample_moved :: execution_id where
  "sample_moved = ExecutionId None (DomainId [100]) (ExecutionName [107]) 0 (ca_digest sample_ca)"

definition sample_migrated :: "execution \<Rightarrow> stored_session" where
  "sample_migrated e = \<lparr>ss_versions = DomainVersionMap [(DomainId [100], DomainVersion [50])],
     ss_executions = [e\<lparr>ex_id := sample_moved\<rparr>]\<rparr>"

lemma sample_moved_storable: "storable_id sample_moved"
proof -
  have "valid_frame sample_moved" "encodable_frame sample_moved"
    using sample_eid_storable
    by (auto simp: sample_moved_def sample_eid_def valid_execution_id_def encodable_id_def valid_frame_def
        encodable_frame_def valid_execution_name_def is_scalar_def is_surrogate_def)
  then show ?thesis by (simp add: valid_execution_id_def encodable_id_def sample_moved_def)
qed

lemma by_path_single [simp]: "by_path [e] = [e]"
  by (simp add: by_path_def)

lemma sample_claimed_storable: "storable_session storable_execution text_version_ok sample_claimed"
  using sample_execution_storable
  by (simp add: storable_session_def sample_claimed_def sound_session_def valid_dvm_def mk_stored_session_iff
      text_version_ok_def valid_domain_version_def is_scalar_def is_surrogate_def)
    (simp add: sample_execution_def sample_eid_def valid_domain_id_def domain_id_fullmatch_def
      domain_segment_def domain_start_def)

lemma sample_normal_storable: "storable_execution (normal_execution sample_execution)"
  by (rule storable_normal [OF sample_execution_storable])

lemma sample_migrate:
  "domain_migrate sample_declared (sample_claimed\<lparr>ss_executions := [normal_execution sample_execution]\<rparr>) =
     Inr (sample_migrated (normal_execution sample_execution))"
proof -
  let ?s = "sample_claimed\<lparr>ss_executions := [normal_execution sample_execution]\<rparr>"
  have arguments: "ex_arguments sample_execution = sample_ca" by (simp add: sample_execution_def)
  have result: "ex_result (normal_execution sample_execution) \<noteq> None" "ex_status (normal_execution sample_execution) = COMPLETED"
      "ex_arguments (normal_execution sample_execution) = sample_ca"
    by (simp_all add: sample_execution_def)
  have "rebuild sample_refuse sample_transition ?s = Inr [(normal_execution sample_execution)\<lparr>ex_id := sample_moved\<rparr>]"
    using result
    by (simp add: rebuild_def children_by_parent_def sample_claimed_def sample_eid_def sample_moved_def
      sample_transition_def walk_start_def rebuild_walk.simps rebuild_one_def
      rule_for_def scope_arguments_def migrated_arguments_def recorded_arguments_def sample_decode sample_shape_def
      children_of_def dict_setdefault_def require_one_source_scope_def scope_of_def target_name_def
      execution_post_init_def Let_def)
  moreover have "sound_session ?s" "digests_faithful (ss_executions ?s)"
    by (simp_all add: sound_session_def mk_stored_session_iff sample_claimed_def valid_dvm_def sample_eid_def
      digests_faithful_def result arguments)
  ultimately have "runner_migrate sample_refuse sample_transition ?s = Inr (sample_migrated (normal_execution sample_execution))"
    by (simp add: runner_run) (simp add: sample_claimed_def sample_transition_def dvm_lookup_def replaced_versions_def sample_migrated_def)
  then show ?thesis
    by (simp add: domain_migrate_def migrate_loop.simps sample_declared_def sample_claimed_def dvm_lookup_def sample_transition_def)
qed

lemma normal_execution_id: "normal_execution (e\<lparr>ex_id := x\<rparr>) = (normal_execution e)\<lparr>ex_id := x\<rparr>"
  by (cases e) (simp add: normal_execution_def)

lemma sample_migrated_normal:
  "normal_execution ((normal_execution sample_execution)\<lparr>ex_id := sample_moved\<rparr>) =
     (normal_execution sample_execution)\<lparr>ex_id := sample_moved\<rparr>"
  by (simp add: normal_execution_id normal_execution_idem [OF sample_execution_storable])

lemma sample_migrated_storable:
  "storable_session storable_execution text_version_ok (sample_migrated (normal_execution sample_execution))"
proof -
  let ?e = "(normal_execution sample_execution)\<lparr>ex_id := sample_moved\<rparr>"
  have "ex_arguments sample_execution = sample_ca" by (simp add: sample_execution_def)
  then have "storable_execution ?e"
    using sample_normal_storable
    by (simp add: storable_execution_def valid_execution_def sample_moved_def json_execution_def)
  then show ?thesis
    using sample_moved_storable
    by (simp add: storable_session_def sample_migrated_def sound_session_def valid_dvm_def mk_stored_session_iff
        text_version_ok_def valid_domain_version_def is_scalar_def is_surrogate_def valid_domain_id_def
        domain_id_fullmatch_def domain_segment_def domain_start_def)
      (simp add: sample_moved_def)
qed

end
