(* ===== verification/SqliteMigration.thy ===== *)
theory SqliteMigration
  imports SqliteStore StoreMigration
begin

text \<open>
  Migrating a session kept in SQLite (\<open>_sqlite_migration.py\<close>, and the version table's
  \<open>read_domain_versions\<close> and \<open>replace_domain_versions\<close> of \<open>_sqlite_client.py\<close>): one immediate
  transaction reads the session, asks the migrator, and replaces rows and versions.

  Inserting a key the version table holds raises \<open>IntegrityError\<close>; the rows of a session come in
  the table's order, which no answer depends on.
\<close>

section \<open>Operations\<close>

definition session_versions :: "pystr \<Rightarrow> database \<Rightarrow> (pystr \<times> pystr) list" where
  "session_versions sid db = map (\<lambda>((s, d), v). (d, v)) (filter (\<lambda>((s, d), v). s = sid) (db_domains db))"

definition read_domain_versions :: "pystr \<Rightarrow> database \<Rightarrow> exn + domain_version_map" where
  "read_domain_versions sid db =
     bind_r (bind_texts [sid]) (\<lambda>_.
     bind_r (traverse (\<lambda>(d, v). bind_r (mk_domain_id d) (\<lambda>d. bind_r (mk_domain_version v) (\<lambda>v. Inr (d, v))))
              (session_versions sid db)) (\<lambda>items.
       mk_domain_version_map (map (\<lambda>(d, v). (Given d, Given v)) (dict_of items))))"

fun insert_versions :: "pystr \<Rightarrow> (domain_id, domain_version) dict \<Rightarrow> database \<Rightarrow> exn + database" where
  "insert_versions sid [] db = Inr db"
| "insert_versions sid ((d, v) # vs) db =
     bind_r (bind_texts [sid, domain_id_value d, domain_version_value v]) (\<lambda>_.
       if map_of (db_domains db) (sid, domain_id_value d) \<noteq> None then Inl IntegrityError
       else insert_versions sid vs
              (db\<lparr>db_domains := db_domains db @ [((sid, domain_id_value d), domain_version_value v)]\<rparr>))"

definition replace_domain_versions :: "pystr \<Rightarrow> domain_version_map \<Rightarrow> database \<Rightarrow> exn + database" where
  "replace_domain_versions sid versions db =
     bind_r (bind_texts [sid]) (\<lambda>_.
       insert_versions sid (dvm_versions versions)
         (db\<lparr>db_domains := filter (\<lambda>((s, d), v). s \<noteq> sid) (db_domains db)\<rparr>))"

definition sqlite_session :: "session_id \<Rightarrow> database \<Rightarrow> exn + stored_session" where
  "sqlite_session sess db =
     bind_r (read_domain_versions (session_id_value sess) db) (\<lambda>versions.
       if dvm_len versions = 0 then Inl MigrationError
       else bind_r (read_session_executions (session_id_value sess) db) (\<lambda>rows.
            bind_r (traverse (\<lambda>(p, r). bind_r (path_to_execution_id p) (record_to_execution r)) rows)
              (mk_stored_session versions)))"

fun upsert_all :: "pystr \<Rightarrow> execution list \<Rightarrow> database \<Rightarrow> exn + database" where
  "upsert_all sid [] db = Inr db"
| "upsert_all sid (e # es) db = bind_r (upsert_execution sid e db) (upsert_all sid es)"

definition sqlite_migrate ::
    "session_id \<Rightarrow> (stored_session \<Rightarrow> exn + stored_session) \<Rightarrow> database \<Rightarrow> (exn + migration_report) \<times> database" where
  "sqlite_migrate sess migrator db =
     run_immediate (\<lambda>db.
       bind_r (sqlite_session sess db) (\<lambda>source.
       bind_r (migrator source) (\<lambda>replacement.
       bind_r (delete_session_executions (session_id_value sess) db) (\<lambda>db.
       bind_r (upsert_all (session_id_value sess) (ss_executions replacement) db) (\<lambda>db.
       bind_r (replace_domain_versions (session_id_value sess) (ss_versions replacement) db) (\<lambda>db.
         Inr (report_between source replacement, db))))))) db"

section \<open>The rows of a replaced session\<close>

definition sqlite_row :: "execution \<Rightarrow> sqlite_record" where
  "sqlite_row e = (case record_from_execution e of Inr r \<Rightarrow> r
     | Inl _ \<Rightarrow> \<lparr>sq_arguments = [], sq_status = [], sq_result = None, sq_metadata = []\<rparr>)"

lemma sqlite_row:
  assumes "storable_execution e"
  shows "record_from_execution e = Inr (sqlite_row e)" "record_scalar (sqlite_row e)"
    "record_to_execution (sqlite_row e) (ex_id e) = Inr (normal_execution e)"
  using record_roundtrip [OF assms] by (auto simp: sqlite_row_def)

lemma upsert_storable:
  assumes "scalar_str sid" "storable_execution e" "storable_id (ex_id e)"
  shows "upsert_execution sid e db =
    Inr (db\<lparr>db_rows := AList.update (sid, pc.path_of (ex_id e)) (sqlite_row e) (db_rows db)\<rparr>)"
  using assms sqlite_row [OF assms(2)] path_scalar [OF pc.path_of_eq [OF assms(3)]]
  by (simp add: upsert_execution_def pc.path_of_eq bind_record)

lemma upsert_all_storable:
  "scalar_str sid \<Longrightarrow> \<forall>e \<in> set es. storable_execution e \<and> storable_id (ex_id e) \<Longrightarrow>
     upsert_all sid es db =
       Inr (db\<lparr>db_rows := fold (\<lambda>(k, v). AList.update k v)
         (map (\<lambda>e. ((sid, pc.path_of (ex_id e)), sqlite_row e)) es) (db_rows db)\<rparr>)"
  by (induction es arbitrary: db) (simp_all add: upsert_storable)

lemma insert_versions_fresh:
  "scalar_str sid \<Longrightarrow> \<forall>(d, v) \<in> set vs. valid_domain_id d \<and> text_version_ok v \<Longrightarrow> distinct (map fst vs) \<Longrightarrow>
     \<forall>(d, v) \<in> set vs. map_of (db_domains db) (sid, domain_id_value d) = None \<Longrightarrow>
     insert_versions sid vs db =
       Inr (db\<lparr>db_domains := db_domains db @ map (\<lambda>(d, v). ((sid, domain_id_value d), domain_version_value v)) vs\<rparr>)"
proof (induction vs arbitrary: db)
  case (Cons dv vs)
  obtain d v where dv: "dv = (d, v)" by fastforce
  let ?db = "db\<lparr>db_domains := db_domains db @ [((sid, domain_id_value d), domain_version_value v)]\<rparr>"
  have "map_of (db_domains ?db) (sid, domain_id_value d') = None" if "(d', v') \<in> set vs" for d' v'
  proof -
    have "d' \<noteq> d" using Cons.prems(3) that dv by force
    then have "domain_id_value d' \<noteq> domain_id_value d" by (auto intro: domain_id.expand)
    then show ?thesis using Cons.prems(4) that dv by (auto simp: map_add_def split: option.splits)
  qed
  then have fresh: "\<forall>(d', v') \<in> set vs. map_of (db_domains ?db) (sid, domain_id_value d') = None" by blast
  have rest: "\<forall>(d, v) \<in> set vs. valid_domain_id d \<and> text_version_ok v" "distinct (map fst vs)"
    using Cons.prems(2,3) by auto
  have texts: "bind_texts [sid, domain_id_value d, domain_version_value v] = Inr ()"
    using Cons.prems(1,2) dv domain_id_scalar [of d] by (simp add: bind_texts_iff text_version_ok_def)
  show ?case
    using Cons.IH [OF Cons.prems(1) rest fresh] texts Cons.prems(4) by (simp add: dv)
qed simp

text \<open>The database a successful migration leaves.\<close>

definition replaced_database :: "pystr \<Rightarrow> stored_session \<Rightarrow> database \<Rightarrow> database" where
  "replaced_database sid s db = db\<lparr>
     db_rows := fold (\<lambda>(k, v). AList.update k v)
       (map (\<lambda>e. ((sid, pc.path_of (ex_id e)), sqlite_row e)) (ss_executions s))
       (filter (\<lambda>((s, p), r). s \<noteq> sid) (db_rows db)),
     db_domains := filter (\<lambda>((s, d), v). s \<noteq> sid) (db_domains db) @
       map (\<lambda>(d, v). ((sid, domain_id_value d), domain_version_value v)) (dvm_versions (ss_versions s))\<rparr>"

lemma sqlite_migrate_storable:
  assumes "session_ok sess" "sqlite_session sess db = Inr source" "migrator source = Inr result"
    and ok: "storable_session storable_execution text_version_ok result"
  shows "sqlite_migrate sess migrator db =
    (Inr (report_between source result), replaced_database (session_id_value sess) result db)"
proof -
  let ?sid = "session_id_value sess"
  let ?db = "db\<lparr>db_rows := fold (\<lambda>(k, v). AList.update k v)
       (map (\<lambda>e. ((?sid, pc.path_of (ex_id e)), sqlite_row e)) (ss_executions result))
       (filter (\<lambda>((s, p), r). s \<noteq> ?sid) (db_rows db)),
     db_domains := filter (\<lambda>((s, d), v). s \<noteq> ?sid) (db_domains db)\<rparr>"
  have sid: "scalar_str ?sid" using assms(1) by (simp add: session_ok_def)
  have "insert_versions ?sid (dvm_versions (ss_versions result)) ?db = Inr (replaced_database ?sid result db)"
  proof (subst insert_versions_fresh [OF sid])
    show "\<forall>(d, v) \<in> set (dvm_versions (ss_versions result)). valid_domain_id d \<and> text_version_ok v"
      "distinct (map fst (dvm_versions (ss_versions result)))"
      using ok by (simp_all add: storable_session_def sound_session_def valid_dvm_def)
    show "\<forall>(d, v) \<in> set (dvm_versions (ss_versions result)). map_of (db_domains ?db) (?sid, domain_id_value d) = None"
      by (auto simp: map_of_eq_None_iff)
  qed (simp add: replaced_database_def)
  then show ?thesis
    using assms(2,3) sid ok upsert_all_storable [OF sid]
    by (simp add: sqlite_migrate_def run_immediate_def delete_session_executions_def replace_domain_versions_def
        bind_texts_iff storable_session_def)
qed

section \<open>Reading it back\<close>

lemma distinct_paths:
  assumes "distinct (map ex_id es)" "\<forall>e \<in> set es. storable_id (ex_id e)"
  shows "distinct (map (\<lambda>e. pc.path_of (ex_id e)) es)"
  using assms pc.path_of_inj by (auto simp: distinct_map inj_on_def)

lemma map_of_other_sessions:
  "map_of (filter (\<lambda>((s, p), r). s \<noteq> sid) rows) (s, p) = (if s = sid then None else map_of rows (s, p))"
  by (induction rows) auto

lemma map_of_append_Some: "map_of (xs @ ys) k = Some v \<Longrightarrow> map_of xs k = Some v \<or> map_of ys k = Some v"
  by (auto simp: map_add_Some_iff)

lemma replaced_rows:
  assumes "storable_session storable_execution text_version_ok result"
  shows "map_of (db_rows (replaced_database sid result db)) (s, p) =
    (if s = sid then map_of (map (\<lambda>e. (pc.path_of (ex_id e), sqlite_row e)) (ss_executions result)) p
     else map_of (db_rows db) (s, p))"
proof -
  let ?es = "ss_executions result"
  let ?new = "map (\<lambda>e. ((sid, pc.path_of (ex_id e)), sqlite_row e)) ?es"
  have "distinct (map (\<lambda>e. pc.path_of (ex_id e)) ?es)"
    using assms by (intro distinct_paths) (auto simp: storable_session_def dest: sound_session_distinct)
  then have "distinct (map fst ?new)" by (auto simp: distinct_map inj_on_def)
  then have "map_of (rev ?new) = map_of ?new" by (intro map_of_inject_set [THEN iffD2]) (auto simp: rev_map [symmetric])
  moreover have "map_of (map (\<lambda>e. ((sid, pc.path_of (ex_id e)), sqlite_row e)) es) (s, p) =
      (if s = sid then map_of (map (\<lambda>e. (pc.path_of (ex_id e), sqlite_row e)) es) p else None)" for es
    by (induction es) auto
  ultimately show ?thesis
    by (simp add: replaced_database_def map_of_fold_update map_add_def map_of_other_sessions split: option.split)
qed

lemma replaced_session_rows:
  assumes ok: "storable_session storable_execution text_version_ok result" and inv: "sqlite_inv db"
  shows "distinct (map fst (db_rows (replaced_database sid result db)))"
    and "sort_items (session_rows sid (replaced_database sid result db)) =
      map (\<lambda>e. (pc.path_of (ex_id e), sqlite_row e)) (by_path (ss_executions result))"
    and "s \<noteq> sid \<Longrightarrow> sort_items (session_rows s (replaced_database sid result db)) = sort_items (session_rows s db)"
proof -
  let ?db = "replaced_database sid result db" and ?es = "ss_executions result"
  show dist: "distinct (map fst (db_rows ?db))"
    using inv by (simp add: replaced_database_def fold_update_distinct sqlite_inv_def distinct_map_filter)
  have "distinct (map fst (map (\<lambda>e. (pc.path_of (ex_id e), sqlite_row e)) ?es))"
    using distinct_paths [of ?es] ok by (auto simp: storable_session_def comp_def dest: sound_session_distinct)
  then have "sort_items (session_rows sid ?db) = sort_items (map (\<lambda>e. (pc.path_of (ex_id e), sqlite_row e)) ?es)"
    by (intro sort_items_unique session_rows_distinct [OF dist]) (auto simp: map_of_session_rows replaced_rows [OF ok])
  also have "\<dots> = map (\<lambda>e. (pc.path_of (ex_id e), sqlite_row e)) (by_path ?es)"
    by (simp add: sort_items_def by_path_def sort_key_map comp_def)
  finally show "sort_items (session_rows sid ?db) = map (\<lambda>e. (pc.path_of (ex_id e), sqlite_row e)) (by_path ?es)" .
  assume "s \<noteq> sid"
  then show "sort_items (session_rows s ?db) = sort_items (session_rows s db)"
    using inv
    by (intro sort_items_unique session_rows_distinct dist)
       (auto simp: map_of_session_rows replaced_rows [OF ok] sqlite_inv_def)
qed

lemma replaced_inv:
  assumes ok: "storable_session storable_execution text_version_ok result" and inv: "sqlite_inv db"
  shows "sqlite_inv (replaced_database sid result db)"
proof -
  let ?db = "replaced_database sid result db"
  note dist = replaced_session_rows(1) [OF ok inv]
  have "row_ok p r" if "((s, p), r) \<in> set (db_rows ?db)" for s p r
  proof -
    have at: "map_of (db_rows ?db) (s, p) = Some r" using dist that by (rule map_of_is_SomeI)
    show ?thesis
    proof (cases "s = sid")
      case True
      then obtain e where "e \<in> set (ss_executions result)" "p = pc.path_of (ex_id e)" "r = sqlite_row e"
        using at by (auto simp: replaced_rows [OF ok] dest!: map_of_SomeD)
      then show ?thesis using ok sqlite_row(1) by (auto simp: row_ok_def storable_session_def)
    next
      case False
      then show ?thesis using at sqlite_inv_row [OF inv] by (simp add: replaced_rows [OF ok])
    qed
  qed
  moreover have "v \<noteq> []" if v: "map_of (db_domains ?db) (s, d) = Some v" for s d v
  proof -
    have "db_domains ?db = filter (\<lambda>((s, d), v). s \<noteq> sid) (db_domains db) @
        map (\<lambda>(d, v). ((sid, domain_id_value d), domain_version_value v)) (dvm_versions (ss_versions result))"
      by (simp add: replaced_database_def)
    from map_of_append_Some [OF v [unfolded this]] show ?thesis
    proof
      assume "map_of (filter (\<lambda>((s, d), v). s \<noteq> sid) (db_domains db)) (s, d) = Some v"
      then show ?thesis using inv by (auto simp: map_of_other_sessions sqlite_inv_def split: if_splits)
    next
      assume "map_of (map (\<lambda>(d, v). ((sid, domain_id_value d), domain_version_value v)) (dvm_versions (ss_versions result))) (s, d) = Some v"
      then show ?thesis
        using ok by (fastforce simp: storable_session_def text_version_ok_def valid_domain_version_def dest!: map_of_SomeD)
    qed
  qed
  ultimately show ?thesis using inv dist by (auto simp: sqlite_inv_def replaced_database_def)
qed

lemma replaced_versions_read:
  assumes "session_ok sess" and ok: "storable_session storable_execution text_version_ok result"
  shows "read_domain_versions (session_id_value sess) (replaced_database (session_id_value sess) result db) =
      Inr (ss_versions result)"
    and "sqlite_recorded sess d (replaced_database (session_id_value sess) result db) = dvm_lookup (ss_versions result) d"
    and "s \<noteq> session_id_value sess \<Longrightarrow>
      session_versions s (replaced_database (session_id_value sess) result db) = session_versions s db"
    and "s \<noteq> session_id_value sess \<Longrightarrow>
      map_of (db_domains (replaced_database (session_id_value sess) result db)) (s, p) = map_of (db_domains db) (s, p)"
proof -
  let ?sid = "session_id_value sess" and ?vs = "dvm_versions (ss_versions result)"
  have vs: "distinct (map fst ?vs)" "\<And>d v. (d, v) \<in> set ?vs \<Longrightarrow> valid_domain_id d \<and> valid_domain_version v"
    using ok by (auto simp: storable_session_def sound_session_def valid_dvm_def text_version_ok_def)
  have rows: "session_versions ?sid (replaced_database ?sid result db) =
      map (\<lambda>(d, v). (domain_id_value d, domain_version_value v)) ?vs"
    by (simp add: session_versions_def replaced_database_def filter_map comp_def split_beta)
  have "traverse (\<lambda>(d, v). bind_r (mk_domain_id d) (\<lambda>d. bind_r (mk_domain_version v) (\<lambda>v. Inr (d, v))))
      (map (\<lambda>(d, v). (domain_id_value d, domain_version_value v)) ?vs) = Inr (map (\<lambda>x. x) ?vs)"
    unfolding traverse_map
  proof (rule traverse_Inr_map)
    fix x assume "x \<in> set ?vs"
    moreover obtain d v where x: "x = (d, v)" by fastforce
    ultimately have "valid_domain_id d" "valid_domain_version v" using vs(2) by auto
    then have "mk_domain_id (domain_id_value d) = Inr d" "mk_domain_version (domain_version_value v) = Inr v"
      by (simp_all add: mk_domain_id_iff mk_domain_version_iff)
    then show "(case case x of (d, v) \<Rightarrow> (domain_id_value d, domain_version_value v) of
        (d, v) \<Rightarrow> bind_r (mk_domain_id d) (\<lambda>d. bind_r (mk_domain_version v) (\<lambda>v. Inr (d, v)))) = Inr x"
      by (simp add: x)
  qed
  moreover have "mk_domain_version_map (map (\<lambda>(d, v). (Given d, Given v)) ?vs) = Inr (ss_versions result)"
    using normalize_versions_given [of "[]" ?vs] vs(1) by (simp add: mk_domain_version_map_def)
  ultimately show "read_domain_versions ?sid (replaced_database ?sid result db) = Inr (ss_versions result)"
    using assms(1) vs(1) by (simp add: read_domain_versions_def rows bind_texts_iff session_ok_def dict_of_distinct)
  have "map_of (map (\<lambda>(d, v). ((?sid, domain_id_value d), domain_version_value v)) ds) (?sid, domain_id_value d) =
      map_option domain_version_value (map_of ds d)" for ds
    by (induction ds) (auto simp: domain_id.expand)
  then show "sqlite_recorded sess d (replaced_database ?sid result db) = dvm_lookup (ss_versions result) d"
    by (simp add: sqlite_recorded_def replaced_database_def dvm_lookup_def map_add_def map_of_other_sessions
        option.map_comp comp_def option.map_ident)
  assume s: "s \<noteq> ?sid"
  show "session_versions s (replaced_database ?sid result db) = session_versions s db"
    using s by (simp add: session_versions_def replaced_database_def filter_map comp_def case_prod_unfold conj_commute cong: conj_cong)
  have "map_of (map (\<lambda>(d, v). ((?sid, domain_id_value d), domain_version_value v)) ds) (s, p) = None" for ds
    using s by (induction ds) auto
  then show "map_of (db_domains (replaced_database ?sid result db)) (s, p) = map_of (db_domains db) (s, p)"
    using s by (simp add: replaced_database_def map_add_def map_of_other_sessions split: option.split)
qed

lemma decoded_rows:
  assumes "\<forall>e \<in> set es. storable_execution e \<and> storable_id (ex_id e)"
  shows "traverse (\<lambda>(p, r). bind_r (path_to_execution_id p) (record_to_execution r))
      (map (\<lambda>e. (pc.path_of (ex_id e), sqlite_row e)) es) = Inr (map normal_execution es)"
  unfolding traverse_map
proof (rule traverse_Inr_map)
  fix e assume "e \<in> set es"
  then have e: "storable_execution e" "storable_id (ex_id e)" using assms by auto
  have "path_to_execution_id (pc.path_of (ex_id e)) = Inr (ex_id e)"
    by (rule pc.of_to_path [OF e(2) pc.path_of_eq [OF e(2)]])
  then show "(case (pc.path_of (ex_id e), sqlite_row e) of (p, r) \<Rightarrow> bind_r (path_to_execution_id p) (record_to_execution r)) =
      Inr (normal_execution e)"
    using sqlite_row(3) [OF e(1)] by simp
qed

lemma sqlite_session_rows:
  assumes "session_ok sess"
  shows "read_session_executions (session_id_value sess) db = Inr (sort_items (session_rows (session_id_value sess) db))"
  using assms by (simp add: read_session_executions_def bind_texts_iff session_ok_def order_by_path_sort_items)

lemma sqlite_session_replaced:
  assumes sess: "session_ok sess" and ok: "storable_session storable_execution text_version_ok result" and inv: "sqlite_inv db"
  shows "sqlite_session sess (replaced_database (session_id_value sess) result db) =
    Inr \<lparr>ss_versions = ss_versions result, ss_executions = map normal_execution (by_path (ss_executions result))\<rparr>"
proof -
  let ?es = "ss_executions result"
  have es: "\<forall>e \<in> set (by_path ?es). storable_execution e \<and> storable_id (ex_id e)"
    using ok by (simp add: storable_session_def)
  have s: "distinct (map ex_id ?es)" "\<forall>e \<in> set ?es. domains_in (ex_id e) \<subseteq> fst ` set (dvm_versions (ss_versions result))"
    using ok by (auto simp: storable_session_def sound_session_def mk_stored_session_iff)
  have "mset (map ex_id (map normal_execution (by_path ?es))) = mset (map ex_id ?es)"
    by (simp add: by_path_def comp_def)
  then have "distinct (map ex_id (map normal_execution (by_path ?es)))" using s(1) mset_eq_imp_distinct_iff by blast
  then have "mk_stored_session (ss_versions result) (map normal_execution (by_path ?es)) =
      Inr \<lparr>ss_versions = ss_versions result, ss_executions = map normal_execution (by_path ?es)\<rparr>"
    using s(2) by (simp add: mk_stored_session_iff)
  moreover have "dvm_len (ss_versions result) \<noteq> 0" using ok by (simp add: storable_session_def dvm_len_def)
  ultimately show ?thesis
    using replaced_versions_read(1) [OF sess ok] replaced_session_rows(2) [OF ok inv] decoded_rows [OF es]
    by (simp add: sqlite_session_def sqlite_session_rows [OF sess])
qed

lemma sqlite_session_others:
  assumes "session_ok sess" "session_ok sess'" "sess' \<noteq> sess"
    and ok: "storable_session storable_execution text_version_ok result" and inv: "sqlite_inv db"
  shows "sqlite_session sess' (replaced_database (session_id_value sess) result db) = sqlite_session sess' db"
proof -
  have ne: "session_id_value sess' \<noteq> session_id_value sess" using assms(3) by (auto intro: session_id.expand)
  show ?thesis
    by (simp only: sqlite_session_def sqlite_session_rows [OF assms(2)] read_domain_versions_def
        replaced_versions_read(3) [OF assms(1) ok ne] replaced_session_rows(3) [OF ok inv ne])
qed

lemma sqlite_read_replaced:
  assumes sess: "session_ok sess'" and ok: "storable_session storable_execution text_version_ok result" and x: "storable_id x"
  shows "sqlite_read sess' x (replaced_database sid result db) =
    (if session_id_value sess' = sid then Inr (map_option normal_execution (find (\<lambda>e. ex_id e = x) (ss_executions result)))
     else sqlite_read sess' x db)"
proof (cases "session_id_value sess' = sid")
  case True
  have same: "pc.path_of x = pc.path_of y \<longleftrightarrow> y = x" if "storable_id y" for y
    using pc.path_of_inj [OF x that] by auto
  have "map_of (map (\<lambda>e. (pc.path_of (ex_id e), sqlite_row e)) es) (pc.path_of x) =
      map_option sqlite_row (find (\<lambda>e. ex_id e = x) es)" if "\<forall>e \<in> set es. storable_id (ex_id e)" for es
    using that by (induction es) (auto simp: same)
  then have "map_of (map (\<lambda>e. (pc.path_of (ex_id e), sqlite_row e)) (ss_executions result)) (pc.path_of x) =
      map_option sqlite_row (find (\<lambda>e. ex_id e = x) (ss_executions result))"
    using ok by (simp add: storable_session_def)
  moreover have "record_to_execution (sqlite_row e) x = Inr (normal_execution e)"
    if found: "find (\<lambda>e. ex_id e = x) (ss_executions result) = Some e" for e
  proof -
    have "e \<in> set (ss_executions result)" "ex_id e = x" using found by (auto simp: find_Some_iff)
    then show ?thesis using ok sqlite_row(3) [of e] by (auto simp: storable_session_def)
  qed
  ultimately show ?thesis
    using True by (simp add: sqlite_read_at [OF sess x] replaced_rows [OF ok] split: option.split)
qed (simp add: sqlite_read_at [OF sess x] replaced_rows [OF ok])

lemma sqlite_session_sound:
  assumes inv: "sqlite_inv db" and sess: "session_ok sess" and read: "sqlite_session sess db = Inr source"
  shows "sound_session source \<and> dvm_versions (ss_versions source) \<noteq> [] \<and>
    (\<forall>e \<in> set (ss_executions source). storable_execution e \<and> storable_id (ex_id e) \<and> normal_execution e = e)"
proof -
  let ?rows = "sort_items (session_rows (session_id_value sess) db)"
  obtain versions es where r: "read_domain_versions (session_id_value sess) db = Inr versions" "dvm_len versions \<noteq> 0"
      "traverse (\<lambda>(p, r). bind_r (path_to_execution_id p) (record_to_execution r)) ?rows = Inr es"
      "mk_stored_session versions es = Inr source"
    using read by (auto simp: sqlite_session_def sqlite_session_rows [OF sess] result_simps split: if_splits)
  have source: "source = \<lparr>ss_versions = versions, ss_executions = es\<rparr>" using r(4) by (simp add: mk_stored_session_iff)
  have "valid_dvm versions" using r(1) by (auto simp: read_domain_versions_def result_simps dest: mk_domain_version_map_valid)
  moreover have "storable_execution e \<and> storable_id (ex_id e) \<and> normal_execution e = e" if e: "e \<in> set es" for e
  proof -
    obtain p row where row: "(p, row) \<in> set ?rows" "bind_r (path_to_execution_id p) (record_to_execution row) = Inr e"
      using traverse_source [OF r(3) e] by auto
    have "map_of (session_rows (session_id_value sess) db) p = Some row"
      using row(1) inv by (intro map_of_is_SomeI session_rows_distinct) (simp_all add: sqlite_inv_def)
    then have "row_ok p row" using sqlite_inv_row [OF inv] by (simp add: map_of_session_rows)
    then obtain f where f: "storable_execution f" "storable_id (ex_id f)" "p = pc.path_of (ex_id f)" "record_from_execution f = Inr row"
      by (auto simp: row_ok_def)
    have "path_to_execution_id p = Inr (ex_id f)" unfolding f(3) by (rule pc.of_to_path [OF f(2) pc.path_of_eq [OF f(2)]])
    moreover have "record_to_execution row (ex_id f) = Inr (normal_execution f)" using record_roundtrip [OF f(1)] f(4) by auto
    ultimately have "e = normal_execution f" using row(2) by simp
    then show ?thesis using f(1,2) storable_normal normal_execution_idem by simp
  qed
  ultimately show ?thesis using source r(2,4) by (simp add: sound_session_def dvm_len_def)
qed

lemma sqlite_migrate_report:
  "sqlite_migrate sess migrator db = (Inr report, db') \<Longrightarrow> \<exists>source result.
     sqlite_session sess db = Inr source \<and> migrator source = Inr result \<and> report = report_between source result"
  by (auto simp: sqlite_migrate_def run_immediate_def result_simps split: sum.splits)

interpretation sq: migrating_store sqlite_client sqlite_inv storable_execution normal_execution sqlite_recorded
  text_version_ok sqlite_session sqlite_migrate
proof
  fix sess migrator db x db'
  assume "sqlite_migrate sess migrator db = (Inl x, db')"
  then show "db' = db" by (auto simp: sqlite_migrate_def run_immediate_def split: sum.splits)
next
  fix sess db source result and migrator :: "stored_session \<Rightarrow> exn + stored_session"
  assume a: "sqlite_inv db" "session_ok sess" "sqlite_session sess db = Inr source" "migrator source = Inr result"
    and ok: "storable_session storable_execution text_version_ok result"
  let ?db = "replaced_database (session_id_value sess) result db"
  let ?got = "\<lparr>ss_versions = ss_versions result, ss_executions = map normal_execution (by_path (ss_executions result))\<rparr>"
  have sess: "session_ok sess' \<Longrightarrow> sess' \<noteq> sess \<Longrightarrow> session_id_value sess' \<noteq> session_id_value sess" for sess'
    by (auto intro: session_id.expand)
  have "sqlite_migrate sess migrator db = (Inr (report_between source result), ?db)"
    by (rule sqlite_migrate_storable [where migrator = migrator, OF a(2-4) ok])
  moreover have "sqlite_session sess ?db = Inr ?got" by (rule sqlite_session_replaced [OF a(2) ok a(1)])
  moreover have "stored_as normal_execution result ?got" by (simp add: stored_as_def)
  moreover have "sqlite_recorded sess' d ?db = sqlite_recorded sess' d db" if "session_ok sess'" "sess' \<noteq> sess" for sess' d
    using replaced_versions_read(4) [OF a(2) ok sess [OF that]] by (simp add: sqlite_recorded_def)
  ultimately show "\<exists>s' got. sqlite_migrate sess migrator db = (Inr (report_between source result), s') \<and> sqlite_inv s' \<and>
        sqlite_session sess s' = Inr got \<and> stored_as normal_execution result got \<and>
        (\<forall>x. storable_id x \<longrightarrow> cl_read sqlite_client sess x s' =
           Inr (map_option normal_execution (find (\<lambda>e. ex_id e = x) (ss_executions result)))) \<and>
        (\<forall>d. valid_domain_id d \<longrightarrow> sqlite_recorded sess d s' = dvm_lookup (ss_versions result) d) \<and>
        (\<forall>sess'. session_ok sess' \<longrightarrow> sess' \<noteq> sess \<longrightarrow> sqlite_session sess' s' = sqlite_session sess' db \<and>
           (\<forall>x. storable_id x \<longrightarrow> cl_read sqlite_client sess' x s' = cl_read sqlite_client sess' x db) \<and>
           (\<forall>d. valid_domain_id d \<longrightarrow> sqlite_recorded sess' d s' = sqlite_recorded sess' d db))"
    using replaced_inv [OF ok a(1)] replaced_versions_read(2) [OF a(2) ok] sqlite_session_others [OF a(2) _ _ ok a(1)]
      sqlite_read_replaced [OF a(2) ok] sqlite_read_replaced [OF _ ok] sess
    by (intro exI [of _ ?db] exI [of _ ?got]) simp
next
  fix sess db report db' and migrator :: "stored_session \<Rightarrow> exn + stored_session"
  assume "sqlite_migrate sess migrator db = (Inr report, db')"
  then show "\<exists>source result. sqlite_session sess db = Inr source \<and> migrator source = Inr result \<and> report = report_between source result"
    by (rule sqlite_migrate_report)
qed (simp_all add: sqlite_session_sound sqlite_migrate_def run_immediate_def)

section \<open>Properties\<close>

text \<open>
  C12: A migration of a SQLite session is all or nothing. What raises, at any point, leaves the
  database as it was. When the migrator answers a session the database can hold, that session is all
  the database holds for it: the rows read back, in path order, as its records in normal form, every
  record is found under its identity and nothing else is, the versions recorded are exactly its
  versions, and no other session changes.
\<close>
theorem sqlite_migration_replaces:
  assumes "sqlite_inv db" "session_ok sess"
  shows "case sqlite_migrate sess migrator db of
      (Inl x, db') \<Rightarrow> db' = db \<and>
        (\<forall>source result. sqlite_session sess db = Inr source \<longrightarrow> migrator source = Inr result \<longrightarrow>
           \<not> storable_session storable_execution text_version_ok result)
    | (Inr report, db') \<Rightarrow> \<exists>source result.
        sqlite_session sess db = Inr source \<and> migrator source = Inr result \<and> report = report_between source result \<and>
        (storable_session storable_execution text_version_ok result \<longrightarrow>
           sqlite_inv db' \<and> (\<exists>got. sqlite_session sess db' = Inr got \<and> stored_as normal_execution result got) \<and>
           (\<forall>x. storable_id x \<longrightarrow> sqlite_read sess x db' =
              Inr (map_option normal_execution (find (\<lambda>e. ex_id e = x) (ss_executions result)))) \<and>
           (\<forall>d. valid_domain_id d \<longrightarrow> sqlite_recorded sess d db' = dvm_lookup (ss_versions result) d) \<and>
           (\<forall>sess' x. session_ok sess' \<longrightarrow> sess' \<noteq> sess \<longrightarrow> storable_id x \<longrightarrow>
              sqlite_read sess' x db' = sqlite_read sess' x db \<and> sqlite_session sess' db' = sqlite_session sess' db))"
  using sq.migration_outcome [OF assms] unfolding sqlite_client_simps .

definition sample_migration_database :: database where
  "sample_migration_database = replaced_database (session_id_value sample_session) sample_claimed sample_database"

lemma sample_migration_database:
  "sqlite_inv sample_migration_database"
  "sqlite_session sample_session sample_migration_database =
     Inr (sample_claimed\<lparr>ss_executions := [normal_execution sample_execution]\<rparr>)"
proof -
  show "sqlite_inv sample_migration_database"
    unfolding sample_migration_database_def by (rule replaced_inv [OF sample_claimed_storable sample_database_inv(1)])
  show "sqlite_session sample_session sample_migration_database =
     Inr (sample_claimed\<lparr>ss_executions := [normal_execution sample_execution]\<rparr>)"
    unfolding sample_migration_database_def
    using sqlite_session_replaced [OF sample_session_ok sample_claimed_storable sample_database_inv(1)]
    by (simp add: sample_claimed_def)
qed

theorem sqlite_migration_replaces_witness:
  "\<exists>db'. sqlite_inv db' \<and>
     sqlite_read sample_session sample_moved db' = Inr (Some ((normal_execution sample_execution)\<lparr>ex_id := sample_moved\<rparr>)) \<and>
     sqlite_read sample_session sample_eid db' = Inr None"
proof -
  let ?e = "(normal_execution sample_execution)\<lparr>ex_id := sample_moved\<rparr>"
  obtain report db' where r: "sqlite_migrate sample_session (domain_migrate sample_declared) sample_migration_database = (Inr report, db')"
    using sqlite_migrate_storable [where migrator = "domain_migrate sample_declared",
        OF sample_session_ok sample_migration_database(2) sample_migrate sample_migrated_storable] by blast
  have "sqlite_inv db'"
    "\<forall>x. storable_id x \<longrightarrow> sqlite_read sample_session x db' =
       Inr (map_option normal_execution (find (\<lambda>e. ex_id e = x) (ss_executions (sample_migrated (normal_execution sample_execution)))))"
    using sqlite_migration_replaces [OF sample_migration_database(1) sample_session_ok, of "domain_migrate sample_declared"]
      sample_migration_database(2) sample_migrate sample_migrated_storable r by auto
  moreover note sample_migrated_normal
  moreover have "sample_moved \<noteq> sample_eid" by (simp add: sample_moved_def sample_eid_def)
  ultimately show ?thesis
    using sample_moved_storable by (intro exI [of _ db']) (simp add: sample_migrated_def)
qed

text \<open>
  C18: Migrating settles. After a declared migration has run on a SQLite session, every migrated
  record replays under its new identity, the domain's guard accepts the version the program declares,
  and running the same migration again reports no change and leaves the records as they are.
\<close>
theorem sqlite_migration_settles:
  assumes "sqlite_inv db" "session_ok sess" "declared m" "sqlite_session sess db = Inr source"
    and "domain_migrate m source = Inr result" "storable_session storable_execution text_version_ok result"
    and "valid_domain_id (dm_domain m)"
  shows "\<exists>db1 got. sqlite_migrate sess (domain_migrate m) db = (Inr (report_between source result), db1) \<and> sqlite_inv db1 \<and>
    (\<forall>e \<in> set (ss_executions result). sqlite_read sess (ex_id e) db1 = Inr (Some (normal_execution e))) \<and>
    sqlite_recorded sess (dm_domain m) db1 = Some (dm_target m) \<and>
    sqlite_session sess db1 = Inr got \<and> ss_executions got = map normal_execution (by_path (ss_executions result)) \<and>
    (\<exists>db2 got2. sqlite_migrate sess (domain_migrate m) db1 = (Inr (report_between got got), db2) \<and> sqlite_inv db2 \<and>
       sqlite_session sess db2 = Inr got2 \<and> ss_executions got2 = ss_executions got \<and>
       dvm_lookup (ss_versions got2) = dvm_lookup (ss_versions got))"
  using sq.migrated_settled [OF assms] unfolding sqlite_client_simps .

theorem sqlite_migration_settles_witness:
  "\<exists>db1. sqlite_recorded sample_session (DomainId [100]) db1 = Some (DomainVersion [50]) \<and>
     sqlite_read sample_session sample_moved db1 = Inr (Some ((normal_execution sample_execution)\<lparr>ex_id := sample_moved\<rparr>))"
proof -
  have d: "dm_domain sample_declared = DomainId [100]" "dm_target sample_declared = DomainVersion [50]"
    "valid_domain_id (dm_domain sample_declared)"
    by (simp_all add: sample_declared_def valid_domain_id_def domain_id_fullmatch_def domain_segment_def domain_start_def)
  show ?thesis
    using sqlite_migration_settles [OF sample_migration_database(1) sample_session_ok sample_declared
        sample_migration_database(2) sample_migrate sample_migrated_storable d(3)] d(1,2) sample_migrated_normal
    by (auto simp: sample_migrated_def)
qed

end
