(* ===== verification/FileMigration.thy ===== *)
theory FileMigration
  imports FileStore StoreMigration
begin

text \<open>
  Migrating a session kept in the file backend (\<open>_file_migration.py\<close>): one document update reads the
  session's section, asks the migrator, and replaces the section whole. A section of a shape the
  store never writes raises; which of Python's exceptions that is depends on the shape and is not
  kept apart.
\<close>

section \<open>Operations\<close>

text \<open>The truth value of a JSON value as a Python object: \<open>x or {}\<close> replaces a false one.\<close>

definition json_falsy :: "json \<Rightarrow> bool" where
  "json_falsy j =
     (case j of
        JNull \<Rightarrow> True | JBool b \<Rightarrow> \<not> b | JInt i \<Rightarrow> i = 0
      | JFloat f \<Rightarrow> (case f of FFin neg m e \<Rightarrow> m = 0 | _ \<Rightarrow> False)
      | JStr s \<Rightarrow> s = [] | JList js \<Rightarrow> js = [] | JObj d \<Rightarrow> d = [])"

definition version_given :: "json \<Rightarrow> domain_version given" where
  "version_given v = (case v of JStr s \<Rightarrow> GivenStr s | _ \<Rightarrow> GivenOther)"

definition read_session :: "pystr \<Rightarrow> json \<Rightarrow> exn + stored_session" where
  "read_session sid document =
     bind_r (obj_get k_sessions document) (\<lambda>sessions.
     bind_r (obj_get sid sessions) (\<lambda>session.
     bind_r (obj_get k_domain_versions session) (\<lambda>versions.
       if json_falsy versions then Inl MigrationError
       else
         bind_r (obj_get k_executions session) (\<lambda>executions.
         bind_r (as_dict AttributeError versions) (\<lambda>recorded.
         bind_r (traverse (\<lambda>(d, v). bind_r (mk_domain_id d) (\<lambda>d. Inr (Given d, version_given v))) recorded) (\<lambda>items.
         bind_r (mk_domain_version_map items) (\<lambda>domain_versions.
         bind_r (as_dict TypeError executions) (\<lambda>entries.
         bind_r (traverse (\<lambda>(path, stored).
                   bind_r (path_to_execution_id path) (\<lambda>x.
                   bind_r (as_dict TypeError stored) (execution_from_dict x))) (sort_items entries))
           (mk_stored_session domain_versions)))))))))"

definition session_section :: "stored_session \<Rightarrow> exn + json" where
  "session_section s =
     bind_r (traverse (\<lambda>e.
               bind_r (execution_id_to_path (ex_id e)) (\<lambda>p.
               bind_r (execution_to_dict e) (\<lambda>d. Inr (p, JObj d)))) (ss_executions s)) (\<lambda>entries.
       Inr (JObj [(k_domain_versions,
                    JObj (dict_of (map (\<lambda>(d, v). (domain_id_value d, JStr (domain_version_value v))) (dvm_versions (ss_versions s))))),
                  (k_executions, JObj (dict_of entries))]))"

definition migrate_document ::
    "pystr \<Rightarrow> (stored_session \<Rightarrow> exn + stored_session) \<Rightarrow> json \<Rightarrow> exn + migration_report \<times> json \<times> bool" where
  "migrate_document sid migrator document =
     bind_r (read_session sid document) (\<lambda>source.
     bind_r (migrator source) (\<lambda>replacement.
     bind_r (session_section replacement) (\<lambda>section.
     bind_r (modify k_sessions (put_entry sid (Some section)) document) (\<lambda>document.
       Inr (report_between source replacement, document, True)))))"

definition file_migrate ::
    "session_id \<Rightarrow> (stored_session \<Rightarrow> exn + stored_session) \<Rightarrow> directory \<Rightarrow> (exn + migration_report) \<times> directory" where
  "file_migrate sess migrator dir =
     (case update_document (migrate_document (session_id_value sess) migrator) dir of
        Inl x \<Rightarrow> (Inl x, dir) | Inr (report, dir') \<Rightarrow> (Inr report, dir'))"

text \<open>What a reader of the directory finds.\<close>

definition file_session :: "session_id \<Rightarrow> directory \<Rightarrow> exn + stored_session" where
  "file_session sess dir = bind_r (read_document dir) (read_session (session_id_value sess))"

section \<open>The section written\<close>

definition versions_json :: "stored_session \<Rightarrow> (pystr, json) dict" where
  "versions_json s = map (\<lambda>(d, v). (domain_id_value d, JStr (domain_version_value v))) (dvm_versions (ss_versions s))"

definition entries_json :: "stored_session \<Rightarrow> (pystr, json) dict" where
  "entries_json s = map (\<lambda>e. (pc.path_of (ex_id e), JObj (stored_dict e))) (ss_executions s)"

definition section_json :: "stored_session \<Rightarrow> json" where
  "section_json s = JObj [(k_domain_versions, JObj (versions_json s)), (k_executions, JObj (entries_json s))]"

abbreviation storable_file_session :: "stored_session \<Rightarrow> bool" where
  "storable_file_session \<equiv> storable_session storable_execution text_version_ok"

lemma storable_file_sessionD:
  assumes "storable_file_session s"
  shows "distinct (map fst (versions_json s))" "distinct (map fst (entries_json s))"
    "\<And>e. e \<in> set (ss_executions s) \<Longrightarrow> storable_execution e \<and> storable_id (ex_id e)"
    "\<And>d v. (d, v) \<in> set (dvm_versions (ss_versions s)) \<Longrightarrow> valid_domain_id d \<and> text_version_ok v"
    "dvm_versions (ss_versions s) \<noteq> []" "valid_dvm (ss_versions s)"
proof -
  show e: "\<And>e. e \<in> set (ss_executions s) \<Longrightarrow> storable_execution e \<and> storable_id (ex_id e)"
    and "\<And>d v. (d, v) \<in> set (dvm_versions (ss_versions s)) \<Longrightarrow> valid_domain_id d \<and> text_version_ok v"
    and "dvm_versions (ss_versions s) \<noteq> []" and v: "valid_dvm (ss_versions s)"
    using assms by (auto simp: storable_session_def sound_session_def)
  have "distinct (map (domain_id_value \<circ> fst) (dvm_versions (ss_versions s)))"
    using v by (auto simp: valid_dvm_def distinct_map inj_on_def intro: domain_id.expand)
  then show "distinct (map fst (versions_json s))" by (simp add: versions_json_def comp_def split_beta)
  have "inj_on (\<lambda>e. pc.path_of (ex_id e)) (set (ss_executions s))"
    using sound_session_distinct [of s] assms e pc.path_of_inj
    by (auto simp: storable_session_def distinct_map inj_on_def)
  then show "distinct (map fst (entries_json s))"
    using sound_session_distinct [of s] assms by (simp add: entries_json_def comp_def storable_session_def distinct_map)
qed

lemma session_section_storable:
  assumes "storable_file_session s"
  shows "session_section s = Inr (section_json s)"
proof -
  note d = storable_file_sessionD [OF assms]
  have "traverse (\<lambda>e. bind_r (execution_id_to_path (ex_id e)) (\<lambda>p. bind_r (execution_to_dict e) (\<lambda>d. Inr (p, JObj d))))
      (ss_executions s) = Inr (entries_json s)"
    unfolding entries_json_def
    by (rule traverse_Inr_map) (use d(3) in \<open>auto simp: pc.path_of_eq execution_to_dict_stored\<close>)
  then show ?thesis
    using d(1,2) by (simp add: session_section_def section_json_def dict_of_distinct versions_json_def [symmetric])
qed

lemma map_of_entries:
  "map_of (entries_json s) p = map_option (\<lambda>e. JObj (stored_dict e)) (map_of (map (\<lambda>e. (pc.path_of (ex_id e), e)) (ss_executions s)) p)"
proof -
  have "map_of (map (\<lambda>e. (pc.path_of (ex_id e), JObj (stored_dict e))) es) p =
      map_option (\<lambda>e. JObj (stored_dict e)) (map_of (map (\<lambda>e. (pc.path_of (ex_id e), e)) es) p)" for es
    by (induction es) auto
  then show ?thesis by (simp add: entries_json_def)
qed

lemma section_ok:
  assumes "storable_file_session s"
  shows "session_entry_ok sid (section_json s)" "writable (section_json s)"
proof -
  note d = storable_file_sessionD [OF assms]
  have entries: "entry_ok p v \<and> writable v \<and> scalar_str p" if pv: "(p, v) \<in> set (entries_json s)" for p v
  proof -
    obtain e where e: "e \<in> set (ss_executions s)" "p = pc.path_of (ex_id e)" "v = JObj (stored_dict e)"
      using pv by (auto simp: entries_json_def)
    then have "storable_execution e" "storable_id (ex_id e)" using d(3) by auto
    moreover from this have "entry_ok p v"
      unfolding entry_ok_def using e sort_json_stored by blast
    ultimately show ?thesis using e stored_dict_writable scalar_path by blast
  qed
  have versions: "version_entry_ok p v \<and> writable v \<and> scalar_str p" if pv: "(p, v) \<in> set (versions_json s)" for p v
    using pv d(4) domain_id_scalar
    by (fastforce simp: versions_json_def version_entry_ok_def text_version_ok_def valid_domain_version_def writable_def)
  have "object_of entry_ok (JObj (entries_json s))" "object_of version_entry_ok (JObj (versions_json s))"
    using entries versions by (auto simp: object_of_def dest!: map_of_SomeD)
  then show "session_entry_ok sid (section_json s)"
    by (auto simp: session_entry_ok_def object_of_def section_json_def)
  have "writable (JObj (entries_json s))" "writable (JObj (versions_json s))"
    using entries versions d(1,2) by (auto simp: writable_obj)
  then show "writable (section_json s)" by (simp add: section_json_def writable_obj)
qed

section \<open>Reading it back\<close>

text \<open>The part of \<open>read_session\<close> that looks at the two parts of a section.\<close>

definition read_section :: "json \<Rightarrow> json \<Rightarrow> exn + stored_session" where
  "read_section versions executions =
     (if json_falsy versions then Inl MigrationError
      else
         bind_r (as_dict AttributeError versions) (\<lambda>recorded.
         bind_r (traverse (\<lambda>(d, v). bind_r (mk_domain_id d) (\<lambda>d. Inr (Given d, version_given v))) recorded) (\<lambda>items.
         bind_r (mk_domain_version_map items) (\<lambda>domain_versions.
         bind_r (as_dict TypeError executions) (\<lambda>entries.
         bind_r (traverse (\<lambda>(path, stored).
                   bind_r (path_to_execution_id path) (\<lambda>x.
                   bind_r (as_dict TypeError stored) (execution_from_dict x))) (sort_items entries))
           (mk_stored_session domain_versions))))))"

definition session_json :: "json \<Rightarrow> pystr \<Rightarrow> json" where
  "session_json j sid = or_empty (obj_at sid (or_empty (obj_at k_sessions j)))"

lemma read_session_section:
  assumes "document_ok j" "writable j"
  shows "read_session sid j = read_section (or_empty (obj_at k_domain_versions (session_json j sid)))
      (or_empty (obj_at k_executions (session_json j sid)))"
proof -
  let ?S = "or_empty (obj_at k_sessions j)" let ?T = "or_empty (obj_at sid ?S)"
  have "obj_get k_sessions j = Inr ?S \<and> obj_get sid ?S = Inr ?T \<and>
      obj_get k_executions ?T = Inr (or_empty (obj_at k_executions ?T)) \<and>
      object_of entry_ok (or_empty (obj_at k_executions ?T)) \<and> writable (or_empty (obj_at k_executions ?T))"
    by (rule document_section [OF assms]) simp_all
  moreover have "obj_get k_sessions j = Inr ?S \<and> obj_get sid ?S = Inr ?T \<and>
      obj_get k_domain_versions ?T = Inr (or_empty (obj_at k_domain_versions ?T)) \<and>
      object_of version_entry_ok (or_empty (obj_at k_domain_versions ?T)) \<and> writable (or_empty (obj_at k_domain_versions ?T))"
    by (rule document_section [OF assms]) simp_all
  ultimately show ?thesis by (simp add: read_session_def read_section_def session_json_def)
qed

lemma session_json_sort:
  assumes "writable j"
  shows "session_json (sort_json j) sid = sort_json (session_json j sid)"
proof -
  have "\<forall>v \<in> set_option (obj_at k_sessions j). writable v" using obj_at_writable [OF assms] by auto
  from bind_at_sort [OF this, of sid]
  have "Option.bind (obj_at k_sessions (sort_json j)) (obj_at sid) =
      map_option sort_json (Option.bind (obj_at k_sessions j) (obj_at sid))"
    by (simp add: obj_at_sort [OF assms])
  then show ?thesis unfolding session_json_def bind_or_empty by (simp add: sort_items_def split: option.split)
qed

lemma normalize_version_texts:
  "\<forall>(d, v) \<in> set vs. valid_domain_version v \<Longrightarrow>
     normalize_versions acc (map (\<lambda>(d, v). (Given d, GivenStr (domain_version_value v))) vs) =
     normalize_versions acc (map (\<lambda>(d, v). (Given d, Given v)) vs)"
proof (induction vs arbitrary: acc)
  case (Cons dv vs)
  obtain d v where dv: "dv = (d, v)" by fastforce
  have "mk_domain_version (domain_version_value v) = Inr v" using Cons.prems dv by (simp add: mk_domain_version_iff)
  then show ?case using Cons.IH Cons.prems by (simp add: dv)
qed simp

definition sorted_versions :: "stored_session \<Rightarrow> domain_version_map" where
  "sorted_versions s = DomainVersionMap (sort_key (\<lambda>(d, v). domain_id_value d) (dvm_versions (ss_versions s)))"

lemma sorted_versions_lookup:
  assumes "valid_dvm (ss_versions s)"
  shows "dvm_lookup (sorted_versions s) = dvm_lookup (ss_versions s)" "valid_dvm (sorted_versions s)"
proof -
  let ?vs = "dvm_versions (ss_versions s)"
  have "mset (map fst (sort_key (\<lambda>(d, v). domain_id_value d) ?vs)) = mset (map fst ?vs)" by simp
  then show d: "valid_dvm (sorted_versions s)"
    using assms mset_eq_imp_distinct_iff unfolding valid_dvm_def sorted_versions_def by fastforce
  show "dvm_lookup (sorted_versions s) = dvm_lookup (ss_versions s)"
    using d assms unfolding dvm_lookup_def fun_eq_iff valid_dvm_def sorted_versions_def
    by (metis domain_version_map.sel map_of_inject_set set_sort)
qed

lemma read_versions_written:
  assumes "storable_file_session s"
  shows "bind_r (traverse (\<lambda>(d, v). bind_r (mk_domain_id d) (\<lambda>d. Inr (Given d, version_given v))) (sort_items (versions_json s)))
      mk_domain_version_map = Inr (sorted_versions s)"
proof -
  let ?vs = "sort_key (\<lambda>(d, v). domain_id_value d) (dvm_versions (ss_versions s))"
  note d = storable_file_sessionD [OF assms]
  have sorted: "sort_items (versions_json s) = map (\<lambda>(d, v). (domain_id_value d, JStr (domain_version_value v))) ?vs"
    unfolding sort_items_def versions_json_def sort_key_map by (simp add: comp_def case_prod_unfold)
  have vs: "\<forall>(d, v) \<in> set ?vs. valid_domain_id d \<and> valid_domain_version v"
    using d(4) by (auto simp: text_version_ok_def)
  have "traverse (\<lambda>(d, v). bind_r (mk_domain_id d) (\<lambda>d. Inr (Given d, version_given v)))
      (map (\<lambda>(d, v). (domain_id_value d, JStr (domain_version_value v))) ?vs) =
      Inr (map (\<lambda>(d, v). (Given d, GivenStr (domain_version_value v))) ?vs)"
    unfolding traverse_map
  proof (rule traverse_Inr_map)
    fix x assume "x \<in> set ?vs"
    moreover obtain d v where x: "x = (d, v)" by fastforce
    ultimately have "mk_domain_id (domain_id_value d) = Inr d" using vs by (auto simp: mk_domain_id_iff)
    then show "(case case x of (d, v) \<Rightarrow> (domain_id_value d, JStr (domain_version_value v)) of
          (d, v) \<Rightarrow> bind_r (mk_domain_id d) (\<lambda>d. Inr (Given d, version_given v))) =
        Inr (case x of (d, v) \<Rightarrow> (Given d, GivenStr (domain_version_value v)))"
      by (simp add: x version_given_def)
  qed
  moreover have "distinct (map fst ?vs)"
    using sorted_versions_lookup(2) [OF d(6)] by (simp add: valid_dvm_def sorted_versions_def)
  then have "normalize_versions [] (map (\<lambda>(d, v). (Given d, Given v)) ?vs) = Inr ?vs"
    using normalize_versions_given [of "[]" ?vs] by simp
  moreover have "\<forall>(d, v) \<in> set ?vs. valid_domain_version v" using vs by fastforce
  ultimately show ?thesis
    using normalize_version_texts [of ?vs "[]"]
    by (simp add: sorted mk_domain_version_map_def sorted_versions_def)
qed

lemma read_entries_written:
  assumes "storable_file_session s"
  shows "traverse (\<lambda>(path, stored). bind_r (path_to_execution_id path) (\<lambda>x. bind_r (as_dict TypeError stored) (execution_from_dict x)))
      (sort_items (map (map_prod id sort_json) (entries_json s))) = Inr (map normal_execution (by_path (ss_executions s)))"
proof -
  have "sort_items (map (map_prod id sort_json) (entries_json s)) =
      map (\<lambda>e. (pc.path_of (ex_id e), JObj (sorted_dict e))) (by_path (ss_executions s))"
    unfolding sort_items_def entries_json_def by_path_def map_map sort_key_map
    by (simp add: comp_def sort_json_stored del: sort_json.simps)
  then show ?thesis
    using storable_file_sessionD(3) [OF assms] decode_entry
    by (simp add: traverse_map) (rule traverse_Inr_map, auto)
qed

lemma read_section_written:
  assumes "storable_file_session s"
  shows "read_section (sort_json (JObj (versions_json s))) (sort_json (JObj (entries_json s))) =
    Inr \<lparr>ss_versions = sorted_versions s, ss_executions = map normal_execution (by_path (ss_executions s))\<rparr>"
proof -
  let ?es = "ss_executions s"
  note d = storable_file_sessionD [OF assms]
  have s: "distinct (map ex_id ?es)" "\<forall>e \<in> set ?es. domains_in (ex_id e) \<subseteq> fst ` set (dvm_versions (ss_versions s))"
    using assms by (auto simp: storable_session_def sound_session_def mk_stored_session_iff)
  have "mset (map ex_id (map normal_execution (by_path ?es))) = mset (map ex_id ?es)"
    by (simp add: by_path_def comp_def)
  then have "distinct (map ex_id (map normal_execution (by_path ?es)))" using s(1) mset_eq_imp_distinct_iff by blast
  moreover have "fst ` set (dvm_versions (sorted_versions s)) = fst ` set (dvm_versions (ss_versions s))"
    by (simp add: sorted_versions_def)
  ultimately have stored: "mk_stored_session (sorted_versions s) (map normal_execution (by_path ?es)) =
      Inr \<lparr>ss_versions = sorted_versions s, ss_executions = map normal_execution (by_path ?es)\<rparr>"
    using s(2) by (simp add: mk_stored_session_iff)
  have "map (map_prod id sort_json) (versions_json s) = versions_json s" by (auto simp: versions_json_def)
  then have v: "sort_json (JObj (versions_json s)) = JObj (sort_items (versions_json s))" by simp
  have "versions_json s \<noteq> []" using d(5) by (simp add: versions_json_def)
  then have "\<not> json_falsy (JObj (sort_items (versions_json s)))" by (simp add: json_falsy_def)
  moreover obtain items where "traverse (\<lambda>(d, v). bind_r (mk_domain_id d) (\<lambda>d. Inr (Given d, version_given v))) (sort_items (versions_json s)) = Inr items"
      "mk_domain_version_map items = Inr (sorted_versions s)"
    using read_versions_written [OF assms] by (auto simp: result_simps)
  ultimately show ?thesis
    using stored read_entries_written [OF assms] unfolding v read_section_def by (simp add: as_dict_def)
qed

section \<open>The document written\<close>

lemma migrate_document_ok:
  assumes j: "document_ok j" "writable j" and sid: "scalar_str sid"
    and run: "read_session sid j = Inr source" "migrator source = Inr result" and ok: "storable_file_session result"
  shows "\<exists>j'. migrate_document sid migrator j = Inr (report_between source result, j', True) \<and>
    document_ok j' \<and> writable j' \<and> obj_at k_format_version j' = obj_at k_format_version j \<and>
    session_json j' sid = section_json result \<and> (\<forall>s. s \<noteq> sid \<longrightarrow> session_json j' s = session_json j s)"
proof -
  have "\<exists>v'. put_entry sid (Some (section_json result)) v = Inr v' \<and>
      (k_sessions = k_sessions \<longrightarrow> object_of session_entry_ok v') \<and> writable v' \<and>
      (\<forall>p'. obj_at p' v' = (if p' = sid then Some (section_json result) else obj_at p' v))"
    if v: "obj_at k_sessions j = Some v \<or> obj_at k_sessions j = None \<and> v = JObj []" for v
  proof -
    have "object_of session_entry_ok v" "writable v"
      using v j(1) obj_at_writable [OF j(2)] by (auto simp: document_ok_def object_of_def obj_at_def)
    from put_entry_ok [OF this _ sid, of "Some (section_json result)"] section_ok(1) [OF ok, of sid] section_ok(2) [OF ok]
    show ?thesis by simp
  qed
  from modify_ok [where R = "\<lambda>v v'. \<forall>p'. obj_at p' v' = (if p' = sid then Some (section_json result) else obj_at p' v)",
      OF j(1) [unfolded document_ok_def] j(2) key_names_file(7) this]
  obtain j' v' where j': "modify k_sessions (put_entry sid (Some (section_json result))) j = Inr j'"
      "document_ok j'" "writable j'"
      "\<forall>p'. obj_at p' v' = (if p' = sid then Some (section_json result) else obj_at p' (or_empty (obj_at k_sessions j)))"
      "\<forall>k'. obj_at k' j' = (if k' = k_sessions then Some v' else obj_at k' j)"
    unfolding document_ok_def by blast
  then show ?thesis
    using run session_section_storable [OF ok]
    by (intro exI [of _ j']) (simp add: migrate_document_def session_json_def)
qed

lemma session_json_at:
  "execution_at j sid p = obj_at p (or_empty (obj_at k_executions (session_json j sid)))"
  "version_at j sid d = obj_at d (or_empty (obj_at k_domain_versions (session_json j sid)))"
  unfolding execution_at_def version_at_def session_json_def bind_or_empty by (rule refl)+

text \<open>The document a migration leaves on disk.\<close>

lemma file_migrate_ok:
  assumes inv: "file_inv dir" and sess: "session_ok sess" and run: "file_session sess dir = Inr source"
    "migrator source = Inr result" and ok: "storable_file_session result"
  shows "\<exists>dir' j j'. file_migrate sess migrator dir = (Inr (report_between source result), dir') \<and> file_inv dir' \<and>
    read_document dir = Inr j \<and> document_ok j \<and> writable j \<and> sort_json j = j \<and>
    read_document dir' = Inr j' \<and> document_ok j' \<and> writable j' \<and> sort_json j' = j' \<and>
    session_json j' (session_id_value sess) = sort_json (section_json result) \<and>
    (\<forall>s. s \<noteq> session_id_value sess \<longrightarrow> session_json j' s = session_json j s)"
proof -
  let ?sid = "session_id_value sess"
  obtain j where j: "read_document dir = Inr j" "document_ok j" "writable j" "sort_json j = j" using inv by (rule file_invE)
  have sid: "scalar_str ?sid" using sess by (simp add: session_ok_def)
  have read: "read_session ?sid j = Inr source" using run(1) j(1) by (simp add: file_session_def)
  obtain j1 where j1: "migrate_document ?sid migrator j = Inr (report_between source result, j1, True)"
      "document_ok j1" "writable j1" "obj_at k_format_version j1 = obj_at k_format_version j"
      "session_json j1 ?sid = section_json result" "\<forall>s. s \<noteq> ?sid \<longrightarrow> session_json j1 s = session_json j s"
    using migrate_document_ok [where migrator = migrator, OF j(2,3) sid read run(2) ok] by blast
  from update_document_ok [where operation = "migrate_document ?sid migrator", OF inv j(1) j1(1-4)]
  obtain dir' where d: "update_document (migrate_document ?sid migrator) dir = Inr (report_between source result, dir')"
      "read_document dir' = Inr (sort_json j1)" "file_inv dir'" by blast
  have "session_json (sort_json j1) s = session_json j s" if "s \<noteq> ?sid" for s
    using session_json_sort [OF j1(3), of s] session_json_sort [OF j(3), of s] j(4) j1(6) that by simp
  moreover have "session_json (sort_json j1) ?sid = sort_json (section_json result)"
    using session_json_sort [OF j1(3), of ?sid] j1(5) by simp
  ultimately show ?thesis
    using d j document_ok_sort [OF j1(2,3)] j1(3)
    by (intro exI [of _ dir'] exI [of _ j] exI [of _ "sort_json j1"]) (simp add: file_migrate_def)
qed

section \<open>What a reader finds\<close>

lemma committed_section:
  assumes "read_document dir = Inr j" "document_ok j" "writable j"
  shows "read_committed_executions sid dir = as_dict TypeError (or_empty (obj_at k_executions (session_json j sid)))"
proof -
  let ?S = "or_empty (obj_at k_sessions j)" let ?T = "or_empty (obj_at sid ?S)"
  have "obj_get k_sessions j = Inr ?S \<and> obj_get sid ?S = Inr ?T \<and>
      obj_get k_executions ?T = Inr (or_empty (obj_at k_executions ?T)) \<and>
      object_of entry_ok (or_empty (obj_at k_executions ?T)) \<and> writable (or_empty (obj_at k_executions ?T))"
    by (rule document_section [OF assms(2,3)]) simp_all
  then show ?thesis
    by (simp add: read_committed_executions_def session_executions_def assms(1) session_json_def)
qed

lemma same_section_same_reads:
  assumes "read_document dir = Inr j" "document_ok j" "writable j"
    and "read_document dir' = Inr j'" "document_ok j'" "writable j'"
    and "session_json j' (session_id_value sess) = session_json j (session_id_value sess)"
  shows "file_read sess x dir' = file_read sess x dir" "file_session sess dir' = file_session sess dir"
    "file_recorded sess d dir' = file_recorded sess d dir"
  using assms
  by (simp_all add: file_read_def committed_section file_session_def read_session_section
      file_recorded_def version_in_def session_json_at)

lemma written_section:
  assumes "storable_file_session s" "session_json j sid = sort_json (section_json s)"
  shows "or_empty (obj_at k_domain_versions (session_json j sid)) = sort_json (JObj (versions_json s))"
    "or_empty (obj_at k_executions (session_json j sid)) = sort_json (JObj (entries_json s))"
proof -
  have "obj_at k_domain_versions (sort_json (section_json s)) = Some (sort_json (JObj (versions_json s)))"
    "obj_at k_executions (sort_json (section_json s)) = Some (sort_json (JObj (entries_json s)))"
    unfolding obj_at_sort [OF section_ok(2) [OF assms(1)]]
    by (simp_all add: section_json_def obj_at_def)
  then show "or_empty (obj_at k_domain_versions (session_json j sid)) = sort_json (JObj (versions_json s))"
    "or_empty (obj_at k_executions (session_json j sid)) = sort_json (JObj (entries_json s))"
    by (simp_all only: assms(2) option.case)
qed

lemma file_session_written:
  assumes "read_document dir = Inr j" "document_ok j" "writable j" and ok: "storable_file_session s"
    and "session_json j (session_id_value sess) = sort_json (section_json s)"
  shows "file_session sess dir =
    Inr \<lparr>ss_versions = sorted_versions s, ss_executions = map normal_execution (by_path (ss_executions s))\<rparr>"
  using assms(1) read_section_written [OF ok] written_section [OF ok assms(5)]
  by (simp only: file_session_def bind_r_simps read_session_section [OF assms(2,3)])

lemma file_read_written:
  assumes "read_document dir = Inr j" "document_ok j" "writable j" and ok: "storable_file_session s"
    and sec: "session_json j (session_id_value sess) = sort_json (section_json s)" and x: "storable_id x"
  shows "file_read sess x dir = Inr (map_option normal_execution (find (\<lambda>e. ex_id e = x) (ss_executions s)))"
proof -
  note d = storable_file_sessionD [OF ok]
  have same: "pc.path_of x = pc.path_of y \<longleftrightarrow> y = x" if "storable_id y" for y
    using pc.path_of_inj [OF x that] by auto
  have found: "map_of (map (\<lambda>e. (pc.path_of (ex_id e), e)) es) (pc.path_of x) = find (\<lambda>e. ex_id e = x) es"
    if "\<forall>e \<in> set es. storable_id (ex_id e)" for es
    using that by (induction es) (auto simp: same)
  have entries: "map_of (sort_items (map (map_prod id sort_json) (entries_json s))) (pc.path_of x) =
      map_option (\<lambda>e. JObj (sorted_dict e)) (find (\<lambda>e. ex_id e = x) (ss_executions s))"
    using d(2,3) found [of "ss_executions s"]
    by (simp add: map_of_sort_items map_of_map_prod_id map_of_entries option.map_comp comp_def sort_json_stored
        del: sort_json.simps)
  have E: "read_committed_executions (session_id_value sess) dir = Inr (sort_items (map (map_prod id sort_json) (entries_json s)))"
    unfolding committed_section [OF assms(1-3)] written_section(2) [OF ok sec] by (simp add: as_dict_def)
  show ?thesis
  proof (cases "find (\<lambda>e. ex_id e = x) (ss_executions s)")
    case None
    then show ?thesis using E entries by (simp add: file_read_def pc.path_of_eq [OF x])
  next
    case (Some e)
    then have "e \<in> set (ss_executions s)" "ex_id e = x" by (auto simp: find_Some_iff)
    then have "execution_from_dict x (sorted_dict e) = Inr (normal_execution e)"
      using d(3) execution_from_sorted_dict [of e] by auto
    then show ?thesis using E entries Some by (simp add: file_read_def pc.path_of_eq [OF x] as_dict_def)
  qed
qed

lemma file_recorded_written:
  assumes "read_document dir = Inr j" and ok: "storable_file_session s"
    and sec: "session_json j (session_id_value sess) = sort_json (section_json s)"
  shows "file_recorded sess d dir = dvm_lookup (ss_versions s) d"
proof -
  have lookup: "map_of (map (\<lambda>(d, v). (domain_id_value d, JStr (domain_version_value v))) vs) (domain_id_value d) =
      map_option (\<lambda>v. JStr (domain_version_value v)) (map_of vs d)" for vs
    by (induction vs) (auto simp: domain_id.expand)
  have "version_at j (session_id_value sess) (domain_id_value d) =
      map_option (\<lambda>v. JStr (domain_version_value v)) (dvm_lookup (ss_versions s) d)"
    using storable_file_sessionD(1) [OF ok] lookup [of "dvm_versions (ss_versions s)"]
    unfolding session_json_at written_section(1) [OF ok sec]
    by (simp add: obj_at_def map_of_sort_items map_of_map_prod_id versions_json_def [symmetric] dvm_lookup_def
        option.map_comp comp_def)
  then show ?thesis
    by (cases "dvm_lookup (ss_versions s) d") (simp_all add: file_recorded_def assms(1) version_in_def)
qed

lemma normalize_versions_nonempty:
  "normalize_versions acc items = Inr m \<Longrightarrow> acc \<noteq> [] \<or> items \<noteq> [] \<Longrightarrow> m \<noteq> []"
proof (induction acc items rule: normalize_versions.induct)
  case (2 acc d v items)
  then show ?case by (auto simp: result_simps split: if_splits)
qed simp

lemma read_section_sound:
  assumes "read_section V E = Inr source"
    and entries: "\<And>es p v. E = JObj es \<Longrightarrow> (p, v) \<in> set es \<Longrightarrow>
      \<exists>e. storable_execution e \<and> storable_id (ex_id e) \<and> p = pc.path_of (ex_id e) \<and> v = JObj (sorted_dict e)"
  shows "sound_session source \<and> dvm_versions (ss_versions source) \<noteq> [] \<and>
    (\<forall>e \<in> set (ss_executions source). storable_execution e \<and> storable_id (ex_id e) \<and> normal_execution e = e)"
proof -
  obtain recorded items versions es out where r: "\<not> json_falsy V" "as_dict AttributeError V = Inr recorded"
      "traverse (\<lambda>(d, v). bind_r (mk_domain_id d) (\<lambda>d. Inr (Given d, version_given v))) recorded = Inr items"
      "mk_domain_version_map items = Inr versions" "as_dict TypeError E = Inr es"
      "traverse (\<lambda>(path, stored). bind_r (path_to_execution_id path) (\<lambda>x.
         bind_r (as_dict TypeError stored) (execution_from_dict x))) (sort_items es) = Inr out"
      "mk_stored_session versions out = Inr source"
    using assms(1) by (auto simp: read_section_def result_simps split: if_splits)
  have source: "source = \<lparr>ss_versions = versions, ss_executions = out\<rparr>" using r(7) by (simp add: mk_stored_session_iff)
  have "recorded \<noteq> []" using r(1,2) by (auto simp: as_dict_def json_falsy_def split: json.splits)
  then have "items \<noteq> []" using r(3) by (cases recorded) (auto simp: result_simps)
  then have "dvm_versions versions \<noteq> []"
    using r(4) normalize_versions_nonempty [of "[]" items] by (auto simp: mk_domain_version_map_def result_simps)
  moreover have "storable_execution e \<and> storable_id (ex_id e) \<and> normal_execution e = e" if e: "e \<in> set out" for e
  proof -
    obtain p v where pv: "(p, v) \<in> set es"
        "bind_r (path_to_execution_id p) (\<lambda>x. bind_r (as_dict TypeError v) (execution_from_dict x)) = Inr e"
      using traverse_source [OF r(6) e] by auto
    have "E = JObj es" using r(5) by (auto simp: as_dict_def split: json.splits)
    then obtain f where "storable_execution f" "storable_id (ex_id f)" "p = pc.path_of (ex_id f)" "v = JObj (sorted_dict f)"
      using entries pv(1) by blast
    then show ?thesis using pv(2) decode_entry [of f] storable_normal [of f] normal_execution_idem [of f] by auto
  qed
  ultimately show ?thesis
    using source r(4,7) mk_domain_version_map_valid by (auto simp: sound_session_def)
qed

lemma file_session_sound:
  assumes inv: "file_inv dir" and sess: "session_ok sess" and read: "file_session sess dir = Inr source"
  shows "sound_session source \<and> dvm_versions (ss_versions source) \<noteq> [] \<and>
    (\<forall>e \<in> set (ss_executions source). storable_execution e \<and> storable_id (ex_id e) \<and> normal_execution e = e)"
proof -
  let ?sid = "session_id_value sess"
  obtain j where j: "read_document dir = Inr j" "document_ok j" "writable j" "sort_json j = j" using inv by (rule file_invE)
  let ?V = "or_empty (obj_at k_domain_versions (session_json j ?sid))"
  let ?E = "or_empty (obj_at k_executions (session_json j ?sid))"
  obtain es where es: "read_committed_executions ?sid dir = Inr es" "distinct (map fst es)"
      "\<forall>p. map_of es p = execution_at j ?sid p" "\<forall>(p, v) \<in> set es. entry_ok p v"
    using read_committed_ok [OF j(1-3), of ?sid] by blast
  have "\<exists>e. storable_execution e \<and> storable_id (ex_id e) \<and> p = pc.path_of (ex_id e) \<and> v = JObj (sorted_dict e)"
    if E: "?E = JObj es'" "(p, v) \<in> set es'" for es' p v
  proof -
    have "es' = es" using es(1) E(1) by (simp add: committed_section [OF j(1-3)] as_dict_def)
    then have at: "execution_at j ?sid p = Some v" "entry_ok p v" using es(2-4) E(2) by (auto simp flip: es(3) simp: map_of_is_SomeI)
    have "sort_json v = v" using at_sort(1) [OF j(3), of ?sid p] j(4) at(1) by simp
    then show ?thesis using at(2) unfolding entry_ok_def by metis
  qed
  moreover have "read_section ?V ?E = Inr source"
    using read by (simp only: file_session_def j(1) bind_r_simps read_session_section [OF j(2,3)])
  ultimately show ?thesis by (intro read_section_sound)
qed

interpretation fs: migrating_store file_client file_inv storable_execution normal_execution file_recorded
  text_version_ok file_session file_migrate
proof
  fix sess migrator dir x dir'
  assume "file_migrate sess migrator dir = (Inl x, dir')"
  then show "dir' = dir" by (auto simp: file_migrate_def split: sum.splits)
next
  fix sess dir x and migrator :: "stored_session \<Rightarrow> exn + stored_session"
  assume "file_session sess dir = Inl x"
  then show "file_migrate sess migrator dir = (Inl x, dir)"
    by (auto simp: file_migrate_def file_session_def update_document_def migrate_document_def bind_r_Inl_iff split: sum.splits)
next
  fix sess dir source x and migrator :: "stored_session \<Rightarrow> exn + stored_session"
  assume "file_session sess dir = Inr source" "migrator source = Inl x"
  then show "file_migrate sess migrator dir = (Inl x, dir)"
    by (auto simp: file_migrate_def file_session_def update_document_def migrate_document_def result_simps)
next
  fix sess dir source result and migrator :: "stored_session \<Rightarrow> exn + stored_session"
  assume a: "file_inv dir" "session_ok sess" "file_session sess dir = Inr source" "migrator source = Inr result"
    and ok: "storable_file_session result"
  obtain dir' j j' where d: "file_migrate sess migrator dir = (Inr (report_between source result), dir')" "file_inv dir'"
      "read_document dir = Inr j" "document_ok j" "writable j"
      "read_document dir' = Inr j'" "document_ok j'" "writable j'"
      "session_json j' (session_id_value sess) = sort_json (section_json result)"
      "\<And>s. s \<noteq> session_id_value sess \<Longrightarrow> session_json j' s = session_json j s"
    using file_migrate_ok [where migrator = migrator, OF a ok] by blast
  let ?got = "\<lparr>ss_versions = sorted_versions result, ss_executions = map normal_execution (by_path (ss_executions result))\<rparr>"
  have "stored_as normal_execution result ?got"
    using sorted_versions_lookup(1) storable_file_sessionD(6) [OF ok] by (simp add: stored_as_def)
  moreover have "session_json j' (session_id_value sess') = session_json j (session_id_value sess')" if "sess' \<noteq> sess" for sess'
    using d(10) that by (auto intro: session_id.expand)
  ultimately show "\<exists>s' got. file_migrate sess migrator dir = (Inr (report_between source result), s') \<and> file_inv s' \<and>
        file_session sess s' = Inr got \<and> stored_as normal_execution result got \<and>
        (\<forall>x. storable_id x \<longrightarrow> cl_read file_client sess x s' =
           Inr (map_option normal_execution (find (\<lambda>e. ex_id e = x) (ss_executions result)))) \<and>
        (\<forall>d. valid_domain_id d \<longrightarrow> file_recorded sess d s' = dvm_lookup (ss_versions result) d) \<and>
        (\<forall>sess'. session_ok sess' \<longrightarrow> sess' \<noteq> sess \<longrightarrow> file_session sess' s' = file_session sess' dir \<and>
           (\<forall>x. storable_id x \<longrightarrow> cl_read file_client sess' x s' = cl_read file_client sess' x dir) \<and>
           (\<forall>d. valid_domain_id d \<longrightarrow> file_recorded sess' d s' = file_recorded sess' d dir))"
    using d(1,2) file_session_written [OF d(6-8) ok d(9)] file_read_written [OF d(6-8) ok d(9)]
      file_recorded_written [OF d(6) ok d(9)] same_section_same_reads [OF d(3-8)]
    by (intro exI [of _ dir'] exI [of _ ?got]) simp
next
  fix sess dir report dir' and migrator :: "stored_session \<Rightarrow> exn + stored_session"
  assume "file_migrate sess migrator dir = (Inr report, dir')"
  then show "\<exists>source result. file_session sess dir = Inr source \<and> migrator source = Inr result \<and> report = report_between source result"
    by (auto simp: file_migrate_def file_session_def update_document_def migrate_document_def result_simps split: sum.splits)
qed (simp_all add: file_session_sound)

section \<open>Properties\<close>

definition sample_migration_directory :: directory where
  "sample_migration_directory =
     (case write_document (JObj [(k_format_version, JInt file_format_version),
              (k_sessions, JObj [(session_id_value sample_session, section_json sample_claimed)])]) sample_directory of
        Inr dir \<Rightarrow> dir | Inl _ \<Rightarrow> sample_directory)"

text \<open>
  C13: A migration of a file store's session is all or nothing, and settles. What raises, at any point,
  leaves the directory as it was. When the migrator answers a session the document can hold, that
  session is all the document holds for it: its section reads back, in path order, as its records
  in normal form, every record is found under its identity and nothing else is, the versions recorded are
  exactly its versions, and no other session changes.
\<close>
theorem file_migration_replaces:
  assumes "file_inv dir" "session_ok sess"
  shows "case file_migrate sess migrator dir of
      (Inl x, dir') \<Rightarrow> dir' = dir \<and>
        (\<forall>source result. file_session sess dir = Inr source \<longrightarrow> migrator source = Inr result \<longrightarrow>
           \<not> storable_session storable_execution text_version_ok result)
    | (Inr report, dir') \<Rightarrow> \<exists>source result.
        file_session sess dir = Inr source \<and> migrator source = Inr result \<and> report = report_between source result \<and>
        (storable_session storable_execution text_version_ok result \<longrightarrow>
           file_inv dir' \<and> (\<exists>got. file_session sess dir' = Inr got \<and> stored_as normal_execution result got) \<and>
           (\<forall>x. storable_id x \<longrightarrow> file_read sess x dir' =
              Inr (map_option normal_execution (find (\<lambda>e. ex_id e = x) (ss_executions result)))) \<and>
           (\<forall>d. valid_domain_id d \<longrightarrow> file_recorded sess d dir' = dvm_lookup (ss_versions result) d) \<and>
           (\<forall>sess' x. session_ok sess' \<longrightarrow> sess' \<noteq> sess \<longrightarrow> storable_id x \<longrightarrow>
              file_read sess' x dir' = file_read sess' x dir \<and> file_session sess' dir' = file_session sess' dir))"
  using fs.migration_outcome [OF assms] unfolding file_client_simps .

lemma file_inv_written:
  "read_document dir = Inr (sort_json j) \<Longrightarrow> document_ok (sort_json j) \<Longrightarrow> writable (sort_json j) \<Longrightarrow>
     obj_at k_format_version (sort_json j) = Some (JInt file_format_version) \<Longrightarrow> fd_denied dir \<le> length permission_retry_delays \<Longrightarrow>
     file_inv dir"
  by (simp add: file_inv_def)

lemma sample_migration_directory:
  "file_inv sample_migration_directory"
  "file_session sample_session sample_migration_directory =
     Inr (sample_claimed\<lparr>ss_executions := [normal_execution sample_execution]\<rparr>)"
proof -
  let ?sid = "session_id_value sample_session"
  let ?j = "JObj [(k_format_version, JInt file_format_version), (k_sessions, JObj [(?sid, section_json sample_claimed)])]"
  note sec = section_ok(1) [OF sample_claimed_storable, of ?sid] section_ok(2) [OF sample_claimed_storable]
  have sid: "scalar_str ?sid" using sample_session_ok by (simp add: session_ok_def)
  have j: "document_ok ?j" "writable ?j"
    using sec sid by (auto simp: document_ok_def object_of_def writable_obj split: if_splits) (simp add: writable_def)
  have "fd_denied sample_directory \<le> length permission_retry_delays" using sample_directory_inv(1) by (simp add: file_inv_def)
  from write_then_read [OF j(2) this] obtain dir where
    d: "write_document ?j sample_directory = Inr dir" "read_document dir = Inr (sort_json ?j)" "fd_denied dir = fd_denied sample_directory"
    by blast
  have dir: "sample_migration_directory = dir" by (simp only: sample_migration_directory_def d(1) sum.case)
  have sj: "document_ok (sort_json ?j)" "writable (sort_json ?j)"
    using document_ok_sort [OF j] j(2) by (simp_all only: writable_sort)
  have "obj_at k_format_version (sort_json ?j) = Some (JInt file_format_version)"
    unfolding obj_at_sort [OF j(2)] by (simp add: obj_at_def)
  then show "file_inv sample_migration_directory"
    unfolding dir using d(3) sample_directory_inv(1)
    by (intro file_inv_written [OF d(2) sj]) (simp_all add: file_inv_def)
  have "session_json ?j ?sid = section_json sample_claimed" by (simp add: session_json_def obj_at_def)
  then have "session_json (sort_json ?j) ?sid = sort_json (section_json sample_claimed)"
    using session_json_sort [OF j(2), of ?sid] by simp
  from file_session_written [OF d(2) sj sample_claimed_storable this]
  show "file_session sample_session sample_migration_directory =
     Inr (sample_claimed\<lparr>ss_executions := [normal_execution sample_execution]\<rparr>)"
    by (simp add: dir sample_claimed_def sorted_versions_def)
qed

theorem file_migration_replaces_witness:
  "\<exists>dir'. file_inv dir' \<and>
     file_read sample_session sample_moved dir' = Inr (Some ((normal_execution sample_execution)\<lparr>ex_id := sample_moved\<rparr>)) \<and>
     file_read sample_session sample_eid dir' = Inr None"
proof -
  obtain r dir' where r: "file_migrate sample_session (domain_migrate sample_declared) sample_migration_directory = (r, dir')"
    by fastforce
  have "file_inv dir' \<and> (\<forall>x. storable_id x \<longrightarrow> file_read sample_session x dir' =
       Inr (map_option normal_execution (find (\<lambda>e. ex_id e = x) (ss_executions (sample_migrated (normal_execution sample_execution))))))"
    using file_migration_replaces [OF sample_migration_directory(1) sample_session_ok, of "domain_migrate sample_declared"]
      sample_migration_directory(2) sample_migrate sample_migrated_storable r by (cases r) auto
  moreover have "sample_moved \<noteq> sample_eid" by (simp add: sample_moved_def sample_eid_def)
  ultimately show ?thesis
    using sample_moved_storable sample_migrated_normal by (intro exI [of _ dir']) (simp add: sample_migrated_def)
qed

end
