(* ===== verification/Ordering.thy ===== *)
theory Ordering
  imports Canonical
begin

text \<open>
  Python's \<open>==\<close> and \<open><\<close> on the values of the canonical data model, and \<open>sorted\<close> over them, as
  the canonicalization of sets uses them. Numbers compare by their exact value across \<open>bool\<close>,
  \<open>int\<close> and \<open>float\<close>; strings and lists compare lexicographically; \<open><\<close> raises \<open>TypeError\<close>, here
  \<open>None\<close>, on anything else.

  The lemmas embed both relations into the order of integer sequences (\<open>order_key\<close>), so that
  wherever every pair compares, \<open>sorted\<close> is a sort by a key.
\<close>

section \<open>Numbers\<close>

text \<open>
  A finite number is scaled by \<open>2^1074\<close>, which makes every float an integer; the first
  component sets the infinities apart. NaN has no place in the order.
\<close>

definition scaled :: "bool \<Rightarrow> nat \<Rightarrow> int \<Rightarrow> int" where
  "scaled neg m e = (if neg then - int m else int m) * 2 ^ nat (e + 1074)"

fun number :: "cav \<Rightarrow> (int \<times> int) option" where
  "number (CBool b) = Some (0, scaled False (if b then 1 else 0) 0)"
| "number (CInt i) = Some (0, i * 2 ^ 1074)"
| "number (CFloat (FFin neg m e)) = Some (0, scaled neg m e)"
| "number (CFloat (FInf neg)) = Some (if neg then - 1 else 1, 0)"
| "number v = None"

declare number.simps(2) [simp del]

fun is_number :: "cav \<Rightarrow> bool" where
  "is_number (CBool b) = True"
| "is_number (CInt i) = True"
| "is_number (CFloat f) = True"
| "is_number v = False"

definition number_lt :: "cav \<Rightarrow> cav \<Rightarrow> bool" where
  "number_lt v w =
     (case (number v, number w) of
        (Some (a, i), Some (b, j)) \<Rightarrow> a < b \<or> (a = b \<and> i < j)
      | _ \<Rightarrow> False)"

definition number_eq :: "cav \<Rightarrow> cav \<Rightarrow> bool" where
  "number_eq v w \<longleftrightarrow> number v \<noteq> None \<and> number v = number w"

section \<open>Equality and order\<close>

text \<open>Two dictionaries are equal when they have the same keys with equal values, in any order.\<close>

function py_eq :: "cav \<Rightarrow> cav \<Rightarrow> bool" where
  "py_eq v w =
     (case (v, w) of
        (CNull, CNull) \<Rightarrow> True
      | (CStr s, CStr t) \<Rightarrow> s = t
      | (CFallback a, CFallback b) \<Rightarrow> py_eq a b
      | (CList as, CList bs) \<Rightarrow>
          length as = length bs \<and> (\<forall>(a, b) \<in> set (zip as bs). py_eq a b)
      | (CDict as, CDict bs) \<Rightarrow>
          length as = length bs \<and>
          (\<forall>(k, a) \<in> set as. case map_of bs k of Some b \<Rightarrow> py_eq a b | None \<Rightarrow> False)
      | (CAlien m, CAlien n) \<Rightarrow> m = n
      | _ \<Rightarrow> number_eq v w)"
  by pat_completeness auto
termination
  by (relation "measure (size \<circ> fst)")
     (auto dest!: set_zip_leftD dest: cav_size_member cav_size_item)

declare py_eq.simps [simp del]

lemma py_eq_simps [simp]:
  "py_eq CNull CNull"
  "py_eq (CStr s) (CStr t) \<longleftrightarrow> s = t"
  "py_eq (CFallback a) (CFallback b) \<longleftrightarrow> py_eq a b"
  "py_eq (CList as) (CList bs) \<longleftrightarrow> list_all2 py_eq as bs"
  "py_eq (CDict ks) (CDict ls) \<longleftrightarrow> length ks = length ls \<and>
     (\<forall>(k, a) \<in> set ks. case map_of ls k of Some b \<Rightarrow> py_eq a b | None \<Rightarrow> False)"
  "py_eq (CAlien m) (CAlien n) \<longleftrightarrow> m = n"
  by (simp_all add: py_eq.simps [of "CNull"] py_eq.simps [of "CStr s"] py_eq.simps [of "CFallback a"]
      py_eq.simps [of "CList as"] py_eq.simps [of "CDict ks"] py_eq.simps [of "CAlien m"] list_all2_iff)

fun py_lt :: "cav \<Rightarrow> cav \<Rightarrow> bool option" where
  "py_lt (CStr s) (CStr t) = Some (s < t)"
| "py_lt (CList []) (CList ws) = Some (ws \<noteq> [])"
| "py_lt (CList (v # vs)) (CList []) = Some False"
| "py_lt (CList (v # vs)) (CList (w # ws)) =
     (if py_eq v w then py_lt (CList vs) (CList ws) else py_lt v w)"
| "py_lt v w = (if is_number v \<and> is_number w then Some (number_lt v w) else None)"

section \<open>\<open>sorted\<close>\<close>

text \<open>
  A stable insertion, \<open>f\<close> giving what is compared. A sort has to compare any two values that end up next to each other, so
  it raises as soon as some pair does not compare: between two values that do not compare,
  nothing lies that compares with both. (With a NaN inside, whose comparisons are no order,
  Python's result depends on its algorithm; such a value is refused when it is encoded.)
\<close>

fun py_insort :: "('a \<Rightarrow> cav) \<Rightarrow> 'a \<Rightarrow> 'a list \<Rightarrow> 'a list" where
  "py_insort f v [] = [v]"
| "py_insort f v (w # ws) =
     (if py_lt (f w) (f v) = Some True then w # py_insort f v ws else v # w # ws)"

fun all_compare :: "cav list \<Rightarrow> bool" where
  "all_compare [] = True"
| "all_compare (v # vs) = ((\<forall>w \<in> set vs. py_lt w v \<noteq> None) \<and> all_compare vs)"

definition py_sorted :: "('a \<Rightarrow> cav) \<Rightarrow> 'a list \<Rightarrow> exn + 'a list" where
  "py_sorted f vs = (if all_compare (map f vs) then Inr (foldr (py_insort f) vs []) else Inl TypeError)"

section \<open>The order as a key\<close>

definition string_key :: "pystr \<Rightarrow> int list" where
  "string_key s = map (\<lambda>c. int c + 1) s @ [0]"

definition items_key :: "int list list \<Rightarrow> int list" where
  "items_key ks = concat (map ((#) 1) ks) @ [0]"

definition member_keys :: "(arg_key \<times> int list) list \<Rightarrow> int list list" where
  "member_keys ks = map (\<lambda>(k, t). string_key k @ t) (sort_items (map (map_prod key_name id) ks))"

definition number_key :: "cav \<Rightarrow> int list" where
  "number_key v = (case number v of Some (a, i) \<Rightarrow> [3, a, i] | None \<Rightarrow> [9])"

primrec order_key :: "cav \<Rightarrow> int list" where
  "order_key CNull = [2]"
| "order_key (CBool b) = number_key (CBool b)"
| "order_key (CInt i) = number_key (CInt i)"
| "order_key (CFloat f) = number_key (CFloat f)"
| "order_key (CStr s) = 4 # string_key s"
| "order_key (CFallback v) = 6 # order_key v"
| "order_key (CList vs) = 5 # items_key (map order_key vs)"
| "order_key (CDict kvs) = 7 # items_key (member_keys (map (map_prod id order_key) kvs))"
| "order_key (CAlien n) = [8, int n]"

text \<open>No key is a proper prefix of another one.\<close>

lemma string_key_append: "string_key s @ r = string_key t @ q \<longleftrightarrow> s = t \<and> r = q"
proof (induction s arbitrary: t)
  case (Cons c s)
  show ?case
    by (cases t) (use Cons in \<open>auto simp: string_key_def\<close>)
next
  case Nil
  show ?case by (cases t) (auto simp: string_key_def)
qed

lemma items_key_Cons [simp]: "items_key (k # ks) = 1 # k @ items_key ks" "items_key [] = [0]"
  by (simp_all add: items_key_def)

lemma items_key_append:
  assumes "\<And>a b r q. a \<in> set as \<Longrightarrow> b \<in> set bs \<Longrightarrow> a @ r = b @ q \<longleftrightarrow> a = b \<and> r = q"
  shows "items_key as @ r = items_key bs @ q \<longleftrightarrow> as = bs \<and> r = q"
  using assms
proof (induction as arbitrary: bs)
  case (Cons a as)
  show ?case
  proof (cases bs)
    case (Cons b bs')
    then show ?thesis using Cons.prems Cons.IH [of bs'] by auto
  qed simp
next
  case Nil
  show ?case by (cases bs) auto
qed

lemma number_key_append: "number_key v @ r = number_key w @ q \<longleftrightarrow> number_key v = number_key w \<and> r = q"
  by (auto simp: number_key_def split: option.splits)

lemma number_key_hd: "number_key v = c # k \<Longrightarrow> c = 3 \<or> c = 9"
  by (auto simp: number_key_def split: option.splits)

lemma size_members:
  "v \<in> set (map snd kvs) \<Longrightarrow> size v < size (CDict kvs)"
  using cav_size_member by fastforce

lemma member_keysE:
  assumes "a \<in> set (member_keys (map (map_prod id f) kvs))"
  obtains k v where "(k, v) \<in> set kvs" "a = string_key (key_name k) @ f v"
  using assms by (auto simp: member_keys_def)

lemma order_key_append:
  "order_key v @ r = order_key w @ q \<longleftrightarrow> order_key v = order_key w \<and> r = q"
proof (induction "size v" arbitrary: v w r q rule: less_induct)
  case less
  have "order_key w \<noteq> []"
    by (cases w) (auto simp: number_key_def split: option.splits)
  then obtain c k where w: "order_key w = c # k" by (meson neq_Nil_conv)
  have number: ?case if "order_key v = number_key v"
  proof (cases "c = 3 \<or> c = 9")
    case True
    then have "order_key w = number_key w" using w by (cases w) auto
    with that number_key_append show ?thesis by simp
  next
    case False
    with that w show ?thesis by (auto simp: number_key_def split: option.splits)
  qed
  show ?case
  proof (cases v)
    case (CStr s)
    then show ?thesis
      using string_key_append [of s r _ q] by (cases w) (auto simp: number_key_def split: option.splits)
  next
    case (CFallback u)
    then show ?thesis using less by (cases w) (auto simp: number_key_def split: option.splits)
  next
    case (CList us)
    then show ?thesis
      using items_key_append [of "map order_key us" "map order_key _" r q] less.hyps cav_size_item
      by (cases w) (fastforce simp: number_key_def split: option.splits)+
  next
    case (CDict kvs)
    have "items_key (member_keys (map (map_prod id order_key) kvs)) @ r
        = items_key (member_keys (map (map_prod id order_key) kws)) @ q
      \<longleftrightarrow> member_keys (map (map_prod id order_key) kvs) = member_keys (map (map_prod id order_key) kws) \<and> r = q" for kws
    proof (rule items_key_append)
      fix a b r q
      assume "a \<in> set (member_keys (map (map_prod id order_key) kvs))"
        "b \<in> set (member_keys (map (map_prod id order_key) kws))"
      then show "a @ r = b @ q \<longleftrightarrow> a = b \<and> r = q"
        using less.hyps CDict size_members [of _ kvs]
        by (elim member_keysE) (fastforce simp: string_key_append)
    qed
    then show ?thesis using CDict by (cases w) (auto simp: number_key_def split: option.splits)
  next
    case CNull
    then show ?thesis by (cases w) (auto simp: number_key_def split: option.splits)
  next
    case (CAlien n)
    then show ?thesis by (cases w) (auto simp: number_key_def split: option.splits)
  qed (use number in auto)
qed

lemma less_append_cancel:
  assumes "\<And>r q. xs @ r \<noteq> ys @ q"
  shows "xs @ r < ys @ q \<longleftrightarrow> xs < (ys :: 'a :: linorder list)"
  using assms
proof (induction xs arbitrary: ys)
  case Nil
  then show ?case using Nil [of ys "[]"] by simp
next
  case (Cons x xs)
  show ?case
  proof (cases ys)
    case Nil
    with Cons.prems [of "[]" "x # xs"] show ?thesis by simp
  next
    case C: (Cons y ys')
    show ?thesis
    proof (cases "x = y")
      case True
      with Cons.prems C have "xs @ r \<noteq> ys' @ q" for r q by auto
      with True C Cons.IH [of ys'] show ?thesis by simp
    qed (auto simp: C)
  qed
qed

lemma order_key_less:
  "order_key v \<noteq> order_key w \<Longrightarrow> order_key v @ r < order_key w @ q \<longleftrightarrow> order_key v < order_key w"
  by (rule less_append_cancel) (simp add: order_key_append)

section \<open>Equality and order agree with the key\<close>

text \<open>What the encoding accepts: in particular no NaN, and dictionaries with distinct string keys.\<close>

definition orderly :: "cav \<Rightarrow> bool" where
  "orderly v \<longleftrightarrow> shape_ok v \<and> leaf_ok v \<and> python_value v"

lemma orderly_simps [simp]:
  "orderly CNull" "orderly (CBool b)" "orderly (CInt i)" "\<not> orderly (CAlien n)"
  "orderly (CFallback v) \<longleftrightarrow> orderly v"
  "orderly (CList vs) \<longleftrightarrow> (\<forall>v \<in> set vs. orderly v)"
  by (auto simp: orderly_def list_all_iff)

lemma orderly_member:
  "orderly (CDict kvs) \<Longrightarrow> (k, v) \<in> set kvs \<Longrightarrow> orderly v"
  "orderly (CDict kvs) \<Longrightarrow> distinct (map fst (map (map_prod key_name f) kvs))"
  "orderly (CDict kvs) \<Longrightarrow> (k, v) \<in> set kvs \<Longrightarrow> Name (key_name k) = k"
  using distinct_names [of kvs f] by (auto simp: orderly_def list_all_iff shape_ok_key)

lemma orderly_number: "orderly v \<Longrightarrow> is_number v \<longleftrightarrow> number v \<noteq> None"
  by (cases v) (auto simp: orderly_def number.simps split: pyfloat.splits)

lemma sort_items_eq_iff:
  assumes "distinct (map fst ks)" "distinct (map fst ls)"
  shows "sort_items ks = sort_items ls \<longleftrightarrow>
    length ks = length ls \<and> (\<forall>(k, a) \<in> set ks. map_of ls k = Some a)"
proof
  assume eq: "sort_items ks = sort_items ls"
  then have "set ks = set ls" by (metis set_sort_items)
  moreover have "length ks = length ls" using eq by (metis length_sort_items)
  ultimately show "length ks = length ls \<and> (\<forall>(k, a) \<in> set ks. map_of ls k = Some a)"
    using assms by (auto intro: map_of_is_SomeI)
next
  assume *: "length ks = length ls \<and> (\<forall>(k, a) \<in> set ks. map_of ls k = Some a)"
  then have "set ks \<subseteq> set ls" by (auto dest: map_of_SomeD)
  moreover have "card (set ks) = card (set ls)"
    using * assms by (simp add: distinct_map distinct_card)
  ultimately have "set ks = set ls" by (simp add: card_subset_eq)
  then have "map_of ks = map_of ls" using assms by (simp add: map_of_inject_set)
  with assms show "sort_items ks = sort_items ls" by (rule sort_items_unique)
qed

lemma member_keys_eq_iff:
  "member_keys ks = member_keys ls \<longleftrightarrow>
     sort_items (map (map_prod key_name id) ks) = sort_items (map (map_prod key_name id) ls)"
proof -
  have "inj (\<lambda>(k, t). string_key k @ t)"
    by (auto simp: inj_def string_key_append)
  then show ?thesis by (simp add: member_keys_def inj_map_eq_map)
qed

lemma items_key_inject:
  assumes "\<And>a b r q. a \<in> set as \<Longrightarrow> b \<in> set bs \<Longrightarrow> a @ r = b @ q \<longleftrightarrow> a = b \<and> r = q"
  shows "items_key as = items_key bs \<longleftrightarrow> as = bs"
  using items_key_append [of as bs "[]" "[]"] assms by simp

lemma order_key_dict:
  assumes "orderly (CDict ks)" "orderly (CDict ls)"
  shows "order_key (CDict ks) = order_key (CDict ls) \<longleftrightarrow> length ks = length ls \<and>
    (\<forall>(k, a) \<in> set ks. case map_of ls k of Some b \<Rightarrow> order_key a = order_key b | None \<Rightarrow> False)"
proof -
  let ?K = "map (map_prod key_name order_key)"
  have "items_key (member_keys (map (map_prod id order_key) ks))
      = items_key (member_keys (map (map_prod id order_key) ls))
    \<longleftrightarrow> member_keys (map (map_prod id order_key) ks) = member_keys (map (map_prod id order_key) ls)"
    by (rule items_key_inject) (auto elim!: member_keysE simp: string_key_append order_key_append)
  also have "\<dots> \<longleftrightarrow> sort_items (?K ks) = sort_items (?K ls)"
    by (simp add: member_keys_eq_iff map_prod.comp)
  also have "\<dots> \<longleftrightarrow> length ks = length ls \<and>
      (\<forall>(k, a) \<in> set ks. map_of (?K ls) (key_name k) = Some (order_key a))"
    unfolding sort_items_eq_iff [OF orderly_member(2) [OF assms(1)] orderly_member(2) [OF assms(2)]]
    by (simp add: split_beta)
  also have "\<dots> \<longleftrightarrow> length ks = length ls \<and>
    (\<forall>(k, a) \<in> set ks. case map_of ls k of Some b \<Rightarrow> order_key a = order_key b | None \<Rightarrow> False)"
  proof -
    have "map_of (?K ls) (key_name k) = map_option order_key (map_of ls k)"
      if "Name (key_name k) = k" for k
      using orderly_member(3) [OF assms(2)] that
    proof (induction ls)
      case (Cons l ls)
      obtain k' b where l: "l = (k', b)" by (cases l)
      have "Name (key_name k') = k'" using Cons.prems(1) [of k' b] l by simp
      then have "key_name k' = key_name k \<longleftrightarrow> k' = k" using that by metis
      with Cons l show ?case by auto
    qed simp
    then show ?thesis
      using orderly_member(3) [OF assms(1)] by (fastforce split: option.splits)
  qed
  finally show ?thesis by simp
qed

lemma py_eq_key: "orderly v \<Longrightarrow> orderly w \<Longrightarrow> py_eq v w \<longleftrightarrow> order_key v = order_key w"
proof (induction "size v" arbitrary: v w rule: less_induct)
  case less
  have number: ?case if "is_number v" 
    using that orderly_number [OF less.prems(1)] orderly_number [OF less.prems(2)]
    by (cases v; cases w) (auto simp: py_eq.simps number_eq_def number_key_def split: option.splits)
  show ?case
  proof (cases v)
    case (CStr s)
    then show ?thesis
      using string_key_append [of s "[]" _ "[]"]
      by (cases w) (auto simp: py_eq.simps number_eq_def number_key_def split: option.splits)
  next
    case (CFallback u)
    with less show ?thesis
      by (cases w) (auto simp: py_eq.simps number_eq_def number_key_def split: option.splits)
  next
    case (CList us)
    show ?thesis
    proof (cases w)
      case L: (CList ws)
      have "py_eq a b \<longleftrightarrow> order_key a = order_key b" if "a \<in> set us" "b \<in> set ws" for a b
        using that less.hyps [of a b] less.prems CList L cav_size_item [of a us] by auto
      then have "list_all2 py_eq us ws \<longleftrightarrow> map order_key us = map order_key ws"
        by (auto simp: list_all2_conv_all_nth list_eq_iff_nth_eq)
      moreover have "items_key (map order_key us) = items_key (map order_key ws)
          \<longleftrightarrow> map order_key us = map order_key ws"
        by (rule items_key_inject) (auto simp: order_key_append)
      ultimately show ?thesis using CList L by simp
    qed (auto simp: CList py_eq.simps number_eq_def number_key_def split: option.splits)
  next
    case (CDict ks)
    show ?thesis
    proof (cases w)
      case L: (CDict ls)
      have "py_eq a b \<longleftrightarrow> order_key a = order_key b" if "(k, a) \<in> set ks" "map_of ls k = Some b" for k a b
        using that(1) map_of_SomeD [OF that(2)] less.hyps [of a b] less.prems CDict L
          cav_size_member [of k a ks] orderly_member(1) by fastforce
      then show ?thesis
        using order_key_dict [of ks ls] less.prems CDict L by (fastforce split: option.splits)
    qed (auto simp: CDict py_eq.simps number_eq_def number_key_def split: option.splits)
  qed (use number less.prems in
      \<open>cases w; auto simp: py_eq.simps number_eq_def number_key_def split: option.splits\<close>)+
qed

lemma string_key_simps: "string_key [] = [0]" "string_key (c # s) = (int c + 1) # string_key s"
  by (simp_all add: string_key_def)

lemma string_key_less: "string_key s < string_key t \<longleftrightarrow> s < t"
proof (induction s arbitrary: t)
  case (Cons c s)
  show ?case
  proof (cases t)
    case C: (Cons d t')
    show ?thesis using Cons.IH [of t'] C by (auto simp: string_key_simps)
  qed (simp add: string_key_simps)
next
  case Nil
  show ?case by (cases t) (auto simp: string_key_simps)
qed

lemma number_lt_key:
  "orderly v \<Longrightarrow> orderly w \<Longrightarrow> is_number v \<Longrightarrow> is_number w \<Longrightarrow>
     number_lt v w \<longleftrightarrow> order_key v < order_key w"
  using orderly_number [of v] orderly_number [of w]
  by (cases v; cases w) (auto simp: number_lt_def number_key_def)

lemma py_lt_numbers: "py_lt v w = Some b \<Longrightarrow> is_number v \<or> is_number w \<Longrightarrow>
    is_number v \<and> is_number w \<and> b = number_lt v w"
  by (cases "(v, w)" rule: py_lt.cases) (auto split: if_splits)

lemma py_lt_key:
  "py_lt v w = Some b \<Longrightarrow> orderly v \<Longrightarrow> orderly w \<Longrightarrow> b \<longleftrightarrow> order_key v < order_key w"
proof (induction "size v + size w" arbitrary: v w b rule: less_induct)
  case less
  show ?case
  proof (cases "is_number v \<or> is_number w")
    case True
    with less.prems show ?thesis using py_lt_numbers number_lt_key by blast
  next
    case False
    then consider (str) s t where "v = CStr s" "w = CStr t"
      | (list) vs ws where "v = CList vs" "w = CList ws"
      using less.prems(1) by (cases "(v, w)" rule: py_lt.cases) auto
    then show ?thesis
    proof cases
      case str
      with less.prems string_key_less show ?thesis by simp
    next
      case list
      show ?thesis
      proof (cases "vs = [] \<or> ws = []")
        case True
        with list less.prems show ?thesis by (cases vs; cases ws) auto
      next
        case False
        then obtain a as c cs where V: "vs = a # as" and W: "ws = c # cs" by (meson neq_Nil_conv)
        show ?thesis
        proof (cases "py_eq a c")
          case True
          then have "order_key a = order_key c" using less.prems list V W py_eq_key by simp
          moreover have "b \<longleftrightarrow> order_key (CList as) < order_key (CList cs)"
            by (rule less.hyps) (use less.prems list V W True in auto)
          ultimately show ?thesis using list V W by simp
        next
          case D: False
          then have "order_key a \<noteq> order_key c" using less.prems list V W py_eq_key by simp
          moreover have "b \<longleftrightarrow> order_key a < order_key c"
            by (rule less.hyps) (use less.prems list V W D in auto)
          ultimately show ?thesis using list V W order_key_less by simp
        qed
      qed
    qed
  qed
qed

lemma py_insort_key:
  assumes "orderly (f v)" "\<forall>w \<in> set ws. orderly (f w) \<and> py_lt (f w) (f v) \<noteq> None"
  shows "py_insort f v ws = insort_key (\<lambda>x. order_key (f x)) v ws"
  using assms(2)
proof (induction ws)
  case (Cons w ws)
  then obtain b where "py_lt (f w) (f v) = Some b" by auto
  then have "b \<longleftrightarrow> order_key (f w) < order_key (f v)" using Cons.prems assms(1) py_lt_key by simp
  with \<open>py_lt (f w) (f v) = Some b\<close> Cons show ?case by auto
qed simp

lemma py_sorted_key:
  assumes "all_compare (map f vs)" "\<forall>v \<in> set vs. orderly (f v)"
  shows "py_sorted f vs = Inr (sort_key (\<lambda>x. order_key (f x)) vs)"
proof -
  have "foldr (py_insort f) vs [] = sort_key (\<lambda>x. order_key (f x)) vs"
    using assms
  proof (induction vs)
    case (Cons v vs)
    then have "foldr (py_insort f) vs [] = sort_key (\<lambda>x. order_key (f x)) vs" by simp
    then show ?case
      using Cons.prems py_insort_key [of f v "sort_key (\<lambda>x. order_key (f x)) vs"] by simp
  qed simp
  with assms(1) show ?thesis by (simp add: py_sorted_def)
qed

lemma py_sorted_Inl: "py_sorted f vs = Inl e \<Longrightarrow> e = TypeError"
  by (auto simp: py_sorted_def split: if_splits)

text \<open>Whether two values compare does not depend on which stands left.\<close>

lemma py_lt_None_commute: "orderly v \<Longrightarrow> orderly w \<Longrightarrow> py_lt v w = None \<longleftrightarrow> py_lt w v = None"
proof (induction v w rule: py_lt.induct)
  case (4 v vs w ws)
  then have "py_eq v w \<longleftrightarrow> py_eq w v" by (auto simp: py_eq_key)
  with 4 show ?case by auto
next
  case (2 ws)
  show ?case by (cases ws) auto
qed auto

lemma all_compare_pairs:
  "\<forall>v \<in> set vs. orderly v \<Longrightarrow>
     all_compare vs \<longleftrightarrow> sorted_wrt (\<lambda>v w. py_lt v w \<noteq> None) vs"
  by (induction vs) (auto simp: py_lt_None_commute)

end
