(* ===== verification/Canonicalize.thy ===== *)
theory Canonicalize
  imports Ordering
begin

text \<open>
  Normalizing a call's arguments into the canonical data model
  (\<open>serialization/_canonicalization.py\<close>, \<open>_fallback.py\<close>, the canonicalizers of
  \<open>serialization/_json.py\<close> and \<open>glyff_pydantic/_serialization.py\<close>).

  The walk is open recursion: \<open>to_canonical\<close> takes the function it recurses with, and each
  canonicalizer ties the knot with its own \<open>canonicalize_value\<close>. The lemmas give the outcome of
  every branch, show that every failure is \<open>ArgumentCanonicalizationError\<close>, that recorded
  arguments canonicalize to themselves, and when the order a set iterates in does not matter.
\<close>

section \<open>Values\<close>

text \<open>
  The application's values, by what the code asks of them. A dataclass instance lists its fields
  with the \<open>hash\<close> and \<open>compare\<close> settings; a set lists its members in iteration order; a type
  or function is its module and qualified name; \<open>VEnum\<close> says whether the enumeration also derives
  from the scalar type of its values; \<open>VModel\<close> holds what \<open>model_dump\<close> returns in mode \<open>python\<close>
  and in mode \<open>json\<close>, \<open>VScalar\<close> what \<open>to_jsonable_python\<close> returns for one of the scalar types the
  pydantic canonicalizer names. \<open>VObject\<close> is any other object.
\<close>

datatype pykey = KStr pystr | KBool bool | KNone | KFloat pyfloat | KInt int | KOther nat

datatype 'v data_field =
  Field (fd_name: pystr) (fd_hash: "bool option") (fd_compare: bool) (fd_value: 'v)

datatype pyval =
    VNone | VBool bool | VInt int | VFloat pyfloat | VStr pystr
  | VFallback cav
  | VType pystr pystr
  | VPartial pyval "pyval list" "(pystr \<times> pyval) list"
  | VDataclass "pyval data_field list"
  | VDict "(pykey \<times> pyval) list"
  | VList "pyval list"
  | VTuple "pyval list"
  | VSet "pyval list"
  | VBytes bytes
  | VFunction pystr pystr
  | VModel pyval pyval
  | VEnum bool pyval
  | VScalar cav
  | VObject nat

fun children :: "pyval \<Rightarrow> pyval list" where
  "children (VPartial f args keywords) = f # args @ map snd keywords"
| "children (VDataclass fs) = map fd_value fs"
| "children (VDict kvs) = map snd kvs"
| "children (VList vs) = vs"
| "children (VTuple vs) = vs"
| "children (VSet vs) = vs"
| "children (VModel python json) = [python]"
| "children (VEnum mixin v) = [v]"
| "children v = []"

lemma children_size: "w \<in> set (children v) \<Longrightarrow> size w < size v"
proof -
  have item: "w \<in> set vs \<Longrightarrow> size w < Suc (size_list size vs)" for vs :: "pyval list"
    by (induction vs) auto
  have member: "(k, w) \<in> set kvs \<Longrightarrow> size w < Suc (size_list (size_prod (\<lambda>x. 0) size) kvs)"
    for k and kvs :: "('k \<times> pyval) list" by (induction kvs) auto
  have field: "w \<in> fd_value ` set fs \<Longrightarrow> size w < Suc (size_list (size_data_field size) fs)" for fs
    by (induction fs) (auto split: data_field.splits, (case_tac a, simp)+)
  show "w \<in> set (children v) \<Longrightarrow> size w < size v"
    by (cases v) (auto dest!: item member field)
qed

section \<open>Parts of the walk\<close>

definition qualified_name :: "pystr \<Rightarrow> pystr \<Rightarrow> pystr" where
  "qualified_name module qualname = module @ str_of ''.'' @ qualname"

definition bytes_hex :: "bytes \<Rightarrow> pystr" where
  "bytes_hex bs = concat (map (\<lambda>b. [lower_hex (unat b div 16), lower_hex (unat b mod 16)]) bs)"

definition identity_fields :: "'v data_field list \<Rightarrow> 'v data_field list" where
  "identity_fields fs =
     filter (\<lambda>f. case fd_hash f of Some h \<Rightarrow> h | None \<Rightarrow> fd_compare f) fs"

fun canonical_key :: "pykey \<Rightarrow> exn + pystr" where
  "canonical_key (KStr s) = Inr s"
| "canonical_key (KBool b) = Inr (if b then str_of ''true'' else str_of ''false'')"
| "canonical_key KNone = Inr (str_of ''null'')"
| "canonical_key (KFloat f) =
     (case f of
        FNan \<Rightarrow> Inr (str_of ''NaN'')
      | FInf neg \<Rightarrow> Inr (if \<not> neg then str_of ''Infinity'' else str_of ''-Infinity'')
      | FFin _ _ _ \<Rightarrow> Inr (float_repr f))"
| "canonical_key (KInt i) = Inr (show_int i)"
| "canonical_key (KOther n) = Inl ArgumentCanonicalizationError"

text \<open>The loop of \<open>_canonical_mapping\<close>, with the dictionary it fills.\<close>

fun canonical_items :: "('v \<Rightarrow> exn + cav) \<Rightarrow> (pystr, cav) dict \<Rightarrow> (pykey \<times> 'v) list \<Rightarrow>
    exn + (pystr, cav) dict" where
  "canonical_items recurse canonical [] = Inr canonical"
| "canonical_items recurse canonical ((key, v) # items) =
     bind_r (canonical_key key) (\<lambda>name.
       if map_of canonical name \<noteq> None then Inl ArgumentCanonicalizationError
       else bind_r (recurse v) (\<lambda>c. canonical_items recurse (AList.update name c canonical) items))"

definition canonical_mapping :: "('v \<Rightarrow> exn + cav) \<Rightarrow> (pykey \<times> 'v) list \<Rightarrow> exn + cav" where
  "canonical_mapping recurse items =
     bind_r (canonical_items recurse [] items) (\<lambda>canonical. Inr (CDict (map (map_prod Name id) canonical)))"

definition value_data :: "cav \<Rightarrow> exn + bytes" where
  "value_data v =
     bind_r (mk_canonical_arguments [(Name (str_of ''value''), v)]) (\<lambda>a. Inr (ca_data a))"

definition canonicalize_set :: "('v \<Rightarrow> exn + cav) \<Rightarrow> 'v list \<Rightarrow> exn + cav list" where
  "canonicalize_set recurse values =
     bind_r (traverse recurse values) (\<lambda>members.
       case py_sorted (\<lambda>member. member) members of
         Inr sorted_members \<Rightarrow> Inr sorted_members
       | Inl e \<Rightarrow>
           if is_instance e C_TypeError
           then bind_r (traverse value_data members) (\<lambda>keys.
                  Inr (map snd (sort_key fst (zip keys members))))
           else Inl e)"

definition require_canonical_value :: "cav \<Rightarrow> exn + unit" where
  "require_canonical_value v =
     bind_r (except_r (mk_canonical_arguments [(Name (str_of ''value''), v)])
       C_ArgumentCanonicalizationError ArgumentCanonicalizationError) (\<lambda>_. Inr ())"

text \<open>An instance of \<open>str\<close>, \<open>int\<close> or \<open>float\<close> is kept; it encodes as its scalar.\<close>

fun plain :: "pyval \<Rightarrow> cav option" where
  "plain VNone = Some CNull"
| "plain (VBool b) = Some (CBool b)"
| "plain (VInt i) = Some (CInt i)"
| "plain (VFloat f) = Some (CFloat f)"
| "plain (VStr s) = Some (CStr s)"
| "plain (VEnum mixin v) = (if mixin then plain v else None)"
| "plain v = None"

text \<open>\<open>None\<close> is \<open>_UNREPRESENTABLE\<close>.\<close>

definition derive_canonical :: "(pyval \<Rightarrow> exn + cav) \<Rightarrow> pyval \<Rightarrow> exn + cav option" where
  "derive_canonical recurse obj =
     (case plain obj of
        Some c \<Rightarrow> Inr (Some c)
      | None \<Rightarrow>
          (case obj of
             VType module qualname \<Rightarrow> Inr (Some (CStr (qualified_name module qualname)))
           | VPartial func args keywords \<Rightarrow>
               bind_r (recurse func) (\<lambda>f.
               bind_r (traverse recurse args) (\<lambda>as.
               bind_r (canonical_mapping recurse (map (map_prod KStr id) keywords)) (\<lambda>ks.
                 Inr (Some (CDict [(Name (str_of ''__partial__''), f),
                   (Name (str_of ''args''), CList as), (Name (str_of ''keywords''), ks)])))))
           | VDataclass fs \<Rightarrow>
               bind_r (traverse (\<lambda>f. bind_r (recurse (fd_value f)) (\<lambda>c. Inr (Name (fd_name f), c)))
                 (identity_fields fs)) (\<lambda>d. Inr (Some (CDict d)))
           | VDict items \<Rightarrow> bind_r (canonical_mapping recurse items) (\<lambda>d. Inr (Some d))
           | VList vs \<Rightarrow> bind_r (traverse recurse vs) (\<lambda>cs. Inr (Some (CList cs)))
           | VTuple vs \<Rightarrow> bind_r (traverse recurse vs) (\<lambda>cs. Inr (Some (CList cs)))
           | VSet vs \<Rightarrow> bind_r (canonicalize_set recurse vs) (\<lambda>cs. Inr (Some (CList cs)))
           | VBytes b \<Rightarrow> Inr (Some (CStr (bytes_hex b)))
           | VFunction module qualname \<Rightarrow> Inr (Some (CStr (qualified_name module qualname)))
           | _ \<Rightarrow> Inr None))"

definition to_canonical ::
  "(pyval \<Rightarrow> exn + cav) \<Rightarrow> (pyval \<Rightarrow> exn + cav) \<Rightarrow> pyval \<Rightarrow> exn + cav" where
  "to_canonical represent recurse obj =
     (case obj of
        VFallback v \<Rightarrow>
          bind_r (mk_canonical_arguments [(Name (str_of ''value''), CFallback v)]) (\<lambda>_. Inr (CFallback v))
      | _ \<Rightarrow>
          bind_r (derive_canonical recurse obj) (\<lambda>derived.
            case derived of
              Some c \<Rightarrow> Inr c
            | None \<Rightarrow>
                bind_r (represent obj) (\<lambda>representation.
                bind_r (require_canonical_value representation) (\<lambda>_.
                  Inr (CFallback representation)))))"

text \<open>The walk recurses into the parts of a value only.\<close>

lemma canonical_items_cong:
  "(\<And>k v. (k, v) \<in> set items \<Longrightarrow> f v = g v) \<Longrightarrow> canonical_items f d items = canonical_items g d items"
proof (induction items arbitrary: d)
  case (Cons kv items)
  then have "canonical_items f d' items = canonical_items g d' items" for d'
    by (auto intro: Cons.IH)
  moreover have "f (snd kv) = g (snd kv)" using Cons.prems [of "fst kv" "snd kv"] by simp
  ultimately show ?case by (cases kv) (simp cong: if_cong)
qed simp

lemma derive_canonical_cong:
  "(\<And>w. w \<in> set (children obj) \<Longrightarrow> f w = g w) \<Longrightarrow> derive_canonical f obj = derive_canonical g obj"
proof (cases obj)
  case (VPartial func args kws)
  assume eq: "\<And>w. w \<in> set (children obj) \<Longrightarrow> f w = g w"
  have "f y = g y" if "(x, y) \<in> set kws" for x y
    using eq [of y] that VPartial by force
  with eq have "f func = g func" "traverse f args = traverse g args"
    "canonical_items f [] (map (map_prod KStr id) kws) = canonical_items g [] (map (map_prod KStr id) kws)"
    using VPartial by (auto intro!: traverse_cong canonical_items_cong)
  then show ?thesis by (simp add: VPartial derive_canonical_def canonical_mapping_def)
next
  case (VDataclass fs)
  assume eq: "\<And>w. w \<in> set (children obj) \<Longrightarrow> f w = g w"
  then have "traverse (\<lambda>x. bind_r (f (fd_value x)) (\<lambda>c. Inr (Name (fd_name x), c))) (identity_fields fs)
      = traverse (\<lambda>x. bind_r (g (fd_value x)) (\<lambda>c. Inr (Name (fd_name x), c))) (identity_fields fs)"
    by (intro traverse_cong) (auto simp: VDataclass identity_fields_def)
  then show ?thesis by (simp add: VDataclass derive_canonical_def)
next
  case (VDict items)
  assume eq: "\<And>w. w \<in> set (children obj) \<Longrightarrow> f w = g w"
  then have "canonical_items f [] items = canonical_items g [] items"
    using VDict by (force intro: canonical_items_cong)
  then show ?thesis by (simp add: VDict derive_canonical_def canonical_mapping_def)
qed (simp_all add: derive_canonical_def canonicalize_set_def split: option.splits cong: traverse_cong)

lemma to_canonical_cong [fundef_cong]:
  "represent = represent' \<Longrightarrow> obj = obj' \<Longrightarrow> (\<And>w. w \<in> set (children obj') \<Longrightarrow> f w = g w) \<Longrightarrow>
     to_canonical represent f obj = to_canonical represent' g obj'"
  using derive_canonical_cong [of obj' f g] by (cases obj') (simp_all add: to_canonical_def)

section \<open>Fallback representers\<close>

text \<open>\<open>class_of\<close> is Python's \<open>type(value)\<close>, as its module and qualified name.\<close>

definition by_type_qualname :: "(pyval \<Rightarrow> pystr \<times> pystr) \<Rightarrow> pyval \<Rightarrow> exn + cav" where
  "by_type_qualname class_of v =
     (case class_of v of (module, qualname) \<Rightarrow> Inr (CStr (qualified_name module qualname)))"

definition reject_fallback :: "pyval \<Rightarrow> exn + cav" where
  "reject_fallback v = Inl ArgumentCanonicalizationError"

definition fallback_representer_or_reject ::
  "(pyval \<Rightarrow> exn + cav) option \<Rightarrow> pyval \<Rightarrow> exn + cav" where
  "fallback_representer_or_reject representer =
     (case representer of None \<Rightarrow> reject_fallback | Some r \<Rightarrow> r)"

section \<open>Canonicalizers\<close>

function canonicalize_value :: "(pyval \<Rightarrow> exn + cav) \<Rightarrow> pyval \<Rightarrow> exn + cav" where
  "canonicalize_value represent obj = to_canonical represent (canonicalize_value represent) obj"
  by pat_completeness auto
termination
  by (relation "measure (size \<circ> snd)") (auto dest: children_size)

declare canonicalize_value.simps [simp del]

function pydantic_value :: "(pyval \<Rightarrow> exn + cav) \<Rightarrow> pyval \<Rightarrow> exn + cav" where
  "pydantic_value represent obj =
     (case obj of
        VModel python json \<Rightarrow> to_canonical represent (pydantic_value represent) python
      | VEnum mixin v \<Rightarrow> bind_r (pydantic_value represent v) (\<lambda>c. Inr (CFallback c))
      | VScalar c \<Rightarrow> Inr (CFallback c)
      | _ \<Rightarrow> to_canonical represent (pydantic_value represent) obj)"
  by pat_completeness auto
termination
  by (relation "measure (size \<circ> snd)") (fastforce dest: children_size)+

declare pydantic_value.simps [simp del]

text \<open>\<open>canonicalize(arguments)\<close> of either class, given its \<open>canonicalize_value\<close>.\<close>

definition canonicalize_arguments ::
  "(pyval \<Rightarrow> exn + cav) \<Rightarrow> (pystr \<times> pyval) list \<Rightarrow> exn + canonical_arguments" where
  "canonicalize_arguments value_of arguments =
     bind_r (value_of (VDict (map (map_prod KStr id) arguments))) (\<lambda>canonical.
       case canonical of CDict kvs \<Rightarrow> mk_canonical_arguments kvs | _ \<Rightarrow> Inl AssertionError)"

lemma canonicalize_simps [simp]:
  "canonicalize_value r VNone = Inr CNull"
  "canonicalize_value r (VBool b) = Inr (CBool b)"
  "canonicalize_value r (VInt i) = Inr (CInt i)"
  "canonicalize_value r (VFloat f) = Inr (CFloat f)"
  "canonicalize_value r (VStr s) = Inr (CStr s)"
  "canonicalize_value r (VBytes bs) = Inr (CStr (bytes_hex bs))"
  "canonicalize_value r (VType module qualname) = Inr (CStr (qualified_name module qualname))"
  "canonicalize_value r (VFunction module qualname) = Inr (CStr (qualified_name module qualname))"
  "canonicalize_value r (VFallback v) =
     bind_r (mk_canonical_arguments [(Name (str_of ''value''), CFallback v)]) (\<lambda>_. Inr (CFallback v))"
  "canonicalize_value r (VList vs) =
     bind_r (traverse (canonicalize_value r) vs) (\<lambda>cs. Inr (CList cs))"
  "canonicalize_value r (VTuple vs) =
     bind_r (traverse (canonicalize_value r) vs) (\<lambda>cs. Inr (CList cs))"
  "canonicalize_value r (VSet vs) =
     bind_r (canonicalize_set (canonicalize_value r) vs) (\<lambda>cs. Inr (CList cs))"
  "canonicalize_value r (VDict items) = canonical_mapping (canonicalize_value r) items"
  by (simp_all add: canonicalize_value.simps to_canonical_def derive_canonical_def bind_r_assoc)
     (simp_all add: bind_r_def split: sum.splits)

section \<open>Mappings\<close>

lemma canonical_items_Inr_iff:
  "canonical_items recurse d items = Inr out \<longleftrightarrow>
     (\<exists>names cs. traverse canonical_key (map fst items) = Inr names \<and>
        traverse recurse (map snd items) = Inr cs \<and> distinct names \<and>
        set names \<inter> fst ` set d = {} \<and> out = d @ zip names cs)"
proof (induction items arbitrary: d)
  case (Cons kv items)
  obtain k v where kv: "kv = (k, v)" by (cases kv)
  have step: "map_of d name = None \<Longrightarrow> AList.update name c d = d @ [(name, c)]" for name c
    by (rule update_new_key) (simp add: map_of_eq_None_iff)
  show ?case
  proof (cases "canonical_key k")
    case (Inr name)
    show ?thesis
    proof (cases "recurse v")
      case R: (Inr c)
      have "canonical_items recurse d (kv # items) = Inr out \<longleftrightarrow>
          map_of d name = None \<and> canonical_items recurse (d @ [(name, c)]) items = Inr out"
        using step by (auto simp: kv Inr R)
      also have "\<dots> \<longleftrightarrow> (\<exists>names cs. traverse canonical_key (map fst (kv # items)) = Inr names \<and>
          traverse recurse (map snd (kv # items)) = Inr cs \<and> distinct names \<and>
          set names \<inter> fst ` set d = {} \<and> out = d @ zip names cs)"
        unfolding Cons.IH by (fastforce simp: kv Inr R result_simps map_of_eq_None_iff)
      finally show ?thesis .
    qed (auto simp: kv Inr result_simps)
  qed (auto simp: kv result_simps)
qed auto

lemma canonical_mapping_Inr_iff:
  "canonical_mapping recurse items = Inr m \<longleftrightarrow>
     (\<exists>names cs. traverse canonical_key (map fst items) = Inr names \<and> distinct names \<and>
        traverse recurse (map snd items) = Inr cs \<and> m = CDict (zip (map Name names) cs))"
proof -
  have "map (map_prod Name id) (zip names cs) = zip (map Name names) cs" for names and cs :: "cav list"
    by (induction names cs rule: list_induct2') auto
  then show ?thesis
    by (auto simp: canonical_mapping_def canonical_items_Inr_iff result_simps)
qed

section \<open>Errors\<close>

lemma mk_canonical_arguments_error:
  "mk_canonical_arguments kvs = Inl e \<Longrightarrow> e = ArgumentCanonicalizationError"
  unfolding mk_canonical_arguments_enc
  by (auto simp: bind_r_Inl_iff dest: encode_canonical_error split: if_splits)

lemma canonical_key_error: "canonical_key k = Inl e \<Longrightarrow> e = ArgumentCanonicalizationError"
  by (cases k) (auto split: pyfloat.splits)

lemma canonical_items_error:
  "canonical_items recurse d items = Inl e \<Longrightarrow>
     e = ArgumentCanonicalizationError \<or> (\<exists>v \<in> snd ` set items. recurse v = Inl e)"
  by (induction recurse d items rule: canonical_items.induct)
     (auto simp: bind_r_Inl_iff dest: canonical_key_error split: if_splits)

lemma canonicalize_set_error:
  "canonicalize_set recurse vs = Inl e \<Longrightarrow>
     e = ArgumentCanonicalizationError \<or> (\<exists>v \<in> set vs. recurse v = Inl e)"
  by (auto simp: canonicalize_set_def py_sorted_def is_instance_def value_data_def bind_r_Inl_iff
      dest!: traverse_ex_Inl mk_canonical_arguments_error split: sum.splits if_splits)

lemma derive_canonical_error:
  assumes "derive_canonical recurse obj = Inl e"
  shows "e = ArgumentCanonicalizationError \<or> (\<exists>w \<in> set (children obj). recurse w = Inl e)"
proof (cases obj)
  case (VPartial func args kws)
  then show ?thesis
    using assms
    by (auto simp: derive_canonical_def canonical_mapping_def bind_r_Inl_iff ball_Un
        dest!: traverse_ex_Inl canonical_items_error) fastforce
next
  case (VDataclass fs)
  then show ?thesis
    using assms
    by (auto simp: derive_canonical_def identity_fields_def bind_r_Inl_iff dest!: traverse_ex_Inl)
next
  case (VDict items)
  then show ?thesis
    using assms canonical_items_error [of recurse "[]" items e]
    by (auto simp: derive_canonical_def canonical_mapping_def bind_r_Inl_iff)
next
  case (VSet vs)
  then show ?thesis
    using assms canonicalize_set_error [of recurse vs e]
    by (auto simp: derive_canonical_def bind_r_Inl_iff)
qed (use assms in \<open>auto simp: derive_canonical_def bind_r_Inl_iff dest!: traverse_ex_Inl split: option.splits\<close>)

lemma require_canonical_value_error:
  "require_canonical_value v = Inl e \<Longrightarrow> e = ArgumentCanonicalizationError"
  by (auto simp: require_canonical_value_def except_r_def bind_r_Inl_iff
      dest: mk_canonical_arguments_error split: sum.splits if_splits)

lemma to_canonical_error:
  assumes "to_canonical represent recurse obj = Inl e"
  shows "e = ArgumentCanonicalizationError \<or> represent obj = Inl e \<or>
    (\<exists>w \<in> set (children obj). recurse w = Inl e)"
  using assms derive_canonical_error [of recurse obj e]
  by (cases obj) (auto simp: to_canonical_def bind_r_Inl_iff
      dest: mk_canonical_arguments_error require_canonical_value_error split: option.splits)

lemma canonicalize_value_error:
  assumes "\<And>v e. represent v = Inl e \<Longrightarrow> e = ArgumentCanonicalizationError"
  shows "canonicalize_value represent obj = Inl e \<Longrightarrow> e = ArgumentCanonicalizationError"
proof (induction "size obj" arbitrary: obj rule: less_induct)
  case less
  then show ?case
    using to_canonical_error [of represent "canonicalize_value represent" obj e] assms
      children_size [of _ obj] canonicalize_value.simps by metis
qed

lemma pydantic_value_error:
  assumes "\<And>v e. represent v = Inl e \<Longrightarrow> e = ArgumentCanonicalizationError"
  shows "pydantic_value represent obj = Inl e \<Longrightarrow> e = ArgumentCanonicalizationError"
proof (induction "size obj" arbitrary: obj rule: less_induct)
  case less
  have walk: "to_canonical represent (pydantic_value represent) w = Inl e \<Longrightarrow> size w \<le> size obj \<Longrightarrow>
      e = ArgumentCanonicalizationError" for w
    using to_canonical_error [of represent "pydantic_value represent" w e] assms
      children_size [of _ w] less.hyps by (metis order_less_le_trans)
  have other: ?case if "pydantic_value represent obj = to_canonical represent (pydantic_value represent) obj"
    using that less.prems walk [of obj] by simp
  show ?case
  proof (cases obj)
    case (VEnum mixin v)
    with less show ?thesis
      by (auto simp: pydantic_value.simps [of _ "VEnum mixin v"] bind_r_Inl_iff)
  next
    case (VModel python json)
    with less walk [of python] show ?thesis
      by (simp add: pydantic_value.simps [of _ "VModel python json"])
  qed (use less.prems in \<open>auto simp: pydantic_value.simps intro: other\<close>)
qed

lemma to_canonical_dict:
  "to_canonical represent recurse (VDict items) = canonical_mapping recurse items"
  by (simp add: to_canonical_def derive_canonical_def bind_r_assoc) (simp add: bind_r_def split: sum.splits)

lemma canonicalize_arguments_error:
  assumes "\<And>obj e. value_of obj = Inl e \<Longrightarrow> e = ArgumentCanonicalizationError"
    and "\<And>items. value_of (VDict items) = canonical_mapping value_of items"
  shows "(\<exists>a. canonicalize_arguments value_of arguments = Inr a) \<or>
    canonicalize_arguments value_of arguments = Inl ArgumentCanonicalizationError"
proof (cases "value_of (VDict (map (map_prod KStr id) arguments))")
  case (Inl e)
  with assms(1) [OF this] show ?thesis by (simp add: canonicalize_arguments_def)
next
  case (Inr c)
  then obtain kvs where "c = CDict kvs"
    using assms(2) by (auto simp: canonical_mapping_Inr_iff)
  with Inr show ?thesis
    by (cases "mk_canonical_arguments kvs")
       (auto simp: canonicalize_arguments_def dest: mk_canonical_arguments_error)
qed

lemma reject_fallback_error: "reject_fallback v = Inl e \<Longrightarrow> e = ArgumentCanonicalizationError"
  by (simp add: reject_fallback_def)

lemma by_type_qualname_error: "by_type_qualname class_of v = Inl e \<Longrightarrow> e = ArgumentCanonicalizationError"
  by (simp add: by_type_qualname_def split: prod.splits)

lemma value_of_dict:
  "canonicalize_value r (VDict items) = canonical_mapping (canonicalize_value r) items"
  "pydantic_value r (VDict items) = canonical_mapping (pydantic_value r) items"
  by (simp_all add: pydantic_value.simps [of r "VDict items"] to_canonical_dict)

lemma canonicalize_outcome_of:
  assumes "\<And>v e. r v = Inl e \<Longrightarrow> e = ArgumentCanonicalizationError"
  shows "(\<exists>a. canonicalize_arguments (canonicalize_value r) arguments = Inr a) \<or>
      canonicalize_arguments (canonicalize_value r) arguments = Inl ArgumentCanonicalizationError"
    and "(\<exists>a. canonicalize_arguments (pydantic_value r) arguments = Inr a) \<or>
      canonicalize_arguments (pydantic_value r) arguments = Inl ArgumentCanonicalizationError"
proof -
  show "(\<exists>a. canonicalize_arguments (canonicalize_value r) arguments = Inr a) \<or>
      canonicalize_arguments (canonicalize_value r) arguments = Inl ArgumentCanonicalizationError"
    by (rule canonicalize_arguments_error [OF canonicalize_value_error value_of_dict(1)]) (use assms in auto)
  show "(\<exists>a. canonicalize_arguments (pydantic_value r) arguments = Inr a) \<or>
      canonicalize_arguments (pydantic_value r) arguments = Inl ArgumentCanonicalizationError"
    by (rule canonicalize_arguments_error [OF pydantic_value_error value_of_dict(2)]) (use assms in auto)
qed

section \<open>Recorded arguments\<close>

text \<open>The logical value that a canonical value is for the application that reads it back.\<close>

fun as_python_key :: "arg_key \<Rightarrow> pykey" where
  "as_python_key (Name s) = KStr s"
| "as_python_key (AlienKey n) = KOther n"

primrec as_python :: "cav \<Rightarrow> pyval" where
  "as_python CNull = VNone"
| "as_python (CBool b) = VBool b"
| "as_python (CInt i) = VInt i"
| "as_python (CFloat f) = VFloat f"
| "as_python (CStr s) = VStr s"
| "as_python (CFallback v) = VFallback v"
| "as_python (CList vs) = VList (map as_python vs)"
| "as_python (CDict kvs) = VDict (map (map_prod as_python_key id) (map (map_prod id as_python) kvs))"
| "as_python (CAlien n) = VObject n"

lemma as_python_items: "as_python (CDict kvs) = VDict (map (map_prod as_python_key as_python) kvs)"
  by (simp add: map_prod.comp)

lemma orderly_fallback_accepted:
  "orderly v \<Longrightarrow> \<exists>a. mk_canonical_arguments [(Name (str_of ''value''), CFallback v)] = Inr a"
  by (rule mapping_ok_accepted [THEN iffD2]) (auto simp: orderly_def fallback_marker_key_def)

lemma canonical_mapping_as_python:
  assumes "orderly (CDict kvs)" "\<And>k v. (k, v) \<in> set kvs \<Longrightarrow> recurse (as_python v) = Inr v"
  shows "canonical_mapping recurse (map (map_prod as_python_key as_python) kvs) = Inr (CDict kvs)"
  unfolding canonical_mapping_Inr_iff
proof (intro exI conjI)
  have key: "Name (key_name k) = k" if "(k, v) \<in> set kvs" for k v
    using orderly_member(3) [OF assms(1) that] .
  show "traverse canonical_key (map fst (map (map_prod as_python_key as_python) kvs))
      = Inr (map (\<lambda>kv. key_name (fst kv)) kvs)"
    unfolding traverse_map
  proof (rule traverse_Inr_map)
    fix kv assume "kv \<in> set kvs"
    with key [of "fst kv" "snd kv"]
    show "canonical_key (fst (map_prod as_python_key as_python kv)) = Inr (key_name (fst kv))"
      by (cases kv; cases "fst kv") auto
  qed
  show "distinct (map (\<lambda>kv. key_name (fst kv)) kvs)"
    using orderly_member(2) [OF assms(1), of id] by (simp add: comp_def)
  show "traverse recurse (map snd (map (map_prod as_python_key as_python) kvs)) = Inr (map snd kvs)"
    unfolding traverse_map by (rule traverse_Inr_map) (use assms(2) in auto)
  have "map Name (map (\<lambda>kv. key_name (fst kv)) kvs) = map fst kvs"
    using key by auto
  then show "CDict kvs = CDict (zip (map Name (map (\<lambda>kv. key_name (fst kv)) kvs)) (map snd kvs))"
    by (simp only: zip_map_fst_snd)
qed

lemma canonicalize_as_python: "orderly v \<Longrightarrow> canonicalize_value r (as_python v) = Inr v"
proof (induction "size v" arbitrary: v rule: less_induct)
  case less
  show ?case
  proof (cases v)
    case (CFallback w)
    with less.prems orderly_fallback_accepted [of w] show ?thesis by auto
  next
    case (CList vs)
    then have "traverse (canonicalize_value r) (map as_python vs) = Inr vs"
      using less cav_size_item by (simp add: traverse_map) (subst traverse_Inr_map [where g = id], auto)
    with CList show ?thesis by simp
  next
    case (CDict kvs)
    show ?thesis
      unfolding CDict as_python_items canonicalize_simps
      by (rule canonical_mapping_as_python)
         (use less CDict cav_size_member orderly_member(1) in fastforce)+
  qed (use less.prems in simp_all)
qed

lemma canonicalize_recorded:
  assumes "mk_canonical_arguments kvs = Inr a" "python_value (CDict kvs)"
  shows "canonicalize_arguments (canonicalize_value r) (map (map_prod key_name as_python) kvs) = Inr a"
proof -
  have o: "orderly (CDict kvs)" using mk_canonical_arguments_ok(1) [OF assms] assms(2) by (simp add: orderly_def)
  have "as_python_key k = KStr (key_name k)" if "(k, v) \<in> set kvs" for k v
    using orderly_member(3) [OF o that] by (metis as_python_key.simps(1))
  then have "map (map_prod KStr id) (map (map_prod key_name as_python) kvs) = map (map_prod as_python_key as_python) kvs"
    by auto
  then have "canonicalize_value r (VDict (map (map_prod KStr id) (map (map_prod key_name as_python) kvs)))
      = Inr (CDict kvs)"
    using canonicalize_as_python [OF o, of r] as_python_items by metis
  with assms(1) show ?thesis by (simp add: canonicalize_arguments_def)
qed

section \<open>Sets\<close>

text \<open>
  The order in which a set iterates does not matter as long as two members that neither side of
  \<open><\<close> tells apart have the same encoding (\<open>ties_agree\<close>).
\<close>

definition same_encoding :: "cav \<Rightarrow> cav \<Rightarrow> bool" where
  "same_encoding v w \<longleftrightarrow> sort_json (enc v) = sort_json (enc w)"

definition ties_agree :: "cav list \<Rightarrow> bool" where
  "ties_agree ms = list_all (\<lambda>v. list_all (\<lambda>w.
     \<not> (py_lt v w = Some False \<and> py_lt w v = Some False) \<or> same_encoding v w) ms) ms"

lemma ties_agreeD:
  "ties_agree ms \<Longrightarrow> v \<in> set ms \<Longrightarrow> w \<in> set ms \<Longrightarrow> py_lt v w = Some False \<Longrightarrow> py_lt w v = Some False \<Longrightarrow>
     same_encoding v w"
  unfolding ties_agree_def list_all_iff by blast

lemma map_sort_key_cong:
  assumes "mset xs = mset ys" "\<And>x y. x \<in> set xs \<Longrightarrow> y \<in> set xs \<Longrightarrow> k x = k y \<Longrightarrow> f x = f y"
  shows "map f (sort_key k xs) = map f (sort_key (k :: 'a \<Rightarrow> 'b :: linorder) ys)"
proof -
  define g where "g t = f (inv_into (set xs) k t)" for t
  have g: "f x = g (k x)" if "x \<in> set xs" for x
    unfolding g_def using that assms(2) by (metis f_inv_into_f image_eqI inv_into_into)
  have eq: "set ys = set xs" using assms(1) by (metis set_mset_mset)
  have "map k (sort_key k zs) = sort (map k zs)" for zs
    by (rule sym, rule properties_for_sort) auto
  moreover have "sort (map k xs) = sort (map k ys)"
    by (rule properties_for_sort) (simp_all add: assms(1))
  ultimately have keys: "map k (sort_key k xs) = map k (sort_key k ys)" by simp
  have "map f (sort_key k xs) = map g (map k (sort_key k xs))" using g by simp
  also have "\<dots> = map f (sort_key k ys)" using g eq by (simp add: keys)
  finally show ?thesis .
qed

lemma sorted_wrt_mset_eq:
  "mset xs = mset ys \<Longrightarrow> sorted_wrt R xs \<Longrightarrow> (\<And>x y. x \<in> set xs \<Longrightarrow> y \<in> set xs \<Longrightarrow> R x y \<Longrightarrow> R y x) \<Longrightarrow>
     sorted_wrt R ys"
proof (induction xs arbitrary: ys)
  case (Cons x xs)
  then have "x \<in> set ys" by (metis list.set_intros(1) set_mset_mset)
  then obtain as bs where ys: "ys = as @ x # bs" by (meson split_list)
  then have m: "mset xs = mset (as @ bs)" using Cons.prems(1) by simp
  then have "set xs = set as \<union> set bs" by (metis set_append set_mset_mset)
  moreover have "sorted_wrt R (as @ bs)" by (rule Cons.IH [OF m]) (use Cons.prems in auto)
  ultimately show ?case using Cons.prems by (auto simp: ys sorted_wrt_append)
qed simp

lemma value_data_encoding:
  assumes "value_data v = Inr d" "value_data w = Inr d" "orderly v" "orderly w"
  shows "same_encoding v w"
proof -
  let ?n = "Name (str_of ''value'')"
  obtain a b where "mk_canonical_arguments [(?n, v)] = Inr a" "mk_canonical_arguments [(?n, w)] = Inr b"
    "ca_data a = d" "ca_data b = d"
    using assms(1,2) by (auto simp: value_data_def result_simps)
  then have "ca_decode a = Inr (sort_args [(?n, v)])" "ca_decode b = Inr (sort_args [(?n, w)])" "a = b"
    using ca_decode_mk [of "[(?n, v)]" a] ca_decode_mk [of "[(?n, w)]" b] assms(3,4)
    by (auto simp: orderly_def canonical_arguments.expand)
  then have "sort_cav v = sort_cav w" by (simp add: sort_args_def)
  then show ?thesis using sort_json_enc_sort_cav by (metis same_encoding_def)
qed

lemma traverse_projr:
  "traverse f xs = Inr ys \<Longrightarrow> ys = map (\<lambda>x. projr (f x)) xs \<and> (\<forall>x \<in> set xs. f x = Inr (projr (f x)))"
  by (induction xs arbitrary: ys) (auto simp: result_simps)

lemma traverse_mset_eq:
  assumes "traverse f xs = Inr ys" "mset zs = mset xs"
  obtains ys' where "traverse f zs = Inr ys'" "mset ys' = mset ys"
proof -
  have "set zs = set xs" using assms(2) by (metis set_mset_mset)
  then have "traverse f zs = Inr (map (\<lambda>x. projr (f x)) zs)"
    using traverse_projr [OF assms(1)] by (intro traverse_Inr_map) auto
  moreover have "mset (map (\<lambda>x. projr (f x)) zs) = mset ys"
    using traverse_projr [OF assms(1)] assms(2) by simp
  ultimately show thesis by (rule that)
qed

lemma sorted_wrt_pair:
  "sorted_wrt R xs \<Longrightarrow> x \<in> set xs \<Longrightarrow> y \<in> set xs \<Longrightarrow> x \<noteq> y \<Longrightarrow> R x y \<or> R y x"
  by (induction xs) auto

text \<open>\<open>canonicalize_set\<close> is a sort by a key on which two members tie only if they encode the same.\<close>

lemma canonicalize_set_sort:
  assumes "traverse recurse vs = Inr ms" "\<forall>m \<in> set ms. orderly m" "all_compare ms"
  shows "canonicalize_set recurse vs = Inr (sort_key order_key ms)"
  using assms by (simp add: canonicalize_set_def py_sorted_key)

lemma canonicalize_set_by_data:
  assumes "traverse recurse vs = Inr ms" "\<not> all_compare ms" "traverse value_data ms = Inr ds"
  shows "canonicalize_set recurse vs = Inr (sort_key (\<lambda>m. projr (value_data m)) ms)"
proof -
  let ?d = "\<lambda>m. projr (value_data m)"
  have "zip ds ms = map (\<lambda>m. (?d m, m)) ms"
    using traverse_projr [OF assms(3)] by (simp add: zip_map1 zip_same_conv_map)
  then have "sort_key fst (zip ds ms) = map (\<lambda>m. (?d m, m)) (sort_key ?d ms)"
    by (simp add: sort_key_map)
  with assms show ?thesis
    by (simp add: canonicalize_set_def py_sorted_def is_instance_def comp_def)
qed

lemma sorted_outcome:
  "m = Inr (sort_key k xs) \<Longrightarrow> m = Inr out \<Longrightarrow> m' = Inr (sort_key k ys) \<Longrightarrow> set ys = set xs \<Longrightarrow>
     map f (sort_key k xs) = map f (sort_key k ys) \<Longrightarrow>
     \<exists>out'. m' = Inr out' \<and> map f out = map f out' \<and> set out = set xs \<and> set out' = set xs"
  by auto

lemma canonicalize_set_order:
  assumes "canonicalize_set recurse vs = Inr out" "traverse recurse vs = Inr ms"
    and o: "\<forall>m \<in> set ms. orderly m" and ties: "ties_agree ms" and "mset ws = mset vs"
  shows "\<exists>out'. canonicalize_set recurse ws = Inr out' \<and>
    map (\<lambda>v. sort_json (enc v)) out = map (\<lambda>v. sort_json (enc v)) out' \<and>
    set out = set ms \<and> set out' = set ms"
proof -
  obtain ms' where ms': "traverse recurse ws = Inr ms'" "mset ms' = mset ms"
    using traverse_mset_eq [OF assms(2,5)] .
  have set_eq: "set ms' = set ms" using ms'(2) by (metis set_mset_mset)
  let ?R = "\<lambda>v w. py_lt v w \<noteq> None"
  have pairs: "all_compare xs \<longleftrightarrow> sorted_wrt ?R xs" if "set xs = set ms" for xs
    using all_compare_pairs [of xs] o that by simp
  have sym: "?R v w \<Longrightarrow> ?R w v" if "v \<in> set ms" "w \<in> set ms" for v w
    using py_lt_None_commute [of v w] o that by simp
  have all: "all_compare ms \<longleftrightarrow> all_compare ms'"
    unfolding pairs [OF refl] pairs [OF set_eq]
    using sorted_wrt_mset_eq [OF ms'(2), of ?R] sorted_wrt_mset_eq [OF ms'(2) [symmetric], of ?R] sym set_eq
    by blast
  show ?thesis
  proof (cases "all_compare ms")
    case True
    have "map (\<lambda>v. sort_json (enc v)) (sort_key order_key ms) = map (\<lambda>v. sort_json (enc v)) (sort_key order_key ms')"
    proof (rule map_sort_key_cong)
      fix v w assume vw: "v \<in> set ms" "w \<in> set ms" "order_key v = order_key w"
      show "sort_json (enc v) = sort_json (enc w)"
      proof (cases "v = w")
        case False
        have "sorted_wrt ?R ms" using True pairs [OF refl] by blast
        then have "?R v w \<or> ?R w v" by (rule sorted_wrt_pair [OF _ vw(1,2) False])
        then have "py_lt v w \<noteq> None" "py_lt w v \<noteq> None"
          using sym [OF vw(1,2)] sym [OF vw(2,1)] by fast+
        then obtain b c where bc: "py_lt v w = Some b" "py_lt w v = Some c" by auto
        have ov: "orderly v" "orderly w" using vw(1,2) o by blast+
        have "\<not> b" unfolding py_lt_key [OF bc(1) ov] vw(3) by simp
        moreover have "\<not> c" unfolding py_lt_key [OF bc(2) ov(2,1)] vw(3) by simp
        ultimately have "py_lt v w = Some False" "py_lt w v = Some False" using bc by simp_all
        then show ?thesis using ties_agreeD [OF ties vw(1,2)] unfolding same_encoding_def by blast
      qed simp
    qed (use ms' in simp)
    then show ?thesis
      using canonicalize_set_sort [OF ms'(1)] o all True set_eq
      by (intro sorted_outcome [OF canonicalize_set_sort [OF assms(2) o True] assms(1)]) auto
  next
    case False
    let ?d = "\<lambda>m. projr (value_data m)"
    obtain ds where ds: "traverse value_data ms = Inr ds"
      using assms(1,2) False by (auto simp: canonicalize_set_def py_sorted_def is_instance_def result_simps)
    obtain ds' where ds': "traverse value_data ms' = Inr ds'"
      using traverse_mset_eq [OF ds ms'(2)] by blast
    have "map (\<lambda>v. sort_json (enc v)) (sort_key ?d ms) = map (\<lambda>v. sort_json (enc v)) (sort_key ?d ms')"
    proof (rule map_sort_key_cong)
      fix v w assume vw: "v \<in> set ms" "w \<in> set ms" "?d v = ?d w"
      then have d: "value_data v = Inr (?d v)" "value_data w = Inr (?d v)"
        using traverse_projr [OF ds] by metis+
      have "orderly v" "orderly w" using vw(1,2) o by blast+
      then show "sort_json (enc v) = sort_json (enc w)"
        using value_data_encoding [OF d] unfolding same_encoding_def by blast
    qed (use ms' in simp)
    then show ?thesis
      using canonicalize_set_by_data [OF ms'(1) _ ds'] all False set_eq
      by (intro sorted_outcome [OF canonicalize_set_by_data [OF assms(2) False ds] assms(1)]) auto
  qed
qed

lemma canonicalize_arguments_set:
  assumes "canonicalize_arguments (canonicalize_value r) [(n, VSet vs)] = Inr a"
    and "traverse (canonicalize_value r) vs = Inr ms" "\<forall>m \<in> set ms. orderly m" "ties_agree ms"
    and "mset ws = mset vs"
  shows "canonicalize_arguments (canonicalize_value r) [(n, VSet ws)] = Inr a"
proof -
  have set_value: "canonicalize_value r (VDict [(KStr n, VSet us)]) = Inr (CDict [(Name n, CList out)])"
    if "canonicalize_set (canonicalize_value r) us = Inr out" for us out
    using that by (simp add: canonical_mapping_def)
  obtain out where out: "canonicalize_set (canonicalize_value r) vs = Inr out"
    using assms(1) by (auto simp: canonicalize_arguments_def canonical_mapping_def result_simps)
  obtain out' where out': "canonicalize_set (canonicalize_value r) ws = Inr out'"
    and eq: "map (\<lambda>v. sort_json (enc v)) out = map (\<lambda>v. sort_json (enc v)) out'"
    and "set out = set ms" "set out' = set ms"
    using canonicalize_set_order [OF out assms(2-5)] by blast
  then have ok: "\<forall>m \<in> set out. orderly m" "\<forall>m \<in> set out'. orderly m" using assms(3) by auto
  have "encode_canonical (enc (CDict [(Name n, CList out')])) = encode_canonical (enc (CDict [(Name n, CList out)]))"
    using eq encode_canonical_sort_json [of "enc (CDict [(Name n, CList out')])"]
      encode_canonical_sort_json [of "enc (CDict [(Name n, CList out)])"]
    by (simp add: sort_items_def comp_def)
  moreover have "shape_ok (CDict [(Name n, CList out')]) \<longleftrightarrow> shape_ok (CDict [(Name n, CList out)])"
    using ok by (simp add: orderly_def list_all_iff)
  ultimately have "mk_canonical_arguments [(Name n, CList out')] = mk_canonical_arguments [(Name n, CList out)]"
    by (simp only: mk_canonical_arguments_enc)
  then show ?thesis
    using assms(1) set_value [OF out] set_value [OF out'] by (simp add: canonicalize_arguments_def)
qed

section \<open>The pydantic canonicalizer\<close>

text \<open>Values with nothing in them, at any depth, that only the pydantic canonicalizer treats.\<close>

fun pydantic_only :: "pyval \<Rightarrow> bool" where
  "pydantic_only (VModel _ _) = True"
| "pydantic_only (VEnum _ _) = True"
| "pydantic_only (VScalar _) = True"
| "pydantic_only _ = False"

function standard :: "pyval \<Rightarrow> bool" where
  "standard v = (\<not> pydantic_only v \<and> list_all standard (children v))"
  by pat_completeness auto
termination
  by (relation "measure size") (auto dest: children_size)

declare standard.simps [simp del]

lemma pydantic_value_standard: "standard v \<Longrightarrow> pydantic_value r v = canonicalize_value r v"
proof (induction "size v" arbitrary: v rule: less_induct)
  case less
  have "standard w" if "w \<in> set (children v)" for w
    using less.prems that by (simp add: standard.simps [of v] list_all_iff)
  then have "to_canonical r (pydantic_value r) v = to_canonical r (canonicalize_value r) v"
    by (intro to_canonical_cong [OF refl refl] less.hyps children_size)
  moreover have "\<not> pydantic_only v" using less.prems by (simp add: standard.simps [of v])
  then have "pydantic_value r v = to_canonical r (pydantic_value r) v"
    by (cases v) (simp_all add: pydantic_value.simps)
  ultimately show ?case by (simp add: canonicalize_value.simps [of r v])
qed

lemma standard_as_python: "standard (as_python v)"
proof (induction "size v" arbitrary: v rule: less_induct)
  case less
  show ?case
  proof (cases v)
    case (CList vs)
    with less cav_size_item show ?thesis by (fastforce simp: standard.simps [of "VList _"] list_all_iff)
  next
    case (CDict kvs)
    have "standard (as_python w)" if "(k, w) \<in> set kvs" for k w
      using less CDict cav_size_member [OF that] by simp
    then show ?thesis
      by (fastforce simp: CDict standard.simps [of "VDict _"] list_all_iff)
  qed (simp_all add: standard.simps)
qed

section \<open>Properties\<close>

abbreviation accepted_or_refused :: "exn + canonical_arguments \<Rightarrow> bool" where
  "accepted_or_refused m \<equiv> (\<exists>a. m = Inr a) \<or> m = Inl ArgumentCanonicalizationError"

text \<open>
  C27: A mapping is canonicalized exactly when every key has a canonical spelling and no two of
  them share it; the result then has one entry per key, in order, holding the canonical form of
  its value. So \<open>{1: x, "1": y}\<close> is refused instead of collapsing two calls onto one key.
\<close>
theorem canonical_mapping_exact:
  "canonicalize_value r (VDict items) = Inr m \<longleftrightarrow>
     (\<exists>names cs. traverse canonical_key (map fst items) = Inr names \<and> distinct names \<and>
        traverse (canonicalize_value r) (map snd items) = Inr cs \<and> m = CDict (zip (map Name names) cs))"
  unfolding canonicalize_simps by (rule canonical_mapping_Inr_iff)

text \<open>
  With either shipped fallback policy both canonicalizers answer canonical arguments or
  \<open>ArgumentCanonicalizationError\<close>, whatever the arguments: the \<open>TypeError\<close> of a set whose
  members do not compare never escapes, and the result of the walk over the arguments is always
  a mapping, as the assertion says.
\<close>
theorem canonicalize_outcome:
  "accepted_or_refused (canonicalize_arguments (canonicalize_value reject_fallback) arguments) \<and>
   accepted_or_refused (canonicalize_arguments (canonicalize_value (by_type_qualname class_of)) arguments) \<and>
   accepted_or_refused (canonicalize_arguments (pydantic_value reject_fallback) arguments) \<and>
   accepted_or_refused (canonicalize_arguments (pydantic_value (by_type_qualname class_of)) arguments)"
  by (intro conjI canonicalize_outcome_of reject_fallback_error by_type_qualname_error)

text \<open>
  C25: Recorded arguments canonicalize to themselves: decoding bytes a store returned and handing
  the values back, declared fallbacks included, gives the same canonical arguments and so the
  same key, in both canonicalizers and without consulting a fallback representer.
\<close>
theorem recorded_arguments_stable:
  assumes "from_recorded_bytes data = Inr a" "ca_decode a = Inr kvs" "python_value (CDict kvs)"
  shows "canonicalize_arguments (canonicalize_value r) (map (map_prod key_name as_python) kvs) = Inr a \<and>
    canonicalize_arguments (pydantic_value r) (map (map_prod key_name as_python) kvs) = Inr a"
proof -
  have mk: "mk_canonical_arguments kvs = Inr a"
    using from_recorded_bytes_canonical [OF assms(1)] assms(2) by auto
  let ?args = "map (map_prod KStr id) (map (map_prod key_name as_python) kvs)"
  have "standard (VDict ?args)"
    by (auto simp: standard.simps [of "VDict _"] list_all_iff standard_as_python)
  then have "pydantic_value r (VDict ?args) = canonicalize_value r (VDict ?args)"
    by (rule pydantic_value_standard)
  with canonicalize_recorded [OF mk assms(3), of r] show ?thesis
    by (simp add: canonicalize_arguments_def)
qed

theorem recorded_arguments_stable_witness:
  "\<exists>a. mk_canonical_arguments sample_arguments = Inr a \<and>
     canonicalize_arguments (canonicalize_value reject_fallback)
       [([97], VFallback (CStr [233])), ([98], VList [VInt (- 7), VBool True])] = Inr a"
proof -
  obtain a where a: "mk_canonical_arguments sample_arguments = Inr a"
    using mapping_ok_accepted sample_arguments_ok by blast
  have s: "sort_args sample_arguments
      = [(Name [97], CFallback (CStr [233])), (Name [98], CList [CInt (- 7), CBool True])]"
    by (simp add: sort_args_def sample_arguments_def)
  have d: "ca_decode a = Inr (sort_args sample_arguments)"
    by (rule ca_decode_mk [OF a sample_arguments_ok(1)])
  have "from_recorded_bytes (ca_data a) = Inr a"
    using d a mk_sort_args [of sample_arguments] by (cases a) (simp add: from_recorded_bytes_def Let_def)
  from recorded_arguments_stable [OF this d, of reject_fallback] a show ?thesis
    by (simp add: s)
qed

text \<open>
  C26: A set's iteration order is invisible: a call whose argument is a set has the same canonical
  arguments whatever order the set iterates in, also where the members do not compare and are
  sorted by their encodings, provided that members which compare as equal encode alike.
\<close>
theorem set_order_irrelevant:
  assumes "canonicalize_arguments (canonicalize_value r) [(n, VSet vs)] = Inr a"
    and "traverse (canonicalize_value r) vs = Inr ms" "\<forall>m \<in> set ms. orderly m" "ties_agree ms"
    and "mset ws = mset vs"
  shows "canonicalize_arguments (canonicalize_value r) [(n, VSet ws)] = Inr a"
  by (rule canonicalize_arguments_set [OF assms])

definition sample_set :: "pyval list" where
  "sample_set = [VStr [98], VInt 3, VTuple [VBool True, VBytes [0]], VStr [97]]"

definition sample_members :: "cav list" where
  "sample_members = [CStr [98], CInt 3, CList [CBool True, CStr [48, 48]], CStr [97]]"

lemma mk_canonical_arguments_ascii:
  assumes "shape_ok (CDict kvs)" "json_dumps (compact False) (enc (CDict kvs)) = Inr t" "\<forall>c \<in> set t. c < 128"
  shows "mk_canonical_arguments kvs = Inr (CanonicalArguments (map of_nat t))"
  using assms ascii_utf8 [of t] by (simp add: mk_canonical_arguments_enc encode_canonical_def)

definition sample_data :: "bytes list" where
  "sample_data = map (\<lambda>t. map of_nat (str_of t))
     [''{\"value\":\"b\"}'', ''{\"value\":3}'', ''{\"value\":[true,\"00\"]}'', ''{\"value\":\"a\"}'']"

theorem set_order_irrelevant_witness:
  "\<exists>a. canonicalize_arguments (canonicalize_value reject_fallback) [([120], VSet sample_set)] = Inr a \<and>
     canonicalize_arguments (canonicalize_value reject_fallback) [([120], VSet (rev sample_set))] = Inr a"
proof -
  have members: "traverse (canonicalize_value reject_fallback) sample_set = Inr sample_members"
    by (simp add: sample_set_def sample_members_def bytes_hex_def lower_hex_def)
  have "\<not> all_compare sample_members" by (simp add: sample_members_def)
  moreover have "traverse value_data sample_members = Inr sample_data"
    by (simp add: sample_members_def sample_data_def value_data_def mk_canonical_arguments_ascii
        fallback_marker_key_def json_dumps_def compact_def newline_def key_separator_def
        sort_items_def encode_string_def escape_char_def show_int_def show_nat.simps)
  ultimately have "canonicalize_set (canonicalize_value reject_fallback) sample_set
      = Inr (sort_key (\<lambda>m. projr (value_data m)) sample_members)"
    by (rule canonicalize_set_by_data [OF members])
  then have "canonicalize_value reject_fallback (VDict [(KStr [120], VSet sample_set)])
      = Inr (CDict [(Name [120], CList (sort_key (\<lambda>m. projr (value_data m)) sample_members))])"
    by (simp add: canonical_mapping_def)
  moreover have "\<exists>a. mk_canonical_arguments
      [(Name [120], CList (sort_key (\<lambda>m. projr (value_data m)) sample_members))] = Inr a"
    by (rule mapping_ok_accepted [THEN iffD2]) (simp_all add: sample_members_def fallback_marker_key_def)
  ultimately have "\<exists>a. canonicalize_arguments (canonicalize_value reject_fallback) [([120], VSet sample_set)] = Inr a"
    by (simp add: canonicalize_arguments_def)
  moreover note members
  moreover have "ties_agree sample_members"
    by (simp add: ties_agree_def sample_members_def same_encoding_def)
  moreover have "\<forall>m \<in> set sample_members. orderly m"
    by (simp add: sample_members_def orderly_def)
  moreover have "mset (rev sample_set) = mset sample_set" by simp
  ultimately show ?thesis using set_order_irrelevant by blast
qed

text \<open>
  Without that proviso it does matter: \<open>{(1, b"a"), (True, "61")}\<close> has two members whose canonical
  forms compare as equal and encode differently, so its canonical arguments, and the key of the
  call, depend on the order the set happens to iterate in.
\<close>
theorem set_tie_order:
  "canonicalize_arguments (canonicalize_value reject_fallback)
     [([120], VSet [VTuple [VInt 1, VBytes [97]], VTuple [VBool True, VStr [54, 49]]])]
       = Inr (CanonicalArguments (map of_nat (str_of ''{\"x\":[[1,\"61\"],[true,\"61\"]]}''))) \<and>
   canonicalize_arguments (canonicalize_value reject_fallback)
     [([120], VSet [VTuple [VBool True, VStr [54, 49]], VTuple [VInt 1, VBytes [97]]])]
       = Inr (CanonicalArguments (map of_nat (str_of ''{\"x\":[[true,\"61\"],[1,\"61\"]]}'')))"
proof -
  let ?a = "CList [CInt 1, CStr [54, 49]]" and ?b = "CList [CBool True, CStr [54, 49]]"
  let ?v = "VTuple [VInt 1, VBytes [97]]" and ?w = "VTuple [VBool True, VStr [54, 49]]"
  have eq: "py_eq (CInt 1) (CBool True)" "py_eq (CBool True) (CInt 1)"
    by (simp_all add: py_eq.simps number_eq_def scaled_def number.simps)
  have "canonicalize_value reject_fallback (VDict [(KStr [120], VSet [?v, ?w])])
      = Inr (CDict [(Name [120], CList [?a, ?b])])"
    "canonicalize_value reject_fallback (VDict [(KStr [120], VSet [?w, ?v])])
      = Inr (CDict [(Name [120], CList [?b, ?a])])"
    by (simp_all add: canonical_mapping_def canonicalize_set_def py_sorted_def eq bytes_hex_def lower_hex_def)
  moreover have "mk_canonical_arguments [(Name [120], CList [?a, ?b])]
      = Inr (CanonicalArguments (map of_nat (str_of ''{\"x\":[[1,\"61\"],[true,\"61\"]]}'')))"
    "mk_canonical_arguments [(Name [120], CList [?b, ?a])]
      = Inr (CanonicalArguments (map of_nat (str_of ''{\"x\":[[true,\"61\"],[1,\"61\"]]}'')))"
    by (simp_all add: mk_canonical_arguments_ascii
        fallback_marker_key_def json_dumps_def compact_def newline_def key_separator_def
        sort_items_def encode_string_def escape_char_def show_int_def show_nat.simps)
  ultimately show ?thesis by (simp add: canonicalize_arguments_def del: str_of_simps)
qed

end
