(* ===== verification/Serialization.thy ===== *)
theory Serialization
  imports Canonicalize
begin

text \<open>
  The JSON serializer of results and metadata (\<open>serialization/_json.py\<close>, \<open>_utils.py\<close>) and the
  pydantic one over it (\<open>glyff_pydantic/_serialization.py\<close>).

  \<open>dump_value\<close> is \<open>json.dumps(value, sort_keys=True, default=...)\<close> on the application's values:
  it sorts the items of a dictionary by their keys before it spells the keys, and asks the
  \<open>default\<close> hook for whatever JSON has no form for. The lemmas show that it agrees with the
  writer of the JSON theory on plain JSON values, which then read back, and which errors leave a
  serializer.
\<close>

section \<open>Hooks\<close>

primrec cav_weight :: "cav \<Rightarrow> nat" where
  "cav_weight CNull = 1"
| "cav_weight (CBool b) = 1"
| "cav_weight (CInt i) = 1"
| "cav_weight (CFloat f) = 1"
| "cav_weight (CStr s) = 1"
| "cav_weight (CFallback v) = Suc (Suc (cav_weight v))"
| "cav_weight (CList vs) = Suc (sum_list (map cav_weight vs))"
| "cav_weight (CDict kvs) = Suc (sum_list (map snd (map (map_prod id cav_weight) kvs)))"
| "cav_weight (CAlien n) = 1"

primrec weight :: "pyval \<Rightarrow> nat" where
  "weight VNone = 1"
| "weight (VBool b) = 1"
| "weight (VInt i) = 1"
| "weight (VFloat f) = 1"
| "weight (VStr s) = 1"
| "weight (VFallback c) = Suc (Suc (cav_weight c))"
| "weight (VType module qualname) = 2"
| "weight (VPartial f vs ks) = 1"
| "weight (VDataclass fs) = Suc (Suc (sum_list (map fd_value (map (map_data_field weight) fs))))"
| "weight (VDict kvs) = Suc (sum_list (map snd (map (map_prod id weight) kvs)))"
| "weight (VList vs) = Suc (sum_list (map weight vs))"
| "weight (VTuple vs) = Suc (sum_list (map weight vs))"
| "weight (VSet vs) = 1"
| "weight (VBytes bs) = 1"
| "weight (VFunction module qualname) = 2"
| "weight (VModel python json) = Suc (weight json)"
| "weight (VEnum mixin v) = 1"
| "weight (VScalar c) = 1"
| "weight (VObject n) = 1"

definition to_serializable :: "pyval \<Rightarrow> exn + pyval" where
  "to_serializable obj =
     (case obj of
        VType module qualname \<Rightarrow> Inr (VStr (qualified_name module qualname))
      | VDataclass fs \<Rightarrow> Inr (VDict (map (\<lambda>f. (KStr (fd_name f), fd_value f)) fs))
      | VFallback v \<Rightarrow> Inr (VDict [(KStr (str_of ''representation''), as_python v)])
      | VFunction module qualname \<Rightarrow> Inr (VStr (qualified_name module qualname))
      | _ \<Rightarrow> Inl TypeError)"

text \<open>The \<open>json_default\<close> of the two serializers.\<close>

datatype serializer_class = JsonSerializer | PydanticSerializer

definition json_default :: "serializer_class \<Rightarrow> pyval \<Rightarrow> exn + pyval" where
  "json_default cls obj =
     (case (cls, obj) of
        (PydanticSerializer, VModel python json) \<Rightarrow> Inr json
      | _ \<Rightarrow> to_serializable obj)"

lemma weight_as_python: "weight (as_python v) = cav_weight v"
proof (induction "size v" arbitrary: v rule: less_induct)
  case less
  show ?case
  proof (cases v)
    case (CList vs)
    with less cav_size_item have "weight (as_python u) = cav_weight u" if "u \<in> set vs" for u
      using that by simp
    then have "map (weight \<circ> as_python) vs = map cav_weight vs" by simp
    with CList show ?thesis by (simp del: map_eq_conv)
  next
    case (CDict kvs)
    have "weight (as_python u) = cav_weight u" if "(k, u) \<in> set kvs" for k u
      using less CDict cav_size_member [OF that] by simp
    then have "map (\<lambda>kv. weight (as_python (snd kv))) kvs = map (\<lambda>kv. cav_weight (snd kv)) kvs" by auto
    with CDict show ?thesis by (simp add: comp_def map_prod_def split_beta del: map_eq_conv)
  qed simp_all
qed

lemma json_default_weight: "json_default cls obj = Inr obj' \<Longrightarrow> weight obj' < weight obj"
  by (auto simp: json_default_def to_serializable_def weight_as_python comp_def data_field.map_sel
      split: serializer_class.splits pyval.splits)

section \<open>\<open>json.dumps\<close>\<close>

fun key_value :: "pykey \<Rightarrow> cav" where
  "key_value (KStr s) = CStr s"
| "key_value (KBool b) = CBool b"
| "key_value KNone = CNull"
| "key_value (KFloat f) = CFloat f"
| "key_value (KInt i) = CInt i"
| "key_value (KOther n) = CAlien n"

definition json_key :: "pykey \<Rightarrow> exn + pystr" where
  "json_key k = (case k of KOther n \<Rightarrow> Inl TypeError | _ \<Rightarrow> canonical_key k)"

fun scalar_text :: "json_style \<Rightarrow> cav \<Rightarrow> exn + pystr" where
  "scalar_text st CNull = Inr (str_of ''null'')"
| "scalar_text st (CBool b) = Inr (if b then str_of ''true'' else str_of ''false'')"
| "scalar_text st (CInt i) = Inr (show_int i)"
| "scalar_text st (CFloat f) = encode_float (js_nan st) f"
| "scalar_text st (CStr s) = Inr (encode_string (js_ascii st) s)"
| "scalar_text st v = Inl TypeError"

lemma weight_item: "v \<in> set vs \<Longrightarrow> weight v < Suc (sum_list (map weight vs))"
  by (induction vs) auto

lemma weight_member: "(k, v) \<in> set kvs \<Longrightarrow> weight v < Suc (sum_list (map (weight \<circ> snd) kvs))"
  by (induction kvs) auto

lemma set_py_insort [simp]: "set (py_insort f v ws) = insert v (set ws)"
  by (induction f v ws rule: py_insort.induct) auto

lemma set_py_sorted: "py_sorted f vs = Inr ws \<Longrightarrow> set ws = set vs"
proof -
  have "set (foldr (py_insort f) vs []) = set vs" by (induction vs) auto
  then show "py_sorted f vs = Inr ws \<Longrightarrow> set ws = set vs" by (auto simp: py_sorted_def split: if_splits)
qed

lemma py_sorted_source: "py_sorted f vs = Inr ws \<Longrightarrow> v \<in> set ws \<Longrightarrow> v \<in> set vs"
  by (simp add: set_py_sorted)

function dump_value :: "serializer_class \<Rightarrow> json_style \<Rightarrow> nat \<Rightarrow> pyval \<Rightarrow> exn + pystr" where
  "dump_value cls st n obj =
     (case plain obj of
        Some c \<Rightarrow> scalar_text st c
      | None \<Rightarrow>
          (case (case obj of VList vs \<Rightarrow> Some vs | VTuple vs \<Rightarrow> Some vs | _ \<Rightarrow> None) of
             Some vs \<Rightarrow>
               if vs = [] then Inr (str_of ''[]'')
               else bind_r (traverse (dump_value cls st (Suc n)) vs) (\<lambda>ts.
                 Inr (91 # newline st (Suc n) @ join_with (44 # newline st (Suc n)) ts @ newline st n @ [93]))
           | None \<Rightarrow>
               (case obj of
                  VDict items \<Rightarrow>
                    if items = [] then Inr (str_of ''{}'')
                    else bind_r (py_sorted (\<lambda>item. key_value (fst item)) items) (\<lambda>items.
                      bind_r (traverse (\<lambda>(key, v). bind_r (json_key key) (\<lambda>k.
                          bind_r (dump_value cls st (Suc n) v) (\<lambda>t.
                            Inr (encode_string (js_ascii st) k @ key_separator st @ t)))) items) (\<lambda>ts.
                        Inr (123 # newline st (Suc n) @ join_with (44 # newline st (Suc n)) ts @ newline st n @ [125])))
                | _ \<Rightarrow> bind_r (json_default cls obj) (\<lambda>obj'. dump_value cls st n obj'))))"
  by pat_completeness auto
termination
  by (relation "measure (\<lambda>(cls, st, n, obj). weight obj)")
     (auto simp: comp_def split: pyval.splits dest: weight_item weight_member dest!: py_sorted_source json_default_weight)

declare dump_value.simps [simp del]

text \<open>\<open>_encode\<close> with the serializer's own \<open>indent\<close> and \<open>ensure_ascii\<close>; NaN is allowed.\<close>

definition encode_value :: "serializer_class \<Rightarrow> json_style \<Rightarrow> pyval \<Rightarrow> exn + bytes" where
  "encode_value cls st v = bind_r (dump_value cls (st\<lparr>js_nan := True\<rparr>) 0 v) utf8_encode"

definition json_serialize :: "json_style \<Rightarrow> pyval \<Rightarrow> exn + bytes" where
  "json_serialize st v = except_r (encode_value JsonSerializer st v) C_TypeError SerializationError"

text \<open>The Python value of parsed JSON.\<close>

primrec of_json :: "json \<Rightarrow> pyval" where
  "of_json JNull = VNone"
| "of_json (JBool b) = VBool b"
| "of_json (JInt i) = VInt i"
| "of_json (JFloat f) = VFloat f"
| "of_json (JStr s) = VStr s"
| "of_json (JList vs) = VList (map of_json vs)"
| "of_json (JObj kvs) = VDict (map (map_prod KStr id) (map (map_prod id of_json) kvs))"

definition json_deserialize :: "bytes \<Rightarrow> exn + pyval" where
  "json_deserialize data =
     bind_r (bind_r (utf8_decode data) (json_loads True)) (\<lambda>j. Inr (of_json j))"

section \<open>Plain JSON values\<close>

lemma of_json_obj: "of_json (JObj kvs) = VDict (map (map_prod KStr of_json) kvs)"
  by (simp add: map_prod.comp)

lemma all_compare_strings: "all_compare (map CStr ss)"
  by (induction ss) auto

lemma py_insort_strings:
  "py_insort (\<lambda>x. CStr (f x)) v ws = insort_key f v ws" for f :: "'a \<Rightarrow> pystr"
  by (induction ws) (auto simp: not_le)

lemma py_sorted_strings: "py_sorted (\<lambda>x. CStr (f x)) vs = Inr (sort_key f vs)" for f :: "'a \<Rightarrow> pystr"
proof -
  have "foldr (py_insort (\<lambda>x. CStr (f x))) vs [] = sort_key f vs"
    by (induction vs) (simp_all add: py_insort_strings)
  moreover have "all_compare (map (\<lambda>x. CStr (f x)) vs)"
    using all_compare_strings [of "map f vs"] by (simp add: comp_def)
  ultimately show ?thesis by (simp add: py_sorted_def)
qed

lemma py_sorted_map: "py_sorted f (map g vs) = bind_r (py_sorted (\<lambda>x. f (g x)) vs) (\<lambda>ws. Inr (map g ws))"
proof -
  have "py_insort f (g v) (map g ws) = map g (py_insort (\<lambda>x. f (g x)) v ws)" for v ws
    by (induction ws) auto
  then have "foldr (py_insort f) (map g vs) [] = map g (foldr (py_insort (\<lambda>x. f (g x))) vs [])"
    by (induction vs) auto
  then show ?thesis by (simp add: py_sorted_def comp_def)
qed

lemma dump_value_of_json: "dump_value cls st n (of_json v) = json_dump st n v"
proof (induction "size v" arbitrary: v n rule: less_induct)
  case less
  show ?case
  proof (cases v)
    case (JList vs)
    have "traverse (dump_value cls st (Suc n)) (map of_json vs) = traverse (json_dump st (Suc n)) vs"
      unfolding traverse_map by (rule traverse_cong) (use less JList json_size_item in auto)
    with JList show ?thesis by (simp add: dump_value.simps [of _ _ _ "VList _"])
  next
    case (JObj kvs)
    have items: "py_sorted (\<lambda>item. key_value (fst item)) (map (map_prod KStr of_json) kvs)
        = Inr (map (map_prod KStr of_json) (sort_items kvs))"
      by (simp add: py_sorted_map py_sorted_strings sort_items_def)
    have "traverse (\<lambda>(key, v). bind_r (json_key key) (\<lambda>k. bind_r (dump_value cls st (Suc n) v) (\<lambda>t.
          Inr (encode_string (js_ascii st) k @ key_separator st @ t)))) (map (map_prod KStr of_json) (sort_items kvs))
        = traverse (\<lambda>(k, v). bind_r (json_dump st (Suc n) v) (\<lambda>t.
          Inr (encode_string (js_ascii st) k @ key_separator st @ t))) (sort_items kvs)"
      unfolding traverse_map
      by (rule traverse_cong) (use less JObj json_size_member [of _ _ kvs] in \<open>auto simp: json_key_def\<close>)
    with items show ?thesis
      unfolding JObj of_json_obj by (simp add: dump_value.simps [of _ _ _ "VDict _"])
  qed (simp_all add: dump_value.simps)
qed

section \<open>Errors\<close>

lemma scalar_text_error: "scalar_text (st\<lparr>js_nan := True\<rparr>) c = Inl e \<Longrightarrow> e = TypeError"
  by (cases c) (auto simp: encode_float_def split: pyfloat.splits if_splits)

lemma json_key_error: "json_key k = Inl e \<Longrightarrow> e = TypeError"
  by (cases k) (auto simp: json_key_def split: pyfloat.splits)

lemma json_default_error: "json_default cls obj = Inl e \<Longrightarrow> e = TypeError"
  by (auto simp: json_default_def to_serializable_def split: serializer_class.splits pyval.splits)

lemma dump_value_error: "dump_value cls (st\<lparr>js_nan := True\<rparr>) n obj = Inl e \<Longrightarrow> e = TypeError"
proof (induction "weight obj" arbitrary: obj n rule: less_induct)
  case less
  let ?st = "st\<lparr>js_nan := True\<rparr>"
  have items: "e = TypeError" if "traverse (dump_value cls ?st (Suc n)) vs = Inl e"
    "\<And>v. v \<in> set vs \<Longrightarrow> weight v < weight obj" for vs
    using that less.hyps by (auto dest!: traverse_ex_Inl)
  have hook: "e = TypeError" if "bind_r (json_default cls obj) (dump_value cls ?st n) = Inl e"
    using that less.hyps by (auto simp: bind_r_Inl_iff dest: json_default_weight json_default_error)
  show ?case
  proof (cases "plain obj")
    case (Some c)
    with less.prems scalar_text_error show ?thesis by (simp add: dump_value.simps [of _ _ _ obj])
  next
    case None
    show ?thesis
    proof (cases obj)
      case (VList vs)
      with less.prems items [of vs] weight_item show ?thesis
        by (auto simp: dump_value.simps [of _ _ _ "VList _"] bind_r_Inl_iff split: if_splits)
    next
      case (VTuple vs)
      with less.prems items [of vs] weight_item show ?thesis
        by (auto simp: dump_value.simps [of _ _ _ "VTuple _"] bind_r_Inl_iff split: if_splits)
    next
      case (VDict kvs)
      have "e = TypeError" if "dump_value cls ?st (Suc n) v = Inl e" "(k, v) \<in> set kvs" for k v
        using that less.hyps [of v] VDict weight_member [OF that(2)] by (simp add: comp_def)
      then show ?thesis
        using less.prems
        by (auto simp: VDict dump_value.simps [of _ _ _ "VDict _"] bind_r_Inl_iff split: if_splits
            dest!: traverse_ex_Inl py_sorted_source dest: py_sorted_Inl json_key_error)
    qed (use None less.prems hook in \<open>simp_all add: dump_value.simps\<close>)
  qed
qed

lemma utf8_encode_error: "utf8_encode s = Inl e \<Longrightarrow> e = UnicodeEncodeError"
  by (simp add: utf8_encode_def split: if_splits)

lemma encode_value_error: "encode_value cls st v = Inl e \<Longrightarrow> e = TypeError \<or> e = UnicodeEncodeError"
  by (auto simp: encode_value_def bind_r_Inl_iff dest: dump_value_error utf8_encode_error)

section \<open>Adapters of the pydantic serializer\<close>

text \<open>
  \<open>new_adapter\<close> is \<open>TypeAdapter(type_hint)\<close>, \<open>hashable\<close> whether a hint may be a dictionary key. While a
  task waits for the lock, other tasks run: \<open>meanwhile\<close> is what they do to the cache.
\<close>

definition cached_adapter :: "('h, 'a) dict \<Rightarrow> ('h \<Rightarrow> exn + 'a) \<Rightarrow> 'h \<Rightarrow> (exn + 'a) \<times> ('h, 'a) dict" where
  "cached_adapter adapters new_adapter hint =
     (case map_of adapters hint of
        Some adapter \<Rightarrow> (Inr adapter, adapters)
      | None \<Rightarrow>
          (case new_adapter hint of
             Inl e \<Rightarrow> (Inl e, adapters)
           | Inr adapter \<Rightarrow> (Inr adapter, AList.update hint adapter adapters)))"

definition get_adapter ::
  "('h \<Rightarrow> exn + 'a) \<Rightarrow> ('h \<Rightarrow> bool) \<Rightarrow> (('h, 'a) dict \<Rightarrow> ('h, 'a) dict) \<Rightarrow> 'h \<Rightarrow> ('h, 'a) dict \<Rightarrow>
     (exn + 'a) \<times> ('h, 'a) dict" where
  "get_adapter new_adapter hashable meanwhile hint adapters =
     (if \<not> hashable hint then (new_adapter hint, adapters)
      else case map_of adapters hint of
             Some adapter \<Rightarrow> (Inr adapter, adapters)
           | None \<Rightarrow> cached_adapter (meanwhile adapters) new_adapter hint)"

text \<open>
  \<open>dump\<close> is the adapter's \<open>dump_python(value, mode="json")\<close>, \<open>validate\<close> its \<open>validate_json\<close>. The
  clause for \<open>SerializationError\<close> comes before the one for \<open>Exception\<close>.
\<close>

definition pydantic_serialize ::
  "('a \<Rightarrow> pyval \<Rightarrow> exn + pyval) \<Rightarrow> json_style \<Rightarrow> pyval \<Rightarrow> (exn + 'a) \<times> ('h, 'a) dict \<Rightarrow>
     (exn + bytes) \<times> ('h, 'a) dict" where
  "pydantic_serialize dump st v got =
     (case got of (adapter, adapters) \<Rightarrow>
        (case bind_r adapter (\<lambda>a. bind_r (dump a v) (encode_value PydanticSerializer st)) of
           Inr data \<Rightarrow> Inr data
         | Inl e \<Rightarrow>
             if is_instance e C_SerializationError then Inl e
             else if is_instance e C_Exception then Inl SerializationError else Inl e,
         adapters))"

definition pydantic_deserialize ::
  "('a \<Rightarrow> bytes \<Rightarrow> exn + 'v) \<Rightarrow> bytes \<Rightarrow> (exn + 'a) \<times> ('h, 'a) dict \<Rightarrow> (exn + 'v) \<times> ('h, 'a) dict" where
  "pydantic_deserialize validate data got =
     (case got of (adapter, adapters) \<Rightarrow> (bind_r adapter (\<lambda>a. validate a data), adapters))"

definition adapters_ok :: "('h \<Rightarrow> exn + 'a) \<Rightarrow> ('h, 'a) dict \<Rightarrow> bool" where
  "adapters_ok new_adapter adapters = list_all (\<lambda>(hint, adapter). new_adapter hint = Inr adapter) adapters"

lemma adapters_ok_lookup: "adapters_ok new_adapter d \<Longrightarrow> map_of d hint = Some a \<Longrightarrow> new_adapter hint = Inr a"
  by (auto simp: adapters_ok_def list_all_iff dest: map_of_SomeD)

lemma adapters_ok_update: "adapters_ok new_adapter d \<Longrightarrow> new_adapter hint = Inr a \<Longrightarrow> adapters_ok new_adapter (AList.update hint a d)"
  by (induction d) (auto simp: adapters_ok_def)

lemma get_adapter_made:
  assumes "adapters_ok new_adapter adapters" "adapters_ok new_adapter (meanwhile adapters)"
  shows "fst (get_adapter new_adapter hashable meanwhile hint adapters) = new_adapter hint \<and>
    adapters_ok new_adapter (snd (get_adapter new_adapter hashable meanwhile hint adapters))"
  using assms
  by (auto simp: get_adapter_def cached_adapter_def adapters_ok_lookup adapters_ok_update
      split: option.splits sum.splits)

section \<open>Properties\<close>

lemma encode_value_json:
  assumes "ws_indent st" "json_ok True v" "js_ascii st \<longrightarrow> json_chars v" "json_ok True (heard_json (js_ascii st) v)"
  shows "\<exists>t. (scalar_str t \<longleftrightarrow> js_ascii st \<or> json_scalar v) \<and>
    encode_value cls st (of_json v) = utf8_encode t \<and>
    json_loads True t = Inr (heard_json (js_ascii st) (sort_json v))"
proof -
  let ?st = "st\<lparr>js_nan := True\<rparr>"
  have st: "ws_indent ?st" using assms(1) by (simp add: ws_indent_def)
  obtain t where t: "json_dumps ?st v = Inr t"
    using json_dump_total [of ?st v 0] assms(2) by (auto simp: json_dumps_def)
  moreover have "scalar_str t \<longleftrightarrow> js_ascii st \<or> json_scalar v"
    using json_dump_encodable [OF st, of v 0 t] assms(2) t by (simp add: json_dumps_def)
  moreover have "json_loads True t = Inr (heard_json (js_ascii st) (sort_json v))"
    using json_heard [OF st, of v t] assms(2-4) t by simp
  ultimately show ?thesis
    by (intro exI [of _ t]) (simp add: encode_value_def dump_value_of_json json_dumps_def)
qed

text \<open>
  C28: Results read back. With any indent of white space, which every number given as \<open>indent\<close> is:
  without \<open>ensure_ascii\<close> a JSON value is written exactly when it holds no lone surrogate, and then
  reads back as it was with the keys of its objects in sorted order, NaN and infinities included.
  With \<open>ensure_ascii\<close> every JSON value is written; it reads back the same way, except that a high
  surrogate followed by a low one has become the one character of the pair (supposing that this makes
  no two keys of an object equal), so that a value without surrogates is given back unchanged.
\<close>
theorem serialized_value_roundtrip:
  assumes "ws_indent st" "json_ok True v" "json_chars v" "js_ascii st \<longrightarrow> json_ok True (join_json v)"
  shows "((\<exists>data. json_serialize st (of_json v) = Inr data) \<longleftrightarrow> js_ascii st \<or> json_scalar v) \<and>
    (\<forall>data. json_serialize st (of_json v) = Inr data \<longrightarrow>
      json_deserialize data = Inr (of_json (if js_ascii st then join_json (sort_json v) else sort_json v))) \<and>
    (json_scalar v \<longrightarrow> join_json (sort_json v) = sort_json v)"
proof -
  have "json_ok True (heard_json (js_ascii st) v)" using assms(2,4) by (simp add: heard_json_def)
  then obtain t where t: "scalar_str t \<longleftrightarrow> js_ascii st \<or> json_scalar v"
    "encode_value JsonSerializer st (of_json v) = utf8_encode t"
    "json_loads True t = Inr (if js_ascii st then join_json (sort_json v) else sort_json v)"
    using encode_value_json [of st v JsonSerializer] assms(1-3) by (auto simp: heard_json_def)
  have "json_serialize st (of_json v) = Inr data \<longleftrightarrow> utf8_encode t = Inr data" for data
    by (simp add: json_serialize_def t(2))
  moreover have "json_deserialize data = Inr (of_json (if js_ascii st then join_json (sort_json v) else sort_json v))"
    if "utf8_encode t = Inr data" for data
    using utf8_decode_encode [OF that] t(3) by (simp add: json_deserialize_def)
  moreover have "(\<exists>data. utf8_encode t = Inr data) \<longleftrightarrow> js_ascii st \<or> json_scalar v"
    using t(1) utf8_encode_total utf8_encode_scalar by blast
  ultimately show ?thesis by (simp add: join_json_scalar json_scalar_sort)
qed

definition sample_style :: json_style where
  "sample_style = \<lparr>js_indent = Some [32, 32], js_ascii = False, js_nan = True\<rparr>"

theorem serialized_value_roundtrip_witness:
  "(\<exists>data. json_serialize sample_style (VDict [(KStr [98], VList [VFloat FNan]), (KStr [97], VInt 7)]) = Inr data \<and>
     json_deserialize data = Inr (VDict [(KStr [97], VInt 7), (KStr [98], VList [VFloat FNan])])) \<and>
   (\<exists>data. json_serialize (sample_style\<lparr>js_ascii := True\<rparr>) (VStr [0xDC00, 0xD83D, 0xDE00]) = Inr data \<and>
     json_deserialize data = Inr (VStr [0xDC00, 0x1F600])) \<and>
   (\<nexists>data. json_serialize sample_style (VStr [0xD800]) = Inr data)"
proof -
  have st: "ws_indent sample_style" "ws_indent (sample_style\<lparr>js_ascii := True\<rparr>)"
    by (simp_all add: ws_indent_def sample_style_def is_ws_def)
  let ?v = "JObj [([98], JList [JFloat FNan]), ([97], JInt 7)]"
  have v: "json_ok True ?v" by (simp add: float_ok_def)
  have "(\<exists>data. json_serialize sample_style (of_json ?v) = Inr data \<and> json_deserialize data = Inr (of_json (sort_json ?v)))"
    using serialized_value_roundtrip [OF st(1) v] by (auto simp: sample_style_def)
  moreover have "\<exists>data. json_serialize (sample_style\<lparr>js_ascii := True\<rparr>) (of_json (JStr [0xDC00, 0xD83D, 0xDE00])) = Inr data \<and>
      json_deserialize data = Inr (VStr [0xDC00, 0x1F600])"
    using serialized_value_roundtrip [OF st(2), of "JStr [0xDC00, 0xD83D, 0xDE00]"] by auto
  moreover have "\<nexists>data. json_serialize sample_style (of_json (JStr [0xD800])) = Inr data"
    using serialized_value_roundtrip [OF st(1), of "JStr [0xD800]"]
    by (simp add: sample_style_def is_scalar_def is_surrogate_def)
  ultimately show ?thesis by (simp add: sort_items_def)
qed

text \<open>
  The refusal of a lone surrogate is not a \<open>SerializationError\<close>, which is what that class is
  documented for: only a \<open>TypeError\<close> is translated.
\<close>
theorem surrogate_result_error:
  "json_serialize sample_style (VStr [0xD800]) = Inl UnicodeEncodeError"
  by (simp add: json_serialize_def encode_value_def sample_style_def dump_value.simps [of _ _ _ "VStr _"]
      encode_string_def escape_char_def utf8_encode_def is_scalar_def is_surrogate_def is_instance_def)

text \<open>
  The constructor takes any text as \<open>indent\<close>; with one that is not white space a result need not
  read back as itself, though both directions succeed.
\<close>
theorem indent_changes_result:
  "\<exists>data. json_serialize (sample_style\<lparr>js_indent := Some (str_of ''1,'')\<rparr>) (VList [VInt 7]) = Inr data \<and>
     json_deserialize data = Inr (VList [VInt 1, VInt 7])"
proof -
  let ?t = "[91, 10, 49, 44, 55, 10, 93] :: pystr"
  have "dump_value JsonSerializer (sample_style\<lparr>js_indent := Some (str_of ''1,''), js_nan := True\<rparr>) 0 (VList [VInt 7]) = Inr ?t"
    by (simp add: sample_style_def dump_value.simps [of _ _ _ "VList _"] dump_value.simps [of _ _ _ "VInt _"] newline_def
        show_int_def show_nat.simps)
  moreover have "utf8_encode ?t = Inr (map of_nat ?t)" using ascii_utf8 [of ?t] by simp
  moreover have "utf8_decode (map of_nat ?t) = Inr ?t" by (rule utf8_decode_encode) fact
  moreover have "json_loads True ?t = Inr (JList [JInt 1, JInt 7])" by code_simp
  ultimately show ?thesis
    by (simp add: json_serialize_def encode_value_def json_deserialize_def sample_style_def)
qed

text \<open>
  C29: What a serializer raises: the JSON one \<open>SerializationError\<close> or \<open>UnicodeEncodeError\<close>, the
  pydantic one \<open>SerializationError\<close> only, as long as its adapters raise ordinary exceptions; its
  cache of adapters never changes what a hint is serialized with, whatever other tasks do to it
  in the meantime.
\<close>
theorem serializers_report:
  assumes "adapters_ok new_adapter adapters" "adapters_ok new_adapter (meanwhile adapters)"
    and "\<And>e. new_adapter hint = Inl e \<Longrightarrow> is_instance e C_Exception"
    and "\<And>a e. dump a v = Inl e \<Longrightarrow> is_instance e C_Exception"
    and "pydantic_serialize dump st v (get_adapter new_adapter hashable meanwhile hint adapters) = (result, adapters')"
  shows "adapters_ok new_adapter adapters' \<and>
    (case bind_r (new_adapter hint) (\<lambda>a. bind_r (dump a v) (encode_value PydanticSerializer st)) of
       Inr data \<Rightarrow> result = Inr data | Inl e \<Rightarrow> result = Inl SerializationError) \<and>
    ((\<exists>data. json_serialize st v = Inr data) \<or> json_serialize st v = Inl SerializationError \<or>
      json_serialize st v = Inl UnicodeEncodeError)"
proof (intro conjI)
  let ?got = "get_adapter new_adapter hashable meanwhile hint adapters"
  have got: "fst ?got = new_adapter hint" "adapters_ok new_adapter (snd ?got)"
    using get_adapter_made [where meanwhile = meanwhile, OF assms(1,2)] by auto
  show "adapters_ok new_adapter adapters'"
    using assms(5) got by (auto simp: pydantic_serialize_def split: prod.splits)
  let ?m = "bind_r (new_adapter hint) (\<lambda>a. bind_r (dump a v) (encode_value PydanticSerializer st))"
  have ordinary: "is_instance e C_Exception" if "?m = Inl e" for e
    using that assms(3,4) by (auto simp: bind_r_Inl_iff is_instance_def dest!: encode_value_error)
  have own: "e = SerializationError" if "is_instance e C_SerializationError" for e
    using that by (cases e) (simp_all add: is_instance_def)
  show "case ?m of Inr data \<Rightarrow> result = Inr data | Inl e \<Rightarrow> result = Inl SerializationError"
  proof (cases ?m)
    case (Inl e)
    with assms(5) got ordinary [OF Inl] own [of e] show ?thesis
      by (auto simp: pydantic_serialize_def split: prod.splits if_splits)
  next
    case (Inr data)
    with assms(5) got show ?thesis by (auto simp: pydantic_serialize_def split: prod.splits)
  qed
  show "(\<exists>data. json_serialize st v = Inr data) \<or> json_serialize st v = Inl SerializationError \<or>
      json_serialize st v = Inl UnicodeEncodeError"
    by (cases "encode_value JsonSerializer st v")
       (auto simp: json_serialize_def is_instance_def dest: encode_value_error)
qed

definition sample_adapter :: "bool \<Rightarrow> exn + unit" where
  "sample_adapter hint = (if hint then Inr () else Inl (AppError 3))"

theorem serializers_report_witness:
  "fst (pydantic_serialize (\<lambda>_. Inr) sample_style (VSet [])
      (get_adapter sample_adapter (\<lambda>_. True) (AList.update True ()) True [])) = Inl SerializationError"
proof -
  let ?run = "pydantic_serialize (\<lambda>_. Inr) sample_style (VSet [])
      (get_adapter sample_adapter (\<lambda>_. True) (AList.update True ()) True [])"
  have "adapters_ok sample_adapter []" "adapters_ok sample_adapter (AList.update True () [])"
    by (simp_all add: adapters_ok_def sample_adapter_def)
  from serializers_report [where meanwhile = "AList.update True ()", OF this, where hint = True and dump = "\<lambda>_. Inr" and st = sample_style
      and v = "VSet []" and hashable = "\<lambda>_. True", of "fst ?run" "snd ?run"]
  show ?thesis
    by (simp add: sample_adapter_def encode_value_def dump_value.simps [of _ _ _ "VSet _"]
        json_default_def to_serializable_def)
qed

end
