(* ===== verification/Workers.thy ===== *)
theory Workers
  imports Exceptions
begin

text \<open>
  Running a store's blocking work on a thread without abandoning it (\<open>store/workers.py\<close>).

  The task that awaits \<open>run_to_completion\<close> and the worker thread interleave: a step relation
  over the worker's outcome, where the task stands, and whether a cancellation was absorbed.
  What is cancelled is the task that awaits, any number of times. The worker's own future is not:
  nothing but the end of the event loop, which cancels every task that is left, reaches it, and a
  loop that ends is outside this model.
  The lemmas show that the task never leaves before its worker has settled, what it leaves with,
  and that nothing keeps it once the worker has settled.
\<close>

section \<open>The steps\<close>

text \<open>
  \<open>Checking\<close> is the test of the loop, \<open>Waiting\<close> the \<open>await\<close> in its body, \<open>Left\<close> the end of the
  call with its outcome. A cancellation reaches the task only where it awaits.
\<close>

datatype 'a task_at = Checking | Waiting | Left "exn + 'a"

record 'a run_state =
  rw_worker :: "(exn + 'a) option"
  rw_task :: "'a task_at"
  rw_cancelled :: bool

definition run_start :: "'a run_state" where
  "run_start = \<lparr>rw_worker = None, rw_task = Checking, rw_cancelled = False\<rparr>"

definition leave_with :: "bool \<Rightarrow> exn + 'a \<Rightarrow> exn + 'a" where
  "leave_with cancelled outcome = (if cancelled then Inl CancelledError else outcome)"

inductive run_step :: "(exn + 'a) \<Rightarrow> 'a run_state \<Rightarrow> 'a run_state \<Rightarrow> bool" for work where
  settle: "rw_worker s = None \<Longrightarrow> run_step work s (s\<lparr>rw_worker := Some work\<rparr>)"
| wait: "rw_task s = Checking \<Longrightarrow> rw_worker s = None \<Longrightarrow> run_step work s (s\<lparr>rw_task := Waiting\<rparr>)"
| wake: "rw_task s = Waiting \<Longrightarrow> rw_worker s = Some r \<Longrightarrow> run_step work s (s\<lparr>rw_task := Checking\<rparr>)"
| cancel: "rw_task s = Waiting \<Longrightarrow> run_step work s (s\<lparr>rw_task := Checking, rw_cancelled := True\<rparr>)"
| leave: "rw_task s = Checking \<Longrightarrow> rw_worker s = Some r \<Longrightarrow>
    run_step work s (s\<lparr>rw_task := Left (leave_with (rw_cancelled s) r)\<rparr>)"

inductive_cases run_stepE: "run_step work s s'"

inductive run_steps :: "(exn + 'a) \<Rightarrow> nat \<Rightarrow> 'a run_state \<Rightarrow> 'a run_state \<Rightarrow> bool" for work where
  none: "run_steps work 0 s s"
| more: "run_steps work n s s' \<Longrightarrow> run_step work s' s'' \<Longrightarrow> run_steps work (Suc n) s s''"

inductive_cases run_steps_0E: "run_steps work 0 s s'"
inductive_cases run_steps_SucE: "run_steps work (Suc n) s s'"

section \<open>Invariant\<close>

definition run_inv :: "(exn + 'a) \<Rightarrow> 'a run_state \<Rightarrow> bool" where
  "run_inv work s \<longleftrightarrow>
     (rw_worker s = None \<or> rw_worker s = Some work) \<and>
     (\<forall>out. rw_task s = Left out \<longrightarrow> rw_worker s = Some work \<and> out = leave_with (rw_cancelled s) work)"

lemma run_inv_start: "run_inv work run_start"
  by (simp add: run_inv_def run_start_def)

lemma run_inv_step: "run_step work s s' \<Longrightarrow> run_inv work s \<Longrightarrow> run_inv work s'"
  by (cases rule: run_step.cases) (auto simp: run_inv_def)

lemma run_inv_steps: "run_steps work n s s' \<Longrightarrow> run_inv work s \<Longrightarrow> run_inv work s'"
  by (induction rule: run_steps.induct) (auto intro: run_inv_step)

section \<open>Progress\<close>

text \<open>How many steps a task whose worker has settled can still take.\<close>

definition steps_left :: "'a run_state \<Rightarrow> nat" where
  "steps_left s = (case rw_task s of Waiting \<Rightarrow> 2 | Checking \<Rightarrow> 1 | Left _ \<Rightarrow> 0)"

lemma settled_step:
  "run_step work s s' \<Longrightarrow> rw_worker s \<noteq> None \<Longrightarrow> rw_worker s' \<noteq> None \<and> steps_left s = Suc (steps_left s')"
  by (cases rule: run_step.cases) (auto simp: steps_left_def)

lemma settled_steps:
  "run_steps work n s s' \<Longrightarrow> rw_worker s \<noteq> None \<Longrightarrow> rw_worker s' \<noteq> None \<and> steps_left s = n + steps_left s'"
  by (induction rule: run_steps.induct) (auto dest: settled_step)

lemma not_stuck: "(\<forall>out. rw_task s \<noteq> Left out) \<Longrightarrow> \<exists>s'. run_step work s s'"
proof (cases "rw_task s")
  case Checking
  then show ?thesis by (cases "rw_worker s") (blast intro: run_step.intros)+
qed (auto intro: run_step.intros)

section \<open>Properties\<close>

text \<open>
  C30: The task never abandons its worker: it has left only if the worker has settled, with
  \<open>CancelledError\<close> if it was cancelled at any time on the way and with the work's own result or
  exception otherwise.
\<close>
theorem worker_never_abandoned:
  assumes "run_steps work n run_start s" "rw_task s = Left out"
  shows "rw_worker s = Some work \<and> out = (if rw_cancelled s then Inl CancelledError else work)"
  using run_inv_steps [OF assms(1) run_inv_start] assms(2) by (auto simp: run_inv_def leave_with_def)

text \<open>A run cancelled twice while its worker is busy, then left.\<close>

definition sample_left :: "nat run_state" where
  "sample_left = \<lparr>rw_worker = Some (Inr 7), rw_task = Left (Inl CancelledError), rw_cancelled = True\<rparr>"

lemma sample_run: "run_steps (Inr 7) 6 run_start sample_left"
proof -
  let ?waiting = "\<lambda>c. \<lparr>rw_worker = None, rw_task = Waiting, rw_cancelled = c\<rparr> :: nat run_state"
  let ?checking = "\<lambda>c. \<lparr>rw_worker = None, rw_task = Checking, rw_cancelled = c\<rparr> :: nat run_state"
  have wait: "run_step (Inr 7) (?checking c) (?waiting c)" for c
    using run_step.wait [of "?checking c" "Inr 7"] by simp
  have cancel: "run_step (Inr 7) (?waiting c) (?checking True)" for c
    using run_step.cancel [of "?waiting c" "Inr 7"] by simp
  have settle: "run_step (Inr 7) (?checking True) (?checking True\<lparr>rw_worker := Some (Inr 7)\<rparr>)"
    by (rule run_step.settle) simp
  have leave: "run_step (Inr 7) (?checking True\<lparr>rw_worker := Some (Inr 7)\<rparr>) sample_left"
    using run_step.leave [of "?checking True\<lparr>rw_worker := Some (Inr 7)\<rparr>" "Inr 7" "Inr 7"]
    by (simp add: sample_left_def leave_with_def)
  have "run_steps (Inr 7) (Suc (Suc (Suc (Suc (Suc (Suc 0)))))) run_start sample_left"
    unfolding run_start_def
    by (rule run_steps.more [OF _ leave], rule run_steps.more [OF _ settle],
        rule run_steps.more [OF _ cancel], rule run_steps.more [OF _ wait],
        rule run_steps.more [OF _ cancel], rule run_steps.more [OF _ wait], rule run_steps.none)
  then show ?thesis by (simp add: numeral_eq_Suc)
qed

theorem worker_never_abandoned_witness:
  "rw_worker sample_left = Some (Inr 7) \<and> Inl CancelledError =
     (if rw_cancelled sample_left then Inl CancelledError else Inr (7 :: nat))"
  using worker_never_abandoned [OF sample_run] by (simp add: sample_left_def)

text \<open>
  Nothing keeps the task once its worker has settled: however often it is cancelled, at most
  two more steps are taken, and as long as it has not left there is a next step.
\<close>
theorem settled_worker_ends:
  assumes "run_steps work n s s'" "rw_worker s \<noteq> None"
  shows "n \<le> 2 \<and> ((\<exists>out. rw_task s' = Left out) \<or> (\<exists>s''. run_step work s' s''))"
proof -
  have "n \<le> steps_left s" using settled_steps [OF assms] by simp
  also have "\<dots> \<le> 2" by (simp add: steps_left_def split: task_at.splits)
  finally show ?thesis using not_stuck [of s'] by blast
qed

theorem settled_worker_ends_witness:
  "(0 :: nat) \<le> 2 \<and> (\<exists>out. rw_task sample_left = Left out)"
  using settled_worker_ends [OF run_steps.none [of "Inr 7" sample_left]]
  by (simp add: sample_left_def)

end
