(* ===== verification/Serial.thy ===== *)
theory Serial
  imports Prelude
begin

text \<open>
  Serial runs: actions on a shared state, one after the other, and what each of them answers.
  The theories of concurrent calls (\<open>Exclusion\<close>, \<open>Immediate\<close>) state against them what an
  interleaving amounts to.
\<close>

definition serial_run :: "('t \<Rightarrow> 's \<Rightarrow> 'r \<times> 's) \<Rightarrow> 's \<Rightarrow> 't list \<Rightarrow> 's" where
  "serial_run act s ts = foldl (\<lambda>s t. snd (act t s)) s ts"

text \<open>The answer of \<open>t\<close> in the serial run \<open>ts\<close>, where it stands once.\<close>

definition serial_reply :: "('t \<Rightarrow> 's \<Rightarrow> 'r \<times> 's) \<Rightarrow> 's \<Rightarrow> 't list \<Rightarrow> 't \<Rightarrow> 'r" where
  "serial_reply act s ts t = fst (act t (serial_run act s (takeWhile (\<lambda>u. u \<noteq> t) ts)))"

lemma serial_run_Nil [simp]: "serial_run act s [] = s"
  by (simp add: serial_run_def)

lemma serial_run_snoc [simp]: "serial_run act s (ts @ [t]) = snd (act t (serial_run act s ts))"
  by (simp add: serial_run_def)

lemma serial_reply_snoc:
  "t \<notin> set ts \<Longrightarrow> serial_reply act s (ts @ [t]) t = fst (act t (serial_run act s ts))"
  "u \<in> set ts \<Longrightarrow> serial_reply act s (ts @ [t]) u = serial_reply act s ts u"
  by (auto simp: serial_reply_def takeWhile_append takeWhile_eq_all_conv [THEN iffD2])

text \<open>What every action keeps, the serial run keeps.\<close>

lemma serial_run_invariant:
  "P s \<Longrightarrow> (\<And>t s. t \<in> set ts \<Longrightarrow> P s \<Longrightarrow> P (snd (act t s))) \<Longrightarrow> P (serial_run act s ts)"
  by (induction ts rule: rev_induct) simp_all

end
