(* ===== verification/Exclusion.thy ===== *)
theory Exclusion
  imports FileStore Workers Serial
begin

text \<open>
  Concurrent calls of the file client's write primitive (\<open>update_document\<close>, \<open>_exclusive\<close> and
  \<open>_update_document_sync\<close> of \<open>_file_client.py\<close>): each call waits for the store's lock, lets a
  worker read, operate and write while it holds it, and is cancelled at any time on the way. Both
  locks are one, and giving them back is one step: a cancellation that arrives while \<open>filelock\<close> releases
  the file shows as \<open>cancel\<close> followed by \<open>leave\<close>, supposing that the release itself is carried out.

  The other theories treat one update as atomic. The lemmas here justify it: whatever the
  interleaving, the document is what the calls that settled so far make of it one after the
  other, and each of them answers what it would have answered in that order.
\<close>

section \<open>Calls\<close>

text \<open>
  What the worker of the call that holds the lock has done: nothing, computed the document to
  write (with the operation's answer), or settled.
\<close>

datatype 'a work = Fresh | Prepared 'a json | Settled "exn + 'a"

text \<open>Where a call stands: waiting for the lock, holding it (cancelled already or not), ended.\<close>

datatype 'a call_at = Called | Holding "'a work" bool | Ended "exn + 'a"

text \<open>\<open>sx_log\<close> records for the proofs in which order the workers settled.\<close>

record 'a shared_store =
  sx_dir :: directory
  sx_lock :: "nat option"
  sx_calls :: "nat \<Rightarrow> 'a call_at"
  sx_log :: "nat list"

definition store_start :: "directory \<Rightarrow> 'a shared_store" where
  "store_start dir = \<lparr>sx_dir = dir, sx_lock = None, sx_calls = (\<lambda>_. Called), sx_log = []\<rparr>"

definition prepare_update :: "(json \<Rightarrow> exn + 'a \<times> json \<times> bool) \<Rightarrow> directory \<Rightarrow> 'a work" where
  "prepare_update operation dir =
     (case bind_r (read_document dir) operation of
        Inl e \<Rightarrow> Settled (Inl e)
      | Inr (result, document', changed) \<Rightarrow>
          if changed then Prepared result document' else Settled (Inr result))"

definition write_update :: "'a \<Rightarrow> json \<Rightarrow> directory \<Rightarrow> (exn + 'a) \<times> directory" where
  "write_update result document' dir =
     (case write_document document' dir of
        Inl e \<Rightarrow> (Inl e, dir)
      | Inr dir' \<Rightarrow> (Inr result, dir'))"

abbreviation set_call :: "nat \<Rightarrow> 'a call_at \<Rightarrow> 'a shared_store \<Rightarrow> 'a shared_store" where
  "set_call t c s \<equiv> s\<lparr>sx_calls := (sx_calls s)(t := c)\<rparr>"

definition settle_call :: "nat \<Rightarrow> bool \<Rightarrow> exn + 'a \<Rightarrow> 'a shared_store \<Rightarrow> 'a shared_store" where
  "settle_call t c result s = (set_call t (Holding (Settled result) c) s)\<lparr>sx_log := sx_log s @ [t]\<rparr>"

text \<open>\<open>op t\<close> is the operation call \<open>t\<close> hands to \<open>update_document\<close>.\<close>

inductive call_step ::
  "(nat \<Rightarrow> json \<Rightarrow> exn + 'a \<times> json \<times> bool) \<Rightarrow> 'a shared_store \<Rightarrow> 'a shared_store \<Rightarrow> bool" for op where
  give_up: "sx_calls s t = Called \<Longrightarrow> call_step op s (set_call t (Ended (Inl CancelledError)) s)"
| acquire: "sx_calls s t = Called \<Longrightarrow> sx_lock s = None \<Longrightarrow>
    call_step op s ((set_call t (Holding Fresh False) s)\<lparr>sx_lock := Some t\<rparr>)"
| prepare: "sx_calls s t = Holding Fresh c \<Longrightarrow> prepare_update (op t) (sx_dir s) = Prepared r j \<Longrightarrow>
    call_step op s (set_call t (Holding (Prepared r j) c) s)"
| unchanged: "sx_calls s t = Holding Fresh c \<Longrightarrow> prepare_update (op t) (sx_dir s) = Settled out \<Longrightarrow>
    call_step op s (settle_call t c out s)"
| write_back: "sx_calls s t = Holding (Prepared r j) c \<Longrightarrow> write_update r j (sx_dir s) = (out, dir') \<Longrightarrow>
    call_step op s (settle_call t c out (s\<lparr>sx_dir := dir'\<rparr>))"
| cancel: "sx_calls s t = Holding w c \<Longrightarrow> call_step op s (set_call t (Holding w True) s)"
| leave: "sx_calls s t = Holding (Settled out) c \<Longrightarrow>
    call_step op s ((set_call t (Ended (leave_with c out)) s)\<lparr>sx_lock := None\<rparr>)"

inductive call_steps ::
  "(nat \<Rightarrow> json \<Rightarrow> exn + 'a \<times> json \<times> bool) \<Rightarrow> 'a shared_store \<Rightarrow> 'a shared_store \<Rightarrow> bool" for op where
  done_none: "call_steps op s s"
| done_more: "call_steps op s s' \<Longrightarrow> call_step op s' s'' \<Longrightarrow> call_steps op s s''"

lemma call_steps_trans: "call_steps op s' s'' \<Longrightarrow> call_steps op s s' \<Longrightarrow> call_steps op s s''"
  by (induction rule: call_steps.induct) (auto intro: call_steps.intros)

section \<open>The same calls one after the other\<close>

definition atomic_update :: "(json \<Rightarrow> exn + 'a \<times> json \<times> bool) \<Rightarrow> directory \<Rightarrow> (exn + 'a) \<times> directory" where
  "atomic_update operation dir =
     (case update_document operation dir of
        Inl e \<Rightarrow> (Inl e, dir)
      | Inr (result, dir') \<Rightarrow> (Inr result, dir'))"

abbreviation serial :: "(nat \<Rightarrow> json \<Rightarrow> exn + 'a \<times> json \<times> bool) \<Rightarrow> directory \<Rightarrow> nat list \<Rightarrow> directory" where
  "serial op \<equiv> serial_run (\<lambda>t. atomic_update (op t))"

text \<open>The answer of call \<open>t\<close> in the serial run \<open>ts\<close>.\<close>

abbreviation serial_answer ::
  "(nat \<Rightarrow> json \<Rightarrow> exn + 'a \<times> json \<times> bool) \<Rightarrow> directory \<Rightarrow> nat list \<Rightarrow> nat \<Rightarrow> exn + 'a" where
  "serial_answer op \<equiv> serial_reply (\<lambda>t. atomic_update (op t))"

lemma atomic_update_settled:
  "prepare_update operation dir = Settled out \<Longrightarrow> atomic_update operation dir = (out, dir)"
  by (auto simp: prepare_update_def atomic_update_def update_document_def bind_r_def
      split: sum.splits prod.splits if_splits)

lemma atomic_update_written:
  "prepare_update operation dir = Prepared r j \<Longrightarrow> atomic_update operation dir = write_update r j dir"
  by (auto simp: prepare_update_def atomic_update_def update_document_def write_update_def bind_r_def
      split: sum.splits prod.splits if_splits)

section \<open>Invariant\<close>

text \<open>
  Exactly the call that holds the lock is past waiting and not ended; what it has prepared, it
  prepared from the document that is still there; the settled calls are the logged ones.
\<close>

definition call_ok ::
  "(nat \<Rightarrow> json \<Rightarrow> exn + 'a \<times> json \<times> bool) \<Rightarrow> directory \<Rightarrow> 'a shared_store \<Rightarrow> nat \<Rightarrow> bool" where
  "call_ok op dir s t \<longleftrightarrow>
     (case sx_calls s t of
        Called \<Rightarrow> sx_lock s \<noteq> Some t \<and> t \<notin> set (sx_log s)
      | Holding w c \<Rightarrow> sx_lock s = Some t \<and>
          (case w of
             Fresh \<Rightarrow> t \<notin> set (sx_log s)
           | Prepared r j \<Rightarrow> t \<notin> set (sx_log s) \<and> prepare_update (op t) (sx_dir s) = Prepared r j
           | Settled out \<Rightarrow> t \<in> set (sx_log s) \<and> out = serial_answer op dir (sx_log s) t)
      | Ended out \<Rightarrow> sx_lock s \<noteq> Some t \<and>
          (if t \<in> set (sx_log s) then out = serial_answer op dir (sx_log s) t \<or> out = Inl CancelledError
           else out = Inl CancelledError))"

definition call_inv ::
  "(nat \<Rightarrow> json \<Rightarrow> exn + 'a \<times> json \<times> bool) \<Rightarrow> directory \<Rightarrow> 'a shared_store \<Rightarrow> bool" where
  "call_inv op dir s \<longleftrightarrow>
     sx_dir s = serial op dir (sx_log s) \<and> distinct (sx_log s) \<and> (\<forall>t. call_ok op dir s t)"

lemma call_inv_start: "call_inv op dir (store_start dir)"
  by (simp add: call_inv_def call_ok_def store_start_def serial_run_def)

text \<open>A step of one call that leaves the document and the log keeps what is said of every other call.\<close>

lemma call_inv_local:
  assumes "call_inv op dir s" "sx_dir s' = sx_dir s" "sx_log s' = sx_log s"
    and "\<And>u. u \<noteq> t \<Longrightarrow> sx_calls s' u = sx_calls s u"
    and "sx_lock s' = sx_lock s \<or> sx_lock s = Some t \<or> sx_lock s = None \<and> sx_lock s' = Some t"
    and "sx_lock s = Some t \<longrightarrow> sx_lock s' = Some t \<or> sx_lock s' = None"
    and "call_ok op dir s' t"
  shows "call_inv op dir s'"
  unfolding call_inv_def
proof (intro conjI allI)
  fix u
  show "call_ok op dir s' u"
  proof (cases "u = t")
    case False
    have "call_ok op dir s u" using assms(1) by (simp add: call_inv_def)
    with False assms(2-6) show ?thesis by (auto simp: call_ok_def split: call_at.splits work.splits)
  qed (use assms in simp)
qed (use assms in \<open>simp_all add: call_inv_def\<close>)

lemma call_inv_settle:
  assumes "call_inv op dir s" "sx_calls s t = Holding w c" "\<And>out. w \<noteq> Settled out"
    and "atomic_update (op t) (sx_dir s) = (out, dir')"
  shows "call_inv op dir (settle_call t c out (s\<lparr>sx_dir := dir'\<rparr>))"
  unfolding call_inv_def
proof (intro conjI allI)
  let ?s = "settle_call t c out (s\<lparr>sx_dir := dir'\<rparr>)"
  have ok: "call_ok op dir s u" for u using assms(1) by (simp add: call_inv_def)
  have t: "sx_lock s = Some t" "t \<notin> set (sx_log s)"
    using ok [of t] assms(2,3) by (auto simp: call_ok_def split: work.splits)
  have d: "sx_dir s = serial op dir (sx_log s)" "distinct (sx_log s)"
    using assms(1) by (simp_all add: call_inv_def)
  show "sx_dir ?s = serial op dir (sx_log ?s)" "distinct (sx_log ?s)"
    using assms(4) d t by (simp_all add: settle_call_def)
  fix u
  show "call_ok op dir ?s u"
  proof (cases "u = t")
    case True
    with t d assms(4) show ?thesis by (simp add: call_ok_def settle_call_def serial_reply_snoc)
  next
    case False
    have other: "sx_calls ?s u = sx_calls s u" "sx_lock ?s = Some t" "sx_log ?s = sx_log s @ [t]"
      using False t by (simp_all add: settle_call_def)
    show ?thesis
    proof (cases "sx_calls s u")
      case (Ended out)
      with ok [of u] False show ?thesis
        unfolding call_ok_def other by (auto simp: t serial_reply_snoc(2) split: if_splits)
    next
      case Called
      with ok [of u] False show ?thesis unfolding call_ok_def other by simp
    next
      case (Holding w c)
      with ok [of u] False t(1) show ?thesis unfolding call_ok_def by simp
    qed
  qed
qed

lemma call_inv_step: "call_step op s s' \<Longrightarrow> call_inv op dir s \<Longrightarrow> call_inv op dir s'"
proof (induction rule: call_step.induct)
  case (give_up s t)
  then have ok: "call_ok op dir s t" by (simp add: call_inv_def)
  show ?case
    by (rule call_inv_local [OF give_up(2), of _ t]) (use give_up ok in \<open>auto simp: call_ok_def\<close>)
next
  case (acquire s t)
  then have ok: "call_ok op dir s t" by (simp add: call_inv_def)
  show ?case
    by (rule call_inv_local [OF acquire(3), of _ t]) (use acquire ok in \<open>auto simp: call_ok_def\<close>)
next
  case (prepare s t c r j)
  then have ok: "call_ok op dir s t" by (simp add: call_inv_def)
  show ?case
    by (rule call_inv_local [OF prepare(3), of _ t]) (use prepare ok in \<open>auto simp: call_ok_def\<close>)
next
  case (unchanged s t c out)
  then show ?case
    using call_inv_settle [of op dir s t Fresh c out "sx_dir s"] atomic_update_settled [OF unchanged(2)] by simp
next
  case (write_back s t r j c out dir')
  then have "call_ok op dir s t" by (simp add: call_inv_def)
  then have "prepare_update (op t) (sx_dir s) = Prepared r j" using write_back by (simp add: call_ok_def)
  then show ?case
    using call_inv_settle [of op dir s t "Prepared r j" c out dir']
      atomic_update_written [of "op t" "sx_dir s" r j] write_back by simp
next
  case (cancel s t w c)
  then have ok: "call_ok op dir s t" by (simp add: call_inv_def)
  show ?case
    by (rule call_inv_local [OF cancel(2), of _ t]) (use cancel ok in \<open>auto simp: call_ok_def split: work.splits\<close>)
next
  case (leave s t out c)
  then have ok: "call_ok op dir s t" by (simp add: call_inv_def)
  show ?case
    by (rule call_inv_local [OF leave(2), of _ t]) (use leave ok in \<open>auto simp: call_ok_def leave_with_def\<close>)
qed

lemma call_inv_steps: "call_steps op s s' \<Longrightarrow> call_inv op dir s \<Longrightarrow> call_inv op dir s'"
  by (induction rule: call_steps.induct) (auto intro: call_inv_step)

section \<open>A call can always run to its end\<close>

lemma one_call_ends:
  assumes "sx_calls s t = Called" "sx_lock s = None"
  shows "call_steps op s
    (s\<lparr>sx_calls := (sx_calls s)(t := Ended (fst (atomic_update (op t) (sx_dir s)))),
       sx_dir := snd (atomic_update (op t) (sx_dir s)), sx_log := sx_log s @ [t]\<rparr>)" (is "call_steps op s ?end")
proof -
  let ?held = "(set_call t (Holding Fresh False) s)\<lparr>sx_lock := Some t\<rparr>"
  obtain out dir' where a: "atomic_update (op t) (sx_dir s) = (out, dir')" by fastforce
  let ?settled = "settle_call t False out (?held\<lparr>sx_dir := dir'\<rparr>)"
  have "call_step op s ?held" by (rule call_step.acquire [OF assms])
  then have held: "call_steps op s ?held" by (blast intro: call_steps.intros)
  have "call_steps op ?held ?settled"
  proof (cases "prepare_update (op t) (sx_dir s)")
    case Fresh
    then show ?thesis by (auto simp: prepare_update_def split: sum.splits prod.splits if_splits)
  next
    case (Settled out')
    then have "out' = out" "dir' = sx_dir s" using atomic_update_settled a by fastforce+
    then have "call_step op ?held (settle_call t False out ?held)"
      using Settled by (intro call_step.unchanged) auto
    with \<open>dir' = sx_dir s\<close> show ?thesis
      by (auto simp: settle_call_def intro: call_steps.intros)
  next
    case (Prepared r j)
    let ?prepared = "set_call t (Holding (Prepared r j) False) ?held"
    have first: "call_step op ?held ?prepared" using Prepared by (intro call_step.prepare) auto
    have "write_update r j (sx_dir ?prepared) = (out, dir')"
      using atomic_update_written [OF Prepared] a by simp
    then have "call_step op ?prepared (settle_call t False out (?prepared\<lparr>sx_dir := dir'\<rparr>))"
      by (intro call_step.write_back) auto
    then have "call_step op ?prepared ?settled" by (simp add: settle_call_def)
    then show ?thesis by (rule done_more [OF done_more [OF done_none first]])
  qed
  then have "call_steps op s ?settled" by (rule call_steps_trans [OF _ held])
  then have "call_steps op s ((set_call t (Ended (leave_with False out)) ?settled)\<lparr>sx_lock := None\<rparr>)"
    by (rule done_more, intro call_step.leave) (simp add: settle_call_def)
  moreover have "(set_call t (Ended (leave_with False out)) ?settled)\<lparr>sx_lock := None\<rparr> = ?end"
    using assms(2) by (simp add: settle_call_def leave_with_def a)
  ultimately show ?thesis by simp
qed

section \<open>Properties\<close>

text \<open>
  C15: Concurrent updates are serializable, whatever their interleaving and cancellations. At every
  moment the document is what the settled calls make of it one after the other, none counted
  twice, so no update is lost and a reader never sees half of one; a call that has ended answers
  what it would in that order, or \<open>CancelledError\<close>, and a call without a place in the order has
  changed nothing and was cancelled before it got the store.
\<close>
theorem updates_serialize:
  assumes "call_steps op (store_start dir) s"
  shows "sx_dir s = serial op dir (sx_log s) \<and> distinct (sx_log s) \<and>
    (\<forall>t out. sx_calls s t = Ended out \<longrightarrow>
       out = Inl CancelledError \<or> t \<in> set (sx_log s) \<and> out = serial_answer op dir (sx_log s) t)"
proof -
  have inv: "call_inv op dir s" by (rule call_inv_steps [OF assms call_inv_start])
  have "out = Inl CancelledError \<or> t \<in> set (sx_log s) \<and> out = serial_answer op dir (sx_log s) t"
    if "sx_calls s t = Ended out" for t out
  proof -
    have "call_ok op dir s t" using inv by (simp add: call_inv_def)
    then show ?thesis unfolding call_ok_def that by (auto split: if_splits)
  qed
  moreover have "sx_dir s = serial op dir (sx_log s)" "distinct (sx_log s)"
    using inv unfolding call_inv_def by blast+
  ultimately show ?thesis by blast
qed

text \<open>Two calls that claim the same domain for a session in two versions.\<close>

definition sample_claims :: "nat \<Rightarrow> json \<Rightarrow> exn + json \<times> json \<times> bool" where
  "sample_claims t = file_claim [115] [100] [49 + t]"

lemma two_calls_end:
  "\<exists>s out. call_steps op (store_start dir) s \<and> sx_log s = [0, 1] \<and> sx_calls s 1 = Ended out"
proof -
  let ?s0 = "store_start dir :: 'a shared_store"
  obtain s1 where s1: "call_steps op ?s0 s1" "sx_calls s1 1 = Called" "sx_lock s1 = None" "sx_log s1 = [0]"
    using one_call_ends [of ?s0 0 op] by (fastforce simp: store_start_def)
  show ?thesis
    using call_steps_trans [OF one_call_ends [OF s1(2,3)] s1(1)] s1(4) by fastforce
qed

theorem updates_serialize_witness:
  "\<exists>(s :: json shared_store) out. sx_dir s = serial sample_claims sample_directory [0, 1] \<and> sx_calls s 1 = Ended out \<and>
     (out = Inl CancelledError \<or> out = serial_answer sample_claims sample_directory [0, 1] 1)"
proof -
  obtain s out where s: "call_steps sample_claims (store_start sample_directory) s"
    "sx_log s = [0, 1]" "sx_calls s 1 = Ended out"
    using two_calls_end by blast
  have "sx_dir s = serial sample_claims sample_directory [0, 1] \<and>
      (out = Inl CancelledError \<or> out = serial_answer sample_claims sample_directory [0, 1] 1)"
    using updates_serialize [OF s(1)] s(3) unfolding s(2) by blast
  with s(3) show ?thesis by blast
qed

end
