(* ===== verification/Domains.thy ===== *)
theory Domains
  imports Executor
begin

text \<open>
  Declaring a domain and engraving a function in it (\<open>Domain.__init__\<close>, \<open>engrave\<close> and \<open>_engrave\<close> of
  \<open>_domain.py\<close>): the checks at decoration, and what the wrapper is fixed to from then on. What the
  wrapper does when it is called is \<open>engraved_call\<close>.
\<close>

record domain =
  dm_id :: domain_id
  dm_version :: domain_version

text \<open>Each argument is the value object or its text.\<close>

definition mk_domain :: "domain_id given \<Rightarrow> domain_version given \<Rightarrow> exn + domain" where
  "mk_domain i v =
     bind_r (given_domain_id i) (\<lambda>domain.
     bind_r (given_domain_version v) (\<lambda>version. Inr \<lparr>dm_id = domain, dm_version = version\<rparr>))"

text \<open>The name is checked before the function is known: \<open>engrave(name=...)\<close> raises by itself.\<close>

definition engrave_name :: "pystr option \<Rightarrow> exn + execution_name option" where
  "engrave_name name =
     (case name of
        None \<Rightarrow> Inr None
      | Some s \<Rightarrow> bind_r (explicit_execution_name s) (\<lambda>n. Inr (Some n)))"

definition engrave_function ::
  "domain \<Rightarrow> ('v, 't) callable \<Rightarrow> execution_name option \<Rightarrow> ((pystr, 'v bound) dict \<Rightarrow> ('v, 't) prog)
     \<Rightarrow> exn + ('v, 't) engraved" where
  "engrave_function d f name body =
     bind_r (from_callable f name) (\<lambda>definition_of.
       Inr \<lparr>ef_domain = dm_id d, ef_version = dm_version d, ef_definition = definition_of, ef_body = body\<rparr>)"

definition engrave ::
  "domain \<Rightarrow> ('v, 't) callable \<Rightarrow> pystr option \<Rightarrow> ((pystr, 'v bound) dict \<Rightarrow> ('v, 't) prog)
     \<Rightarrow> exn + ('v, 't) engraved" where
  "engrave d f name body =
     bind_r (engrave_name name) (\<lambda>explicit_name. engrave_function d f explicit_name body)"

lemma mk_domain_valid:
  "mk_domain (GivenStr i) (GivenStr v) = Inr d \<Longrightarrow>
     valid_domain_id (dm_id d) \<and> valid_domain_version (dm_version d) \<and>
     domain_id_value (dm_id d) = i \<and> domain_version_value (dm_version d) = v"
  by (auto simp: mk_domain_def result_simps mk_domain_id_iff mk_domain_version_iff)

text \<open>The two hint checks, as conditions on the function's annotations.\<close>

lemma missing_hints_none:
  "missing_required_type_hints params hints = [] \<longleftrightarrow>
     str_of ''return'' \<in> set hints \<and>
     (\<forall>p \<in> set params. pa_name p = str_of ''self'' \<or> pa_name p = str_of ''cls'' \<or>
        pa_kind p = VAR_POSITIONAL \<or> pa_kind p = VAR_KEYWORD \<or> pa_name p \<in> set hints)"
  by (auto simp: missing_required_type_hints_def is_variadic_def filter_empty_conv)

definition hinted :: "('v, 't) callable \<Rightarrow> bool" where
  "hinted f \<longleftrightarrow> str_of ''return'' \<in> set (ca_annotations f) \<and>
     (\<forall>p \<in> set (ca_parameters f). pa_name p = str_of ''self'' \<or> pa_name p = str_of ''cls'' \<or>
        pa_kind p = VAR_POSITIONAL \<or> pa_kind p = VAR_KEYWORD \<or> pa_name p \<in> set (ca_annotations f))"

lemma from_callable_outcome:
  "from_callable f explicit =
     (if \<not> hinted f then Inl MissingTypeHintError
      else case ca_resolved f of
          Inl e \<Rightarrow> Inl (if e = CancelledError then CancelledError else TypeHintResolutionError)
        | Inr hints \<Rightarrow> (case map_of hints (str_of ''return'') of
            None \<Rightarrow> Inl KeyError
          | Some t \<Rightarrow> Inr \<lparr>fd_name = (case explicit of Some n \<Rightarrow> n | None \<Rightarrow> ExecutionName (ca_module f @ 46 # ca_qualname f)),
              fd_return = t, fd_signature = ca_parameters f\<rparr>))"
proof -
  have n: "(case explicit of Some n \<Rightarrow> Inr n | None \<Rightarrow> mk_execution_name (ca_module f @ 46 # ca_qualname f))
      = Inr (case explicit of Some n \<Rightarrow> n | None \<Rightarrow> ExecutionName (ca_module f @ 46 # ca_qualname f))"
    by (cases explicit) (simp_all add: mk_execution_name_def)
  show ?thesis
    unfolding from_callable_def n hinted_def missing_hints_none [symmetric]
    by (cases "ca_resolved f") (simp_all add: except_r_def is_instance_Exception)
qed

text \<open>A character of the explicit names: an ASCII letter or digit, or a dot, underscore or hyphen.\<close>

definition name_text :: string where
  "name_text = ''ABCDEFGHIJKLMNOPQRSTUVWXYZabcdefghijklmnopqrstuvwxyz0123456789''"

lemma name_start_text: "name_start c \<longleftrightarrow> c \<in> set (str_of name_text)"
proof -
  have "set (str_of name_text) = {c. name_start c}"
  proof -
    have "{c. name_start c} = {65..90} \<union> {97..122} \<union> {48..57}" by (auto simp: name_start_def is_digit_def)
    moreover have "str_of name_text = [65..<91] @ [97..<123] @ [48..<58]"
      unfolding name_text_def by code_simp
    moreover have "set [65..<91] = {65..90 :: nat}" "set [97..<123] = {97..122 :: nat}" "set [48..<58] = {48..57 :: nat}"
      by (auto simp del: upt_rec_numeral)
    ultimately show ?thesis by (simp only: set_append Un_assoc)
  qed
  then show ?thesis by simp
qed

text \<open>
  C40: What can be engraved, and what refuses it. The outcome of decorating a function is, in this
  order: \<open>ValueError\<close> when an explicit name is given that is empty, does not start with an ASCII letter
  or digit or has a character other than these, dots, underscores and hyphens; \<open>MissingTypeHintError\<close>
  when the return value or a parameter is not annotated, apart from those named \<open>self\<close> or \<open>cls\<close> and the
  variadic ones; \<open>TypeHintResolutionError\<close> when evaluating the hints raises an ordinary exception; \<open>KeyError\<close> when the
  evaluated hints lack the return value. Otherwise the function is engraved under the domain's
  identifier and version as they are at decoration, the explicit name or else module and qualified
  name, and its evaluated return hint.
\<close>
theorem engrave_exact:
  assumes "mk_domain (GivenStr i) (GivenStr v) = Inr d"
  shows "engrave d f name body =
    (if \<exists>s. name = Some s \<and> \<not> (\<exists>c cs. s = c # cs \<and> c \<in> set (str_of name_text) \<and>
          set cs \<subseteq> set (str_of (name_text @ ''._-'')))
     then Inl ValueError
     else if str_of ''return'' \<notin> set (ca_annotations f) \<or>
       (\<exists>p \<in> set (ca_parameters f). pa_name p \<notin> set (ca_annotations f) \<and>
          pa_name p \<noteq> str_of ''self'' \<and> pa_name p \<noteq> str_of ''cls'' \<and>
          pa_kind p \<in> {POSITIONAL_ONLY, POSITIONAL_OR_KEYWORD, KEYWORD_ONLY})
     then Inl MissingTypeHintError
     else case ca_resolved f of
       Inl e \<Rightarrow> Inl (if e = CancelledError then e else TypeHintResolutionError)
     | Inr hints \<Rightarrow> (case map_of hints (str_of ''return'') of
         None \<Rightarrow> Inl KeyError
       | Some t \<Rightarrow> Inr \<lparr>ef_domain = DomainId i, ef_version = DomainVersion v,
           ef_definition = \<lparr>fd_name = ExecutionName (case name of Some s \<Rightarrow> s | None \<Rightarrow> ca_module f @ 46 # ca_qualname f),
             fd_return = t, fd_signature = ca_parameters f\<rparr>,
           ef_body = body\<rparr>))"
proof -
  have d: "dm_id d = DomainId i" "dm_version d = DomainVersion v"
    using mk_domain_valid [OF assms(1)] by (auto intro: domain_id.expand domain_version.expand)
  have grammar: "explicit_name_fullmatch s \<longleftrightarrow> (\<exists>c cs. s = c # cs \<and> c \<in> set (str_of name_text) \<and>
      set cs \<subseteq> set (str_of (name_text @ ''._-'')))" for s
  proof -
    have "set (str_of (name_text @ ''._-'')) = set (str_of name_text) \<union> {46, 95, 45}" by (auto simp: str_of_def)
    then show ?thesis by (cases s) (auto simp: explicit_name_fullmatch_def name_start_text list_all_iff)
  qed
  have kinds: "k = VAR_POSITIONAL \<or> k = VAR_KEYWORD \<or> Q \<longleftrightarrow>
      \<not> (k \<in> {POSITIONAL_ONLY, POSITIONAL_OR_KEYWORD, KEYWORD_ONLY} \<and> \<not> Q)" for k Q
    by (cases k) simp_all
  have hints: "\<not> hinted f \<longleftrightarrow> str_of ''return'' \<notin> set (ca_annotations f) \<or>
       (\<exists>p \<in> set (ca_parameters f). pa_name p \<notin> set (ca_annotations f) \<and>
          pa_name p \<noteq> str_of ''self'' \<and> pa_name p \<noteq> str_of ''cls'' \<and>
          pa_kind p \<in> {POSITIONAL_ONLY, POSITIONAL_OR_KEYWORD, KEYWORD_ONLY})"
    unfolding hinted_def kinds by blast
  have names: "engrave_name name =
      (if \<exists>s. name = Some s \<and> \<not> explicit_name_fullmatch s then Inl ValueError else Inr (map_option ExecutionName name))"
    by (cases name) (auto simp: engrave_name_def explicit_execution_name_def mk_execution_name_def explicit_name_fullmatch_def)
  let ?named = "ExecutionName (case name of Some s \<Rightarrow> s | None \<Rightarrow> ca_module f @ 46 # ca_qualname f)"
  have n: "(case map_option ExecutionName name of Some n \<Rightarrow> n | None \<Rightarrow> ExecutionName (ca_module f @ 46 # ca_qualname f)) = ?named"
    by (cases name) simp_all
  have "engrave d f name body =
    (if \<exists>s. name = Some s \<and> \<not> explicit_name_fullmatch s then Inl ValueError
     else if \<not> hinted f then Inl MissingTypeHintError
     else case ca_resolved f of
       Inl e \<Rightarrow> Inl (if e = CancelledError then e else TypeHintResolutionError)
     | Inr hints \<Rightarrow> (case map_of hints (str_of ''return'') of
         None \<Rightarrow> Inl KeyError
       | Some t \<Rightarrow> Inr \<lparr>ef_domain = DomainId i, ef_version = DomainVersion v,
           ef_definition = \<lparr>fd_name = ?named, fd_return = t, fd_signature = ca_parameters f\<rparr>, ef_body = body\<rparr>))"
    unfolding engrave_def engrave_function_def names from_callable_outcome n d
    by (cases "\<exists>s. name = Some s \<and> \<not> explicit_name_fullmatch s"; cases "hinted f"; cases "ca_resolved f"; simp split: option.split)
  then show ?thesis unfolding grammar hints .
qed

definition sample_callable :: "(int, unit) callable" where
  "sample_callable = \<lparr>ca_module = [109], ca_qualname = [102],
     ca_parameters = [\<lparr>pa_name = [97], pa_kind = POSITIONAL_OR_KEYWORD, pa_default = None\<rparr>],
     ca_annotations = [str_of ''return'', [97]], ca_resolved = Inr [(str_of ''return'', ()), ([97], ())]\<rparr>"

theorem engrave_exact_witness:
  "\<exists>d g. mk_domain (GivenStr (str_of ''a.b'')) (GivenStr [51]) = Inr d \<and>
     engrave d sample_callable None (\<lambda>_. PReturn 0) = Inr g \<and>
     execution_name_value (fd_name (ef_definition g)) = [109, 46, 102] \<and>
     domain_id_value (ef_domain g) = str_of ''a.b'' \<and>
     engrave d (sample_callable\<lparr>ca_annotations := [[97]]\<rparr>) None (\<lambda>_. PReturn 0) = Inl MissingTypeHintError \<and>
     engrave d (sample_callable\<lparr>ca_annotations := [str_of ''return'']\<rparr>) None (\<lambda>_. PReturn 0) = Inl MissingTypeHintError"
proof -
  have "\<not> isl (mk_domain (GivenStr (str_of ''a.b'')) (GivenStr [51]))" by code_simp
  then obtain d where d: "mk_domain (GivenStr (str_of ''a.b'')) (GivenStr [51]) = Inr d"
    by (metis isl_def sum.exhaust)
  note e = engrave_exact [OF d, where name = None and body = "\<lambda>_. PReturn 0"]
  obtain g where g: "engrave d sample_callable None (\<lambda>_. PReturn 0) = Inr g"
    "execution_name_value (fd_name (ef_definition g)) = [109, 46, 102]" "domain_id_value (ef_domain g) = str_of ''a.b''"
    using e [of sample_callable] by (simp add: sample_callable_def)
  moreover have "engrave d (sample_callable\<lparr>ca_annotations := [[97]]\<rparr>) None (\<lambda>_. PReturn 0) = Inl MissingTypeHintError"
    using e [of "sample_callable\<lparr>ca_annotations := [[97]]\<rparr>"] by (simp add: sample_callable_def)
  moreover have "engrave d (sample_callable\<lparr>ca_annotations := [str_of ''return'']\<rparr>) None (\<lambda>_. PReturn 0)
      = Inl MissingTypeHintError"
    using e [of "sample_callable\<lparr>ca_annotations := [str_of ''return'']\<rparr>"] by (simp add: sample_callable_def)
  ultimately show ?thesis using d by blast
qed

end
