(* ===== verification/Immediate.thy ===== *)
theory Immediate
  imports SqliteMigration Serial
begin

text \<open>
  The write primitive of the SQLite client, statement by statement (\<open>_immediate_transaction\<close>,
  \<open>_connection\<close>, \<open>_run_immediate_sync\<close> and the blocks handed to them in \<open>_sqlite_client.py\<close> and
  \<open>_sqlite_migration.py\<close>), run by any number of threads and processes on one database.

  The other theories treat such a transaction as atomic (\<open>run_immediate\<close>). The lemmas here
  justify it: statements fail, the engine gives a transaction up, commits and rollbacks fail,
  processes die, and still the committed database is what the calls that committed make of it
  one after the other.
\<close>

section \<open>Blocks of statements\<close>

text \<open>
  What runs between \<open>BEGIN IMMEDIATE\<close> and \<open>COMMIT\<close>: statements, each with the rows it returns,
  and in between Python code that only looks at them. No block catches what a statement raises.
\<close>

datatype ('d, 'a) block =
    Finish "exn + 'a"
  | Exec "database \<Rightarrow> exn + 'd \<times> database" "'d \<Rightarrow> ('d, 'a) block"

primrec run_block :: "('d, 'a) block \<Rightarrow> database \<Rightarrow> exn + 'a \<times> database" where
  "run_block (Finish out) = (\<lambda>db. bind_r out (\<lambda>r. Inr (r, db)))"
| "run_block (Exec st k) = (\<lambda>db. bind_r (st db) (\<lambda>x. run_block (k (fst x)) (snd x)))"

text \<open>Code between two statements: what it raises ends the block.\<close>

definition compute :: "exn + 'b \<Rightarrow> ('b \<Rightarrow> ('d, 'a) block) \<Rightarrow> ('d, 'a) block" where
  "compute m k = (case m of Inl x \<Rightarrow> Finish (Inl x) | Inr y \<Rightarrow> k y)"

lemma run_compute [simp]: "run_block (compute m k) db = bind_r m (\<lambda>y. run_block (k y) db)"
  by (cases m) (simp_all add: compute_def)

datatype rows =
    NoRows
  | MetaRow "int option"
  | VersionRow "pystr option"
  | VersionRows "(pystr \<times> pystr) list"
  | ExecutionRows "(pystr \<times> sqlite_record) list"

definition write_statement :: "(database \<Rightarrow> exn + database) \<Rightarrow> database \<Rightarrow> exn + rows \<times> database" where
  "write_statement w db = bind_r (w db) (\<lambda>db'. Inr (NoRows, db'))"

definition read_statement :: "(database \<Rightarrow> exn + rows) \<Rightarrow> database \<Rightarrow> exn + rows \<times> database" where
  "read_statement q db = bind_r (q db) (\<lambda>rows. Inr (rows, db))"

text \<open>The answers of the calls.\<close>

datatype answer = Wrote | Claimed pystr | Migrated migration_report

section \<open>The blocks of the client\<close>

text \<open>\<open>apply\<close> of \<open>commit_mutations\<close>: one statement a mutation.\<close>

fun mutations_block :: "batch \<Rightarrow> (rows, answer) block" where
  "mutations_block [] = Finish (Inr Wrote)"
| "mutations_block (km # b) = Exec (write_statement (sqlite_apply_mutation km)) (\<lambda>_. mutations_block b)"

definition insert_claim :: "pystr \<Rightarrow> pystr \<Rightarrow> pystr \<Rightarrow> database \<Rightarrow> exn + database" where
  "insert_claim sid d v db =
     bind_r (bind_texts [sid, d, v]) (\<lambda>_.
       Inr (if map_of (db_domains db) (sid, d) = None
            then db\<lparr>db_domains := AList.update (sid, d) v (db_domains db)\<rparr> else db))"

definition select_version :: "pystr \<Rightarrow> pystr \<Rightarrow> database \<Rightarrow> exn + rows" where
  "select_version sid d db =
     bind_r (bind_texts [sid, d]) (\<lambda>_. Inr (VersionRow (map_of (db_domains db) (sid, d))))"

definition claim_block :: "pystr \<Rightarrow> pystr \<Rightarrow> pystr \<Rightarrow> (rows, answer) block" where
  "claim_block sid d v =
     Exec (write_statement (insert_claim sid d v)) (\<lambda>_.
     Exec (read_statement (select_version sid d)) (\<lambda>rows.
       case rows of
         VersionRow (Some w) \<Rightarrow> Finish (Inr (Claimed w))
       | _ \<Rightarrow> Finish (Inl AssertionError)))"

definition insert_meta :: "database \<Rightarrow> exn + database" where
  "insert_meta db = Inr (db\<lparr>db_meta := Some sqlite_format_version\<rparr>)"

text \<open>
  \<open>_initialize_schema_sync\<close>: \<open>CREATE TABLE IF NOT EXISTS\<close> changes no row. A store of another
  version is refused.
\<close>

definition create_table :: "database \<Rightarrow> exn + database" where
  "create_table db = Inr db"

definition create_tables_block :: "(rows, answer) block" where
  "create_tables_block =
     Exec (write_statement create_table) (\<lambda>_. Exec (write_statement create_table) (\<lambda>_. Finish (Inr Wrote)))"

definition schema_block :: "(rows, answer) block" where
  "schema_block =
     Exec (write_statement create_table) (\<lambda>_.
     Exec (read_statement (\<lambda>db. Inr (MetaRow (db_meta db)))) (\<lambda>rows.
       case rows of
         MetaRow None \<Rightarrow> Exec (write_statement insert_meta) (\<lambda>_. create_tables_block)
       | MetaRow (Some n) \<Rightarrow>
           if n \<noteq> sqlite_format_version then Finish (Inl StoreFormatVersionError) else create_tables_block
       | _ \<Rightarrow> Finish (Inl AssertionError)))"

text \<open>\<open>migrate\<close> of \<open>SQLiteSessionMigration.run\<close>.\<close>

fun replace_block :: "pystr \<Rightarrow> execution list \<Rightarrow> domain_version_map \<Rightarrow> migration_report \<Rightarrow> (rows, answer) block" where
  "replace_block sid [] versions report =
     Exec (write_statement (replace_domain_versions sid versions)) (\<lambda>_. Finish (Inr (Migrated report)))"
| "replace_block sid (e # es) versions report =
     Exec (write_statement (upsert_execution sid e)) (\<lambda>_. replace_block sid es versions report)"

definition versions_of_rows :: "(pystr \<times> pystr) list \<Rightarrow> exn + domain_version_map" where
  "versions_of_rows rows =
     bind_r (traverse (\<lambda>(d, v). bind_r (mk_domain_id d) (\<lambda>d. bind_r (mk_domain_version v) (\<lambda>v. Inr (d, v)))) rows)
       (\<lambda>items. mk_domain_version_map (map (\<lambda>(d, v). (Given d, Given v)) (dict_of items)))"

definition executions_of_rows :: "(pystr \<times> sqlite_record) list \<Rightarrow> exn + execution list" where
  "executions_of_rows = traverse (\<lambda>(p, r). bind_r (path_to_execution_id p) (record_to_execution r))"

definition migrate_read_block ::
    "pystr \<Rightarrow> (stored_session \<Rightarrow> exn + stored_session) \<Rightarrow> domain_version_map \<Rightarrow> (rows, answer) block" where
  "migrate_read_block sid migrator versions =
     Exec (read_statement (\<lambda>db. bind_r (read_session_executions sid db) (\<lambda>rows. Inr (ExecutionRows rows)))) (\<lambda>rows.
       case rows of
         ExecutionRows rows \<Rightarrow>
           compute (bind_r (executions_of_rows rows) (mk_stored_session versions)) (\<lambda>source.
           compute (migrator source) (\<lambda>replacement.
             Exec (write_statement (delete_session_executions sid)) (\<lambda>_.
               replace_block sid (ss_executions replacement) (ss_versions replacement)
                 (report_between source replacement))))
       | _ \<Rightarrow> Finish (Inl AssertionError))"

definition migrate_block :: "pystr \<Rightarrow> (stored_session \<Rightarrow> exn + stored_session) \<Rightarrow> (rows, answer) block" where
  "migrate_block sid migrator =
     Exec (read_statement (\<lambda>db. bind_r (bind_texts [sid]) (\<lambda>_. Inr (VersionRows (session_versions sid db))))) (\<lambda>rows.
       case rows of
         VersionRows rows \<Rightarrow>
           compute (versions_of_rows rows) (\<lambda>versions.
             if dvm_len versions = 0 then Finish (Inl MigrationError)
             else migrate_read_block sid migrator versions)
       | _ \<Rightarrow> Finish (Inl AssertionError))"

section \<open>The calls\<close>

text \<open>
  \<open>ExecuteSql\<close> is \<open>execute\<close>: one statement of the caller's, which is not itself a \<open>COMMIT\<close> or a
  \<open>ROLLBACK\<close>. \<open>read_sql\<close> runs one outside the write
  primitive, where the engine commits each statement by itself.
\<close>

definition read_sql :: "(database \<Rightarrow> exn + 'd \<times> database) \<Rightarrow> database \<Rightarrow> (exn + 'd) \<times> database" where
  "read_sql statement db =
     (case statement db of Inl x \<Rightarrow> (Inl x, db) | Inr (rows, db') \<Rightarrow> (Inr rows, db'))"

datatype sqlite_call =
    CommitMutations batch
  | ClaimDomain session_id domain_id domain_version
  | InitializeSchema
  | MigrateSession session_id "stored_session \<Rightarrow> exn + stored_session"
  | ExecuteSql "database \<Rightarrow> exn + database"

fun call_block :: "sqlite_call \<Rightarrow> (rows, answer) block" where
  "call_block (CommitMutations b) = mutations_block b"
| "call_block (ClaimDomain sess d v) =
     claim_block (session_id_value sess) (domain_id_value d) (domain_version_value v)"
| "call_block InitializeSchema = schema_block"
| "call_block (MigrateSession sess migrator) = migrate_block (session_id_value sess) migrator"
| "call_block (ExecuteSql statement) = Exec (write_statement statement) (\<lambda>_. Finish (Inr Wrote))"

text \<open>What the other theories say the calls do.\<close>

fun atomic_call :: "sqlite_call \<Rightarrow> database \<Rightarrow> (exn + answer) \<times> database" where
  "atomic_call (CommitMutations b) db =
     (case sqlite_commit_mutations b db of Inl x \<Rightarrow> (Inl x, db) | Inr db' \<Rightarrow> (Inr Wrote, db'))"
| "atomic_call (ClaimDomain sess d v) db =
     map_prod (map_sum id Claimed) id
       (run_immediate (sqlite_claim (session_id_value sess) (domain_id_value d) (domain_version_value v)) db)"
| "atomic_call InitializeSchema db = map_prod (map_sum id (\<lambda>_. Wrote)) id (initialize_schema db)"
| "atomic_call (MigrateSession sess migrator) db = map_prod (map_sum id Migrated) id (sqlite_migrate sess migrator db)"
| "atomic_call (ExecuteSql statement) db = run_immediate (\<lambda>db. bind_r (statement db) (\<lambda>db'. Inr (Wrote, db'))) db"

lemma bind_write [simp]: "bind_r (write_statement w db) f = bind_r (w db) (\<lambda>db'. f (NoRows, db'))"
  by (cases "w db") (simp_all add: write_statement_def)

lemma bind_read [simp]: "bind_r (read_statement q db) f = bind_r (q db) (\<lambda>rows. f (rows, db))"
  by (cases "q db") (simp_all add: read_statement_def)

lemma run_mutations_block:
  "run_block (mutations_block b) db = bind_r (sqlite_apply_all b db) (\<lambda>db'. Inr (Wrote, db'))"
  by (induction b arbitrary: db) (simp_all add: bind_r_assoc)

lemma run_claim_block:
  "run_block (claim_block sid d v) db = bind_r (sqlite_claim sid d v db) (\<lambda>(w, db'). Inr (Claimed w, db'))"
  by (cases "map_of (db_domains db) (sid, d)")
    (auto simp: claim_block_def insert_claim_def select_version_def sqlite_claim_def Let_def bind_r_assoc bind_texts_iff)

lemma run_schema_block:
  "run_block schema_block db = bind_r (stamp_or_check_meta db) (\<lambda>db'. Inr (Wrote, db'))"
  by (simp add: schema_block_def create_tables_block_def create_table_def insert_meta_def stamp_or_check_meta_def
      split: option.splits)

lemma run_replace_block:
  "run_block (replace_block sid es versions report) db =
   bind_r (upsert_all sid es db) (\<lambda>db. bind_r (replace_domain_versions sid versions db) (\<lambda>db.
     Inr (Migrated report, db)))"
  by (induction es arbitrary: db) (simp_all add: bind_r_assoc)

lemma run_migrate_read_block:
  "run_block (migrate_read_block sid migrator versions) db =
   bind_r (read_session_executions sid db) (\<lambda>rows.
   bind_r (bind_r (executions_of_rows rows) (mk_stored_session versions)) (\<lambda>source.
   bind_r (migrator source) (\<lambda>replacement.
   bind_r (delete_session_executions sid db) (\<lambda>db.
   bind_r (upsert_all sid (ss_executions replacement) db) (\<lambda>db.
   bind_r (replace_domain_versions sid (ss_versions replacement) db) (\<lambda>db.
     Inr (Migrated (report_between source replacement), db)))))))"
  by (simp add: migrate_read_block_def bind_r_assoc run_replace_block)

lemma run_migrate_block:
  "run_block (migrate_block sid migrator) db =
   bind_r (read_domain_versions sid db) (\<lambda>versions.
     if dvm_len versions = 0 then Inl MigrationError
     else run_block (migrate_read_block sid migrator versions) db)"
  by (simp add: migrate_block_def read_domain_versions_def versions_of_rows_def bind_r_assoc if_distrib [of "\<lambda>b. run_block b db"]
      cong: if_cong)

text \<open>Statement by statement without a failure, a call does what the other theories say it does.\<close>

lemma atomic_call_block: "run_immediate (run_block (call_block c)) db = atomic_call c db"
proof (cases c)
  case (CommitMutations b)
  then show ?thesis
    by (auto simp: run_mutations_block sqlite_commit_mutations_def run_immediate_def bind_r_def split: sum.splits)
next
  case (ClaimDomain sess d v)
  then show ?thesis by (auto simp: run_claim_block run_immediate_def bind_r_def split: sum.splits)
next
  case InitializeSchema
  then show ?thesis by (auto simp: run_schema_block initialize_schema_def run_immediate_def bind_r_def split: sum.splits)
next
  case (MigrateSession sess migrator)
  then show ?thesis
    by (auto simp: run_migrate_block run_migrate_read_block sqlite_migrate_def sqlite_session_def run_immediate_def
        executions_of_rows_def bind_r_def split: sum.splits)
next
  case (ExecuteSql statement)
  then show ?thesis by simp
qed

section \<open>Connections\<close>

text \<open>
  Where a call stands: before \<open>BEGIN IMMEDIATE\<close>, inside it with what is left of its block and
  what the transaction has written, leaving it with an exception, about to close the connection,
  ended, or dead with its process.
\<close>

datatype writer_at =
    Apart
  | Inside "(rows, answer) block" database
  | Failing exn
  | Closing "exn + answer"
  | Ended "exn + answer"
  | Dead

text \<open>
  \<open>sw_db\<close> is the committed database, what every other connection reads; \<open>sw_writer\<close> the connection
  that holds the write lock, which is the one with an open immediate transaction. \<open>sw_log\<close> records
  for the proofs in which order transactions were committed.
\<close>

record writers =
  sw_db :: database
  sw_writer :: "nat option"
  sw_calls :: "nat \<Rightarrow> writer_at"
  sw_log :: "nat list"

definition writers_start :: "database \<Rightarrow> writers" where
  "writers_start db = \<lparr>sw_db = db, sw_writer = None, sw_calls = (\<lambda>_. Apart), sw_log = []\<rparr>"

definition move :: "nat \<Rightarrow> writer_at \<Rightarrow> writers \<Rightarrow> writers" where
  "move t c s = s\<lparr>sw_calls := (sw_calls s)(t := c)\<rparr>"

definition unlock :: "nat \<Rightarrow> writers \<Rightarrow> writers" where
  "unlock t s = (if sw_writer s = Some t then s\<lparr>sw_writer := None\<rparr> else s)"

definition commit_work :: "nat \<Rightarrow> database \<Rightarrow> writers \<Rightarrow> writers" where
  "commit_work t w s = unlock t (s\<lparr>sw_db := w, sw_log := sw_log s @ [t]\<rparr>)"

text \<open>\<open>with suppress(sqlite3.Error): connection.execute("ROLLBACK")\<close>, then \<open>raise\<close>.\<close>

definition after_rollback :: "exn \<Rightarrow> (exn \<Rightarrow> bool) \<Rightarrow> exn option \<Rightarrow> exn" where
  "after_rollback e is_sqlite_error failure =
     (case failure of None \<Rightarrow> e | Some e' \<Rightarrow> if is_sqlite_error e' then e else e')"

definition has_ended :: "writer_at \<Rightarrow> bool" where
  "has_ended c = (case c of Ended _ \<Rightarrow> True | _ \<Rightarrow> False)"

text \<open>What is next is a statement, or the commit of a block that returned.\<close>

definition asks_engine :: "('d, 'a) block \<Rightarrow> bool" where
  "asks_engine b = (case b of Finish (Inl _) \<Rightarrow> False | _ \<Rightarrow> True)"

text \<open>
  \<open>op t\<close> is the call \<open>t\<close>, \<open>err\<close> tells \<open>sqlite3.Error\<close>. Connecting and \<open>BEGIN\<close> may fail, above all
  when another connection keeps the lock past the busy timeout; a statement or the commit may
  fail and leave the transaction open, or make the engine roll it back; a rollback may fail, with
  no transaction left or with one that closing the connection then discards; a process may die.
\<close>

inductive write_step :: "(exn \<Rightarrow> bool) \<Rightarrow> (nat \<Rightarrow> sqlite_call) \<Rightarrow> writers \<Rightarrow> writers \<Rightarrow> bool" for err op where
  begin_fails: "sw_calls s t = Apart \<Longrightarrow> write_step err op s (move t (Closing (Inl e)) s)"
| begin_immediate: "sw_calls s t = Apart \<Longrightarrow> sw_writer s = None \<Longrightarrow>
    write_step err op s (move t (Inside (call_block (op t)) (sw_db s)) (s\<lparr>sw_writer := Some t\<rparr>))"
| statement: "sw_calls s t = Inside (Exec st k) w \<Longrightarrow> st w = Inr (d, w') \<Longrightarrow>
    write_step err op s (move t (Inside (k d) w') s)"
| statement_raises: "sw_calls s t = Inside (Exec st k) w \<Longrightarrow> st w = Inl e \<Longrightarrow>
    write_step err op s (move t (Failing e) s)"
| block_raises: "sw_calls s t = Inside (Finish (Inl e)) w \<Longrightarrow> write_step err op s (move t (Failing e) s)"
| engine_fails: "sw_calls s t = Inside b w \<Longrightarrow> asks_engine b \<Longrightarrow> write_step err op s (move t (Failing e) s)"
| engine_aborts: "sw_calls s t = Inside b w \<Longrightarrow> asks_engine b \<Longrightarrow> write_step err op s (move t (Failing e) (unlock t s))"
| commit: "sw_calls s t = Inside (Finish (Inr r)) w \<Longrightarrow>
    write_step err op s (move t (Closing (Inr r)) (commit_work t w s))"
| rollback: "sw_calls s t = Failing e \<Longrightarrow> write_step err op s (move t (Closing (Inl e)) (unlock t s))"
| rollback_fails: "sw_calls s t = Failing e \<Longrightarrow>
    write_step err op s (move t (Closing (Inl (after_rollback e err (Some e')))) s)"
| close: "sw_calls s t = Closing out \<Longrightarrow> write_step err op s (move t (Ended out) (unlock t s))"
| die: "\<not> has_ended (sw_calls s t) \<Longrightarrow> write_step err op s (move t Dead (unlock t s))"

inductive write_steps :: "(exn \<Rightarrow> bool) \<Rightarrow> (nat \<Rightarrow> sqlite_call) \<Rightarrow> writers \<Rightarrow> writers \<Rightarrow> bool" for err op where
  no_step: "write_steps err op s s"
| one_more: "write_steps err op s s' \<Longrightarrow> write_step err op s' s'' \<Longrightarrow> write_steps err op s s''"

lemma write_steps_trans: "write_steps err op s' s'' \<Longrightarrow> write_steps err op s s' \<Longrightarrow> write_steps err op s s''"
  by (induction rule: write_steps.induct) (auto intro: write_steps.intros)

lemma writers_simps [simp]:
  "sw_calls (move t c s) = (sw_calls s)(t := c)" "sw_db (move t c s) = sw_db s"
  "sw_writer (move t c s) = sw_writer s" "sw_log (move t c s) = sw_log s"
  "sw_calls (unlock t s) = sw_calls s" "sw_db (unlock t s) = sw_db s" "sw_log (unlock t s) = sw_log s"
  "sw_writer (unlock t s) = (if sw_writer s = Some t then None else sw_writer s)"
  "sw_calls (commit_work t w s) = sw_calls s" "sw_db (commit_work t w s) = w"
  "sw_log (commit_work t w s) = sw_log s @ [t]"
  "sw_writer (commit_work t w s) = (if sw_writer s = Some t then None else sw_writer s)"
  by (simp_all add: move_def unlock_def commit_work_def)

section \<open>Invariant\<close>

abbreviation serial_writes :: "(nat \<Rightarrow> sqlite_call) \<Rightarrow> database \<Rightarrow> nat list \<Rightarrow> database" where
  "serial_writes op \<equiv> serial_run (\<lambda>t. atomic_call (op t))"

abbreviation serial_write_answer :: "(nat \<Rightarrow> sqlite_call) \<Rightarrow> database \<Rightarrow> nat list \<Rightarrow> nat \<Rightarrow> exn + answer" where
  "serial_write_answer op \<equiv> serial_reply (\<lambda>t. atomic_call (op t))"

text \<open>
  A call inside its transaction holds the lock, has committed nothing, and what is left of its
  block makes of its work what the whole block makes of the committed database.
\<close>

definition writer_ok :: "(nat \<Rightarrow> sqlite_call) \<Rightarrow> database \<Rightarrow> writers \<Rightarrow> nat \<Rightarrow> bool" where
  "writer_ok op db s t \<longleftrightarrow>
     (case sw_calls s t of
        Apart \<Rightarrow> sw_writer s \<noteq> Some t \<and> t \<notin> set (sw_log s)
      | Inside b w \<Rightarrow> sw_writer s = Some t \<and> t \<notin> set (sw_log s) \<and>
          run_block b w = run_block (call_block (op t)) (sw_db s)
      | Failing e \<Rightarrow> t \<notin> set (sw_log s)
      | Closing (Inl e) \<Rightarrow> t \<notin> set (sw_log s)
      | Closing (Inr r) \<Rightarrow> t \<in> set (sw_log s) \<and> serial_write_answer op db (sw_log s) t = Inr r
      | Ended (Inl e) \<Rightarrow> sw_writer s \<noteq> Some t \<and> t \<notin> set (sw_log s)
      | Ended (Inr r) \<Rightarrow> sw_writer s \<noteq> Some t \<and> t \<in> set (sw_log s) \<and>
          serial_write_answer op db (sw_log s) t = Inr r
      | Dead \<Rightarrow> sw_writer s \<noteq> Some t)"

definition writers_inv :: "(nat \<Rightarrow> sqlite_call) \<Rightarrow> database \<Rightarrow> writers \<Rightarrow> bool" where
  "writers_inv op db s \<longleftrightarrow>
     sw_db s = serial_writes op db (sw_log s) \<and> distinct (sw_log s) \<and> (\<forall>t. writer_ok op db s t)"

lemma writers_inv_start: "writers_inv op db (writers_start db)"
  by (simp add: writers_inv_def writer_ok_def writers_start_def)

text \<open>A step of one call that commits nothing keeps what is said of every other call.\<close>

lemma writers_inv_local:
  assumes inv: "writers_inv op db s" and same: "sw_db s' = sw_db s" "sw_log s' = sw_log s"
    and calls: "sw_calls s' = (sw_calls s)(t := c)"
    and lock: "sw_writer s' = sw_writer s \<or> sw_writer s = Some t \<and> sw_writer s' = None
      \<or> sw_writer s = None \<and> sw_writer s' = Some t"
    and ok: "writer_ok op db s' t"
  shows "writers_inv op db s'"
  unfolding writers_inv_def
proof (intro conjI allI)
  fix u
  show "writer_ok op db s' u"
  proof (cases "u = t")
    case False
    have "writer_ok op db s u" using inv by (simp add: writers_inv_def)
    with False same calls lock show ?thesis
      by (auto simp: writer_ok_def split: writer_at.splits sum.splits)
  qed (use ok in simp)
qed (use inv same in \<open>simp_all add: writers_inv_def\<close>)

text \<open>Committing appends the call to the serial order.\<close>

lemma committed_call:
  assumes "writer_ok op db s t" "sw_calls s t = Inside (Finish (Inr r)) w"
  shows "atomic_call (op t) (sw_db s) = (Inr r, w)"
proof -
  have "run_block (call_block (op t)) (sw_db s) = Inr (r, w)"
    using assms by (simp add: writer_ok_def)
  then show ?thesis by (simp add: run_immediate_def flip: atomic_call_block)
qed

lemma writers_inv_commit:
  assumes inv: "writers_inv op db s" and inside: "sw_calls s t = Inside (Finish (Inr r)) w"
  shows "writers_inv op db (move t (Closing (Inr r)) (commit_work t w s))"
  unfolding writers_inv_def
proof (intro conjI allI)
  let ?s = "move t (Closing (Inr r)) (commit_work t w s)"
  have ok: "writer_ok op db s u" for u using inv by (simp add: writers_inv_def)
  have d: "sw_db s = serial_writes op db (sw_log s)" "distinct (sw_log s)"
    using inv by (simp_all add: writers_inv_def)
  have t: "sw_writer s = Some t" "t \<notin> set (sw_log s)"
    using ok [of t] inside by (simp_all add: writer_ok_def)
  have act: "atomic_call (op t) (serial_writes op db (sw_log s)) = (Inr r, w)"
    using committed_call [OF ok inside] d(1) by simp
  show "sw_db ?s = serial_writes op db (sw_log ?s)" "distinct (sw_log ?s)" using act d t by simp_all
  fix u
  show "writer_ok op db ?s u"
  proof (cases "u = t")
    case True
    with act t show ?thesis by (simp add: writer_ok_def serial_reply_snoc)
  next
    case False
    with ok [of u] t show ?thesis
      by (auto simp: writer_ok_def serial_reply_snoc(2) split: writer_at.splits sum.splits)
  qed
qed

lemma writers_inv_step: "write_step err op s s' \<Longrightarrow> writers_inv op db s \<Longrightarrow> writers_inv op db s'"
proof (induction rule: write_step.induct)
  case (begin_fails s t e)
  then have ok: "writer_ok op db s t" by (simp add: writers_inv_def)
  show ?case
    by (rule writers_inv_local [OF begin_fails(2), of _ t]) (use begin_fails ok in \<open>auto simp: writer_ok_def\<close>)
next
  case (begin_immediate s t)
  then have ok: "writer_ok op db s t" by (simp add: writers_inv_def)
  show ?case
    by (rule writers_inv_local [OF begin_immediate(3), of _ t]) (use begin_immediate ok in \<open>auto simp: writer_ok_def\<close>)
next
  case (statement s t st k w d w')
  then have ok: "writer_ok op db s t" by (simp add: writers_inv_def)
  show ?case
    by (rule writers_inv_local [OF statement(3), of _ t]) (use statement ok in \<open>auto simp: writer_ok_def\<close>)
next
  case (statement_raises s t st k w e)
  then have ok: "writer_ok op db s t" by (simp add: writers_inv_def)
  show ?case
    by (rule writers_inv_local [OF statement_raises(3), of _ t]) (use statement_raises ok in \<open>auto simp: writer_ok_def\<close>)
next
  case (block_raises s t e w)
  then have ok: "writer_ok op db s t" by (simp add: writers_inv_def)
  show ?case
    by (rule writers_inv_local [OF block_raises(2), of _ t]) (use block_raises ok in \<open>auto simp: writer_ok_def\<close>)
next
  case (engine_fails s t b w e)
  then have ok: "writer_ok op db s t" by (simp add: writers_inv_def)
  show ?case
    by (rule writers_inv_local [OF engine_fails(3), of _ t]) (use engine_fails ok in \<open>auto simp: writer_ok_def\<close>)
next
  case (engine_aborts s t b w e)
  then have ok: "writer_ok op db s t" by (simp add: writers_inv_def)
  show ?case
    by (rule writers_inv_local [OF engine_aborts(3), of _ t]) (use engine_aborts ok in \<open>auto simp: writer_ok_def\<close>)
next
  case (commit s t r w)
  then show ?case by (intro writers_inv_commit)
next
  case (rollback s t e)
  then have ok: "writer_ok op db s t" by (simp add: writers_inv_def)
  show ?case
    by (rule writers_inv_local [OF rollback(2), of _ t]) (use rollback ok in \<open>auto simp: writer_ok_def\<close>)
next
  case (rollback_fails s t e e')
  then have ok: "writer_ok op db s t" by (simp add: writers_inv_def)
  show ?case
    by (rule writers_inv_local [OF rollback_fails(2), of _ t]) (use rollback_fails ok in \<open>auto simp: writer_ok_def\<close>)
next
  case (close s t out)
  then have ok: "writer_ok op db s t" by (simp add: writers_inv_def)
  show ?case
    by (rule writers_inv_local [OF close(2), of _ t]) (use close ok in \<open>auto simp: writer_ok_def split: sum.splits\<close>)
next
  case (die s t)
  then have ok: "writer_ok op db s t" by (simp add: writers_inv_def)
  show ?case
    by (rule writers_inv_local [OF die(2), of _ t]) (use die ok in \<open>auto simp: writer_ok_def split: writer_at.splits sum.splits\<close>)
qed

lemma writers_inv_steps: "write_steps err op s s' \<Longrightarrow> writers_inv op db s \<Longrightarrow> writers_inv op db s'"
  by (induction rule: write_steps.induct) (auto intro: writers_inv_step)

section \<open>A call can always run to its end\<close>

definition ended_with :: "nat \<Rightarrow> (exn + answer) \<times> database \<Rightarrow> writers \<Rightarrow> writers \<Rightarrow> bool" where
  "ended_with t out s s' \<longleftrightarrow>
     sw_calls s' = (sw_calls s)(t := Ended (fst out)) \<and> sw_db s' = snd out \<and> sw_writer s' = None \<and>
     sw_log s' = sw_log s @ (case fst out of Inl _ \<Rightarrow> [] | Inr _ \<Rightarrow> [t])"

definition block_outcome :: "(rows, answer) block \<Rightarrow> database \<Rightarrow> database \<Rightarrow> (exn + answer) \<times> database" where
  "block_outcome b w db = (case run_block b w of Inl e \<Rightarrow> (Inl e, db) | Inr (r, w') \<Rightarrow> (Inr r, w'))"

lemma failing_ends:
  assumes "sw_calls s t = Failing e" "sw_writer s = Some t"
  shows "\<exists>s'. write_steps err op s s' \<and> ended_with t (Inl e, sw_db s) s s'"
proof -
  let ?a = "move t (Closing (Inl e)) (unlock t s)"
  let ?b = "move t (Ended (Inl e)) (unlock t ?a)"
  have "write_step err op s ?a" by (rule rollback [OF assms(1)])
  moreover have "write_step err op ?a ?b" by (rule close) simp
  ultimately have "write_steps err op s ?b" by (blast intro: write_steps.intros)
  then show ?thesis using assms(2) by (intro exI [of _ ?b]) (simp add: ended_with_def)
qed

lemma ended_with_move: "ended_with t out (move t c s) s' = ended_with t out s s'"
  by (simp add: ended_with_def)

lemma step_then_ends:
  "write_step err op s (move t c s) \<Longrightarrow> \<exists>s'. write_steps err op (move t c s) s' \<and> ended_with t out (move t c s) s' \<Longrightarrow>
   \<exists>s'. write_steps err op s s' \<and> ended_with t out s s'"
  unfolding ended_with_move by (blast intro: write_steps.intros write_steps_trans)

lemma block_ends:
  assumes "sw_calls s t = Inside b w" "sw_writer s = Some t"
  shows "\<exists>s'. write_steps err op s s' \<and> ended_with t (block_outcome b w (sw_db s)) s s'"
  using assms
proof (induction b arbitrary: s w)
  case (Finish out)
  show ?case
  proof (cases out)
    case (Inl e)
    have "write_step err op s (move t (Failing e) s)"
      using Finish(1) Inl by (intro block_raises [of _ _ e w]) simp
    then show ?thesis
      by (rule step_then_ends) (use failing_ends [of "move t (Failing e) s" t e err op] Finish(2) Inl in \<open>simp add: block_outcome_def\<close>)
  next
    case (Inr r)
    let ?a = "move t (Closing (Inr r)) (commit_work t w s)"
    let ?b = "move t (Ended (Inr r)) (unlock t ?a)"
    have "write_step err op s ?a" using Finish(1) Inr by (intro commit) simp
    moreover have "write_step err op ?a ?b" by (rule close) simp
    ultimately have "write_steps err op s ?b" by (blast intro: write_steps.intros)
    then show ?thesis using Finish(2) Inr by (intro exI [of _ ?b]) (simp add: ended_with_def block_outcome_def)
  qed
next
  case (Exec st k)
  show ?case
  proof (cases "st w")
    case (Inl e)
    have "write_step err op s (move t (Failing e) s)" by (rule statement_raises [OF Exec(2) Inl])
    then show ?thesis
      by (rule step_then_ends) (use failing_ends [of "move t (Failing e) s" t e err op] Exec(3) Inl in \<open>simp add: block_outcome_def\<close>)
  next
    case (Inr x)
    have "write_step err op s (move t (Inside (k (fst x)) (snd x)) s)"
      using statement [OF Exec(2), of "fst x" "snd x"] Inr by simp
    then show ?thesis
      by (rule step_then_ends) (use Exec.IH [of "k (fst x)" "move t (Inside (k (fst x)) (snd x)) s" "snd x"] Exec(3) Inr in \<open>simp add: block_outcome_def\<close>)
  qed
qed

lemma one_writer_ends:
  assumes "sw_calls s t = Apart" "sw_writer s = None"
  shows "\<exists>s'. write_steps err op s s' \<and> ended_with t (atomic_call (op t) (sw_db s)) s s'"
proof -
  let ?a = "move t (Inside (call_block (op t)) (sw_db s)) (s\<lparr>sw_writer := Some t\<rparr>)"
  have out: "block_outcome (call_block (op t)) (sw_db s) (sw_db s) = atomic_call (op t) (sw_db s)"
    by (simp add: block_outcome_def run_immediate_def flip: atomic_call_block)
  have first: "write_steps err op s ?a" by (rule one_more [OF no_step begin_immediate [OF assms]])
  obtain s' where "write_steps err op ?a s'" "ended_with t (atomic_call (op t) (sw_db s)) ?a s'"
    using block_ends [of ?a t "call_block (op t)" "sw_db s" err op] out by auto
  then show ?thesis
    by (intro exI [of _ s']) (simp add: write_steps_trans [OF _ first] ended_with_def)
qed

section \<open>What a reader finds\<close>

text \<open>Calls over records, identities and versions the database can hold.\<close>

fun storable_call :: "sqlite_call \<Rightarrow> bool" where
  "storable_call (CommitMutations b) = batch_ok storable_execution b"
| "storable_call (ClaimDomain sess d v) = (session_ok sess \<and> valid_domain_id d \<and> text_version_ok v)"
| "storable_call InitializeSchema = True"
| "storable_call (MigrateSession sess migrator) = (session_ok sess \<and>
     (\<forall>source result. migrator source = Inr result \<longrightarrow> storable_session storable_execution text_version_ok result))"
| "storable_call (ExecuteSql statement) = (\<forall>db db'. sqlite_inv db \<longrightarrow> statement db = Inr db' \<longrightarrow> sqlite_inv db')"

lemma atomic_call_inv:
  assumes inv: "sqlite_inv db" and c: "storable_call c"
  shows "sqlite_inv (snd (atomic_call c db))"
proof (cases c)
  case (CommitMutations b)
  with sqlite_commit_ok [OF inv] c show ?thesis by (fastforce split: sum.splits)
next
  case (ClaimDomain sess d v)
  then obtain w db' where claim: "sqlite_claim_domain sess d v db = Inr (w, db')" "sqlite_inv db'"
    using sqlite_claim_domain_ok [OF inv, of sess d v] c by auto
  then show ?thesis
    using ClaimDomain by (auto simp: sqlite_claim_domain_def result_simps split: sum.splits prod.splits)
next
  case InitializeSchema
  with inv show ?thesis
    by (simp add: initialize_schema_def run_immediate_def stamp_or_check_meta_def sqlite_inv_def)
next
  case (MigrateSession sess migrator)
  obtain out db' where run: "sqlite_migrate sess migrator db = (out, db')" by fastforce
  have "sqlite_inv db'"
  proof (cases out)
    case (Inl x)
    with run have "db' = db" by (simp add: SqliteMigration.sq.run_keeps)
    with inv show ?thesis by simp
  next
    case (Inr report)
    with run obtain source result where "sqlite_session sess db = Inr source" "migrator source = Inr result"
      using sqlite_migrate_report by blast
    moreover have "storable_session storable_execution text_version_ok result" "session_ok sess"
      using MigrateSession c calculation by auto
    ultimately show ?thesis
      using SqliteMigration.sq.run_replaces [OF inv] run by fastforce
  qed
  with MigrateSession run show ?thesis by simp
next
  case (ExecuteSql statement)
  with inv c show ?thesis by (auto simp: run_immediate_def bind_r_def split: sum.splits)
qed

text \<open>
  Whoever reads while storable calls write, with whatever interleaving and failures, finds a
  database in which every row is the record of a storable execution under its path.
\<close>

theorem reader_finds_store:
  assumes "write_steps err op (writers_start db) s" "sqlite_inv db" "\<And>t. storable_call (op t)"
  shows "sqlite_inv (sw_db s)"
proof -
  have "sw_db s = serial_writes op db (sw_log s)"
    using writers_inv_steps [OF assms(1) writers_inv_start] by (simp add: writers_inv_def)
  with assms(2,3) show ?thesis by (simp add: serial_run_invariant atomic_call_inv)
qed

section \<open>Properties\<close>

text \<open>
  C16: Writers of one SQLite database are serializable and each of them is all or nothing.
  Commits, claims, migrations, openings and statements of the caller run statement by statement
  from any number of threads and processes, with failing statements, commits and rollbacks and
  with processes that die; at every moment the committed database is what the calls that
  committed make of it one after the other, none counted twice. A call that returns has
  committed and answers what it would in that order; a call that raises has changed nothing.
\<close>
theorem writers_serialize:
  assumes "write_steps err op (writers_start db) s"
  shows "sw_db s = serial_writes op db (sw_log s) \<and> distinct (sw_log s) \<and>
    (\<forall>t out. sw_calls s t = Ended out \<longrightarrow>
       (case out of
          Inl e \<Rightarrow> t \<notin> set (sw_log s)
        | Inr r \<Rightarrow> t \<in> set (sw_log s) \<and> serial_write_answer op db (sw_log s) t = Inr r))"
proof -
  have inv: "writers_inv op db s" by (rule writers_inv_steps [OF assms writers_inv_start])
  have "case out of Inl e \<Rightarrow> t \<notin> set (sw_log s)
      | Inr r \<Rightarrow> t \<in> set (sw_log s) \<and> serial_write_answer op db (sw_log s) t = Inr r"
    if "sw_calls s t = Ended out" for t out
  proof -
    have "writer_ok op db s t" using inv by (simp add: writers_inv_def)
    with that show ?thesis by (simp add: writer_ok_def split: sum.splits)
  qed
  with inv show ?thesis unfolding writers_inv_def by blast
qed

text \<open>Two calls that claim the same domain for a session in two versions: the second is told the first's.\<close>

definition sample_writes :: "nat \<Rightarrow> sqlite_call" where
  "sample_writes t = ClaimDomain sample_session (DomainId [100]) (DomainVersion [49 + t])"

lemma sample_answers:
  "\<exists>db. atomic_call (sample_writes 0) sample_database = (Inr (Claimed [49]), db) \<and>
     fst (atomic_call (sample_writes 1) db) = Inr (Claimed [49])"
  by (simp add: sample_writes_def sample_session_def run_immediate_def sqlite_claim_def bind_texts_iff is_scalar_def is_surrogate_def
      sample_database_inv)

theorem writers_serialize_witness:
  "\<exists>s :: writers. sw_db s = serial_writes sample_writes sample_database [0, 1] \<and> sw_calls s 1 = Ended (Inr (Claimed [49])) \<and>
     serial_write_answer sample_writes sample_database [0, 1] 1 = Inr (Claimed [49])"
proof -
  let ?s = "writers_start sample_database"
  obtain db where db: "atomic_call (sample_writes 0) sample_database = (Inr (Claimed [49]), db)"
    "fst (atomic_call (sample_writes 1) db) = Inr (Claimed [49])"
    using sample_answers by blast
  obtain s1 where s1: "write_steps (\<lambda>_. True) sample_writes ?s s1" "sw_calls s1 1 = Apart" "sw_writer s1 = None"
    "sw_log s1 = [0]" "sw_db s1 = db"
    using one_writer_ends [of ?s 0 "\<lambda>_. True" sample_writes] db by (auto simp: ended_with_def writers_start_def)
  obtain s2 where s2: "write_steps (\<lambda>_. True) sample_writes s1 s2" "sw_log s2 = [0, 1]"
    "sw_calls s2 1 = Ended (Inr (Claimed [49]))"
    using one_writer_ends [OF s1(2,3), of "\<lambda>_. True" sample_writes] s1 db by (auto simp: ended_with_def)
  have "sw_db s2 = serial_writes sample_writes sample_database [0, 1] \<and>
      serial_write_answer sample_writes sample_database [0, 1] 1 = Inr (Claimed [49])"
    using writers_serialize [OF write_steps_trans [OF s2(1) s1(1)]] s2(3) unfolding s2(2) by force
  with s2(3) show ?thesis by blast
qed

end
