(* ===== verification/Opening.thy ===== *)
theory Opening
  imports SqliteStore
begin

text \<open>
  Opening a SQLite backend: the checks of \<open>SQLiteClient.__init__\<close>, the names of the store's
  tables, and \<open>SQLiteBackend.__init__\<close>, which stamps or checks the schema before anything else.

  The lemmas say what opens and what is refused, that a refusal leaves the database alone, that
  opening again changes nothing, and that stores under different prefixes share no table.
\<close>

section \<open>Definitions\<close>

text \<open>
  \<open>str.upper\<close>, as far as the comparison with ASCII words can tell: beside the ASCII letters
  these are the characters whose upper case is made of ASCII letters. Every other character
  keeps a non-ASCII one.
\<close>

definition upper_char :: "nat \<Rightarrow> pystr" where
  "upper_char c =
     (if 97 \<le> c \<and> c \<le> 122 then [c - 32]
      else if c = 0xDF then str_of ''SS''
      else if c = 0x131 then str_of ''I''
      else if c = 0x17F then str_of ''S''
      else if c = 0xFB00 then str_of ''FF''
      else if c = 0xFB01 then str_of ''FI''
      else if c = 0xFB02 then str_of ''FL''
      else if c = 0xFB03 then str_of ''FFI''
      else if c = 0xFB04 then str_of ''FFL''
      else if c = 0xFB05 \<or> c = 0xFB06 then str_of ''ST''
      else [c])"

definition str_upper :: "pystr \<Rightarrow> pystr" where
  "str_upper s = concat (map upper_char s)"

definition synchronous_values :: "pystr list" where
  "synchronous_values = map str_of [''OFF'', ''NORMAL'', ''FULL'', ''EXTRA'']"

definition executions_suffix :: pystr where "executions_suffix = str_of ''_executions''"
definition session_domains_suffix :: pystr where "session_domains_suffix = str_of ''_session_domains''"
definition meta_suffix :: pystr where "meta_suffix = str_of ''_meta''"

record sqlite_settings =
  st_synchronous :: pystr
  st_executions :: pystr
  st_session_domains :: pystr
  st_meta :: pystr

definition sqlite_client_new :: "pystr \<Rightarrow> pystr \<Rightarrow> pystr \<Rightarrow> exn + sqlite_settings" where
  "sqlite_client_new database_path synchronous table_prefix =
     (if str_upper synchronous \<notin> set synchronous_values then Inl ValueError
      else bind_r (check_table_prefix table_prefix) (\<lambda>_.
           if database_path = str_of '':memory:'' then Inl ValueError
           else Inr \<lparr>st_synchronous = str_upper synchronous,
                     st_executions = table_prefix @ executions_suffix,
                     st_session_domains = table_prefix @ session_domains_suffix,
                     st_meta = table_prefix @ meta_suffix\<rparr>))"

definition sqlite_backend_new ::
    "pystr \<Rightarrow> pystr \<Rightarrow> pystr \<Rightarrow> database \<Rightarrow> (exn + sqlite_settings \<times> database backend) \<times> database" where
  "sqlite_backend_new database_path synchronous table_prefix db =
     (case sqlite_client_new database_path synchronous table_prefix of
        Inl x \<Rightarrow> (Inl x, db)
      | Inr settings \<Rightarrow>
          (case initialize_schema db of
             (Inl x, db') \<Rightarrow> (Inl x, db')
           | (Inr _, db') \<Rightarrow> (Inr (settings, \<lparr>bk_staging = staging_init, bk_store = db'\<rparr>), db')))"

definition table_names :: "sqlite_settings \<Rightarrow> pystr list" where
  "table_names settings = [st_executions settings, st_session_domains settings, st_meta settings]"

section \<open>Table names\<close>

text \<open>SQLite compares the names of tables without the case of ASCII letters.\<close>

lemma ascii_lower_append [simp]: "ascii_lower (xs @ ys) = ascii_lower xs @ ascii_lower ys"
  by (simp add: ascii_lower_def)

lemma ascii_lower_suffixes [simp]:
  "ascii_lower (executions_suffix) = executions_suffix"
  "ascii_lower (session_domains_suffix) = session_domains_suffix"
  "ascii_lower (meta_suffix) = meta_suffix"
  by (simp_all add: ascii_lower_def executions_suffix_def session_domains_suffix_def meta_suffix_def)

lemma suffixes_apart:
  "xs @ executions_suffix \<noteq> ys @ session_domains_suffix"
  "xs @ executions_suffix \<noteq> ys @ meta_suffix"
  "xs @ session_domains_suffix \<noteq> ys @ meta_suffix"
  by (auto simp: executions_suffix_def session_domains_suffix_def meta_suffix_def dest!: arg_cong [where f = rev])

theorem stores_apart:
  assumes "sqlite_client_new db s p = Inr a" "sqlite_client_new db' s' p' = Inr b"
    and "ascii_lower p \<noteq> ascii_lower p'"
  shows "set (map ascii_lower (table_names a)) \<inter> set (map ascii_lower (table_names b)) = {}"
    and "distinct (map ascii_lower (table_names a))"
  using assms suffixes_apart suffixes_apart [symmetric]
  by (auto simp: sqlite_client_new_def table_names_def result_simps split: if_splits)

section \<open>Opening\<close>

lemma schema_outcome:
  "initialize_schema db =
     (if db_meta db \<noteq> None \<and> db_meta db \<noteq> Some sqlite_format_version then (Inl StoreFormatVersionError, db)
      else (Inr (), db\<lparr>db_meta := Some sqlite_format_version\<rparr>))"
  by (cases "db_meta db") (auto simp: initialize_schema_def run_immediate_def stamp_or_check_meta_def)

text \<open>
  What opens is what has a known synchronous mode, an identifier that SQLite does not reserve for
  a prefix and a file; anything else is a \<open>ValueError\<close> before the database is touched. A store
  of another version is refused and left alone. What opens keeps every row, is stamped, and opens
  again without a change.
\<close>
theorem sqlite_backend_opens:
  "case sqlite_backend_new path synchronous p db of
     (Inl x, db') \<Rightarrow> db' = db \<and>
       (if str_upper synchronous \<in> set synchronous_values \<and> check_table_prefix p = Inr () \<and> path \<noteq> str_of '':memory:''
        then x = StoreFormatVersionError \<and> db_meta db \<noteq> None \<and> db_meta db \<noteq> Some sqlite_format_version
        else x = ValueError)
   | (Inr (settings, backend), db') \<Rightarrow>
       db_rows db' = db_rows db \<and> db_domains db' = db_domains db \<and> db_meta db' = Some sqlite_format_version \<and>
       backend = \<lparr>bk_staging = staging_init, bk_store = db'\<rparr> \<and>
       sqlite_backend_new path synchronous p db' = (Inr (settings, backend), db')"
proof -
  have prefix: "check_table_prefix p = Inr () \<or> check_table_prefix p = Inl ValueError"
    by (simp add: check_table_prefix_def)
  show ?thesis
    using prefix unfolding sqlite_backend_new_def sqlite_client_new_def schema_outcome by auto
qed

text \<open>\<open>synchronous="Ofl"\<close> is not a mode, but the same word spelled with the ligature of ff is \<open>OFF\<close>.\<close>

lemma ligature_synchronous:
  "str_upper [79, 0xFB00] \<in> set synchronous_values" "str_upper (str_of ''off'') \<in> set synchronous_values"
  "str_upper (str_of ''ofl'') \<notin> set synchronous_values"
  by (simp_all add: str_upper_def upper_char_def synchronous_values_def)

end
