(* ===== verification/Pruning.thy ===== *)
theory Pruning
  imports Sessions
begin

text \<open>
  Pruning the records below a completed execution: the handler of \<open>testing/_pruning.py\<close>, the
  reference for what an application does with \<open>executions\<close>, \<open>delete_many\<close> and a transaction
  scope of its own once a completion is durable.

  The lemmas show that it removes the strict descendants of the execution and nothing else, and
  that a session resumed from the pruned store still has the outcome of an uninterrupted run.
\<close>

section \<open>The handler\<close>

definition prune_descendants ::
    "'s client \<Rightarrow> nat \<Rightarrow> session_id \<Rightarrow> execution_id \<Rightarrow> 's backend \<Rightarrow> (exn + unit) \<times> 's backend" where
  "prune_descendants C c sess x st =
     (case scope_enter c scope_new st of
        (Inl e, sc, st1) \<Rightarrow> (Inl e, st1)
      | (Inr _, sc, st1) \<Rightarrow>
          (case bind_r (repo_executions C c sess None (Some x) st1) (\<lambda>descendants.
                  if descendants \<noteq> [] then repo_delete_many c sess (map ex_id descendants) st1 else Inr st1) of
             Inl e \<Rightarrow>
               (case scope_exit C c (Some e) sc st1 of
                  (Inl e', _, st2) \<Rightarrow> (Inl e', st2)
                | (Inr _, _, st2) \<Rightarrow> (Inl e, st2))
           | Inr st2 \<Rightarrow> (case scope_exit C c None sc st2 of (r, _, st3) \<Rightarrow> (r, st3))))"

section \<open>What a commit leaves behind\<close>

context store_contract
begin

text \<open>A transaction that commits hands one batch of storable mutations to the store.\<close>

lemma commit_store:
  assumes "staging_inv (bk_staging st)" "c < sg_contexts (bk_staging st)" "tx_begin c st = (tx, st1)"
    and "run_writes c ws st1 = Inr st2" "\<forall>w \<in> set ws. write_ok ok w" "tx_commit C c tx st2 = (Inr (), tx', st3)"
  shows "\<exists>b. batch_ok ok b \<and> cl_commit C b (bk_store st) = Inr (bk_store st3)"
proof (rule transaction_writes [OF assms(1-4)])
  fix i b
  assume tx: "tx = tx_new\<lparr>tx_stage := Some i\<rparr>" and store: "bk_store st2 = bk_store st"
    and snap: "stage_snapshot i (bk_staging st2) = b" and b: "distinct (map fst b)" "\<forall>k. map_of b k = last_write ws k"
    and tok: "map_of (sg_tokens (bk_staging st2)) i = Some (c, sg_open (bk_staging st) c)"
      "sg_open (bk_staging st2) c = Some i" "i < length (sg_stages (bk_staging st2))"
  obtain s where s: "stage_close c i (bk_staging st2) = (Inr (), s)" "stage_get_batch i s = Inr b"
    using close_after_writes [OF tok] snap by auto
  have "batch_ok ok b" by (rule batch_ok_last_writes [OF assms(5) b])
  moreover have "cl_commit C b (bk_store st) = Inr (bk_store st3)"
    using assms(6) s store by (auto simp: tx_commit_def tx tx_new_def split: sum.splits)
  ultimately show ?thesis by blast
qed

end

section \<open>Pruning a store\<close>

locale pruning_store = listing_store + claiming_store +
  assumes norm_id: "ex_id (norm e) = ex_id e"
begin

lemma descendants_listed:
  assumes "inv s" "session_ok sess" "storable_id x"
  obtains es where "cl_list C sess None (Some x) [] s = Inr es" "\<forall>e \<in> set es. storable_id (ex_id e)"
    "\<And>y. storable_id y \<Longrightarrow> y \<in> ex_id ` set es \<longleftrightarrow> ancestor_of x y \<and> (\<exists>e. cl_read C sess y s = Inr (Some e))"
proof -
  obtain es where es: "cl_list C sess None (Some x) [] s = Inr es"
    "listing_spec norm (\<lambda>x. visible C sess x [] s) None (Some x) es"
    using list_ok [OF assms(1) _ assms(2), of "[]" "Some x" None] assms(3) by (auto simp: batch_ok_simps)
  have ids: "\<forall>e \<in> set es. storable_id (ex_id e)" and
    view: "norm ` set es = {norm e | e. storable_id (ex_id e) \<and> cl_read C sess (ex_id e) s = Inr (Some e) \<and> ancestor_of x (ex_id e)}"
    using es(2) by (simp_all add: listing_spec_def visible_def status_matches_def below_matches_def)
  let ?S = "{e. storable_id (ex_id e) \<and> cl_read C sess (ex_id e) s = Inr (Some e) \<and> ancestor_of x (ex_id e)}"
  have img: "ex_id ` norm ` A = ex_id ` A" for A by (simp add: image_image norm_id)
  have eq: "norm ` set es = norm ` ?S" unfolding view by blast
  have "ex_id ` set es = ex_id ` norm ` set es" by (rule img [symmetric])
  also have "\<dots> = ex_id ` norm ` ?S" by (simp only: eq)
  also have "\<dots> = ex_id ` ?S" by (rule img)
  finally have "y \<in> ex_id ` set es \<longleftrightarrow> ancestor_of x y \<and> (\<exists>e. cl_read C sess y s = Inr (Some e))" if "storable_id y" for y
    using that read_ok [OF assms(1,2) that] by auto
  then show ?thesis using that es(1) ids by blast
qed

lemma prune_outcome:
  assumes st: "staging_inv (bk_staging st)" "c < sg_contexts (bk_staging st)"
    and s: "inv (bk_store st)" and x: "session_ok sess" "storable_id x"
  shows "\<exists>st'. prune_descendants C c sess x st = (Inr (), st') \<and> inv (bk_store st') \<and>
    sg_open (bk_staging st') c = sg_open (bk_staging st) c \<and> staged_items c st' = staged_items c st \<and>
    (\<forall>sess' y. session_ok sess' \<longrightarrow> storable_id y \<longrightarrow> cl_read C sess' y (bk_store st') =
       (if sess' = sess \<and> ancestor_of x y then Inr None else cl_read C sess' y (bk_store st))) \<and>
    (\<forall>sess' d. session_ok sess' \<longrightarrow> valid_domain_id d \<longrightarrow>
       recorded sess' d (bk_store st') = recorded sess' d (bk_store st))"
proof -
  obtain tx st1 where b: "tx_begin c st = (tx, st1)" by fastforce
  obtain i where i: "stage_is_open c i st1" "stage_snapshot i (bk_staging st1) = []" "bk_store st1 = bk_store st"
    using begin_open [OF st b] by blast
  obtain es where es: "cl_list C sess None (Some x) [] (bk_store st) = Inr es" "\<forall>e \<in> set es. storable_id (ex_id e)"
    and mem: "\<And>y. storable_id y \<Longrightarrow> y \<in> ex_id ` set es \<longleftrightarrow> ancestor_of x y \<and> (\<exists>e. cl_read C sess y (bk_store st) = Inr (Some e))"
    using descendants_listed [OF s x] by blast
  let ?ws = "if es \<noteq> [] then [WDelete sess (map ex_id es)] else []"
  have ok: "\<forall>w \<in> set ?ws. write_ok ok w" using es(2) x(1) by simp
  have list: "repo_executions C c sess None (Some x) st1 = Inr es"
    by (simp add: repo_executions_def staged_items_open [OF i(1)] i(2,3) es(1))
  obtain st2 where st2: "run_writes c ?ws st1 = Inr st2" using run_writes_open [OF i(1)] by blast
  obtain tx' st3 where c: "tx_commit C c tx st2 = (Inr (), tx', st3)" "inv (bk_store st3)"
    "sg_open (bk_staging st3) c = sg_open (bk_staging st) c" "staged_items c st3 = staged_items c st"
    and reads: "\<forall>sess x. session_ok sess \<longrightarrow> storable_id x \<longrightarrow>
        cl_read C sess x (bk_store st3) =
          (case last_write ?ws (ExecutionKey sess x) of
             None \<Rightarrow> cl_read C sess x (bk_store st)
           | Some DeleteExecution \<Rightarrow> Inr None
           | Some (SaveExecution sn) \<Rightarrow> map_sum id (\<lambda>e. Some (norm e)) (to_execution sn))"
    using commit_visible [OF st b st2 s ok] by blast
  obtain ba where ba: "batch_ok ok ba" "cl_commit C ba (bk_store st) = Inr (bk_store st3)"
    using commit_store [OF st b st2 ok c(1)] by blast
  have run: "(if es \<noteq> [] then repo_delete_many c sess (map ex_id es) st1 else Inr st1) = Inr st2"
    using st2 by (auto simp: bind_r_Inr_iff split: if_splits)
  have "prune_descendants C c sess x st = (Inr (), st3)"
    unfolding prune_descendants_def scope_enter_new [OF b]
    by (simp only: prod.case sum.case list bind_r_simps run scope_exit_open c(1)) simp
  moreover have "cl_read C sess' y (bk_store st3) =
      (if sess' = sess \<and> ancestor_of x y then Inr None else cl_read C sess' y (bk_store st))"
    if y: "session_ok sess'" "storable_id y" for sess' y
  proof -
    have r: "cl_read C sess' y (bk_store st3) =
        (if sess' = sess \<and> y \<in> ex_id ` set es then Inr None else cl_read C sess' y (bk_store st))"
      using reads y by auto
    show ?thesis
    proof (cases "sess' = sess \<and> ancestor_of x y")
      case True
      obtain q where "cl_read C sess y (bk_store st) = Inr q" using read_total [OF s x(1) y(2)] by blast
      with True r mem [OF y(2)] show ?thesis by (cases q) auto
    next
      case False
      with r mem [OF y(2)] show ?thesis by auto
    qed
  qed
  moreover have "recorded sess' d (bk_store st3) = recorded sess' d (bk_store st)"
    if "session_ok sess'" "valid_domain_id d" for sess' d
    by (rule commit_recorded [OF s ba that])
  ultimately show ?thesis using c(2-4) by blast
qed

text \<open>What pruning takes away, a resumed session does again: its outcome is the same.\<close>

lemma pruned_session_resumes:
  assumes E: "en_client E = C" "environment_ok ok norm version_ok E" "deterministic E" "en_task E = 0"
    and s: "sound_state inv recorded E s" and prog: "own_metadata prog" "pure_prog E (pure_call E n) prog None = Some r"
    and x: "storable_id x"
  shows "\<exists>st. prune_descendants C 0 (en_session E) x \<lparr>bk_staging = staging_init, bk_store = s\<rparr> = (Inr (), st) \<and>
    (\<forall>sess y. session_ok sess \<longrightarrow> storable_id y \<longrightarrow> cl_read C sess y (bk_store st) =
       (if sess = en_session E \<and> ancestor_of x y then Inr None else cl_read C sess y s)) \<and>
    sound_state inv recorded E (bk_store st) \<and>
    (\<exists>rt. run_prog E (call_n E n) prog (open_session (bk_store st)) = Some (r, rt))"
proof -
  let ?st = "\<lparr>bk_staging = staging_init, bk_store = s\<rparr>"
  have sess: "session_ok (en_session E)" and dom: "valid_domain_id (ef_domain (en_functions E i))" for i
    using E(2) by (simp_all add: environment_ok_def functions_ok_def Let_def)
  have fresh: "staging_inv (bk_staging ?st)" "0 < sg_contexts (bk_staging ?st)" "inv (bk_store ?st)"
    using s staging_inv_init by (simp_all add: sound_state_def) (simp add: staging_init_def)
  obtain st where st: "prune_descendants C 0 (en_session E) x ?st = (Inr (), st)" "inv (bk_store st)"
    and reads: "\<forall>sess' y. session_ok sess' \<longrightarrow> storable_id y \<longrightarrow> cl_read C sess' y (bk_store st) =
       (if sess' = en_session E \<and> ancestor_of x y then Inr None else cl_read C sess' y s)"
    and versions: "\<forall>sess' d. session_ok sess' \<longrightarrow> valid_domain_id d \<longrightarrow> recorded sess' d (bk_store st) = recorded sess' d s"
    using prune_outcome [OF fresh sess x] by auto
  have "store_sound E (bk_store st)"
    using s reads sess unfolding sound_state_def store_sound_def E(1) by (metis Inr_inject option.discI)
  moreover have "versions_agree recorded E (bk_store st)"
    using s versions sess dom by (simp add: sound_state_def versions_agree_def Let_def)
  ultimately have sound: "sound_state inv recorded E (bk_store st)" using st(2) by (simp add: sound_state_def)
  show ?thesis
    using st(1) reads sound session_resumes [OF E sound prog] by blast
qed

end

interpretation mem: pruning_store memory_client memory_inv stageable sort_execution memory_recorded "\<lambda>_. True"
  by unfold_locales simp

interpretation fs: pruning_store file_client file_inv storable_execution normal_execution file_recorded text_version_ok
  by unfold_locales simp

interpretation sq: pruning_store sqlite_client sqlite_inv storable_execution normal_execution sqlite_recorded text_version_ok
  by unfold_locales simp

section \<open>Properties\<close>

text \<open>
  C4: Pruning leaves replay and resumption unaffected. On a sound SQLite database the handler
  succeeds; it deletes every strict descendant of the execution and nothing else, in any session;
  the database is sound as before, and the program run in a fresh session from it returns what it
  returns with no store at all.
\<close>
theorem sqlite_pruned_session_resumes:
  assumes "en_client E = sqlite_client" "en_task E = 0" "deterministic E"
    and "environment_ok storable_execution normal_execution text_version_ok E"
    and "sound_state sqlite_inv sqlite_recorded E s" "storable_id x"
    and "own_metadata prog" "pure_prog E (pure_call E n) prog None = Some r"
  shows "\<exists>st. prune_descendants sqlite_client 0 (en_session E) x \<lparr>bk_staging = staging_init, bk_store = s\<rparr> = (Inr (), st) \<and>
    (\<forall>sess y. session_ok sess \<longrightarrow> storable_id y \<longrightarrow> sqlite_read sess y (bk_store st) =
       (if sess = en_session E \<and> ancestor_of x y then Inr None else sqlite_read sess y s)) \<and>
    sound_state sqlite_inv sqlite_recorded E (bk_store st) \<and>
    (\<exists>rt. run_prog E (call_n E n) prog (open_session (bk_store st)) = Some (r, rt))"
  by (rule sq.pruned_session_resumes [OF assms(1,4,3,2,5,7,8,6), unfolded sqlite_client_simps])

text \<open>A database with one record, a started call below \<open>sample_eid\<close>.\<close>

definition sample_below :: execution where
  "sample_below = sample_started\<lparr>ex_id := ExecutionId (Some sample_eid) (DomainId [100]) (ExecutionName [103]) 0 (ca_digest sample_ca)\<rparr>"

lemma sample_below_simps [simp]:
  "ex_status sample_below = STARTED" "ex_arguments sample_below = sample_ca" "ex_result sample_below = None"
  "ex_metadata sample_below = []" "ancestor_of sample_eid (ex_id sample_below)"
  by (simp_all add: sample_below_def sample_started_def ancestor_of_parent)

lemma sample_below_storable: "storable_execution sample_below" "storable_id (ex_id sample_below)"
proof -
  have id: "ex_id sample_below = ExecutionId (Some sample_eid) (DomainId [100]) (ExecutionName [103]) 0 (ca_digest sample_ca)"
    by (simp add: sample_below_def sample_started_def)
  show "storable_id (ex_id sample_below)"
    using sample_eid_storable sha256_hexdigest_scalar unfolding id
    by (simp add: valid_execution_id_def encodable_id_def sample_eid_def ca_digest_def
      valid_frame_def encodable_frame_def valid_domain_id_def domain_id_fullmatch_def
      domain_segment_def domain_start_def domain_char_def is_digit_def valid_execution_name_def
      valid_arguments_digest_def is_scalar_def is_surrogate_def)
  show "storable_execution sample_below"
    using sample_ca_recordable id by (simp add: storable_execution_def valid_execution_def metadata_ok_def json_execution_def)
qed

lemma sample_below_database:
  "\<exists>db. sound_state sqlite_inv sqlite_recorded (sample_env sqlite_client) db \<and>
     (\<exists>e. sqlite_read sample_session (ex_id sample_below) db = Inr (Some e))"
proof -
  let ?b = "[(ExecutionKey sample_session (ex_id sample_below), SaveExecution (from_execution sample_below))]"
  have b: "batch_ok storable_execution ?b" using sample_below_storable by (auto simp: batch_ok_simps)
  obtain db where db: "cl_commit sqlite_client ?b sample_database = Inr db" "sqlite_inv db"
    using sq.commit_total [OF sample_database_inv(1) b] by blast
  have read: "sqlite_read sample_session x db =
      (if x = ex_id sample_below then Inr (Some (normal_execution sample_below)) else Inr None)" if "storable_id x" for x
    using sq.read_commit [OF sample_database_inv(1) b db(1) sample_session_ok that] that sample_below_storable
    by (auto simp: visible_def to_from_execution_storable sqlite_read_at sample_database_inv sq.norm_simps)
  have "sqlite_recorded sample_session d db = None" if "valid_domain_id d" for d
    using sq.commit_recorded [OF sample_database_inv(1) b db(1) sample_session_ok that]
    by (simp add: sqlite_recorded_def sample_database_inv)
  moreover have "valid_domain_id (DomainId [100])"
    by (simp add: valid_domain_id_def domain_id_fullmatch_def domain_segment_def domain_start_def)
  ultimately have "sound_state sqlite_inv sqlite_recorded (sample_env sqlite_client) db"
    using db(2) read sq.norm_simps [OF sample_below_storable(1)]
    by (auto simp: sound_state_def store_sound_def execution_sound_def versions_agree_def Let_def sample_functions_simps
      split: if_splits)
  with read [OF sample_below_storable(2)] show ?thesis by auto
qed
theorem sqlite_pruned_session_resumes_witness:
  "\<exists>db st rt. sqlite_read sample_session (ex_id sample_below) db \<noteq> Inr None \<and>
     prune_descendants sqlite_client 0 sample_session sample_eid \<lparr>bk_staging = staging_init, bk_store = db\<rparr> = (Inr (), st) \<and>
     sqlite_read sample_session (ex_id sample_below) (bk_store st) = Inr None \<and>
     run_prog (sample_env sqlite_client) (call_n (sample_env sqlite_client) 2) sample_prog (open_session (bk_store st))
       = Some (Inr (JList [JInt 1, JInt 1]), rt)"
proof -
  obtain db e where db: "sound_state sqlite_inv sqlite_recorded (sample_env sqlite_client) db"
    "sqlite_read sample_session (ex_id sample_below) db = Inr (Some e)" using sample_below_database by blast
  obtain st rt where "prune_descendants sqlite_client 0 sample_session sample_eid \<lparr>bk_staging = staging_init, bk_store = db\<rparr> = (Inr (), st)"
    "sqlite_read sample_session (ex_id sample_below) (bk_store st) = Inr None"
    "run_prog (sample_env sqlite_client) (call_n (sample_env sqlite_client) 2) sample_prog (open_session (bk_store st))
       = Some (Inr (JList [JInt 1, JInt 1]), rt)"
    using sqlite_pruned_session_resumes [OF _ _ sample_deterministic sample_text_env_ok db(1) _ sample_prog_own sample_pure_prog,
        of sample_eid] sample_below_storable(2) by auto
  with db(2) show ?thesis by (intro exI [of _ db] exI [of _ st] exI [of _ rt]) simp
qed

end
