(* ===== verification/Branches.thy ===== *)
theory Branches
  imports Runtime
begin

text \<open>
  Parallel calls in one session (\<open>ExecutionTracer\<close> of \<open>_context.py\<close>, \<open>Sequencer\<close> of \<open>_sequencer.py\<close>,
  \<open>_resolve_call_identity\<close> of \<open>_domain.py\<close> and the steps of \<open>execute\<close> that touch either): every
  asyncio task has its own call stack, a copy of its creator's, and all of them share one
  sequencer. The other theories run one call after the other; here calls interleave wherever the
  code awaits.

  The lemmas show that in every interleaving the stack of a task is the line of ancestors of its
  current call, that the calls of a scope are numbered 0, 1, 2, ... in the order in which they
  ask, so that no identity is given twice, and that the sequencer's dictionaries never raise.
\<close>

section \<open>Asking for an ordinal\<close>

text \<open>
  \<open>Sequencer.next\<close> in its two halves: creating the lock of the scope under the meta lock, then
  counting under the scope's own lock, which is looked up again.
\<close>

definition register_scope :: "sequence_scope \<Rightarrow> sequencer \<Rightarrow> sequencer" where
  "register_scope key s = (if key \<in> set (sq_locks s) then s else s\<lparr>sq_locks := sq_locks s @ [key]\<rparr>)"

definition count_scope :: "sequence_scope \<Rightarrow> sequencer \<Rightarrow> exn + int \<times> sequencer" where
  "count_scope key s =
     (if key \<notin> set (sq_locks s) then Inl KeyError
      else Inr (counter_of key s, s\<lparr>sq_counters := AList.update key (counter_of key s + 1) (sq_counters s)\<rparr>))"

text \<open>Without another task in between, the halves are the whole.\<close>

lemma next_in_halves: "count_scope key (register_scope key s) = Inr (sequencer_next key s)"
  by (cases s) (simp add: count_scope_def register_scope_def sequencer_next_def Let_def counter_of_def)

section \<open>Tasks\<close>

text \<open>
  What a task is doing: running a body, between the halves of \<open>next\<close>, about to look the call up
  and reset its children, or about to push it.
\<close>

datatype doing = Running | Asking sequence_scope | Numbered execution_id | Cleared execution_id

text \<open>\<open>tk_own\<close> counts the calls on the stack that the task itself has to end.\<close>

record task =
  tk_stack :: "execution_id list"
  tk_own :: nat
  tk_doing :: doing

text \<open>\<open>br_calls\<close> records the identities in the order they were given, \<open>br_failed\<close> what the sequencer raised.\<close>

record branches =
  br_sequencer :: sequencer
  br_tasks :: "nat \<Rightarrow> task option"
  br_calls :: "execution_id list"
  br_failed :: "exn option"

definition branches_start :: branches where
  "branches_start = \<lparr>br_sequencer = sequencer_init,
     br_tasks = (\<lambda>_. None)(0 := Some \<lparr>tk_stack = [], tk_own = 0, tk_doing = Running\<rparr>), br_calls = [], br_failed = None\<rparr>"

definition put_task :: "nat \<Rightarrow> task \<Rightarrow> branches \<Rightarrow> branches" where
  "put_task t b s = s\<lparr>br_tasks := (br_tasks s)(t := Some b)\<rparr>"

text \<open>The scope of a call that the task makes now, and the identity it gets with an ordinal.\<close>

definition call_scope :: "task \<Rightarrow> domain_id \<Rightarrow> execution_name \<Rightarrow> arguments_digest \<Rightarrow> sequence_scope" where
  "call_scope b d n a =
     \<lparr>scope_parent = tracer_current (tk_stack b), scope_domain = d, scope_name = n, scope_digest = a\<rparr>"

definition number_call :: "sequence_scope \<Rightarrow> sequencer \<Rightarrow> exn + execution_id \<times> sequencer" where
  "number_call key s =
     bind_r (count_scope key s) (\<lambda>(seq, s').
     bind_r (mk_execution_id (scope_parent key) (scope_domain key) (scope_name key) (SeqInt seq) (scope_digest key))
       (\<lambda>x. Inr (x, s')))"

inductive branch_step :: "branches \<Rightarrow> branches \<Rightarrow> bool" where
  spawn: "br_tasks s t = Some b \<Longrightarrow> br_tasks s u = None \<Longrightarrow>
    branch_step s (put_task u \<lparr>tk_stack = tk_stack b, tk_own = 0, tk_doing = Running\<rparr> s)"
| ask: "br_tasks s t = Some b \<Longrightarrow> tk_doing b = Running \<Longrightarrow> key = call_scope b d n a \<Longrightarrow>
    branch_step s (put_task t (b\<lparr>tk_doing := Asking key\<rparr>)
      (s\<lparr>br_sequencer := register_scope key (br_sequencer s)\<rparr>))"
| number: "br_tasks s t = Some b \<Longrightarrow> tk_doing b = Asking key \<Longrightarrow> number_call key (br_sequencer s) = Inr (x, sq) \<Longrightarrow>
    branch_step s (put_task t (b\<lparr>tk_doing := Numbered x\<rparr>) (s\<lparr>br_sequencer := sq, br_calls := br_calls s @ [x]\<rparr>))"
| number_raises: "br_tasks s t = Some b \<Longrightarrow> tk_doing b = Asking key \<Longrightarrow> number_call key (br_sequencer s) = Inl e \<Longrightarrow>
    branch_step s (put_task t (b\<lparr>tk_doing := Running\<rparr>) (s\<lparr>br_failed := Some e\<rparr>))"
| reset: "br_tasks s t = Some b \<Longrightarrow> tk_doing b = Numbered x \<Longrightarrow> reset_for_call x (br_sequencer s) = (Inr (), sq) \<Longrightarrow>
    branch_step s (put_task t (b\<lparr>tk_doing := Cleared x\<rparr>) (s\<lparr>br_sequencer := sq\<rparr>))"
| reset_raises: "br_tasks s t = Some b \<Longrightarrow> tk_doing b = Numbered x \<Longrightarrow> reset_for_call x (br_sequencer s) = (Inl e, sq) \<Longrightarrow>
    branch_step s (put_task t (b\<lparr>tk_doing := Running\<rparr>) (s\<lparr>br_sequencer := sq, br_failed := Some e\<rparr>))"
| enter: "br_tasks s t = Some b \<Longrightarrow> tk_doing b = Cleared x \<Longrightarrow>
    branch_step s (put_task t \<lparr>tk_stack = tracer_start x (tk_stack b), tk_own = Suc (tk_own b), tk_doing = Running\<rparr> s)"
| give_up: "br_tasks s t = Some b \<Longrightarrow> branch_step s (put_task t (b\<lparr>tk_doing := Running\<rparr>) s)"
| leave: "br_tasks s t = Some b \<Longrightarrow> tk_doing b = Running \<Longrightarrow> tk_own b = Suc m \<Longrightarrow>
    branch_step s (put_task t (b\<lparr>tk_stack := tracer_end (tk_stack b), tk_own := m\<rparr>) s)"

inductive branch_steps :: "branches \<Rightarrow> branches \<Rightarrow> bool" where
  none: "branch_steps s s"
| more: "branch_steps s s' \<Longrightarrow> branch_step s' s'' \<Longrightarrow> branch_steps s s''"

lemma put_task_simps [simp]:
  "br_tasks (put_task t b s) = (br_tasks s)(t := Some b)" "br_sequencer (put_task t b s) = br_sequencer s"
  "br_calls (put_task t b s) = br_calls s" "br_failed (put_task t b s) = br_failed s"
  by (simp_all add: put_task_def)

section \<open>Stacks are lines of ancestors\<close>

lemma tracer_current_in: "tracer_current st = Some x \<Longrightarrow> x \<in> set st"
  by (auto simp: tracer_current_def split: if_splits)

lemma tracer_end_subset: "x \<in> set (tracer_end st) \<Longrightarrow> x \<in> set st"
  by (auto simp: tracer_end_def dest: in_set_butlastD)

definition ancestor_line :: "execution_id list \<Rightarrow> bool" where
  "ancestor_line stack \<longleftrightarrow> stack = (case tracer_current stack of None \<Rightarrow> [] | Some x \<Rightarrow> rev (ancestry x))"

lemma distinct_by_filter: "(\<And>k. distinct (filter (\<lambda>x. f x = k) xs)) \<Longrightarrow> distinct xs"
proof (induction xs)
  case (Cons x xs)
  have "distinct (filter (\<lambda>y. f y = k) xs)" for k using Cons.prems [of k] by (simp split: if_splits)
  moreover have "x \<notin> set xs" using Cons.prems [of "f x"] by auto
  ultimately show ?case using Cons.IH by simp
qed simp

lemma ancestor_line_Nil [simp]: "ancestor_line []"
  by (simp add: ancestor_line_def)

lemma ancestor_line_start: "ancestor_line stack \<Longrightarrow> eid_parent x = tracer_current stack \<Longrightarrow> ancestor_line (tracer_start x stack)"
  unfolding ancestor_line_def tracer_simps
  by (cases "tracer_current stack") (simp_all add: ancestry_root ancestry_parent tracer_start_def)

lemma ancestor_line_end:
  assumes "ancestor_line stack" shows "ancestor_line (tracer_end stack)"
proof (cases "tracer_current stack")
  case None
  then show ?thesis by (simp add: tracer_current_def tracer_end_def split: if_splits)
next
  case (Some x)
  then have stack: "stack = rev (ancestry x)" using assms by (simp add: ancestor_line_def)
  show ?thesis
  proof (cases "eid_parent x")
    case None
    then show ?thesis by (simp add: stack tracer_end_def ancestry_root)
  next
    case (Some p)
    have "last (rev (ancestry p)) = p" by (simp add: last_rev)
    with Some show ?thesis
      by (simp add: stack tracer_end_def ancestry_parent ancestor_line_def tracer_current_def)
  qed
qed

section \<open>Invariant\<close>

definition pending :: "task \<Rightarrow> execution_id option" where
  "pending b = (case tk_doing b of Numbered x \<Rightarrow> Some x | Cleared x \<Rightarrow> Some x | _ \<Rightarrow> None)"

text \<open>The calls of a scope, in the order in which they were numbered.\<close>

definition calls_in :: "sequence_scope \<Rightarrow> branches \<Rightarrow> execution_id list" where
  "calls_in k s = filter (\<lambda>x. scope_of x = k) (br_calls s)"

text \<open>Counters count calls, every counter has its lock, and a scope is below a call or at the top.\<close>

definition counting :: "branches \<Rightarrow> bool" where
  "counting s \<longleftrightarrow>
     fst ` set (sq_counters (br_sequencer s)) \<subseteq> set (sq_locks (br_sequencer s)) \<and>
     (\<forall>k \<in> set (sq_locks (br_sequencer s)). scope_parent k \<in> insert None (Some ` set (br_calls s))) \<and>
     (\<forall>k. counter_of k (br_sequencer s) = int (length (calls_in k s)) \<and>
          map eid_sequence (calls_in k s) = map int [0 ..< length (calls_in k s)])"

text \<open>A call that is numbered and not yet pushed has no scope below it.\<close>

definition task_ok :: "branches \<Rightarrow> task \<Rightarrow> bool" where
  "task_ok s b \<longleftrightarrow>
     ancestor_line (tk_stack b) \<and> set (tk_stack b) \<subseteq> set (br_calls s) \<and>
     (\<forall>key. tk_doing b = Asking key \<longrightarrow>
        key \<in> set (sq_locks (br_sequencer s)) \<and> scope_parent key = tracer_current (tk_stack b)) \<and>
     (\<forall>x. pending b = Some x \<longrightarrow> x \<in> set (br_calls s) \<and> eid_parent x = tracer_current (tk_stack b) \<and>
        (\<forall>k \<in> set (sq_locks (br_sequencer s)). scope_parent k \<noteq> Some x))"

definition apart :: "branches \<Rightarrow> bool" where
  "apart s \<longleftrightarrow> (\<forall>t b x u c. br_tasks s t = Some b \<longrightarrow> pending b = Some x \<longrightarrow> br_tasks s u = Some c \<longrightarrow>
     x \<notin> set (tk_stack c) \<and> (u \<noteq> t \<longrightarrow> pending c \<noteq> Some x))"

definition branches_inv :: "branches \<Rightarrow> bool" where
  "branches_inv s \<longleftrightarrow> br_failed s = None \<and> counting s \<and> apart s \<and> (\<forall>t b. br_tasks s t = Some b \<longrightarrow> task_ok s b)"

lemma pending_simps [simp]:
  "pending \<lparr>tk_stack = st, tk_own = m, tk_doing = Running\<rparr> = None"
  "pending (b\<lparr>tk_doing := Running\<rparr>) = None" "pending (b\<lparr>tk_doing := Asking key\<rparr>) = None"
  "pending (b\<lparr>tk_doing := Numbered x\<rparr>) = Some x" "pending (b\<lparr>tk_doing := Cleared x\<rparr>) = Some x"
  "tk_doing b = Running \<Longrightarrow> pending b = None" "tk_doing b = Running \<Longrightarrow> pending (b\<lparr>tk_stack := st, tk_own := m\<rparr>) = None"
  "tk_doing b = Asking key \<Longrightarrow> pending b = None"
  "tk_doing b = Numbered x \<Longrightarrow> pending b = Some x" "tk_doing b = Cleared x \<Longrightarrow> pending b = Some x"
  by (simp_all add: pending_def)

lemma branches_inv_start: "branches_inv branches_start"
  by (auto simp: branches_inv_def branches_start_def counting_def calls_in_def apart_def task_ok_def sequencer_init_def
      counter_of_def pending_def)

section \<open>Numbering\<close>

text \<open>Asking for a number succeeds, and what it gives is new.\<close>

lemma count_scope_ok:
  "counting s \<Longrightarrow> key \<in> set (sq_locks (br_sequencer s)) \<Longrightarrow>
     \<exists>sq. number_call key (br_sequencer s) =
        Inr (ExecutionId (scope_parent key) (scope_domain key) (scope_name key) (int (length (calls_in key s))) (scope_digest key), sq) \<and>
       sq_locks sq = sq_locks (br_sequencer s) \<and> fst ` set (sq_counters sq) = insert key (fst ` set (sq_counters (br_sequencer s))) \<and>
       (\<forall>k. counter_of k sq = counter_of k (br_sequencer s) + (if k = key then 1 else 0))"
  by (auto simp: number_call_def count_scope_def counting_def counter_of_def AList.update_keys dom_update)

lemma number_new:
  assumes "counting s" "scope_of x = key" "eid_sequence x = int (length (calls_in key s))"
  shows "x \<notin> set (br_calls s)"
proof
  assume "x \<in> set (br_calls s)"
  then have "eid_sequence x \<in> set (map eid_sequence (calls_in key s))" using assms(2) by (simp add: calls_in_def)
  also have "map eid_sequence (calls_in key s) = map int [0 ..< length (calls_in key s)]"
    using assms(1) unfolding counting_def by blast
  finally show False using assms(3) by auto
qed

text \<open>There is nothing to reset.\<close>

lemma reset_nothing:
  assumes "counting s" "\<forall>k \<in> set (sq_locks (br_sequencer s)). scope_parent k \<noteq> Some x"
  shows "reset_for_call x (br_sequencer s) = (Inr (), br_sequencer s)"
proof -
  have "filter (\<lambda>k. scope_parent k = Some x) (map fst (sq_counters (br_sequencer s))) = []"
    using assms by (auto simp: counting_def filter_empty_conv)
  then show ?thesis by (simp add: reset_for_call_def)
qed

section \<open>Every step keeps the invariant\<close>

text \<open>A step of one task that numbers nothing and adds scopes below its own current call only.\<close>

lemma branches_inv_local:
  assumes inv: "branches_inv s" and t: "br_tasks s t = Some b"
    and s': "br_tasks s' = (br_tasks s)(u := Some c)" "br_calls s' = br_calls s" "br_failed s' = br_failed s"
      "counting s'"
    and u: "u = t \<or> br_tasks s u = None"
    and locks: "set (sq_locks (br_sequencer s)) \<subseteq> set (sq_locks (br_sequencer s'))"
      "\<forall>k \<in> set (sq_locks (br_sequencer s')) - set (sq_locks (br_sequencer s)).
         scope_parent k = tracer_current (tk_stack b) \<and> (\<exists>key. tk_doing c = Asking key)"
    and stack: "\<And>x. x \<in> set (tk_stack c) \<Longrightarrow> x \<in> set (tk_stack b) \<or> u = t \<and> pending b = Some x"
    and pending: "pending c = None \<or> u = t \<and> pending c = pending b \<and> set (tk_stack c) \<subseteq> set (tk_stack b)"
    and ok: "task_ok s' c"
  shows "branches_inv s'"
proof -
  have ok_s: "task_ok s b'" if "br_tasks s t' = Some b'" for t' b' using inv that by (simp add: branches_inv_def)
  have apart_s: "x \<notin> set (tk_stack c') \<and> (u' \<noteq> t' \<longrightarrow> pending c' \<noteq> Some x)"
    if "br_tasks s t' = Some b'" "pending b' = Some x" "br_tasks s u' = Some c'" for t' b' x u' c'
    using inv that unfolding branches_inv_def apart_def by blast
  have current: "tracer_current st \<noteq> Some x" if "x \<notin> set st" for x st
    using that by (auto simp: tracer_current_def)
  have "task_ok s' b'" if "br_tasks s' t' = Some b'" for t' b'
  proof (cases "t' = u")
    case False
    then have at: "br_tasks s t' = Some b'" using that s'(1) by simp
    have "scope_parent k \<noteq> Some x" if "pending b' = Some x" "k \<in> set (sq_locks (br_sequencer s'))" for x k
      using that ok_s [OF at] locks(2) apart_s [OF at that(1) t] current [of x "tk_stack b"] by (auto simp: task_ok_def)
    then show ?thesis using ok_s [OF at] locks(1) s'(2) by (auto simp: task_ok_def)
  qed (use that ok s'(1) in simp)
  moreover have "apart s'"
    unfolding apart_def
  proof (intro allI impI)
    fix t' b' x u' c'
    assume at: "br_tasks s' t' = Some b'" "pending b' = Some x" "br_tasks s' u' = Some c'"
    obtain b0 where b0: "br_tasks s t' = Some b0" "pending b0 = Some x"
      using at(1,2) s'(1) pending t by (cases "t' = u") auto
    show "x \<notin> set (tk_stack c') \<and> (u' \<noteq> t' \<longrightarrow> pending c' \<noteq> Some x)"
    proof (cases "u' = u")
      case False
      then have "br_tasks s u' = Some c'" using at(3) s'(1) by simp
      then show ?thesis by (rule apart_s [OF b0])
    next
      case True
      then have c': "c' = c" using at(3) s'(1) by simp
      note tb = apart_s [OF b0 t]
      consider (own) "t' = t" "u = t" | (spawned) "t' = t" "u \<noteq> t" | (other) "t' \<noteq> t" by blast
      then show ?thesis
      proof cases
        case own
        then have "pending c = Some x" using at(1,2) s'(1) by simp
        then have "set (tk_stack c) \<subseteq> set (tk_stack b)" using pending by auto
        with tb own True c' show ?thesis by auto
      next
        case spawned
        then have "pending c = None" "x \<notin> set (tk_stack c)" using pending stack tb by auto
        with c' show ?thesis by simp
      next
        case other
        then have "x \<notin> set (tk_stack c)" "pending c \<noteq> Some x" using tb stack pending by auto
        with c' show ?thesis by simp
      qed
    qed
  qed
  ultimately show ?thesis using inv s' by (simp add: branches_inv_def)
qed

lemma branches_inv_number:
  assumes inv: "branches_inv s" and t: "br_tasks s t = Some b" and asking: "tk_doing b = Asking key"
    and num: "number_call key (br_sequencer s) = Inr (x, sq)"
  shows "branches_inv (put_task t (b\<lparr>tk_doing := Numbered x\<rparr>) (s\<lparr>br_sequencer := sq, br_calls := br_calls s @ [x]\<rparr>))"
    (is "branches_inv ?s")
proof -
  have count: "counting s" and ok: "task_ok s c" if "br_tasks s u = Some c" for u c
    using inv that by (auto simp: branches_inv_def)
  note count = count [OF t]
  have key: "key \<in> set (sq_locks (br_sequencer s))" "scope_parent key = tracer_current (tk_stack b)"
    using ok [OF t] asking by (simp_all add: task_ok_def)
  have x: "x = ExecutionId (scope_parent key) (scope_domain key) (scope_name key) (int (length (calls_in key s))) (scope_digest key)"
    and sq: "sq_locks sq = sq_locks (br_sequencer s)"
      "fst ` set (sq_counters sq) = insert key (fst ` set (sq_counters (br_sequencer s)))"
      "\<forall>k. counter_of k sq = counter_of k (br_sequencer s) + (if k = key then 1 else 0)"
    using count_scope_ok [OF count key(1)] num by auto
  have scope: "scope_of x = key" "eid_parent x = scope_parent key" by (cases key, simp add: x scope_of_def) (simp add: x)
  have new: "x \<notin> set (br_calls s)" by (rule number_new [OF count scope(1)]) (simp add: x)
  have calls: "calls_in k ?s = calls_in k s @ (if k = key then [x] else [])" for k
    using scope(1) by (simp add: calls_in_def)
  have parents: "scope_parent k \<noteq> Some x" if "k \<in> set (sq_locks (br_sequencer s))" for k
    using count new that by (auto simp: counting_def)
  have known: "set (tk_stack c) \<subseteq> set (br_calls s)" "pending c = Some y \<Longrightarrow> y \<in> set (br_calls s)"
    if "br_tasks s u = Some c" for u c y
    using ok [OF that] by (auto simp: task_ok_def)
  have "counting ?s"
    unfolding counting_def
  proof (intro conjI allI)
    fix k
    have old: "counter_of k (br_sequencer s) = int (length (calls_in k s))"
      "map eid_sequence (calls_in k s) = map int [0 ..< length (calls_in k s)]"
      using count by (simp_all add: counting_def)
    show "counter_of k (br_sequencer ?s) = int (length (calls_in k ?s))"
      unfolding calls using sq(3) old(1) by simp
    show "map eid_sequence (calls_in k ?s) = map int [0 ..< length (calls_in k ?s)]"
      unfolding calls using old(2) by (simp add: x)
  qed (use count key(1) sq in \<open>auto simp: counting_def\<close>)
  moreover have "task_ok ?s c" if "br_tasks ?s u = Some c" for u c
  proof (cases "u = t")
    case True
    then have "c = b\<lparr>tk_doing := Numbered x\<rparr>" using that by simp
    then show ?thesis using ok [OF t] scope(2) key(2) parents sq(1) by (auto simp: task_ok_def)
  next
    case False
    then show ?thesis using ok [of u c] that sq(1) by (auto simp: task_ok_def)
  qed
  moreover have "apart ?s"
    unfolding apart_def
  proof (intro allI impI)
    fix t' b' y u c
    assume at: "br_tasks ?s t' = Some b'" "pending b' = Some y" "br_tasks ?s u = Some c"
    have "y \<notin> set (tk_stack c) \<and> (u \<noteq> t' \<longrightarrow> pending c \<noteq> Some y)" if "t' \<noteq> t"
    proof -
      have b': "br_tasks s t' = Some b'" using that at(1) by simp
      have sep: "y \<notin> set (tk_stack c0) \<and> (u \<noteq> t' \<longrightarrow> pending c0 \<noteq> Some y)" if "br_tasks s u = Some c0" for c0
        using inv b' at(2) that unfolding branches_inv_def apart_def by blast
      show ?thesis
        using sep at(3) t known(2) [OF b' at(2)] new by (cases "u = t") auto
    qed
    moreover have "x \<notin> set (tk_stack c) \<and> (u \<noteq> t \<longrightarrow> pending c \<noteq> Some x)"
      using at(3) known [of u] known(1) [OF t] new by (cases "u = t") auto
    ultimately show "y \<notin> set (tk_stack c) \<and> (u \<noteq> t' \<longrightarrow> pending c \<noteq> Some y)"
      using at(1,2) by (cases "t' = t") auto
  qed
  ultimately show ?thesis using inv by (simp add: branches_inv_def)
qed

lemma branches_inv_step: "branch_step s s' \<Longrightarrow> branches_inv s \<Longrightarrow> branches_inv s'"
proof (induction rule: branch_step.induct)
  case (spawn s t b u)
  then have "task_ok s b" "counting s" by (auto simp: branches_inv_def)
  then show ?case
    by (intro branches_inv_local [OF spawn(3,1), where u = u and c = "\<lparr>tk_stack = tk_stack b, tk_own = 0, tk_doing = Running\<rparr>"]) (use spawn in \<open>auto simp: task_ok_def counting_def calls_in_def\<close>)
next
  case (ask s t b key d n a)
  then have "task_ok s b" "counting s" by (auto simp: branches_inv_def)
  moreover have "tracer_current (tk_stack b) \<in> insert None (Some ` set (br_calls s))"
    using calculation(1) tracer_current_in [of "tk_stack b"]
    by (cases "tracer_current (tk_stack b)") (auto simp: task_ok_def)
  ultimately show ?case
    using ask
    by (intro branches_inv_local [OF ask(4,1), where u = t and c = "b\<lparr>tk_doing := Asking key\<rparr>"])
      (auto simp: task_ok_def counting_def calls_in_def register_scope_def call_scope_def counter_of_def)
next
  case (number s t b key x sq)
  then show ?case by (intro branches_inv_number)
next
  case (number_raises s t b key e)
  then have "task_ok s b" "counting s" by (auto simp: branches_inv_def)
  then show ?case using number_raises count_scope_ok [of s key] by (auto simp: task_ok_def)
next
  case (reset s t b x sq)
  then have ok: "task_ok s b" and c: "counting s" by (auto simp: branches_inv_def)
  then have "sq = br_sequencer s" using reset reset_nothing [OF c, of x] by (auto simp: task_ok_def)
  then show ?case
    using ok c reset
    by (intro branches_inv_local [OF reset(4,1), where u = t and c = "b\<lparr>tk_doing := Cleared x\<rparr>"]) (auto simp: task_ok_def counting_def calls_in_def)
next
  case (reset_raises s t b x e sq)
  then have ok: "task_ok s b" and c: "counting s" by (auto simp: branches_inv_def)
  then show ?case using reset_raises reset_nothing [OF c, of x] by (auto simp: task_ok_def)
next
  case (enter s t b x)
  then have ok: "task_ok s b" and c: "counting s" by (auto simp: branches_inv_def)
  have "task_ok s \<lparr>tk_stack = tracer_start x (tk_stack b), tk_own = Suc (tk_own b), tk_doing = Running\<rparr>"
    using ok enter(2) by (auto simp: task_ok_def ancestor_line_start)
  then show ?case
    using c enter by (intro branches_inv_local [OF enter(3,1), where u = t and
        c = "\<lparr>tk_stack = tracer_start x (tk_stack b), tk_own = Suc (tk_own b), tk_doing = Running\<rparr>"]) (auto simp: task_ok_def counting_def calls_in_def)
next
  case (give_up s t b)
  then have "task_ok s b" "counting s" by (auto simp: branches_inv_def)
  then show ?case
    by (intro branches_inv_local [OF give_up(2,1), where u = t and c = "b\<lparr>tk_doing := Running\<rparr>"]) (auto simp: task_ok_def counting_def calls_in_def)
next
  case (leave s t b m)
  then have "task_ok s b" "counting s" by (auto simp: branches_inv_def)
  then show ?case
    using leave
    by (intro branches_inv_local [OF leave(4,1), where u = t and
        c = "b\<lparr>tk_stack := tracer_end (tk_stack b), tk_own := m\<rparr>"])
      (auto simp: task_ok_def counting_def calls_in_def ancestor_line_end dest: tracer_end_subset)
qed

lemma branches_inv_steps: "branch_steps s s' \<Longrightarrow> branches_inv s \<Longrightarrow> branches_inv s'"
  by (induction rule: branch_steps.induct) (auto intro: branches_inv_step)

section \<open>Properties\<close>

text \<open>
  C7: Parallel calls are told apart. Whatever tasks a session spawns and however their calls
  interleave, the calls of a scope get the ordinals 0, 1, 2, ... in the order in which they are
  counted, so no identity is given twice; the stack of every task is the line of ancestors of its
  current call, whose identity was given to it, so no push of one task reaches another; and the
  sequencer never raises.
\<close>
theorem parallel_calls_apart:
  assumes "branch_steps branches_start s"
  shows "br_failed s = None \<and> distinct (br_calls s) \<and>
    (\<forall>k. map eid_sequence (calls_in k s) = map int [0 ..< length (calls_in k s)]) \<and>
    (\<forall>t b. br_tasks s t = Some b \<longrightarrow> ancestor_line (tk_stack b) \<and> set (tk_stack b) \<subseteq> set (br_calls s))"
proof -
  have inv: "branches_inv s" by (rule branches_inv_steps [OF assms branches_inv_start])
  have ordinals: "map eid_sequence (calls_in k s) = map int [0 ..< length (calls_in k s)]" for k
    using inv unfolding branches_inv_def counting_def by blast
  have "distinct (calls_in k s)" for k
  proof -
    have "distinct (map int [0 ..< length (calls_in k s)])" by (simp add: distinct_map inj_on_def)
    then show ?thesis unfolding ordinals [symmetric] by (simp add: distinct_map)
  qed
  then have "distinct (br_calls s)" unfolding calls_in_def by (rule distinct_by_filter)
  then show ?thesis using inv ordinals by (auto simp: branches_inv_def task_ok_def)
qed

text \<open>Two tasks that make the same call: the second to ask is counted first.\<close>

definition sample_scope :: sequence_scope where
  "sample_scope = call_scope \<lparr>tk_stack = [], tk_own = 0, tk_doing = Running\<rparr> (DomainId [100]) (ExecutionName [102])
     (ArgumentsDigest [97])"

definition sample_branches :: branches where
  "sample_branches =
     (let free = \<lparr>tk_stack = [], tk_own = 0, tk_doing = Running\<rparr>;
          x = ExecutionId None (DomainId [100]) (ExecutionName [102]) 0 (ArgumentsDigest [97]);
          y = ExecutionId None (DomainId [100]) (ExecutionName [102]) 1 (ArgumentsDigest [97])
      in \<lparr>br_sequencer = \<lparr>sq_locks = [sample_scope], sq_counters = [(sample_scope, 2)]\<rparr>,
          br_tasks = (\<lambda>_. None)(0 := Some (free\<lparr>tk_doing := Numbered y\<rparr>), 1 := Some (free\<lparr>tk_doing := Numbered x\<rparr>)),
          br_calls = [x, y], br_failed = None\<rparr>)"

lemma sample_branches_reached: "branch_steps branches_start sample_branches"
proof -
  let ?free = "\<lparr>tk_stack = [], tk_own = 0, tk_doing = Running\<rparr> :: task"
  let ?asking = "?free\<lparr>tk_doing := Asking sample_scope\<rparr>"
  let ?x = "ExecutionId None (DomainId [100]) (ExecutionName [102]) 0 (ArgumentsDigest [97])"
  let ?y = "ExecutionId None (DomainId [100]) (ExecutionName [102]) 1 (ArgumentsDigest [97])"
  let ?s1 = "put_task 1 ?free branches_start"
  let ?s2 = "put_task 0 ?asking (?s1\<lparr>br_sequencer := register_scope sample_scope (br_sequencer ?s1)\<rparr>)"
  let ?s3 = "put_task 1 ?asking (?s2\<lparr>br_sequencer := register_scope sample_scope (br_sequencer ?s2)\<rparr>)"
  let ?sq4 = "\<lparr>sq_locks = [sample_scope], sq_counters = [(sample_scope, 1)]\<rparr>"
  let ?s4 = "put_task 1 (?asking\<lparr>tk_doing := Numbered ?x\<rparr>) (?s3\<lparr>br_sequencer := ?sq4, br_calls := br_calls ?s3 @ [?x]\<rparr>)"
  let ?sq5 = "\<lparr>sq_locks = [sample_scope], sq_counters = [(sample_scope, 2)]\<rparr>"
  let ?s5 = "put_task 0 (?asking\<lparr>tk_doing := Numbered ?y\<rparr>) (?s4\<lparr>br_sequencer := ?sq5, br_calls := br_calls ?s4 @ [?y]\<rparr>)"
  note start = branches_start_def sequencer_init_def register_scope_def
  have st1: "branch_step branches_start ?s1"
    using spawn [of branches_start 0 ?free 1] by (simp add: start)
  have st2: "branch_step ?s1 ?s2"
    by (rule ask [where b = ?free]) (simp_all add: start sample_scope_def)
  have st3: "branch_step ?s2 ?s3"
    by (rule ask [where b = ?free]) (simp_all add: start sample_scope_def)
  have st4: "branch_step ?s3 ?s4"
    by (rule number [where b = ?asking and key = sample_scope])
      (simp_all add: start number_call_def count_scope_def counter_of_def sample_scope_def call_scope_def)
  have st5: "branch_step ?s4 ?s5"
    by (rule number [where b = ?asking and key = sample_scope])
      (simp_all add: start number_call_def count_scope_def counter_of_def sample_scope_def call_scope_def)
  have "?s5 = sample_branches"
    by (auto simp: sample_branches_def Let_def put_task_def start)
  then show ?thesis using more [OF more [OF more [OF more [OF more [OF none st1] st2] st3] st4] st5] by simp
qed

theorem parallel_calls_apart_witness:
  "distinct (br_calls sample_branches) \<and> map eid_sequence (calls_in sample_scope sample_branches) = [0, 1]"
proof -
  have "distinct (br_calls sample_branches)"
    and ordinals: "map eid_sequence (calls_in sample_scope sample_branches) = map int [0 ..< length (calls_in sample_scope sample_branches)]"
    using parallel_calls_apart [OF sample_branches_reached] by blast+
  moreover have "length (calls_in sample_scope sample_branches) = 2"
    by (simp add: sample_branches_def calls_in_def Let_def scope_of_def sample_scope_def call_scope_def)
  ultimately show ?thesis by (simp add: numeral_2_eq_2)
qed

text \<open>
  A call that was numbered has nothing below it to reset: \<open>reset_for_call\<close> changes nothing.
\<close>
theorem reset_finds_nothing:
  assumes "branch_steps branches_start s" "br_tasks s t = Some b" "tk_doing b = Numbered x"
  shows "reset_for_call x (br_sequencer s) = (Inr (), br_sequencer s)"
proof -
  have "branches_inv s" by (rule branches_inv_steps [OF assms(1) branches_inv_start])
  then have "counting s" "task_ok s b" using assms(2) by (auto simp: branches_inv_def)
  then show ?thesis using reset_nothing [of s x] assms(3) by (simp add: task_ok_def)
qed

end
