(* ===== verification/Spec2Isabelle.thy ===== *)
theory Spec2Isabelle
  imports Sessions SqliteMigration FileMigration Serialization Exclusion Domains Immediate Opening
    Pruning Branches
begin

text \<open>
  A verification of glyff, a library for durable, resumable execution of Python functions
  (\<open>packages/glyff\<close>, \<open>glyff-file-store\<close>, \<open>glyff-sqlite\<close>, \<open>glyff-pydantic\<close>; file names below are
  relative to the package's source directory).

  \<^bold>\<open>The program.\<close> A \<open>Domain\<close> engraves an async function. Calling it inside a \<open>Session\<close> claims the
  domain's version for the session, derives an \<open>ExecutionId\<close> from the call stack, the domain, the
  name, the digest of the canonical arguments and an ordinal, and then either replays a recorded
  result or runs the body: the record is started and completed in transactions, a nested call
  has its own. A backend (in memory, one JSON file, SQLite) keeps the committed records; a stage
  holds what an open transaction has written. A migration rewrites a recorded session for a new
  version of a domain.

  \<^bold>\<open>Theories.\<close> Each theory names its sources in its own header; in the order of the imports:

  \<^item> \<open>Prelude\<close>, \<open>Exceptions\<close>: results as sums, dictionaries as association lists in insertion
    order; \<open>exceptions.py\<close> and the built-in exceptions, with \<open>except\<close> clauses as a test on the
    list of bases.
  \<^item> \<open>Text\<close>, \<open>Sha256\<close>, \<open>Floats\<close>, \<open>Json\<close>: the standard library the code relies on, executable: UTF-8,
    percent encoding, \<open>int\<close>, SHA-256, the shortest \<open>repr\<close> of a float, \<open>json.dumps\<close> and \<open>json.loads\<close>.
    The main lemma is that JSON text reads back.
  \<^item> \<open>Identity\<close> (\<open>_types/\<close>), \<open>Paths\<close> (\<open>store/utils.py\<close>): the value objects and the path of an
    identity: one path per identity, ancestors first in the order of paths, prefix = ancestor. The
    locale \<open>path_codec\<close> is what the stores use of it.
  \<^item> \<open>Canonical\<close> (\<open>_canonical_arguments.py\<close>), \<open>Ordering\<close>, \<open>Canonicalize\<close> (\<open>serialization/\<close>,
    \<open>glyff_pydantic\<close>): from Python values to canonical values to the bytes whose digest is in the
    key: what is accepted, that distinct values stay distinct, that recorded arguments
    canonicalize to themselves, that the iteration order of a set is invisible and where it is not.
  \<^item> \<open>Serialization\<close> (\<open>serialization/_json.py\<close>, \<open>_utils.py\<close>, \<open>glyff_pydantic\<close>): how results become
    bytes and come back; what a serializer raises; its cache of adapters.
  \<^item> \<open>Aggregate\<close> (\<open>_execution.py\<close>), \<open>Codec\<close> (\<open>store/aggregate_codec.py\<close>), \<open>Staging\<close>
    (\<open>store/staging.py\<close>): the record of one call and its lifecycle, its JSON form, the stage of an
    open transaction and its nesting.
  \<^item> \<open>Transactions\<close>: what the three backends share, and their contracts as locales;
    \<open>Memory\<close>, \<open>FileStore\<close>, \<open>SqliteStore\<close>: the backends, each interpreting every contract.
  \<^item> \<open>Workers\<close> (\<open>store/workers.py\<close>), \<open>Exclusion\<close> (the write primitive of \<open>_file_client.py\<close>): blocking
    work on threads, and concurrent, cancelled updates as an interleaving that refines the atomic
    updates every other theory uses. \<open>Immediate\<close> (\<open>_immediate_transaction\<close> and the blocks of
    \<open>_sqlite_client.py\<close> and \<open>_sqlite_migration.py\<close>) does the same for SQLite, statement by statement,
    with failing statements, commits and rollbacks and dying processes. Both are stated against the
    serial runs of \<open>Serial\<close>. \<open>Opening\<close>: the constructors of the SQLite backend and what they refuse.
  \<^item> \<open>Events\<close> (\<open>_event_system.py\<close>, \<open>events.py\<close>), \<open>Function\<close> (\<open>_function.py\<close>), \<open>Runtime\<close>
    (\<open>_sequencer.py\<close>, \<open>_domain_claims.py\<close>, \<open>_context.py\<close>, \<open>_session.py\<close>), \<open>Executor\<close>
    (\<open>_executor.py\<close>, the call wrapper of \<open>_domain.py\<close>), \<open>Domains\<close> (the rest of \<open>_domain.py\<close>): a
    program of the application is a value of the type \<open>prog\<close>; \<open>run_prog\<close> and \<open>call_n\<close> run it with a
    backend.
  \<^item> \<open>Resumption\<close>, \<open>Sessions\<close>: durable execution itself. \<open>pure_prog\<close> and \<open>pure_call\<close> are the
    specification, the program evaluated without any store; a session returns what they return,
    also when it resumes from the state of any commit of an earlier run. \<open>Pruning\<close>
    (\<open>testing/_pruning.py\<close>): also after the records below an execution were deleted.
  \<^item> \<open>Branches\<close>: parallel calls of one session, tasks with their own call stack on one sequencer,
    interleaved at every await: identities stay distinct and stacks stay lines of ancestors.
  \<^item> \<open>Migration\<close>, \<open>Transitions\<close> (\<open>migration/\<close>), \<open>StoreMigration\<close>, \<open>SqliteMigration\<close>, \<open>FileMigration\<close>:
    declaring transitions (an acyclic graph), rebuilding a session record by record against the
    reference \<open>moved_execution\<close>, running transitions along the path of versions, and replacing a
    stored session in one step.

  \<^bold>\<open>Interfaces.\<close> \<open>store_contract\<close> (reading and committing), its extensions \<open>listing_store\<close>,
  \<open>claiming_store\<close> and \<open>migrating_store\<close> are what the executor and the migrations need of a backend;
  they are interpreted as \<open>mem\<close>, \<open>fs\<close> and \<open>sq\<close> on the models of the code (\<open>migrating_store\<close> on the two
  that can migrate); \<open>pruning_store\<close> joins listing and claiming. A property of a backend is a lemma of the contract at its interpretation.

  \<^bold>\<open>State and loops.\<close> The code's objects are records with the code's fields, functions return the
  changed state, every exception is a value. \<open>call_n\<close> and \<open>pure_call\<close> are indexed by the depth of
  nested calls; a program that the reference finishes within some depth is finished by the session
  within the same depth, so the index is only how Python's own recursion is written down.
  \<open>rebuild_walk\<close> has fuel, one round per record and one more, which is proved to be enough. The retry loop
  of a replacement recurses over the code's list of delays. The
  field \<open>rt_commits\<close> of a running session, \<open>sx_log\<close> and \<open>sw_log\<close> of a shared store and \<open>br_calls\<close> of a
  session's tasks are not in the code: they record the committed states, the order of updates and
  the identities given, for the theorems. Ordinals, sequences and
  Python integers are unbounded in the code and in the model; SHA-256 works on 32-bit words.

  \<^bold>\<open>What is assumed, where it is assumed.\<close> \<open>python_value\<close> and \<open>float_ok\<close>: dictionaries have distinct
  keys, the \<open>repr\<close> of a float reads back. \<open>environment_ok\<close> and \<open>deterministic\<close>: what the library asks of
  an application, that its serializer returns what it was given, its functions depend on their
  arguments only. \<open>digests_faithful\<close>: two records of one session with one digest have the same
  arguments. The bodies of functions, event handlers, migrators, converters and pydantic's
  adapters are parameters. In the witnesses they are concrete.

  \<^bold>\<open>Not modelled.\<close> Messages and \<open>repr\<close> of exceptions and objects, logging, weak references. The outcome
  of concurrent branches of one function body (\<open>asyncio.gather\<close>): the executor is one task, concurrency
  is treated in \<open>Branches\<close>, \<open>Workers\<close>, \<open>Exclusion\<close> and \<open>Immediate\<close> and, for the stages, by operations
  that are atomic between two awaits. SQLite itself: tables are association lists, a query without
  \<open>ORDER BY\<close> answers in row order, a transaction that did not commit leaves nothing; pragmas are not
  there, and a statement a caller hands to \<open>execute\<close> or \<open>read_sql\<close> is a parameter. The
  file system: the document, its temporaries and refused replacements are the state of
  \<open>FileStore\<close>; the locks are in \<open>Exclusion\<close>. \<open>inspect\<close> is modelled by its documented binding rules,
  the evaluation of annotations is the application's. Circular references, the recursion limit and
  the limit on digits of an integer. An event handler that writes to the store, or calls engraved
  functions, while \<open>emit\<close> awaits it: in the executor a handler answers what it raises and leaves the state
  alone (\<open>en_handle\<close>); the one such handler the library ships has its own theory, \<open>Pruning\<close>. The end of
  the event loop, which cancels a worker's own future, and the steps of \<open>filelock\<close> when it releases a file.
  The abstract classes of \<open>_interfaces.py\<close> and
  \<open>migration/_interfaces.py\<close> have no code; the locales state what they promise. The backend
  contract tests of \<open>testing/\<close> and the packages' \<open>__init__\<close> files, which only re-export names.
\<close>

end
